(* ===== verification/Prelude.thy ===== *)
theory Prelude
  imports Main "HOL-Library.Word" "HOL-Library.Monad_Syntax"
begin

unbundle bit_operations_syntax

text \<open>
  The vocabulary every component shares.

  \<^item> The integer types of \<^verbatim>\<open>library/util.h\<close> (\<open>u8\<close> to \<open>u64\<close>) are words of the same
    width, so every \<open>+\<close>, \<open>-\<close> and \<open>*\<close> of the model wraps as in the C++ code.
  \<^item> A C++ call that does not come back (a failed \<open>assert\<close>, \<open>value()\<close> of an empty
    \<open>optional\<close> inside a \<open>noexcept\<close> function, an access outside a buffer, a loop that never
    ends) has the value \<open>None\<close>; a call that returns \<open>x\<close> has the value \<open>Some x\<close>. Failures the
    code reports to its caller (\<open>nullopt\<close>, \<open>false\<close>, an errno) are values inside \<open>x\<close>.
  \<^item> Objects in memory that the code reads through casted pointers (\<open>*(u32 *) p\<close>, the packed
    structs) are lists of bytes, in little-endian order as on the machines the driver is built
    for.
\<close>

type_synonym u8 = "8 word"
type_synonym u16 = "16 word"
type_synonym u32 = "32 word"
type_synonym u64 = "64 word"
type_synonym bytes = "u8 list"

named_theorems views \<comment> \<open>what an operation does to the sectors a device shows\<close>
named_theorems frames \<comment> \<open>fields an operation leaves alone\<close>

definition SECTOR_SIZE :: nat where
  "SECTOR_SIZE = 512"

section \<open>Guards\<close>

definition ensure :: "bool \<Rightarrow> unit option" where
  "ensure b = (if b then Some () else None)"

lemma ensure_simps [simp]: "ensure True = Some ()" "ensure False = None"
  by (simp_all add: ensure_def)

lemma ensure_eq_Some [simp]: "ensure b = Some u \<longleftrightarrow> b"
  by (simp add: ensure_def)

lemma ensure_bind_Some [simp]: "(ensure b \<bind> f) = Some x \<longleftrightarrow> b \<and> f () = Some x"
  by (simp add: ensure_def)

section \<open>Little-endian access to a buffer\<close>

definition get16 :: "bytes \<Rightarrow> nat \<Rightarrow> u16" where
  "get16 bs i = ucast (bs ! i) OR push_bit 8 (ucast (bs ! (i + 1)))"

definition get32 :: "bytes \<Rightarrow> nat \<Rightarrow> u32" where
  "get32 bs i = ucast (bs ! i) OR push_bit 8 (ucast (bs ! (i + 1)))
     OR push_bit 16 (ucast (bs ! (i + 2))) OR push_bit 24 (ucast (bs ! (i + 3)))"

definition bytes16 :: "u16 \<Rightarrow> bytes" where
  "bytes16 v = [ucast v, ucast (drop_bit 8 v)]"

definition bytes32 :: "u32 \<Rightarrow> bytes" where
  "bytes32 v = [ucast v, ucast (drop_bit 8 v), ucast (drop_bit 16 v), ucast (drop_bit 24 v)]"

text \<open>\<open>memcpy(dst + i, src, length src)\<close>; the destination keeps its length.\<close>

definition overwrite :: "'a list \<Rightarrow> nat \<Rightarrow> 'a list \<Rightarrow> 'a list" where
  "overwrite dst i src = take i dst @ src @ drop (i + length src) dst"

definition put32 :: "bytes \<Rightarrow> nat \<Rightarrow> u32 \<Rightarrow> bytes" where
  "put32 bs i v = overwrite bs i (bytes32 v)"

lemma length_overwrite [simp]:
  "i + length src \<le> length dst \<Longrightarrow> length (overwrite dst i src) = length dst"
  by (simp add: overwrite_def)

lemma nth_overwrite:
  assumes "i + length src \<le> length dst" and "j < length dst"
  shows "overwrite dst i src ! j =
    (if i \<le> j \<and> j < i + length src then src ! (j - i) else dst ! j)"
  using assms by (auto simp: overwrite_def nth_append min_def)

lemma overwrite_Nil [simp]: "overwrite dst i [] = dst"
  by (simp add: overwrite_def)

lemma take_overwrite: "i \<le> length dst \<Longrightarrow> take i (overwrite dst i src) = take i dst"
  by (simp add: overwrite_def)

lemma overwrite_slice:
  "i \<le> length dst \<Longrightarrow> take (length src) (drop i (overwrite dst i src)) = src"
  by (simp add: overwrite_def)

lemma bytes_lengths [simp]: "length (bytes16 v) = 2" "length (bytes32 w) = 4"
  by (simp_all add: bytes16_def bytes32_def)

lemma length_put32 [simp]: "i + 4 \<le> length bs \<Longrightarrow> length (put32 bs i v) = length bs"
  by (simp add: put32_def)

lemma u16_of_bytes:
  "ucast (ucast v :: u8) OR push_bit 8 (ucast (ucast (drop_bit 8 v) :: u8)) = (v :: u16)"
  by (rule bit_word_eqI) (auto simp: bit_simps)

lemma u32_of_bytes:
  "ucast (ucast v :: u8) OR push_bit 8 (ucast (ucast (drop_bit 8 v) :: u8))
     OR push_bit 16 (ucast (ucast (drop_bit 16 v) :: u8))
     OR push_bit 24 (ucast (ucast (drop_bit 24 v) :: u8)) = (v :: u32)" (is "?l = v")
proof (rule bit_word_eqI)
  fix n assume n: "n < LENGTH(32)"
  then consider "n < 8" | "8 \<le> n" "n < 16" | "16 \<le> n" "n < 24" | "24 \<le> n" "n < 32"
    by (fastforce simp: not_less)
  then show "bit ?l n = bit v n"
    by cases (auto simp: bit_simps)
qed

lemma get16_bytes16: "get16 (bytes16 v) 0 = v"
  by (simp add: get16_def bytes16_def u16_of_bytes)

lemma get32_bytes32: "get32 (bytes32 v) 0 = v"
  using u32_of_bytes [of v] by (simp add: get32_def bytes32_def numeral_2_eq_2 numeral_3_eq_3)

lemma get32_put32_same: "i + 4 \<le> length bs \<Longrightarrow> get32 (put32 bs i v) i = v"
  using get32_bytes32 [of v]
  by (simp add: get32_def put32_def nth_overwrite numeral_2_eq_2)

lemma get32_put32_other:
  assumes "i + 4 \<le> length bs" and "j + 4 \<le> length bs" and "j + 4 \<le> i \<or> i + 4 \<le> j"
  shows "get32 (put32 bs i v) j = get32 bs j"
  using assms by (auto simp: get32_def put32_def nth_overwrite)

lemma bytes16_get16: "bytes16 (get16 bs i) = [bs ! i, bs ! (i + 1)]"
proof -
  have "(ucast (get16 bs i) :: u8) = bs ! i"
    by (rule bit_word_eqI) (auto simp: get16_def bit_simps)
  moreover have "(ucast (drop_bit 8 (get16 bs i)) :: u8) = bs ! (i + 1)"
    by (rule bit_word_eqI) (auto simp: get16_def bit_simps dest: bit_imp_le_length)
  ultimately show ?thesis by (simp add: bytes16_def)
qed

lemma bytes32_get32:
  "bytes32 (get32 bs i) = [bs ! i, bs ! (i + 1), bs ! (i + 2), bs ! (i + 3)]"
proof -
  have "(ucast (get32 bs i) :: u8) = bs ! i"
    by (rule bit_word_eqI) (auto simp: get32_def bit_simps)
  moreover have "(ucast (drop_bit 8 (get32 bs i)) :: u8) = bs ! (i + 1)"
    by (rule bit_word_eqI) (auto simp: get32_def bit_simps dest: bit_imp_le_length)
  moreover have "(ucast (drop_bit 16 (get32 bs i)) :: u8) = bs ! (i + 2)"
    by (rule bit_word_eqI) (auto simp: get32_def bit_simps dest: bit_imp_le_length)
  moreover have "(ucast (drop_bit 24 (get32 bs i)) :: u8) = bs ! (i + 3)"
    by (rule bit_word_eqI) (auto simp: get32_def bit_simps dest: bit_imp_le_length)
  ultimately show ?thesis by (simp add: bytes32_def)
qed

section \<open>Words that do not wrap\<close>

lemma unat_plus: "unat x + unat y < 2 ^ LENGTH('a) \<Longrightarrow> unat (x + y) = unat x + unat y"
  for x y :: "'a::len word"
  by (simp add: unat_add_lem)

lemma unat_times: "unat x * unat y < 2 ^ LENGTH('a) \<Longrightarrow> unat (x * y) = unat x * unat y"
  for x y :: "'a::len word"
  by (simp add: unat_mult_lem)

lemma unat_plus1: "x < y \<Longrightarrow> unat (x + 1) = unat x + 1"
  for x y :: "'a::len word"
proof -
  assume "x < y"
  then have "unat x + 1 \<le> unat y" by (simp add: word_less_nat_alt)
  also have "unat y < 2 ^ LENGTH('a)" by (rule unsigned_less)
  finally show ?thesis by (intro trans [OF unat_plus]) simp_all
qed

lemma unat_ucast_up:
  "LENGTH('a) \<le> LENGTH('b) \<Longrightarrow> unat (ucast x :: 'b::len word) = unat x"
  for x :: "'a::len word"
  by (simp add: unsigned_ucast_eq take_bit_nat_eq_self unsigned_less
      order_less_le_trans [OF unsigned_less [where 'a = nat]])

lemma unat_of_nat_lt: "n < 2 ^ LENGTH('a) \<Longrightarrow> unat (word_of_nat n :: 'a::len word) = n"
  by (simp add: unat_of_nat)

lemma of_nat_unat: "word_of_nat (unat x) = x"
  by simp

end
