(* ===== verification/LruCache.thy ===== *)
theory LruCache
  imports Prelude "HOL-Library.AList"
begin

text \<open>
  \<^verbatim>\<open>util::LRUCacheMap\<close> of \<^verbatim>\<open>library/util.h\<close>: an \<open>unordered_map\<close> from keys to iterators into
  a \<open>list\<close> of key/value pairs, most recently used first. The list nodes carry a number that
  plays the part of the iterator: it names the node as long as the node is in the list,
  wherever \<open>splice\<close> moves it. An operation that ends the life of values in the container
  returns them, in the order their destructors run, because the values the driver stores
  (sectors, file objects) write themselves back when they die.

  The contract of the container is a recency list of at most \<open>max_size\<close> pairs
  (\<open>rl_put\<close>, \<open>rl_get\<close>, \<open>rl_remove\<close>); \<open>lru_view\<close> reads it off the concrete
  state, and the locale \<open>recency_map\<close> is the interface its clients use.
\<close>

section \<open>The code\<close>

record ('k, 'v) lru =
  max_size :: u32
  caches_map :: "('k \<times> nat) list"
  key_value_list :: "(nat \<times> 'k \<times> 'v) list"
  next_node :: nat

definition lru_new :: "u32 \<Rightarrow> ('k, 'v) lru" where
  "lru_new m = \<lparr>max_size = m, caches_map = [], key_value_list = [], next_node = 0\<rparr>"

text \<open>\<open>list::erase(it)\<close>, the node \<open>*it\<close>, and \<open>splice(begin, list, it)\<close>.\<close>

definition list_erase :: "nat \<Rightarrow> (nat \<times> 'k \<times> 'v) list \<Rightarrow> (nat \<times> 'k \<times> 'v) list" where
  "list_erase it xs = filter (\<lambda>p. fst p \<noteq> it) xs"

definition list_node :: "nat \<Rightarrow> (nat \<times> 'k \<times> 'v) list \<Rightarrow> ('k \<times> 'v) option" where
  "list_node it xs = map_of xs it"

definition lru_put ::
  "('k, 'v) lru \<Rightarrow> 'k \<Rightarrow> 'v \<Rightarrow> ('k, 'v) lru \<times> 'v list" where
  "lru_put c key v =
     (let (m, kvs, dead) =
        (case map_of (caches_map c) key of
           Some it \<Rightarrow>
             (AList.delete key (caches_map c), list_erase it (key_value_list c),
              (case list_node it (key_value_list c) of Some (_, old) \<Rightarrow> [old] | None \<Rightarrow> []))
         | None \<Rightarrow> (caches_map c, key_value_list c, []));
        kvs = (next_node c, key, v) # kvs;
        m = AList.update key (next_node c) m;
        c = c\<lparr>next_node := Suc (next_node c)\<rparr>
      in if length m > unat (max_size c)
         then (let (it, k, old) = last kvs in
                (c\<lparr>caches_map := AList.delete k m, key_value_list := butlast kvs\<rparr>, dead @ [old]))
         else (c\<lparr>caches_map := m, key_value_list := kvs\<rparr>, dead))"

definition lru_get :: "('k, 'v) lru \<Rightarrow> 'k \<Rightarrow> 'v option \<times> ('k, 'v) lru" where
  "lru_get c key =
     (case map_of (caches_map c) key of
        Some it \<Rightarrow>
          (case list_node it (key_value_list c) of
             Some (k, v) \<Rightarrow>
               (Some v, c\<lparr>key_value_list := (it, k, v) # list_erase it (key_value_list c)\<rparr>)
           | None \<Rightarrow> (None, c))
      | None \<Rightarrow> (None, c))"

definition lru_remove :: "('k, 'v) lru \<Rightarrow> 'k \<Rightarrow> 'v option \<times> ('k, 'v) lru" where
  "lru_remove c key =
     (case map_of (caches_map c) key of
        Some it \<Rightarrow>
          (map_option snd (list_node it (key_value_list c)),
           c\<lparr>caches_map := AList.delete key (caches_map c),
             key_value_list := list_erase it (key_value_list c)\<rparr>)
      | None \<Rightarrow> (None, c))"

definition lru_clear :: "('k, 'v) lru \<Rightarrow> ('k, 'v) lru \<times> 'v list" where
  "lru_clear c =
     (c\<lparr>caches_map := [], key_value_list := []\<rparr>, map (\<lambda>(it, k, v). v) (key_value_list c))"

definition lru_size :: "('k, 'v) lru \<Rightarrow> nat" where
  "lru_size c = length (key_value_list c)"

text \<open>\<open>begin()\<close> to \<open>end()\<close>: the pairs an iteration over the map visits, in order.\<close>

definition lru_items :: "('k, 'v) lru \<Rightarrow> ('k \<times> 'v) list" where
  "lru_items c = map snd (key_value_list c)"

text \<open>
  The values are \<open>shared_ptr\<close>s. A change made through a pointer a caller got from the map is
  seen by the next caller: the pointee stored under the key changes in place, and the order
  of the list does not.
\<close>

definition lru_pointee_update :: "('k, 'v) lru \<Rightarrow> 'k \<Rightarrow> 'v \<Rightarrow> ('k, 'v) lru" where
  "lru_pointee_update c key v =
     c\<lparr>key_value_list :=
        map (\<lambda>(it, k, w). (it, k, if k = key then v else w)) (key_value_list c)\<rparr>"

section \<open>The contract\<close>

type_synonym ('k, 'v) recency = "('k \<times> 'v) list"

definition rl_drop :: "'k \<Rightarrow> ('k, 'v) recency \<Rightarrow> ('k, 'v) recency" where
  "rl_drop key xs = filter (\<lambda>p. fst p \<noteq> key) xs"

definition rl_put :: "nat \<Rightarrow> 'k \<Rightarrow> 'v \<Rightarrow> ('k, 'v) recency \<Rightarrow> ('k, 'v) recency" where
  "rl_put m key v xs = take m ((key, v) # rl_drop key xs)"

definition rl_get :: "'k \<Rightarrow> ('k, 'v) recency \<Rightarrow> ('k, 'v) recency" where
  "rl_get key xs =
     (case map_of xs key of Some v \<Rightarrow> (key, v) # rl_drop key xs | None \<Rightarrow> xs)"

text \<open>What a put drops: the value it replaces, then the value that falls off the end.\<close>

definition rl_dead :: "nat \<Rightarrow> 'k \<Rightarrow> 'v \<Rightarrow> ('k, 'v) recency \<Rightarrow> 'v list" where
  "rl_dead m key v xs =
     (case map_of xs key of Some old \<Rightarrow> [old] | None \<Rightarrow> [])
       @ map snd (drop m ((key, v) # rl_drop key xs))"

definition lru_view :: "('k, 'v) lru \<Rightarrow> ('k, 'v) recency" where
  "lru_view c = map snd (key_value_list c)"

text \<open>
  \<open>lru_links\<close>: node numbers and keys are unique, and the hash map sends a key to the node
  that holds it. \<open>lru_inv\<close> adds the bound the container keeps.
\<close>

definition lru_links :: "('k, 'v) lru \<Rightarrow> bool" where
  "lru_links c \<longleftrightarrow>
     distinct (map fst (key_value_list c)) \<and>
     distinct (map fst (lru_view c)) \<and>
     distinct (map fst (caches_map c)) \<and>
     (\<forall>k it. (k, it) \<in> set (caches_map c) \<longleftrightarrow> (\<exists>v. (it, k, v) \<in> set (key_value_list c))) \<and>
     (\<forall>it \<in> set (map fst (key_value_list c)). it < next_node c)"

definition lru_inv :: "('k, 'v) lru \<Rightarrow> bool" where
  "lru_inv c \<longleftrightarrow> lru_links c \<and> length (key_value_list c) \<le> unat (max_size c)"


section \<open>Nodes, keys and iterators agree\<close>

lemma lru_linksD:
  assumes "lru_links c"
  shows "distinct (map fst (key_value_list c))" and "distinct (map fst (lru_view c))"
    and "distinct (map fst (caches_map c))"
    and "(k, it) \<in> set (caches_map c) \<longleftrightarrow> (\<exists>v. (it, k, v) \<in> set (key_value_list c))"
  using assms unfolding lru_links_def by auto

lemma lru_fresh: "lru_links c \<Longrightarrow> (it, p) \<in> set (key_value_list c) \<Longrightarrow> it < next_node c"
  unfolding lru_links_def by force

lemma lru_find:
  "lru_links c \<Longrightarrow>
    map_of (caches_map c) k = Some it \<longleftrightarrow> (\<exists>v. (it, k, v) \<in> set (key_value_list c))"
  using lru_linksD(3,4) by (metis map_of_eq_Some_iff)

lemma lru_node:
  "lru_links c \<Longrightarrow> list_node it (key_value_list c) = Some p \<longleftrightarrow> (it, p) \<in> set (key_value_list c)"
  using map_of_eq_Some_iff [OF lru_linksD(1)] by (simp add: list_node_def)

lemma lru_view_lookup:
  assumes "lru_links c"
  shows "map_of (lru_view c) k = Some v \<longleftrightarrow> (\<exists>it. (it, k, v) \<in> set (key_value_list c))"
proof -
  have "map_of (lru_view c) k = Some v \<longleftrightarrow> (k, v) \<in> set (lru_view c)"
    using lru_linksD(2) [OF assms] by simp
  then show ?thesis by (force simp: lru_view_def)
qed

lemma lru_same_node:
  assumes "lru_links c" and "(it, k, v) \<in> set (key_value_list c)"
    and "(it', k', v') \<in> set (key_value_list c)"
  shows "it = it' \<longleftrightarrow> k = k'"
proof
  assume "it = it'"
  with assms show "k = k'" using lru_linksD(1) [OF assms(1)] by (metis eq_key_imp_eq_value prod.inject)
next
  assume k: "k = k'"
  have "inj_on (fst \<circ> snd) (set (key_value_list c))"
    using lru_linksD(2) [OF assms(1)] by (simp add: lru_view_def distinct_map)
  from inj_onD [OF this _ assms(2,3)] k show "it = it'" by simp
qed

lemma map_snd_list_erase:
  assumes "lru_links c" and "(it, k, v) \<in> set (key_value_list c)"
  shows "map snd (list_erase it (key_value_list c)) = rl_drop k (lru_view c)"
proof -
  have "filter (\<lambda>p. fst p \<noteq> it) (key_value_list c)
      = filter (\<lambda>p. fst (snd p) \<noteq> k) (key_value_list c)"
    using lru_same_node [OF assms] by (intro filter_cong refl) (metis prod.collapse)
  then show ?thesis
    by (simp add: list_erase_def rl_drop_def lru_view_def filter_map o_def)
qed

lemma rl_drop_lookup: "map_of (rl_drop k xs) k' = (if k' = k then None else map_of xs k')"
  by (induction xs) (auto simp: rl_drop_def)

lemma rl_drop_absent: "map_of xs k = None \<Longrightarrow> rl_drop k xs = xs"
  by (auto simp: rl_drop_def map_of_eq_None_iff filter_id_conv)

lemma lru_length_map:
  assumes "lru_links c"
  shows "length (caches_map c) = length (key_value_list c)"
proof -
  have "inj_on (\<lambda>(it, k, v). (k, it)) (set (key_value_list c))"
    using lru_same_node [OF assms] lru_linksD(1) [OF assms]
    by (auto intro!: inj_onI dest: eq_key_imp_eq_value)
  moreover have "set (caches_map c) = (\<lambda>(it, k, v). (k, it)) ` set (key_value_list c)"
    using lru_linksD(4) [OF assms] by (force simp: image_iff)
  ultimately have "card (set (caches_map c)) = card (set (key_value_list c))"
    by (simp add: card_image)
  moreover have "card (set (caches_map c)) = length (caches_map c)"
    using lru_linksD(3) [OF assms] by (metis distinct_card distinct_map)
  moreover have "card (set (key_value_list c)) = length (key_value_list c)"
    using lru_linksD(1) [OF assms] by (metis distinct_card distinct_map)
  ultimately show ?thesis by simp
qed

section \<open>The operations refine the contract\<close>

lemma lru_new_inv: "lru_inv (lru_new m)"
  by (simp add: lru_inv_def lru_links_def lru_new_def lru_view_def)

lemma lru_new_view: "lru_view (lru_new m) = []"
  by (simp add: lru_new_def lru_view_def)

lemma lru_get_hit:
  assumes "lru_links c" and "(it, k, v) \<in> set (key_value_list c)"
  shows "lru_get c k = (Some v, c\<lparr>key_value_list := (it, k, v) # list_erase it (key_value_list c)\<rparr>)"
  using assms lru_find [OF assms(1), of k it] lru_node [OF assms(1), of it "(k, v)"]
  by (auto simp: lru_get_def)

lemma lru_get_miss:
  assumes "lru_links c" and "map_of (lru_view c) k = None"
  shows "lru_get c k = (None, c)"
proof (cases "map_of (caches_map c) k")
  case (Some it)
  then obtain v where "(it, k, v) \<in> set (key_value_list c)"
    using lru_find [OF assms(1)] by blast
  then have "map_of (lru_view c) k = Some v"
    using lru_view_lookup [OF assms(1)] by blast
  with assms(2) show ?thesis by simp
qed (simp add: lru_get_def)

lemma lru_get_fst:
  assumes "lru_links c"
  shows "fst (lru_get c k) = map_of (lru_view c) k"
proof (cases "map_of (lru_view c) k")
  case (Some v)
  then obtain it where "(it, k, v) \<in> set (key_value_list c)"
    using lru_view_lookup [OF assms] by blast
  then show ?thesis using Some lru_get_hit [OF assms] by simp
qed (simp add: lru_get_miss [OF assms])

lemma lru_get_view: "lru_links c \<Longrightarrow> lru_view (snd (lru_get c k)) = rl_get k (lru_view c)"
proof (cases "map_of (lru_view c) k")
  case (Some v)
  assume i: "lru_links c"
  with Some obtain it where n: "(it, k, v) \<in> set (key_value_list c)"
    by (auto simp: lru_view_lookup)
  show ?thesis
    using lru_get_hit [OF i n] map_snd_list_erase [OF i n] Some
    by (simp add: rl_get_def lru_view_def)
qed (simp add: lru_get_miss rl_get_def)

lemma lru_get_links: "lru_links c \<Longrightarrow> lru_links (snd (lru_get c k))"
proof (cases "map_of (lru_view c) k")
  case (Some v)
  assume i: "lru_links c"
  with Some obtain it where n: "(it, k, v) \<in> set (key_value_list c)"
    by (auto simp: lru_view_lookup)
  let ?l = "(it, k, v) # list_erase it (key_value_list c)"
  have sets: "set ?l = set (key_value_list c)"
    using n lru_linksD(1) [OF i] by (auto simp: list_erase_def dest: eq_key_imp_eq_value)
  have "distinct (map fst ?l)"
    using lru_linksD(1) [OF i] by (auto simp: list_erase_def distinct_map_filter)
  moreover have "distinct (map fst (map snd ?l))"
    using map_snd_list_erase [OF i n] lru_linksD(2) [OF i]
    by (auto simp: rl_drop_def distinct_map_filter)
  ultimately show ?thesis
    using lru_get_hit [OF i n] i unfolding lru_links_def set_map sets [symmetric]
    by (simp add: lru_view_def sets)
qed (simp add: lru_get_miss)

lemma length_rl_get: "distinct (map fst xs) \<Longrightarrow> length (rl_get k xs) = length xs"
proof (cases "map_of xs k")
  case (Some v)
  assume d: "distinct (map fst xs)"
  then have "distinct (map fst (rl_get k xs))" and "set (rl_get k xs) = set xs"
    using Some by (auto simp: rl_get_def rl_drop_def distinct_map_filter dest: map_of_SomeD
        eq_key_imp_eq_value)
  with d show ?thesis by (metis distinct_card distinct_map)
qed (simp add: rl_get_def)

lemma lru_get_inv: "lru_inv c \<Longrightarrow> lru_inv (snd (lru_get c k))"
proof -
  assume i: "lru_inv c"
  then have l: "lru_links c" by (simp add: lru_inv_def)
  have "length (key_value_list (snd (lru_get c k))) = length (lru_view (snd (lru_get c k)))"
    by (simp add: lru_view_def)
  also have "\<dots> = length (key_value_list c)"
    using length_rl_get [OF lru_linksD(2) [OF l]] lru_get_view [OF l] by (simp add: lru_view_def)
  finally show ?thesis
    using i lru_get_links [OF l] by (auto simp: lru_inv_def lru_get_def split: option.splits)
qed

lemma lru_remove_hit:
  assumes "lru_links c" and "(it, k, v) \<in> set (key_value_list c)"
  shows "lru_remove c k = (Some v, c\<lparr>caches_map := AList.delete k (caches_map c),
    key_value_list := list_erase it (key_value_list c)\<rparr>)"
  using assms lru_find [OF assms(1), of k it] lru_node [OF assms(1), of it "(k, v)"]
  by (auto simp: lru_remove_def)

lemma lru_remove_miss:
  assumes "lru_links c" and "map_of (lru_view c) k = None"
  shows "lru_remove c k = (None, c)"
proof (cases "map_of (caches_map c) k")
  case (Some it)
  then have "map_of (lru_view c) k \<noteq> None"
    using lru_find [OF assms(1)] lru_view_lookup [OF assms(1)] by (metis option.distinct(1))
  with assms(2) show ?thesis by simp
qed (simp add: lru_remove_def)

lemma lru_erased_links:
  assumes i: "lru_links c" and n: "(it, k, v) \<in> set (key_value_list c)"
  shows "lru_links (c\<lparr>caches_map := AList.delete k (caches_map c),
    key_value_list := list_erase it (key_value_list c)\<rparr>)"
proof -
  have member: "(it', k', v') \<in> set (list_erase it (key_value_list c))
      \<longleftrightarrow> (it', k', v') \<in> set (key_value_list c) \<and> k' \<noteq> k" for it' k' v'
    using lru_same_node [OF i n] by (auto simp: list_erase_def)
  have "distinct (map fst (map snd (list_erase it (key_value_list c))))"
    using map_snd_list_erase [OF i n] lru_linksD(2) [OF i]
    by (simp add: rl_drop_def distinct_map_filter)
  moreover have "(k', it') \<in> set (AList.delete k (caches_map c))
      \<longleftrightarrow> (\<exists>v'. (it', k', v') \<in> set (list_erase it (key_value_list c)))" for k' it'
    using lru_linksD(4) [OF i] by (auto simp: member AList.delete_eq)
  moreover have "\<forall>it' \<in> set (map fst (list_erase it (key_value_list c))). it' < next_node c"
    using i unfolding lru_links_def list_erase_def by auto
  ultimately show ?thesis
    using lru_linksD(1,3) [OF i] unfolding lru_links_def
    by (simp add: lru_view_def distinct_delete) (simp add: list_erase_def distinct_map_filter)
qed

lemma lru_remove_links: "lru_links c \<Longrightarrow> lru_links (snd (lru_remove c k))"
  using lru_remove_hit lru_remove_miss lru_erased_links lru_view_lookup
  by (cases "map_of (lru_view c) k") fastforce+

lemma lru_remove_view:
  assumes "lru_links c"
  shows "lru_view (snd (lru_remove c k)) = rl_drop k (lru_view c)"
proof (cases "map_of (lru_view c) k")
  case (Some v)
  then obtain it where n: "(it, k, v) \<in> set (key_value_list c)"
    using lru_view_lookup [OF assms] by blast
  show ?thesis
    using lru_remove_hit [OF assms n] map_snd_list_erase [OF assms n] by (simp add: lru_view_def)
qed (simp add: lru_remove_miss [OF assms] rl_drop_absent)

lemma lru_remove_inv:
  assumes "lru_inv c"
  shows "lru_inv (snd (lru_remove c k))"
proof -
  have "length (list_erase it (key_value_list c)) \<le> length (key_value_list c)" for it
    by (simp add: list_erase_def)
  then have "length (key_value_list (snd (lru_remove c k))) \<le> length (key_value_list c)"
    by (simp add: lru_remove_def split: option.splits)
  moreover have "max_size (snd (lru_remove c k)) = max_size c"
    by (simp add: lru_remove_def split: option.splits)
  ultimately show ?thesis
    using assms lru_remove_links [of c k] by (simp add: lru_inv_def)
qed

lemma lru_remove_fst:
  assumes "lru_links c"
  shows "fst (lru_remove c k) = map_of (lru_view c) k"
proof (cases "map_of (lru_view c) k")
  case (Some v)
  then obtain it where "(it, k, v) \<in> set (key_value_list c)"
    using lru_view_lookup [OF assms] by blast
  then show ?thesis using Some lru_remove_hit [OF assms] by simp
qed (simp add: lru_remove_miss [OF assms])

lemma lru_clear_props:
  "lru_inv (fst (lru_clear c))" "lru_view (fst (lru_clear c)) = []"
  "snd (lru_clear c) = map snd (lru_view c)"
  by (auto simp: lru_inv_def lru_links_def lru_clear_def lru_view_def)

subsection \<open>put: drop the key, push to the front, evict the oldest\<close>

definition lru_pushed :: "('k, 'v) lru \<Rightarrow> 'k \<Rightarrow> 'v \<Rightarrow> ('k, 'v) lru" where
  "lru_pushed c k v = c\<lparr>caches_map := AList.update k (next_node c) (caches_map c),
     key_value_list := (next_node c, k, v) # key_value_list c, next_node := Suc (next_node c)\<rparr>"

lemma update_absent: "k \<notin> fst ` set m \<Longrightarrow> AList.update k x m = m @ [(k, x)]"
  by (induction m) auto

lemma lru_absent_key:
  assumes "lru_links c" and "map_of (lru_view c) k = None"
  shows "k \<notin> fst ` set (caches_map c)" and "(it, k, v) \<notin> set (key_value_list c)"
  using assms lru_find [OF assms(1), of k] lru_view_lookup [OF assms(1), of k]
  by (metis map_of_eq_None_iff not_None_eq, metis option.distinct(1))

lemma lru_pushed_links:
  assumes i: "lru_links c" and k: "map_of (lru_view c) k = None"
  shows "lru_links (lru_pushed c k v)"
proof -
  have fresh: "(next_node c, p) \<notin> set (key_value_list c)" for p
    using lru_fresh [OF i] by blast
  have "k \<notin> fst ` snd ` set (key_value_list c)"
    using lru_absent_key(2) [OF i k] by force
  moreover have "next_node c \<notin> fst ` set (key_value_list c)"
    using fresh by force
  moreover have "(k', it') \<in> set (caches_map c @ [(k, next_node c)]) \<longleftrightarrow>
      (\<exists>v'. (it', k', v') \<in> set ((next_node c, k, v) # key_value_list c))" for k' it'
    using lru_linksD(4) [OF i] by auto
  moreover have "\<forall>it \<in> set (map fst ((next_node c, k, v) # key_value_list c)). it < Suc (next_node c)"
    using lru_fresh [OF i] by (fastforce simp: less_Suc_eq)
  ultimately show ?thesis
    using lru_linksD(1-3) [OF i] lru_absent_key(1) [OF i k]
    by (simp add: lru_links_def lru_pushed_def lru_view_def update_absent image_image)
qed

lemma butlast_distinct:
  "distinct (map fst xs) \<Longrightarrow> xs \<noteq> [] \<Longrightarrow> butlast xs = filter (\<lambda>p. fst p \<noteq> fst (last xs)) xs"
proof (induction xs rule: rev_induct)
  case (snoc x xs)
  from snoc.prems(1) have "fst x \<notin> fst ` set xs" by simp
  then have "\<forall>p \<in> set xs. fst p \<noteq> fst x" by (metis imageI)
  then have "filter (\<lambda>p. fst p \<noteq> fst x) xs = xs" by (simp add: filter_id_conv)
  then show ?case by simp
qed simp

lemma lru_put_unfold:
  fixes k :: 'k and v :: 'v
  assumes i: "lru_links c"
  defines "d \<equiv> lru_pushed (snd (lru_remove c k)) k v"
  defines "gone \<equiv> (case fst (lru_remove c k) of Some w \<Rightarrow> [w] | None \<Rightarrow> [])"
  shows "lru_put c k v =
    (if length (key_value_list d) > unat (max_size c)
     then (d\<lparr>caches_map := AList.delete (fst (snd (last (key_value_list d)))) (caches_map d),
             key_value_list := list_erase (fst (last (key_value_list d))) (key_value_list d)\<rparr>,
           gone @ [snd (snd (last (key_value_list d)))])
     else (d, gone))"
proof -
  let ?c1 = "snd (lru_remove c k)"
  have l1: "lru_links ?c1" using lru_remove_links [OF i] .
  have ab: "map_of (lru_view ?c1) k = None"
    by (simp add: lru_remove_view [OF i] rl_drop_lookup)
  have ld: "lru_links d" unfolding d_def by (rule lru_pushed_links [OF l1 ab])
  have ne: "key_value_list d \<noteq> []" by (simp add: d_def lru_pushed_def)
  have bl: "butlast (key_value_list d) = list_erase (fst (last (key_value_list d))) (key_value_list d)"
    using butlast_distinct [OF lru_linksD(1) [OF ld] ne] by (simp add: list_erase_def)
  have len: "length (caches_map d) = length (key_value_list d)" by (rule lru_length_map [OF ld])
  show ?thesis
  proof (cases "map_of (lru_view c) k")
    case None
    have "map_of (caches_map c) k = None"
      using lru_absent_key(1) [OF i None] by (simp add: map_of_eq_None_iff)
    then show ?thesis
      using len lru_remove_miss [OF i None] unfolding bl [symmetric] unfolding gone_def d_def
      by (simp add: lru_put_def lru_pushed_def case_prod_beta)
  next
    case (Some w)
    then obtain it where n: "(it, k, w) \<in> set (key_value_list c)"
      using lru_view_lookup [OF i] by blast
    then have "map_of (caches_map c) k = Some it" "list_node it (key_value_list c) = Some (k, w)"
      using lru_find [OF i] lru_node [OF i] by blast+
    then show ?thesis
      using len lru_remove_hit [OF i n] unfolding bl [symmetric] unfolding gone_def d_def
      by (simp add: lru_put_def lru_pushed_def case_prod_beta)
  qed
qed

lemma length_rl_drop: "length (rl_drop k xs) \<le> length xs"
  by (simp add: rl_drop_def)

lemma rl_put_full:
  assumes "length xs \<le> m" and "length ((k, v) # rl_drop k xs) > m"
  shows "take m ((k, v) # rl_drop k xs) = butlast ((k, v) # rl_drop k xs)"
    and "drop m ((k, v) # rl_drop k xs) = [last ((k, v) # rl_drop k xs)]"
proof -
  have len: "length ((k, v) # rl_drop k xs) = Suc m"
    using assms length_rl_drop [of k xs] by simp
  then show "take m ((k, v) # rl_drop k xs) = butlast ((k, v) # rl_drop k xs)"
    by (simp add: butlast_conv_take)
  show "drop m ((k, v) # rl_drop k xs) = [last ((k, v) # rl_drop k xs)]"
    using len by (metis Cons_nth_drop_Suc drop_all last_conv_nth diff_Suc_1 le_refl lessI
        length_0_conv nat.simps(3))
qed

lemma lru_put_correct:
  fixes k :: 'k and v :: 'v
  assumes "lru_inv c"
  shows "lru_view (fst (lru_put c k v)) = rl_put (unat (max_size c)) k v (lru_view c)"
    and "snd (lru_put c k v) = rl_dead (unat (max_size c)) k v (lru_view c)"
    and "lru_inv (fst (lru_put c k v))"
proof -
  let ?m = "unat (max_size c)" and ?xs = "lru_view c"
  have l: "lru_links c" and bound: "length ?xs \<le> ?m"
    using assms by (simp_all add: lru_inv_def lru_view_def)
  define d where "d = lru_pushed (snd (lru_remove c k)) k v"
  have ab: "map_of (lru_view (snd (lru_remove c k))) k = None"
    by (simp add: lru_remove_view [OF l] rl_drop_lookup)
  have ld: "lru_links d" unfolding d_def by (rule lru_pushed_links [OF lru_remove_links [OF l] ab])
  have vd: "lru_view d = (k, v) # rl_drop k ?xs"
    using lru_remove_view [OF l, of k] by (simp add: d_def lru_pushed_def lru_view_def)
  then have kd: "map snd (key_value_list d) = (k, v) # rl_drop k ?xs"
    by (simp add: lru_view_def)
  have len: "length (key_value_list d) = length ((k, v) # rl_drop k ?xs)"
    using kd by (metis length_map)
  have md: "max_size d = max_size c"
    by (simp add: d_def lru_pushed_def lru_remove_def split: option.splits)
  have ne: "key_value_list d \<noteq> []" using len by auto
  obtain it k1 old where lst: "last (key_value_list d) = (it, k1, old)" by (metis prod_cases3)
  have lst': "last ((k, v) # rl_drop k ?xs) = (k1, old)"
    using kd lst ne by (metis last_map snd_conv)
  have node: "(it, k1, old) \<in> set (key_value_list d)" using lst ne last_in_set by metis
  note unf = lru_put_unfold [OF l, of k v, folded d_def]
  have dead: "(case fst (lru_remove c k) of Some w \<Rightarrow> [w] | None \<Rightarrow> [])
      = (case map_of ?xs k of Some w \<Rightarrow> [w] | None \<Rightarrow> [])"
    by (simp add: lru_remove_fst [OF l])
  show "lru_view (fst (lru_put c k v)) = rl_put ?m k v ?xs"
  proof (cases "length (key_value_list d) > ?m")
    case True
    then have "lru_view (fst (lru_put c k v)) = map snd (list_erase it (key_value_list d))"
      by (simp add: unf lst lru_view_def)
    also have "list_erase it (key_value_list d) = butlast (key_value_list d)"
      using butlast_distinct [OF lru_linksD(1) [OF ld] ne] lst by (simp add: list_erase_def)
    finally show ?thesis
      using rl_put_full(1) [OF bound] True len kd by (simp add: rl_put_def map_butlast)
  next
    case False
    then show ?thesis using len vd by (simp add: unf rl_put_def)
  qed
  show "snd (lru_put c k v) = rl_dead ?m k v ?xs"
  proof (cases "length (key_value_list d) > ?m")
    case True
    then show ?thesis
      using rl_put_full(2) [OF bound, of k v] len lst' by (simp add: unf lst rl_dead_def dead)
  next
    case False
    then show ?thesis using len by (simp add: unf rl_dead_def dead)
  qed
  show "lru_inv (fst (lru_put c k v))"
  proof (cases "length (key_value_list d) > ?m")
    case True
    have "length (list_erase it (key_value_list d)) < length (key_value_list d)"
      using node unfolding list_erase_def by (auto intro: length_filter_less)
    then show ?thesis
      using True lru_erased_links [OF ld node] len bound length_rl_drop [of k ?xs]
      by (simp add: unf lst lru_inv_def md)
  next
    case False
    then show ?thesis using ld by (simp add: unf lru_inv_def md)
  qed
qed

lemma lru_max_size [frames]:
  "max_size (fst (lru_put c k v)) = max_size c" "max_size (snd (lru_get c k)) = max_size c"
  "max_size (snd (lru_remove c k)) = max_size c" "max_size (fst (lru_clear c)) = max_size c"
  "max_size (lru_pointee_update c k v) = max_size c"
  by (auto simp: lru_put_def lru_get_def lru_remove_def lru_clear_def lru_pointee_update_def
      Let_def split: option.splits prod.splits)

lemma lru_pointee_update_inv:
  assumes "lru_inv c"
  shows "lru_inv (lru_pointee_update c k v)"
proof -
  let ?f = "\<lambda>(it, k', w). (it, k', if k' = k then v else w)"
  define l where "l = map ?f (key_value_list c)"
  have "map fst l = map fst (key_value_list c)"
    and "map fst (map snd l) = map fst (map snd (key_value_list c))"
    by (simp_all add: l_def case_prod_beta)
  moreover have "(\<exists>w. (it, k', w) \<in> set l) \<longleftrightarrow> (\<exists>w. (it, k', w) \<in> set (key_value_list c))" for it k'
    unfolding l_def by force
  moreover have "lru_pointee_update c k v = c\<lparr>key_value_list := l\<rparr>" "length l = length (key_value_list c)"
    by (simp_all add: l_def lru_pointee_update_def)
  ultimately show ?thesis
    using assms unfolding lru_inv_def lru_links_def lru_view_def set_map [symmetric]
    by (simp del: set_map map_map)
qed

lemma lru_pointee_update_view:
  "lru_view (lru_pointee_update c k v) =
    map (\<lambda>(k', w). (k', if k' = k then v else w)) (lru_view c)"
  by (auto simp: lru_pointee_update_def lru_view_def)

section \<open>The interface\<close>

text \<open>
  What a client of the container may rely on, over the recency list it shows. The lemmas of
  the locale are the facts the sector cache and the file cache use.
\<close>

locale recency_map =
  fixes put :: "'c \<Rightarrow> 'k \<Rightarrow> 'v \<Rightarrow> 'c \<times> 'v list"
    and get :: "'c \<Rightarrow> 'k \<Rightarrow> 'v option \<times> 'c"
    and remove :: "'c \<Rightarrow> 'k \<Rightarrow> 'v option \<times> 'c"
    and clear :: "'c \<Rightarrow> 'c \<times> 'v list"
    and pointee :: "'c \<Rightarrow> 'k \<Rightarrow> 'v \<Rightarrow> 'c"
    and view :: "'c \<Rightarrow> ('k, 'v) recency"
    and cap :: "'c \<Rightarrow> nat"
    and inv :: "'c \<Rightarrow> bool"
  assumes view_distinct: "inv c \<Longrightarrow> distinct (map fst (view c))"
    and view_bound: "inv c \<Longrightarrow> length (view c) \<le> cap c"
    and put_view: "inv c \<Longrightarrow> view (fst (put c k v)) = rl_put (cap c) k v (view c)"
    and put_dead: "inv c \<Longrightarrow> snd (put c k v) = rl_dead (cap c) k v (view c)"
    and get_val: "inv c \<Longrightarrow> fst (get c k) = map_of (view c) k"
    and get_view: "inv c \<Longrightarrow> view (snd (get c k)) = rl_get k (view c)"
    and remove_val: "inv c \<Longrightarrow> fst (remove c k) = map_of (view c) k"
    and remove_view: "inv c \<Longrightarrow> view (snd (remove c k)) = rl_drop k (view c)"
    and clear_view: "view (fst (clear c)) = []"
    and clear_dead: "snd (clear c) = map snd (view c)"
    and pointee_view: "view (pointee c k v) = map (\<lambda>(k', w). (k', if k' = k then v else w)) (view c)"
    and inv_kept: "inv c \<Longrightarrow> inv (fst (put c k v))" "inv c \<Longrightarrow> inv (snd (get c k))"
      "inv c \<Longrightarrow> inv (snd (remove c k))" "inv (fst (clear c))" "inv c \<Longrightarrow> inv (pointee c k v)"
    and cap_kept: "cap (fst (put c k v)) = cap c" "cap (snd (get c k)) = cap c"
      "cap (snd (remove c k)) = cap c" "cap (fst (clear c)) = cap c" "cap (pointee c k v) = cap c"
begin

lemma get_lookup: "inv c \<Longrightarrow> map_of (view (snd (get c k))) k' = map_of (view c) k'"
  by (auto simp: get_view rl_get_def rl_drop_lookup split: option.split)

lemma put_front:
  assumes "inv c" and "0 < cap c"
  shows "\<exists>xs. view (fst (put c k v)) = (k, v) # xs"
  using assms by (cases "cap c") (auto simp: put_view rl_put_def)

lemma put_lookup_same: "inv c \<Longrightarrow> 0 < cap c \<Longrightarrow> map_of (view (fst (put c k v))) k = Some v"
  by (frule (1) put_front [where k = k and v = v]) auto

lemma put_lookup_other:
  assumes "inv c" and "k' \<noteq> k" and "map_of (view (fst (put c k v))) k' = Some w"
  shows "map_of (view c) k' = Some w"
proof -
  have d: "distinct (map fst ((k, v) # rl_drop k (view c)))"
    using view_distinct [OF assms(1)] by (auto simp: rl_drop_def distinct_map_filter)
  have "(k', w) \<in> set ((k, v) # rl_drop k (view c))"
    using assms(3) map_of_SomeD set_take_subset
    by (fastforce simp: put_view [OF assms(1)] rl_put_def)
  then show ?thesis
    using d assms(2) by (metis map_of_is_SomeI map_of.simps(2) rl_drop_lookup fst_conv fun_upd_other)
qed

lemma put_evicts:
  assumes "inv c" and "map_of (view c) k = None"
  shows "(k, v) # view c = view (fst (put c k v)) @ drop (cap c) ((k, v) # view c)"
    and "snd (put c k v) = map snd (drop (cap c) ((k, v) # view c))"
  using assms
  by (simp_all add: put_view put_dead rl_put_def rl_dead_def rl_drop_absent del: drop_Cons')

lemma pointee_lookup:
  "map_of (view (pointee c k v)) k' =
    (if k' = k then map_option (\<lambda>_. v) (map_of (view c) k) else map_of (view c) k')"
proof -
  have "map_of (map (\<lambda>(k', w). (k', if k' = k then v else w)) xs) k' =
    (if k' = k then map_option (\<lambda>_. v) (map_of xs k) else map_of xs k')" for xs
    by (induction xs) auto
  then show ?thesis by (simp add: pointee_view)
qed

end

interpretation lru: recency_map lru_put lru_get lru_remove lru_clear lru_pointee_update
    lru_view "\<lambda>c. unat (max_size c)" lru_inv
proof unfold_locales
  fix c :: "('k, 'v) lru" and k v
  assume i: "lru_inv c"
  then have l: "lru_links c" by (simp add: lru_inv_def)
  show "distinct (map fst (lru_view c))" "length (lru_view c) \<le> unat (max_size c)"
    using i lru_linksD(2) [OF l] by (simp_all add: lru_inv_def lru_view_def)
  show "fst (lru_get c k) = map_of (lru_view c) k" "lru_view (snd (lru_get c k)) = rl_get k (lru_view c)"
    "fst (lru_remove c k) = map_of (lru_view c) k"
    "lru_view (snd (lru_remove c k)) = rl_drop k (lru_view c)"
    by (rule lru_get_fst [OF l] lru_get_view [OF l] lru_remove_fst [OF l] lru_remove_view [OF l])+
qed (auto simp: lru_put_correct lru_get_inv lru_remove_inv lru_clear_props lru_pointee_update_inv
      lru_pointee_update_view frames)

section \<open>Histories of a container\<close>

datatype ('k, 'v) lru_op = Put 'k 'v | Get 'k | Remove 'k | Clear

fun lru_step :: "('k, 'v) lru \<Rightarrow> ('k, 'v) lru_op \<Rightarrow> 'v list \<times> ('k, 'v) lru" where
  "lru_step c (Put k v) = (let (c', dead) = lru_put c k v in (dead, c'))"
| "lru_step c (Get k) = (let (r, c') = lru_get c k in ((case r of Some v \<Rightarrow> [v] | None \<Rightarrow> []), c'))"
| "lru_step c (Remove k) = (let (r, c') = lru_remove c k in ((case r of Some v \<Rightarrow> [v] | None \<Rightarrow> []), c'))"
| "lru_step c Clear = (let (c', dead) = lru_clear c in (dead, c'))"

fun lru_run :: "('k, 'v) lru \<Rightarrow> ('k, 'v) lru_op list \<Rightarrow> 'v list list \<times> ('k, 'v) lru" where
  "lru_run c [] = ([], c)"
| "lru_run c (x # xs) =
     (let (out, c') = lru_step c x; (outs, c'') = lru_run c' xs in (out # outs, c''))"

text \<open>The same history on the bounded recency list.\<close>

fun rl_step :: "nat \<Rightarrow> ('k, 'v) recency \<Rightarrow> ('k, 'v) lru_op \<Rightarrow> 'v list \<times> ('k, 'v) recency" where
  "rl_step m xs (Put k v) = (rl_dead m k v xs, rl_put m k v xs)"
| "rl_step m xs (Get k) = ((case map_of xs k of Some v \<Rightarrow> [v] | None \<Rightarrow> []), rl_get k xs)"
| "rl_step m xs (Remove k) = ((case map_of xs k of Some v \<Rightarrow> [v] | None \<Rightarrow> []), rl_drop k xs)"
| "rl_step m xs Clear = (map snd xs, [])"

fun rl_run :: "nat \<Rightarrow> ('k, 'v) recency \<Rightarrow> ('k, 'v) lru_op list \<Rightarrow> 'v list list \<times> ('k, 'v) recency" where
  "rl_run m xs [] = ([], xs)"
| "rl_run m xs (x # ops) =
     (let (out, ys) = rl_step m xs x; (outs, zs) = rl_run m ys ops in (out # outs, zs))"

lemma lru_step_refines:
  assumes "lru_inv c"
  shows "rl_step (unat (max_size c)) (lru_view c) x = (fst (lru_step c x), lru_view (snd (lru_step c x)))"
    and "lru_inv (snd (lru_step c x))" and "max_size (snd (lru_step c x)) = max_size c"
  by (cases x; simp add: case_prod_beta lru.put_view lru.put_dead lru.get_val lru.get_view lru.remove_val
      lru.remove_view lru.clear_view lru.clear_dead lru.inv_kept frames assms)+

lemma lru_run_refines:
  "lru_inv c \<Longrightarrow> rl_run (unat (max_size c)) (lru_view c) ops = (fst (lru_run c ops), lru_view (snd (lru_run c ops)))
    \<and> lru_inv (snd (lru_run c ops)) \<and> max_size (snd (lru_run c ops)) = max_size c"
proof (induction ops arbitrary: c)
  case (Cons x ops)
  note st = lru_step_refines [OF Cons.prems, of x]
  show ?case using Cons.IH [OF st(2)] st by (simp add: case_prod_beta)
qed simp

text \<open>C29: Whatever sequence of put, get, remove and clear runs on a fresh \<open>LRUCacheMap\<close>, every
  result it returns and every value it destroys, and the order of the pairs an iteration shows
  afterwards, are those of the bounded recency list.\<close>

theorem lru_history_refines_recency_list:
  "rl_run (unat m) [] ops = (fst (lru_run (lru_new m) ops), lru_items (snd (lru_run (lru_new m) ops)))"
  using lru_run_refines [OF lru_new_inv, of m ops]
  by (simp add: lru_new_def lru_items_def lru_view_def)

definition lru_after :: "u32 \<Rightarrow> ('k, 'v) lru_op list \<Rightarrow> ('k, 'v) lru" where
  "lru_after m ops = snd (lru_run (lru_new m) ops)"

text \<open>C30: After any history the container holds at most \<open>max_size\<close> pairs with distinct keys,
  and the hash map has one entry for each of them: the entry of a key is the list node that
  holds the key.\<close>

theorem lru_history_bounded_and_linked:
  "lru_size (lru_after m ops) \<le> unat m \<and> distinct (map fst (lru_items (lru_after m ops)))
    \<and> length (caches_map (lru_after m ops)) = lru_size (lru_after m ops)
    \<and> (map_of (caches_map (lru_after m ops)) k = Some it
        \<longleftrightarrow> (\<exists>v. (it, k, v) \<in> set (key_value_list (lru_after m ops))))"
proof -
  have "lru_inv (lru_after m ops)" "max_size (lru_after m ops) = m"
    using lru_run_refines [OF lru_new_inv, of m ops] by (simp_all add: lru_after_def lru_new_def)
  then have l: "lru_links (lru_after m ops)" and "lru_size (lru_after m ops) \<le> unat m"
    by (simp_all add: lru_inv_def lru_size_def)
  then show ?thesis
    using lru_linksD(2) [OF l] lru_length_map [OF l] lru_find [OF l, of k it]
    by (simp add: lru_size_def lru_items_def lru_view_def)
qed

abbreviation put_all :: "('k \<times> 'v) list \<Rightarrow> ('k, 'v) lru_op list" where
  "put_all ps \<equiv> map (\<lambda>p. Put (fst p) (snd p)) ps"

lemma put_all_keeps:
  assumes "lru_inv d" and "max_size d = m" and "lru_view d = xs @ (k, v) # ys"
    and "k \<notin> fst ` set xs" and "k \<notin> fst ` set qs" and "length xs + length qs < unat m"
  shows "\<exists>us vs. lru_view (snd (lru_run d (put_all qs))) = us @ (k, v) # vs \<and> k \<notin> fst ` set us"
  using assms
proof (induction qs arbitrary: d xs ys)
  case (Cons q qs)
  obtain k' w where q: "q = (k', w)" by (metis surj_pair)
  have ne: "k' \<noteq> k" using Cons.prems(5) q by auto
  let ?d = "fst (lru_put d k' w)" and ?xs = "(k', w) # rl_drop k' xs"
  have len: "length ?xs \<le> Suc (length xs)" using length_rl_drop [of k' xs] by simp
  have "length ?xs < unat m" using len Cons.prems(6) by simp
  then obtain j where j: "unat m = length ?xs + Suc j" by (metis less_imp_Suc_add add_Suc_right)
  have "lru_view ?d = take (unat m) (?xs @ (k, v) # rl_drop k' ys)"
    using ne Cons.prems(2,3) lru.put_view [OF Cons.prems(1), of k' w]
    by (simp add: rl_put_def rl_drop_def)
  also have "\<dots> = ?xs @ (k, v) # take j (rl_drop k' ys)" unfolding j take_append by simp
  finally have view: "lru_view ?d = ?xs @ (k, v) # take j (rl_drop k' ys)" .
  have "k \<notin> fst ` set ?xs" using ne Cons.prems(4) by (auto simp: rl_drop_def)
  moreover have "length ?xs + length qs < unat m" using len Cons.prems(6) by simp
  ultimately have "\<exists>us vs. lru_view (snd (lru_run ?d (put_all qs))) = us @ (k, v) # vs \<and> k \<notin> fst ` set us"
    using Cons.prems(1,2,5) by (intro Cons.IH [OF _ _ view]) (auto simp: lru.inv_kept frames)
  then show ?case by (simp add: q case_prod_beta)
qed auto

text \<open>A value just put is found again, and it stays the value \<open>get\<close> returns while fewer than
  \<open>max_size\<close> other keys are put: eviction takes the least recently used pair only.\<close>

lemma lru_put_then_get:
  assumes "lru_inv c" and "k \<notin> fst ` set ps" and "length ps < unat (max_size c)"
  shows "fst (lru_get (snd (lru_run (fst (lru_put c k v)) (map (\<lambda>p. Put (fst p) (snd p)) ps))) k) = Some v"
proof -
  let ?c = "fst (lru_put c k v)"
  obtain ys where "lru_view ?c = [] @ (k, v) # ys"
    using lru.put_front [OF assms(1), of k v] assms(3) by auto
  then obtain us vs where v: "lru_view (snd (lru_run ?c (put_all ps))) = us @ (k, v) # vs" "k \<notin> fst ` set us"
    using put_all_keeps [of ?c "max_size c" "[]" k v ys ps] assms lru.inv_kept(1) [OF assms(1)]
    by (auto simp: frames)
  moreover have "lru_inv (snd (lru_run ?c (put_all ps)))"
    using lru_run_refines lru.inv_kept(1) [OF assms(1)] by blast
  ultimately show ?thesis
    using map_of_eq_None_iff [of us k] by (simp add: lru.get_val map_add_def)
qed

lemma lru_put_then_get_example:
  "fst (lru_get (snd (lru_run (fst (lru_put (lru_new 3 :: (nat, nat) lru) 7 70))
     [Put 1 10, Put 2 20])) 7) = Some 70"
  using lru_put_then_get [of "lru_new 3 :: (nat, nat) lru" 7 "[(1, 10), (2, 20)]" 70, OF lru_new_inv]
  by (simp add: lru_new_def)

end
