(* ===== verification/Device.thy ===== *)
theory Device
  imports LruCache
begin

text \<open>
  \<^verbatim>\<open>library/device.h\<close> and \<^verbatim>\<open>library/device.cpp\<close>: sectors, the abstract class \<open>Device\<close>, the
  driver for an image file (\<open>LinuxFileDriver\<close>) and the sector cache (\<open>CacheManager\<close>).

  The virtual methods of \<open>Device\<close> are the record \<open>device_ops\<close>; code that holds a
  \<open>shared_ptr<Device>\<close> takes it as an argument. \<open>readSector\<close> hands out a \<open>shared_ptr<Sector>\<close>:
  the model gives the caller the \<open>sector\<close> object, and \<open>d_release\<close> is the end of the
  caller's handle, with the object as the caller left it. For a driver without a cache that
  is the destructor, which writes a dirty sector back; for the cache the object lives on in
  the cache. Every caller in the driver drops its handle before it reads another sector, or
  keeps it while the cache still holds the object.

  \<^verbatim>\<open>Sector::modify_device\<close> assigns \<^emph>\<open>through\<close> the reference member \<open>device_\<close>. \<open>Device\<close> has no
  data members, so the assignment changes nothing and a sector goes on writing to the device
  that created it. \<open>CacheManager::writeSectorValue\<close> forwards to that same device, so the
  sector's bytes go to the same place either way; the model writes them to the inner device.
\<close>

section \<open>Sectors\<close>

record sector =
  sec_num :: u32
  sec_sz :: u32
  sec_value :: bytes
  dirty :: bool

definition Sector_new :: "u32 \<Rightarrow> u32 \<Rightarrow> sector" where
  "Sector_new n sz = \<lparr>sec_num = n, sec_sz = sz, sec_value = replicate (unat sz) 0, dirty = False\<rparr>"

definition mark_dirty :: "sector \<Rightarrow> sector" where
  "mark_dirty s = s\<lparr>dirty := True\<rparr>"

text \<open>A pointer into the buffer is what can be read through it: the bytes from its offset on.\<close>

definition read_ptr :: "sector \<Rightarrow> u32 \<Rightarrow> bytes option" where
  "read_ptr s off = do { ensure (off < sec_sz s); Some (drop (unat off) (sec_value s)) }"

definition write_ptr :: "sector \<Rightarrow> u32 \<Rightarrow> (bytes \<times> sector) option" where
  "write_ptr s off =
     do { ensure (off < sec_sz s); Some (drop (unat off) (sec_value s), s\<lparr>dirty := True\<rparr>) }"

text \<open>The buffer after the bytes behind a pointer at \<open>off\<close> have become \<open>p\<close>.\<close>

definition store_back :: "sector \<Rightarrow> u32 \<Rightarrow> bytes \<Rightarrow> sector" where
  "store_back s off p = s\<lparr>sec_value := take (unat off) (sec_value s) @ p\<rparr>"

text \<open>\<open>sync\<close> and the destructor, over \<open>device_.writeSectorValue\<close>.\<close>

definition Sector_sync ::
  "('d \<Rightarrow> u32 \<Rightarrow> bytes \<Rightarrow> (bool \<times> 'd) option) \<Rightarrow> 'd \<Rightarrow> sector \<Rightarrow> ('d \<times> sector) option" where
  "Sector_sync wr d s =
     (if dirty s then do { (_, d') \<leftarrow> wr d (sec_num s) (sec_value s); Some (d', s\<lparr>dirty := False\<rparr>) }
      else Some (d, s))"

definition Sector_destroy ::
  "('d \<Rightarrow> u32 \<Rightarrow> bytes \<Rightarrow> (bool \<times> 'd) option) \<Rightarrow> 'd \<Rightarrow> sector \<Rightarrow> 'd option" where
  "Sector_destroy wr d s = do { (d', _) \<leftarrow> Sector_sync wr d s; Some d' }"

section \<open>The class Device\<close>

record 'd device_ops =
  d_readSector :: "'d \<Rightarrow> u32 \<Rightarrow> (sector option \<times> 'd) option"
  d_writeSectorValue :: "'d \<Rightarrow> u32 \<Rightarrow> bytes \<Rightarrow> (bool \<times> 'd) option"
  d_clear :: "'d \<Rightarrow> 'd option"
  d_release :: "'d \<Rightarrow> sector \<Rightarrow> 'd option"

text \<open>
  The two ways callers use a sector: read behind \<open>readSector(n).value()->read_ptr(off)\<close>, and
  change what is behind \<open>readSector(n).value()->write_ptr(off)\<close>.
\<close>

definition dev_load :: "'d device_ops \<Rightarrow> 'd \<Rightarrow> u32 \<Rightarrow> u32 \<Rightarrow> (bytes \<times> 'd) option" where
  "dev_load D d n off =
     do { (r, d1) \<leftarrow> d_readSector D d n;
          s \<leftarrow> r;
          p \<leftarrow> read_ptr s off;
          d2 \<leftarrow> d_release D d1 s;
          Some (p, d2) }"

definition dev_modify ::
  "'d device_ops \<Rightarrow> 'd \<Rightarrow> u32 \<Rightarrow> u32 \<Rightarrow> (bytes \<Rightarrow> bytes option) \<Rightarrow> 'd option" where
  "dev_modify D d n off f =
     do { (r, d1) \<leftarrow> d_readSector D d n;
          s \<leftarrow> r;
          (p, s1) \<leftarrow> write_ptr s off;
          p' \<leftarrow> f p;
          d_release D d1 (store_back s1 off p') }"

text \<open>\<open>readSector(n).value()->sync()\<close>.\<close>

definition dev_sync :: "'d device_ops \<Rightarrow> 'd \<Rightarrow> u32 \<Rightarrow> 'd option" where
  "dev_sync D d n =
     do { (r, d1) \<leftarrow> d_readSector D d n;
          s \<leftarrow> r;
          (d2, s1) \<leftarrow> Sector_sync (d_writeSectorValue D) d1 s;
          d_release D d2 s1 }"

section \<open>LinuxFileDriver\<close>

text \<open>
  The image is a regular file: \<open>file_len\<close> bytes, \<open>file_data i\<close> at offset \<open>i\<close>. \<open>read\<close> returns
  what is left of the file, up to the size asked for; \<open>write\<close> past the end makes it longer.
  \<open>open\<close>, \<open>lseek\<close> and \<open>close\<close> succeed. The byte offsets are computed in \<open>u32\<close>.
\<close>

record lfd =
  device_sz :: u64
  lfd_sec_sz :: u32
  file_len :: nat
  file_data :: "nat \<Rightarrow> u8"

definition LinuxFileDriver_new :: "nat \<Rightarrow> (nat \<Rightarrow> u8) \<Rightarrow> u32 \<Rightarrow> lfd" where
  "LinuxFileDriver_new len bytes sz =
     \<lparr>device_sz = of_nat len, lfd_sec_sz = sz, file_len = len, file_data = bytes\<rparr>"

definition lfd_readSector :: "lfd \<Rightarrow> u32 \<Rightarrow> (sector option \<times> lfd) option" where
  "lfd_readSector d n =
     (if ucast ((n + 1) * lfd_sec_sz d) > device_sz d then Some (None, d)
      else let offset = unat (n * lfd_sec_sz d);
               sector = Sector_new n (lfd_sec_sz d);
               cnt = min (unat (lfd_sec_sz d)) (file_len d - offset)
        in do { _ \<leftarrow> read_ptr sector 0;
                ensure (cnt = unat (lfd_sec_sz d));
                Some (Some (sector\<lparr>sec_value := map (file_data d) [offset..<offset + cnt]\<rparr>), d) })"

definition file_write :: "lfd \<Rightarrow> nat \<Rightarrow> bytes \<Rightarrow> lfd" where
  "file_write d off bs =
     d\<lparr>file_len := max (file_len d) (off + length bs),
       file_data := (\<lambda>i. if off \<le> i \<and> i < off + length bs then bs ! (i - off)
         else if file_len d \<le> i \<and> i < off then 0 else file_data d i)\<rparr>"

definition lfd_writeSectorValue :: "lfd \<Rightarrow> u32 \<Rightarrow> bytes \<Rightarrow> (bool \<times> lfd) option" where
  "lfd_writeSectorValue d n buf =
     (if ucast ((n + 1) * lfd_sec_sz d) > device_sz d then Some (False, d)
      else do { ensure (unat (lfd_sec_sz d) \<le> length buf);
                Some (True, file_write d (unat (n * lfd_sec_sz d)) (take (unat (lfd_sec_sz d)) buf)) })"

definition lfd_ops :: "lfd device_ops" where
  "lfd_ops = \<lparr>d_readSector = lfd_readSector, d_writeSectorValue = lfd_writeSectorValue,
     d_clear = Some, d_release = Sector_destroy lfd_writeSectorValue\<rparr>"

section \<open>CacheManager\<close>

record 'd cache_mgr =
  inner_device :: 'd
  sector_cache :: "(u32, sector) lru"

definition CacheManager_new :: "'d \<Rightarrow> u32 \<Rightarrow> 'd cache_mgr" where
  "CacheManager_new d cache_sz = \<lparr>inner_device = d, sector_cache = lru_new cache_sz\<rparr>"

text \<open>The sectors whose last reference is gone, in the order they die.\<close>

fun release_all :: "'d device_ops \<Rightarrow> 'd \<Rightarrow> sector list \<Rightarrow> 'd option" where
  "release_all D d [] = Some d"
| "release_all D d (s # ss) = do { d' \<leftarrow> d_release D d s; release_all D d' ss }"

text \<open>
  A sector that \<open>put\<close> pushes out of the cache dies, unless it is the one just read, which the
  caller still holds.
\<close>

definition cm_readSector ::
  "'d device_ops \<Rightarrow> 'd cache_mgr \<Rightarrow> u32 \<Rightarrow> (sector option \<times> 'd cache_mgr) option" where
  "cm_readSector D c n =
     (case lru_get (sector_cache c) n of
        (Some s, cache) \<Rightarrow> Some (Some s, c\<lparr>sector_cache := cache\<rparr>)
      | (None, cache) \<Rightarrow>
          do { (result, inner) \<leftarrow> d_readSector D (inner_device c) n;
               case result of
                 None \<Rightarrow> Some (None, c\<lparr>inner_device := inner, sector_cache := cache\<rparr>)
               | Some s \<Rightarrow>
                   (let (cache', dead) = lru_put cache n s in
                    do { inner' \<leftarrow> release_all D inner (filter (\<lambda>t. sec_num t \<noteq> n) dead);
                         Some (Some s, c\<lparr>inner_device := inner', sector_cache := cache'\<rparr>) }) })"

definition cm_writeSectorValue ::
  "'d device_ops \<Rightarrow> 'd cache_mgr \<Rightarrow> u32 \<Rightarrow> bytes \<Rightarrow> (bool \<times> 'd cache_mgr) option" where
  "cm_writeSectorValue D c n buf =
     do { (ok, inner) \<leftarrow> d_writeSectorValue D (inner_device c) n buf;
          Some (ok, c\<lparr>inner_device := inner\<rparr>) }"

definition cm_clear :: "'d device_ops \<Rightarrow> 'd cache_mgr \<Rightarrow> 'd cache_mgr option" where
  "cm_clear D c =
     (let (cache, dead) = lru_clear (sector_cache c) in
      do { inner \<leftarrow> release_all D (inner_device c) dead;
           inner' \<leftarrow> d_clear D inner;
           Some (c\<lparr>inner_device := inner', sector_cache := cache\<rparr>) })"

definition cm_contains :: "'d cache_mgr \<Rightarrow> u32 \<Rightarrow> bool \<times> 'd cache_mgr" where
  "cm_contains c n =
     (let (r, cache) = lru_get (sector_cache c) n in (r \<noteq> None, c\<lparr>sector_cache := cache\<rparr>))"

text \<open>
  The end of a caller's handle. While the cache holds the object too, it keeps it, changes
  included; otherwise the handle was the last reference.
\<close>

definition cm_release ::
  "'d device_ops \<Rightarrow> 'd cache_mgr \<Rightarrow> sector \<Rightarrow> 'd cache_mgr option" where
  "cm_release D c s =
     (case map_of (lru_items (sector_cache c)) (sec_num s) of
        Some _ \<Rightarrow> Some (c\<lparr>sector_cache := lru_pointee_update (sector_cache c) (sec_num s) s\<rparr>)
      | None \<Rightarrow> do { inner \<leftarrow> d_release D (inner_device c) s; Some (c\<lparr>inner_device := inner\<rparr>) })"

definition cm_ops :: "'d device_ops \<Rightarrow> 'd cache_mgr device_ops" where
  "cm_ops D = \<lparr>d_readSector = cm_readSector D, d_writeSectorValue = cm_writeSectorValue D,
     d_clear = cm_clear D, d_release = cm_release D\<rparr>"


section \<open>The interfaces\<close>

text \<open>
  \<open>view d n\<close> is the content of sector \<open>n\<close> that a reader of the device sees, \<open>None\<close> for
  sectors outside the device. \<open>block_device\<close> is what the FAT and the file layer rely on: a
  sector can be read, what the reader gets is the view, and what a writer leaves in the object
  becomes the view of exactly that sector.
\<close>

definition kept :: "sector \<Rightarrow> sector \<Rightarrow> bool" where
  "kept s t \<longleftrightarrow> sec_num t = sec_num s \<and> sec_sz t = sec_sz s \<and> length (sec_value t) = SECTOR_SIZE \<and>
     (dirty t \<or> sec_value t = sec_value s \<and> dirty t = dirty s)"

locale block_device =
  fixes D :: "'d device_ops"
    and good :: "'d \<Rightarrow> bool"
    and view :: "'d \<Rightarrow> u32 \<Rightarrow> bytes option"
  assumes view_length: "good d \<Longrightarrow> view d n = Some bs \<Longrightarrow> length bs = SECTOR_SIZE"
    and use_sector: "good d \<Longrightarrow> view d n = Some bs \<Longrightarrow>
      \<exists>s d1. d_readSector D d n = Some (Some s, d1) \<and> sec_num s = n \<and>
        sec_sz s = of_nat SECTOR_SIZE \<and> sec_value s = bs \<and>
        (\<forall>t. kept s t \<longrightarrow>
          (\<exists>d2. d_release D d1 t = Some d2 \<and> good d2 \<and> view d2 = (view d)(n \<mapsto> sec_value t)))"
    and sync_sector: "good d \<Longrightarrow> view d n = Some bs \<Longrightarrow>
      \<exists>d2. dev_sync D d n = Some d2 \<and> good d2 \<and> view d2 = view d"
    and clear_device: "good d \<Longrightarrow> \<exists>d2. d_clear D d = Some d2 \<and> good d2 \<and> view d2 = view d"
begin

lemma dev_load_ok [views]:
  assumes "good d" and "view d n = Some bs" and "unat off < SECTOR_SIZE"
  shows "\<exists>d'. dev_load D d n off = Some (drop (unat off) bs, d') \<and> good d' \<and> view d' = view d"
proof -
  obtain s d1 where s: "d_readSector D d n = Some (Some s, d1)" "sec_value s = bs"
      "sec_sz s = of_nat SECTOR_SIZE"
    and rel: "\<And>t. kept s t \<Longrightarrow>
      \<exists>d2. d_release D d1 t = Some d2 \<and> good d2 \<and> view d2 = (view d)(n \<mapsto> sec_value t)"
    using use_sector [OF assms(1,2)] by blast
  have "kept s s" using view_length [OF assms(1,2)] s by (simp add: kept_def)
  from rel [OF this] obtain d2 where d2: "d_release D d1 s = Some d2" "good d2"
      "view d2 = (view d)(n \<mapsto> bs)" using s(2) by blast
  have "off < of_nat SECTOR_SIZE"
    using assms(3) by (simp add: word_less_nat_alt SECTOR_SIZE_def)
  then have "dev_load D d n off = Some (drop (unat off) bs, d2)"
    using s d2(1) by (simp add: dev_load_def read_ptr_def)
  moreover have "view d2 = view d" using d2(3) assms(2) by auto
  ultimately show ?thesis using d2(2) by blast
qed

lemma dev_modify_ok [views]:
  assumes "good d" and "view d n = Some bs" and "unat off < SECTOR_SIZE"
    and "f (drop (unat off) bs) = Some p" and "length p = SECTOR_SIZE - unat off"
  shows "\<exists>d'. dev_modify D d n off f = Some d' \<and> good d'
      \<and> view d' = (view d)(n \<mapsto> take (unat off) bs @ p)"
proof -
  obtain s d1 where s: "d_readSector D d n = Some (Some s, d1)" "sec_num s = n" "sec_value s = bs"
      "sec_sz s = of_nat SECTOR_SIZE"
    and rel: "\<And>t. kept s t \<Longrightarrow>
      \<exists>d2. d_release D d1 t = Some d2 \<and> good d2 \<and> view d2 = (view d)(n \<mapsto> sec_value t)"
    using use_sector [OF assms(1,2)] by blast
  let ?t = "store_back (s\<lparr>dirty := True\<rparr>) off p"
  have "kept s ?t"
    using view_length [OF assms(1,2)] s assms(3,5) by (simp add: kept_def store_back_def)
  from rel [OF this] obtain d2 where d2: "d_release D d1 ?t = Some d2" "good d2"
      "view d2 = (view d)(n \<mapsto> take (unat off) bs @ p)" using s(3) by (auto simp: store_back_def)
  have "off < of_nat SECTOR_SIZE"
    using assms(3) by (simp add: word_less_nat_alt SECTOR_SIZE_def)
  then have "dev_modify D d n off f = Some d2"
    using s d2(1) assms(4) by (simp add: dev_modify_def write_ptr_def)
  with d2 show ?thesis by blast
qed

end

text \<open>
  \<open>raw_device\<close> is what the cache relies on: a device whose sectors are copies. Reading one
  leaves no trace, and the copy may die at any later time; a dirty copy then becomes the
  content of its sector.
\<close>

locale raw_device =
  fixes D :: "'d device_ops"
    and good :: "'d \<Rightarrow> bool"
    and view :: "'d \<Rightarrow> u32 \<Rightarrow> bytes option"
  assumes raw_length: "good d \<Longrightarrow> view d n = Some bs \<Longrightarrow> length bs = SECTOR_SIZE"
    and raw_read: "good d \<Longrightarrow> view d n = Some bs \<Longrightarrow> d_readSector D d n =
      Some (Some \<lparr>sec_num = n, sec_sz = of_nat SECTOR_SIZE, sec_value = bs, dirty = False\<rparr>, d)"
    and raw_write: "good d \<Longrightarrow> view d n \<noteq> None \<Longrightarrow> length bs = SECTOR_SIZE \<Longrightarrow>
      \<exists>d'. d_writeSectorValue D d n bs = Some (True, d') \<and> good d' \<and> view d' = (view d)(n \<mapsto> bs)"
    and raw_clear: "good d \<Longrightarrow> \<exists>d'. d_clear D d = Some d' \<and> good d' \<and> view d' = view d"
    and raw_release: "d_release D = Sector_destroy (d_writeSectorValue D)"
begin

lemma release_ok [views]:
  assumes "good d" and "view d (sec_num s) \<noteq> None" and "length (sec_value s) = SECTOR_SIZE"
  shows "\<exists>d'. d_release D d s = Some d' \<and> good d'
    \<and> view d' = (if dirty s then (view d)(sec_num s \<mapsto> sec_value s) else view d)"
  using raw_write [OF assms] assms(1)
  by (auto simp: raw_release Sector_destroy_def Sector_sync_def)

end

sublocale raw_device \<subseteq> direct: block_device D good view
proof unfold_locales
  fix d n bs assume d: "good d" "view d n = Some bs"
  show "length bs = SECTOR_SIZE" by (rule raw_length [OF d])
  let ?s = "\<lparr>sec_num = n, sec_sz = of_nat SECTOR_SIZE, sec_value = bs, dirty = False\<rparr>"
  have "\<exists>d2. d_release D d t = Some d2 \<and> good d2 \<and> view d2 = (view d)(n \<mapsto> sec_value t)"
    if "kept ?s t" for t
    using release_ok [of d t] that d by (cases "dirty t") (auto simp: kept_def fun_upd_idem)
  then show "\<exists>s d1. d_readSector D d n = Some (Some s, d1) \<and> sec_num s = n \<and>
      sec_sz s = of_nat SECTOR_SIZE \<and> sec_value s = bs \<and> (\<forall>t. kept s t \<longrightarrow>
        (\<exists>d2. d_release D d1 t = Some d2 \<and> good d2 \<and> view d2 = (view d)(n \<mapsto> sec_value t)))"
    using raw_read [OF d] by (intro exI [of _ ?s] exI [of _ d]) simp
  show "\<exists>d2. dev_sync D d n = Some d2 \<and> good d2 \<and> view d2 = view d"
    using release_ok [of d ?s] raw_length [OF d] d
    by (simp add: dev_sync_def raw_read [OF d] Sector_sync_def)
qed (rule raw_clear)

section \<open>The image file is a raw device\<close>

text \<open>
  \<open>lfd_good\<close>: sectors of 512 bytes, the file as long as the device, and a device below
  4 GiB, where no byte offset wraps in \<open>u32\<close>.
\<close>

definition lfd_good :: "lfd \<Rightarrow> bool" where
  "lfd_good d \<longleftrightarrow> unat (lfd_sec_sz d) = SECTOR_SIZE \<and> unat (device_sz d) = file_len d
     \<and> file_len d < 2 ^ 32"

definition lfd_view :: "lfd \<Rightarrow> u32 \<Rightarrow> bytes option" where
  "lfd_view d n =
     (if (unat n + 1) * SECTOR_SIZE \<le> file_len d
      then Some (map (file_data d) [unat n * SECTOR_SIZE..<(unat n + 1) * SECTOR_SIZE]) else None)"

lemma lfd_offsets:
  assumes "lfd_good d" and "(unat n + 1) * SECTOR_SIZE \<le> file_len d"
  shows "unat (n * lfd_sec_sz d) = unat n * SECTOR_SIZE"
    and "\<not> ucast ((n + 1) * lfd_sec_sz d) > device_sz d"
proof -
  have sz: "unat (lfd_sec_sz d) = SECTOR_SIZE" and lt: "(unat n + 1) * SECTOR_SIZE < 2 ^ 32"
    using assms by (auto simp: lfd_good_def)
  have "unat n * SECTOR_SIZE < 2 ^ 32" using lt by simp
  then show "unat (n * lfd_sec_sz d) = unat n * SECTOR_SIZE"
    using sz by (simp add: unat_word_ariths)
  have n1: "unat (n + 1) = unat n + 1"
    using lt by (subst unat_add_lem [THEN iffD1]) (simp_all add: SECTOR_SIZE_def)
  have "unat ((n + 1) * lfd_sec_sz d) = (unat n + 1) * SECTOR_SIZE"
    using lt by (simp add: unat_word_ariths(2) n1 sz)
  then have "unat (ucast ((n + 1) * lfd_sec_sz d) :: u64) = (unat n + 1) * SECTOR_SIZE"
    by (simp add: unat_ucast_up)
  then show "\<not> ucast ((n + 1) * lfd_sec_sz d) > device_sz d"
    using assms by (simp add: word_less_nat_alt lfd_good_def)
qed

lemma lfd_file_write:
  assumes "lfd_good d" and "(unat n + 1) * SECTOR_SIZE \<le> file_len d" and "length bs = SECTOR_SIZE"
  shows "lfd_good (file_write d (unat n * SECTOR_SIZE) bs)"
    and "lfd_view (file_write d (unat n * SECTOR_SIZE) bs) = (lfd_view d)(n \<mapsto> bs)"
proof -
  let ?o = "unat n * SECTOR_SIZE"
  let ?d = "file_write d ?o bs"
  have len: "file_len ?d = file_len d" using assms by (simp add: file_write_def)
  then show "lfd_good ?d" using assms(1) by (simp add: lfd_good_def file_write_def)
  have data: "file_data ?d i = (if ?o \<le> i \<and> i < ?o + SECTOR_SIZE then bs ! (i - ?o) else file_data d i)"
    for i using assms by (auto simp: file_write_def)
  have same: "map (file_data ?d) [?o..<?o + SECTOR_SIZE] = bs"
    using assms(3) by (intro nth_equalityI) (simp_all add: data)
  have other: "map (file_data ?d) [unat m * SECTOR_SIZE..<(unat m + 1) * SECTOR_SIZE]
      = map (file_data d) [unat m * SECTOR_SIZE..<(unat m + 1) * SECTOR_SIZE]" if "m \<noteq> n" for m
  proof (rule map_cong [OF refl])
    fix i assume i: "i \<in> set [unat m * SECTOR_SIZE..<(unat m + 1) * SECTOR_SIZE]"
    have "unat m < unat n \<or> unat n < unat m" using that by (metis linorder_neqE_nat word_unat_eq_iff)
    then have "(unat m + 1) * SECTOR_SIZE \<le> ?o \<or> (unat n + 1) * SECTOR_SIZE \<le> unat m * SECTOR_SIZE"
      by (metis Suc_eq_plus1 Suc_leI mult_le_mono1)
    then show "file_data ?d i = file_data d i" using i by (auto simp: data)
  qed
  show "lfd_view ?d = (lfd_view d)(n \<mapsto> bs)"
  proof
    fix m show "lfd_view ?d m = ((lfd_view d)(n \<mapsto> bs)) m"
      using same other [of m] assms(2) by (auto simp: lfd_view_def len add.commute)
  qed
qed

lemma lfd_write_ok:
  assumes "lfd_good d" and "lfd_view d n \<noteq> None" and "length bs = SECTOR_SIZE"
  shows "\<exists>d'. lfd_writeSectorValue d n bs = Some (True, d') \<and> lfd_good d'
    \<and> lfd_view d' = (lfd_view d)(n \<mapsto> bs)"
proof -
  have n: "(unat n + 1) * SECTOR_SIZE \<le> file_len d"
    using assms(2) by (auto simp: lfd_view_def split: if_splits)
  show ?thesis
    using lfd_offsets [OF assms(1) n] lfd_file_write [OF assms(1) n assms(3)] assms(1,3)
    by (simp add: lfd_writeSectorValue_def lfd_good_def)
qed

lemma lfd_read_ok:
  assumes "lfd_good d" and "lfd_view d n = Some bs"
  shows "lfd_readSector d n =
    Some (Some \<lparr>sec_num = n, sec_sz = of_nat SECTOR_SIZE, sec_value = bs, dirty = False\<rparr>, d)"
proof -
  have n: "(unat n + 1) * SECTOR_SIZE \<le> file_len d"
    and bs: "bs = map (file_data d) [unat n * SECTOR_SIZE..<(unat n + 1) * SECTOR_SIZE]"
    using assms(2) by (auto simp: lfd_view_def split: if_splits)
  have sz: "lfd_sec_sz d = of_nat SECTOR_SIZE" "unat (lfd_sec_sz d) = SECTOR_SIZE"
    using assms(1) by (simp_all add: lfd_good_def word_unat_eq_iff SECTOR_SIZE_def)
  have "min SECTOR_SIZE (file_len d - unat n * SECTOR_SIZE) = SECTOR_SIZE" using n by simp
  moreover have "0 < lfd_sec_sz d" using sz by (simp add: word_less_nat_alt SECTOR_SIZE_def)
  ultimately show ?thesis
    using lfd_offsets [OF assms(1) n] sz
    by (simp add: lfd_readSector_def bs Let_def read_ptr_def Sector_new_def add.commute)
qed

interpretation lfd: raw_device lfd_ops lfd_good lfd_view
proof unfold_locales
  fix d n bs assume "lfd_good d" "lfd_view d n = Some bs"
  then show "length bs = SECTOR_SIZE" by (auto simp: lfd_view_def split: if_splits)
qed (auto simp: lfd_ops_def lfd_read_ok intro: lfd_write_ok)

section \<open>The cache over a raw device is a block device\<close>

text \<open>What a reader sees when cached sectors lie over the sectors of the inner device.\<close>

definition overlay ::
  "(u32, sector) recency \<Rightarrow> (u32 \<Rightarrow> bytes option) \<Rightarrow> u32 \<Rightarrow> bytes option" where
  "overlay xs V n = (case map_of xs n of Some s \<Rightarrow> Some (sec_value s) | None \<Rightarrow> V n)"

definition cached_ok :: "(u32 \<Rightarrow> bytes option) \<Rightarrow> u32 \<times> sector \<Rightarrow> bool" where
  "cached_ok V p \<longleftrightarrow> sec_num (snd p) = fst p \<and> sec_sz (snd p) = of_nat SECTOR_SIZE \<and>
     length (sec_value (snd p)) = SECTOR_SIZE \<and> V (fst p) \<noteq> None \<and>
     (\<not> dirty (snd p) \<longrightarrow> V (fst p) = Some (sec_value (snd p)))"

definition cm_view ::
  "('d \<Rightarrow> u32 \<Rightarrow> bytes option) \<Rightarrow> 'd cache_mgr \<Rightarrow> u32 \<Rightarrow> bytes option" where
  "cm_view view c = overlay (lru_view (sector_cache c)) (view (inner_device c))"

definition cm_good ::
  "('d \<Rightarrow> bool) \<Rightarrow> ('d \<Rightarrow> u32 \<Rightarrow> bytes option) \<Rightarrow> 'd cache_mgr \<Rightarrow> bool" where
  "cm_good good view c \<longleftrightarrow> good (inner_device c) \<and> lru_inv (sector_cache c) \<and>
     0 < max_size (sector_cache c) \<and>
     list_all (cached_ok (view (inner_device c))) (lru_view (sector_cache c))"

lemma overlay_simps [simp]:
  "overlay [] V = V"
  "overlay ((k, s) # xs) V = (overlay xs V)(k \<mapsto> sec_value s)"
  by (auto simp: overlay_def fun_eq_iff)

lemma overlay_append: "overlay (xs @ ys) V = overlay xs (overlay ys V)"
  by (auto simp: overlay_def fun_eq_iff map_add_def split: option.split)

lemma overlay_upd:
  "k \<notin> fst ` set xs \<Longrightarrow> overlay xs (V(k := x)) = (overlay xs V)(k := x)"
  using map_of_eq_None_iff [of xs k] by (auto simp: overlay_def fun_eq_iff split: option.split)

lemma cached_ok_upd: "cached_ok V p \<Longrightarrow> k \<noteq> fst p \<Longrightarrow> cached_ok (V(k := x)) p"
  by (simp add: cached_ok_def)

lemma cached_ok_overlay:
  "cached_ok V p \<Longrightarrow> fst p \<notin> fst ` set xs \<Longrightarrow> cached_ok (overlay xs V) p"
  by (simp add: cached_ok_def overlay_def map_of_eq_None_iff [THEN iffD2])

context raw_device
begin

lemma release_all_ok:
  assumes "good d" and "list_all (cached_ok (view d)) xs" and "distinct (map fst xs)"
  shows "\<exists>d'. release_all D d (map snd xs) = Some d' \<and> good d' \<and> view d' = overlay xs (view d)"
  using assms
proof (induction xs arbitrary: d)
  case (Cons p xs)
  obtain k s where p: "p = (k, s)" by (metis surj_pair)
  have s: "sec_num s = k" "view d k \<noteq> None" "length (sec_value s) = SECTOR_SIZE"
      "\<not> dirty s \<Longrightarrow> view d k = Some (sec_value s)"
    using Cons.prems(2) p by (auto simp: cached_ok_def)
  obtain d1 where d1: "d_release D d s = Some d1" "good d1"
      "view d1 = (view d)(k \<mapsto> sec_value s)"
    using release_ok [OF Cons.prems(1), of s] s by (cases "dirty s") (auto simp: fun_upd_idem)
  have "list_all (cached_ok (view d1)) xs"
    using Cons.prems(2,3) p unfolding d1(3) by (auto simp: list_all_iff intro!: cached_ok_upd)
  then obtain d' where "release_all D d1 (map snd xs) = Some d'" "good d'"
      "view d' = overlay xs (view d1)"
    using Cons.IH [OF d1(2)] Cons.prems(3) by auto
  then show ?case
    using d1 p Cons.prems(3) overlay_upd [of k xs] by (simp add: fun_eq_iff)
qed simp

end

lemma cm_view_upd:
  assumes "map_of (lru_view (sector_cache c)) n \<noteq> None"
  shows "cm_view V (c\<lparr>sector_cache := lru_pointee_update (sector_cache c) n t\<rparr>)
    = (cm_view V c)(n \<mapsto> sec_value t)"
  using assms by (auto simp: cm_view_def overlay_def fun_eq_iff lru.pointee_lookup split: option.split)

context raw_device
begin

text \<open>The handle of a sector that is in the cache.\<close>

lemma cm_held:
  assumes g: "cm_good good view c" and hit: "map_of (lru_view (sector_cache c)) n = Some s"
    and k: "kept s t"
  shows "\<exists>c'. cm_release D c t = Some c' \<and> cm_good good view c'
    \<and> cm_view view c' = (cm_view view c)(n \<mapsto> sec_value t)"
proof -
  let ?V = "view (inner_device c)"
  let ?c' = "c\<lparr>sector_cache := lru_pointee_update (sector_cache c) n t\<rparr>"
  have inv: "lru_inv (sector_cache c)" and ok: "list_all (cached_ok ?V) (lru_view (sector_cache c))"
    using g by (auto simp: cm_good_def)
  have s: "cached_ok ?V (n, s)" using ok hit by (auto simp: list_all_iff dest: map_of_SomeD)
  then have t: "cached_ok ?V (n, t)" "sec_num t = n"
    using k by (auto simp: cached_ok_def kept_def)
  have "list_all (cached_ok ?V) (map (\<lambda>(k, w). (k, if k = n then t else w)) (lru_view (sector_cache c)))"
    using ok t(1) by (auto simp: list_all_iff)
  then have "cm_good good view ?c'"
    using g by (simp add: cm_good_def lru.inv_kept lru.pointee_view frames)
  moreover have "cm_release D c t = Some ?c'"
    using hit t(2) by (simp add: cm_release_def lru_items_def lru_view_def)
  ultimately show ?thesis using cm_view_upd [of c n view t] hit by auto
qed

lemma cm_read_hit:
  assumes g: "cm_good good view c" and hit: "map_of (lru_view (sector_cache c)) n = Some s"
  shows "\<exists>c'. cm_readSector D c n = Some (Some s, c') \<and> cm_good good view c' \<and>
    cm_view view c' = cm_view view c \<and> inner_device c' = inner_device c \<and>
    map_of (lru_view (sector_cache c')) n = Some s"
proof -
  let ?c' = "c\<lparr>sector_cache := snd (lru_get (sector_cache c) n)\<rparr>"
  have inv: "lru_inv (sector_cache c)" using g by (simp add: cm_good_def)
  have "set (lru_view (snd (lru_get (sector_cache c) n))) \<subseteq> set (lru_view (sector_cache c))"
    using hit by (auto simp: lru.get_view [OF inv] rl_get_def rl_drop_def dest: map_of_SomeD)
  then have "cm_good good view ?c'"
    using g by (auto simp: cm_good_def lru.inv_kept frames list_all_iff)
  moreover have "cm_view view ?c' = cm_view view c"
    by (simp add: cm_view_def overlay_def fun_eq_iff lru.get_lookup [OF inv])
  moreover have "cm_readSector D c n = Some (Some s, ?c')"
    using lru.get_val [OF inv, of n] hit
    by (cases "lru_get (sector_cache c) n") (simp add: cm_readSector_def)
  ultimately show ?thesis using lru.get_lookup [OF inv, of n n] hit by auto
qed

lemma cm_read_miss:
  assumes g: "cm_good good view c" and miss: "map_of (lru_view (sector_cache c)) n = None"
    and v: "view (inner_device c) n = Some bs"
  defines "s \<equiv> \<lparr>sec_num = n, sec_sz = of_nat SECTOR_SIZE, sec_value = bs, dirty = False\<rparr>"
  shows "\<exists>c'. cm_readSector D c n = Some (Some s, c') \<and> cm_good good view c' \<and>
    cm_view view c' = cm_view view c \<and> map_of (lru_view (sector_cache c')) n = Some s"
proof -
  let ?V = "view (inner_device c)" and ?xs = "lru_view (sector_cache c)"
  have inv: "lru_inv (sector_cache c)" and gi: "good (inner_device c)"
    and cap: "0 < unat (max_size (sector_cache c))"
    and ok: "list_all (cached_ok ?V) ?xs"
    using g by (auto simp: cm_good_def word_less_nat_alt)
  obtain cache' dead where put: "lru_put (sector_cache c) n s = (cache', dead)" by fastforce
  define zs where "zs = drop (unat (max_size (sector_cache c))) ((n, s) # ?xs)"
  have split: "(n, s) # ?xs = lru_view cache' @ zs" and dead: "dead = map snd zs"
    using lru.put_evicts [OF inv miss, of s] by (simp_all add: put zs_def)
  have sub: "set zs \<subseteq> set ?xs" using cap by (cases "unat (max_size (sector_cache c))")
    (auto simp: zs_def dest: in_set_dropD)
  have dis: "distinct (map fst (lru_view cache' @ zs))"
    using lru.view_distinct [OF inv] miss by (simp flip: split add: map_of_eq_None_iff)
  have okz: "list_all (cached_ok ?V) zs" using ok sub by (auto simp: list_all_iff)
  have nz: "\<forall>t \<in> set dead. sec_num t \<noteq> n"
    using okz sub miss by (fastforce simp: dead list_all_iff cached_ok_def map_of_eq_None_iff)
  then have filt: "filter (\<lambda>t. sec_num t \<noteq> n) dead = map snd zs"
    by (simp add: filter_id_conv flip: dead)
  obtain inner' where rel: "release_all D (inner_device c) (map snd zs) = Some inner'" "good inner'"
      "view inner' = overlay zs ?V"
    using release_all_ok [OF gi okz] dis by auto
  let ?c' = "c\<lparr>inner_device := inner', sector_cache := cache'\<rparr>"
  have "cached_ok ?V (n, s)" using raw_length [OF gi v] v by (simp add: cached_ok_def s_def)
  then have "list_all (cached_ok ?V) (lru_view cache')"
    using ok arg_cong [OF split, of "list_all (cached_ok ?V)"] by simp
  then have "list_all (cached_ok (overlay zs ?V)) (lru_view cache')"
    using dis by (fastforce simp: list_all_iff intro!: cached_ok_overlay)
  then have "cm_good good view ?c'"
    using g rel(2,3) put lru.inv_kept(1) [OF inv, of n s] lru_max_size(1) [of "sector_cache c" n s]
    by (simp add: cm_good_def)
  moreover have "cm_view view ?c' = cm_view view c"
  proof -
    have "cm_view view ?c' = overlay ((n, s) # ?xs) ?V"
      by (simp only: split overlay_append) (simp add: cm_view_def rel(3))
    then show ?thesis using v miss by (auto simp: cm_view_def overlay_def s_def fun_eq_iff)
  qed
  moreover have "cm_readSector D c n = Some (Some s, ?c')"
    using lru.get_val [OF inv, of n] lru_get_miss [of "sector_cache c" n] inv miss raw_read [OF gi v]
    by (simp add: cm_readSector_def lru_inv_def put filt rel(1) flip: s_def)
  moreover have "map_of (lru_view cache') n = Some s"
    using lru.put_lookup_same [OF inv cap, of n s] put by simp
  ultimately show ?thesis by auto
qed

lemma cm_read:
  assumes g: "cm_good good view c" and v: "cm_view view c n = Some bs"
  shows "\<exists>s c'. cm_readSector D c n = Some (Some s, c') \<and> cm_good good view c' \<and>
    cm_view view c' = cm_view view c \<and> map_of (lru_view (sector_cache c')) n = Some s \<and>
    sec_value s = bs"
proof (cases "map_of (lru_view (sector_cache c)) n")
  case None
  then have "view (inner_device c) n = Some bs" using v by (simp add: cm_view_def overlay_def)
  from cm_read_miss [OF g None this] show ?thesis by fastforce
next
  case (Some s)
  then have "sec_value s = bs" using v by (simp add: cm_view_def overlay_def)
  with cm_read_hit [OF g Some] show ?thesis by blast
qed

end

text \<open>\<open>Sector::sync\<close> on a cached sector writes through and leaves the sector clean.\<close>

lemma overlay_write_through:
  "map_of xs n = Some s \<Longrightarrow> overlay xs (V(n \<mapsto> sec_value s)) = overlay xs V"
  by (auto simp: overlay_def fun_eq_iff split: option.split)

context raw_device
begin

lemma cm_write_through:
  assumes g: "cm_good good view c" and hit: "map_of (lru_view (sector_cache c)) n = Some s"
  shows "\<exists>c'. cm_writeSectorValue D c n (sec_value s) = Some (True, c') \<and>
    cm_view view c' = cm_view view c \<and>
    (\<exists>c''. cm_release D c' (s\<lparr>dirty := False\<rparr>) = Some c'' \<and> cm_good good view c''
      \<and> cm_view view c'' = cm_view view c)"
proof -
  let ?V = "view (inner_device c)" and ?xs = "lru_view (sector_cache c)"
  let ?t = "s\<lparr>dirty := False\<rparr>"
  have inv: "lru_inv (sector_cache c)" and gi: "good (inner_device c)"
    and ok: "list_all (cached_ok ?V) ?xs"
    using g by (auto simp: cm_good_def)
  have s: "cached_ok ?V (n, s)" using ok hit by (auto simp: list_all_iff dest: map_of_SomeD)
  obtain inner' where w: "d_writeSectorValue D (inner_device c) n (sec_value s) = Some (True, inner')"
      "good inner'" "view inner' = ?V(n \<mapsto> sec_value s)"
    using raw_write [OF gi, of n "sec_value s"] s by (auto simp: cached_ok_def)
  let ?c' = "c\<lparr>inner_device := inner'\<rparr>"
  let ?c'' = "?c'\<lparr>sector_cache := lru_pointee_update (sector_cache c) n ?t\<rparr>"
  have view': "cm_view view ?c' = cm_view view c"
    by (simp add: cm_view_def w(3) overlay_write_through [OF hit])
  have "cached_ok (?V(n \<mapsto> sec_value s)) (n, ?t)" using s by (simp add: cached_ok_def)
  then have "cached_ok (?V(n \<mapsto> sec_value s)) (k, if k = n then ?t else w)" if "(k, w) \<in> set ?xs" for k w
    using ok that cached_ok_upd [of ?V "(k, w)" n] by (auto simp: list_all_iff)
  then have "list_all (cached_ok (?V(n \<mapsto> sec_value s)))
      (map (\<lambda>(k, w). (k, if k = n then ?t else w)) ?xs)"
    by (auto simp: list_all_iff)
  then have "cm_good good view ?c''"
    using g w(2,3) by (simp add: cm_good_def lru.inv_kept lru.pointee_view frames)
  moreover have "cm_view view ?c'' = cm_view view c"
    using cm_view_upd [of ?c' n view ?t] hit view' by (auto simp: cm_view_def overlay_def fun_eq_iff)
  moreover have "cm_release D ?c' ?t = Some ?c''"
    using hit s by (simp add: cm_release_def lru_items_def lru_view_def cached_ok_def)
  ultimately show ?thesis using view' w(1) by (simp add: cm_writeSectorValue_def)
qed

lemma cm_sync:
  assumes g: "cm_good good view c" and v: "cm_view view c n = Some bs"
  shows "\<exists>c'. dev_sync (cm_ops D) c n = Some c' \<and> cm_good good view c' \<and> cm_view view c' = cm_view view c"
proof -
  obtain s c1 where r: "cm_readSector D c n = Some (Some s, c1)" "cm_good good view c1"
      "cm_view view c1 = cm_view view c" and hit: "map_of (lru_view (sector_cache c1)) n = Some s"
      and bs: "sec_value s = bs"
    using cm_read [OF g v] by blast
  have s: "cached_ok (view (inner_device c1)) (n, s)"
    using r(2) hit by (auto simp: cm_good_def list_all_iff dest: map_of_SomeD)
  show ?thesis
  proof (cases "dirty s")
    case True
    then show ?thesis
      using cm_write_through [OF r(2) hit] r s
      by (auto simp: dev_sync_def cm_ops_def Sector_sync_def cached_ok_def)
  next
    case False
    have "kept s s" using s by (simp add: kept_def cached_ok_def)
    then show ?thesis
      using cm_held [OF r(2) hit, of s] False r(1,3) bs v
      by (auto simp: dev_sync_def cm_ops_def Sector_sync_def fun_upd_idem)
  qed
qed

text \<open>Emptying the cache writes every change to the inner device.\<close>

lemma cm_clear_flushes:
  assumes g: "cm_good good view c"
  shows "\<exists>c'. cm_clear D c = Some c' \<and> cm_good good view c' \<and>
    view (inner_device c') = cm_view view c \<and> cm_view view c' = cm_view view c"
proof -
  let ?xs = "lru_view (sector_cache c)"
  have inv: "lru_inv (sector_cache c)" and gi: "good (inner_device c)"
    and ok: "list_all (cached_ok (view (inner_device c))) ?xs"
    using g by (auto simp: cm_good_def)
  obtain i1 where i1: "release_all D (inner_device c) (map snd ?xs) = Some i1" "good i1"
      "view i1 = cm_view view c"
    using release_all_ok [OF gi ok lru.view_distinct [OF inv]] by (auto simp: cm_view_def)
  obtain i2 where i2: "d_clear D i1 = Some i2" "good i2" "view i2 = view i1"
    using raw_clear [OF i1(2)] by blast
  let ?c' = "c\<lparr>inner_device := i2, sector_cache := fst (lru_clear (sector_cache c))\<rparr>"
  have "cm_clear D c = Some ?c'"
    using i1(1) i2(1) lru.clear_dead [of "sector_cache c"]
    by (cases "lru_clear (sector_cache c)") (simp add: cm_clear_def)
  moreover have "cm_good good view ?c'"
    using g i2(2) by (simp add: cm_good_def lru.clear_view lru.inv_kept frames)
  moreover have "cm_view view ?c' = cm_view view c"
    by (simp add: cm_view_def lru.clear_view i2(3) i1(3))
  ultimately show ?thesis using i2(3) i1(3) by auto
qed

end

sublocale raw_device \<subseteq> cached: block_device "cm_ops D" "cm_good good view" "cm_view view"
proof unfold_locales
  fix c n bs assume c: "cm_good good view c" "cm_view view c n = Some bs"
  obtain s c1 where r: "cm_readSector D c n = Some (Some s, c1)" "cm_good good view c1"
      "cm_view view c1 = cm_view view c" "sec_value s = bs"
    and hit: "map_of (lru_view (sector_cache c1)) n = Some s"
    using cm_read [OF c] by blast
  have s: "cached_ok (view (inner_device c1)) (n, s)"
    using r(2) hit by (auto simp: cm_good_def list_all_iff dest: map_of_SomeD)
  then show "length bs = SECTOR_SIZE" using r(4) by (auto simp: cached_ok_def)
  show "\<exists>s d1. d_readSector (cm_ops D) c n = Some (Some s, d1) \<and> sec_num s = n \<and>
      sec_sz s = of_nat SECTOR_SIZE \<and> sec_value s = bs \<and> (\<forall>t. kept s t \<longrightarrow>
        (\<exists>d2. d_release (cm_ops D) d1 t = Some d2 \<and> cm_good good view d2 \<and>
          cm_view view d2 = (cm_view view c)(n \<mapsto> sec_value t)))"
    using r s cm_held [OF r(2) hit] by (auto simp: cm_ops_def cached_ok_def)
  show "\<exists>d2. dev_sync (cm_ops D) c n = Some d2 \<and> cm_good good view d2 \<and> cm_view view d2 = cm_view view c"
    by (rule cm_sync [OF c])
next
  fix c assume "cm_good good view c"
  then show "\<exists>d2. d_clear (cm_ops D) c = Some d2 \<and> cm_good good view d2 \<and> cm_view view d2 = cm_view view c"
    using cm_clear_flushes by (fastforce simp: cm_ops_def)
qed

section \<open>Histories of a device\<close>

text \<open>What callers do with a device, and the same on a plain array of sectors.\<close>

datatype dev_op = Load u32 u32 | Store u32 u32 bytes | Sync u32 | Flush

fun dev_step :: "'d device_ops \<Rightarrow> 'd \<Rightarrow> dev_op \<Rightarrow> (bytes \<times> 'd) option" where
  "dev_step D d (Load n off) = dev_load D d n off"
| "dev_step D d (Store n off bs) =
     do { d' \<leftarrow> dev_modify D d n off (\<lambda>p. Some (overwrite p 0 bs)); Some ([], d') }"
| "dev_step D d (Sync n) = do { d' \<leftarrow> dev_sync D d n; Some ([], d') }"
| "dev_step D d Flush = do { d' \<leftarrow> d_clear D d; Some ([], d') }"

fun dev_run :: "'d device_ops \<Rightarrow> 'd \<Rightarrow> dev_op list \<Rightarrow> (bytes list \<times> 'd) option" where
  "dev_run D d [] = Some ([], d)"
| "dev_run D d (x # xs) =
     do { (out, d1) \<leftarrow> dev_step D d x; (outs, d2) \<leftarrow> dev_run D d1 xs; Some (out # outs, d2) }"

fun array_step :: "(u32 \<Rightarrow> bytes option) \<Rightarrow> dev_op \<Rightarrow> (bytes \<times> (u32 \<Rightarrow> bytes option)) option" where
  "array_step V (Load n off) =
     do { bs \<leftarrow> V n; ensure (unat off < SECTOR_SIZE); Some (drop (unat off) bs, V) }"
| "array_step V (Store n off bs) =
     do { old \<leftarrow> V n; ensure (unat off < SECTOR_SIZE \<and> unat off + length bs \<le> SECTOR_SIZE);
          Some ([], V(n \<mapsto> overwrite old (unat off) bs)) }"
| "array_step V (Sync n) = do { _ \<leftarrow> V n; Some ([], V) }"
| "array_step V Flush = Some ([], V)"

fun array_run :: "(u32 \<Rightarrow> bytes option) \<Rightarrow> dev_op list \<Rightarrow> (bytes list \<times> (u32 \<Rightarrow> bytes option)) option" where
  "array_run V [] = Some ([], V)"
| "array_run V (x # xs) =
     do { (out, V1) \<leftarrow> array_step V x; (outs, V2) \<leftarrow> array_run V1 xs; Some (out # outs, V2) }"

context block_device
begin

lemma dev_step_refines:
  assumes "good d" and "array_step (view d) x = Some (out, V)"
  shows "\<exists>d'. dev_step D d x = Some (out, d') \<and> good d' \<and> view d' = V"
proof (cases x)
  case (Load n off)
  then show ?thesis
    using assms dev_load_ok [OF assms(1), of n _ off] by (auto split: bind_splits)
next
  case (Store n off bs)
  then obtain old where old: "view d n = Some old" "unat off < SECTOR_SIZE"
      "unat off + length bs \<le> SECTOR_SIZE" and out: "out = []" "V = (view d)(n \<mapsto> overwrite old (unat off) bs)"
    using assms(2) by (auto split: bind_splits)
  let ?p = "overwrite (drop (unat off) old) 0 bs"
  have "take (unat off) old @ ?p = overwrite old (unat off) bs"
    by (simp add: overwrite_def add.commute)
  moreover have "length ?p = SECTOR_SIZE - unat off"
    using old(3) view_length [OF assms(1) old(1)] by simp
  ultimately show ?thesis
    using dev_modify_ok [OF assms(1) old(1,2), of "\<lambda>p. Some (overwrite p 0 bs)"] Store out by auto
next
  case (Sync n)
  then show ?thesis using assms sync_sector [OF assms(1), of n] by (auto split: bind_splits)
next
  case Flush
  then show ?thesis using assms clear_device [OF assms(1)] by auto
qed

lemma dev_run_refines:
  "good d \<Longrightarrow> array_run (view d) xs = Some (outs, V) \<Longrightarrow>
    \<exists>d'. dev_run D d xs = Some (outs, d') \<and> good d' \<and> view d' = V"
proof (induction xs arbitrary: d outs)
  case (Cons x xs)
  then show ?case using dev_step_refines [of d x] by (fastforce split: bind_splits)
qed simp

end

section \<open>The devices the program mounts\<close>

definition CACHED_SECTOR_NUM :: u32 where
  "CACHED_SECTOR_NUM = 64"

abbreviation disk_ops :: "lfd cache_mgr device_ops" where
  "disk_ops \<equiv> cm_ops lfd_ops"

abbreviation disk_good :: "lfd cache_mgr \<Rightarrow> bool" where
  "disk_good \<equiv> cm_good lfd_good lfd_view"

abbreviation disk_view :: "lfd cache_mgr \<Rightarrow> u32 \<Rightarrow> bytes option" where
  "disk_view \<equiv> cm_view lfd_view"

definition mount_disk :: "nat \<Rightarrow> (nat \<Rightarrow> u8) \<Rightarrow> lfd cache_mgr" where
  "mount_disk len bs =
     CacheManager_new (LinuxFileDriver_new len bs (of_nat SECTOR_SIZE)) CACHED_SECTOR_NUM"

definition image_view :: "nat \<Rightarrow> (nat \<Rightarrow> u8) \<Rightarrow> u32 \<Rightarrow> bytes option" where
  "image_view len bs n =
     (if (unat n + 1) * SECTOR_SIZE \<le> len
      then Some (map bs [unat n * SECTOR_SIZE..<(unat n + 1) * SECTOR_SIZE]) else None)"

lemma mount_disk_good:
  assumes "len < 2 ^ 32"
  shows "disk_good (mount_disk len bs)" and "disk_view (mount_disk len bs) = image_view len bs"
proof -
  have "unat (word_of_nat len :: u64) = len" using assms by (intro unat_of_nat_lt) simp
  then have "lfd_good (LinuxFileDriver_new len bs (of_nat SECTOR_SIZE))"
    using assms by (simp add: lfd_good_def LinuxFileDriver_new_def SECTOR_SIZE_def)
  then show "disk_good (mount_disk len bs)"
    by (simp add: mount_disk_def CacheManager_new_def cm_good_def lru_new_inv lru_new_view)
      (simp add: lru_new_def CACHED_SECTOR_NUM_def)
  show "disk_view (mount_disk len bs) = image_view len bs"
    by (auto simp: mount_disk_def CacheManager_new_def cm_view_def lru_new_view fun_eq_iff
        lfd_view_def image_view_def LinuxFileDriver_new_def)
qed

lemma mounted_run:
  assumes "len < 2 ^ 32" and "array_run (image_view len bs) ops = Some (outs, V)"
  shows "\<exists>d. dev_run disk_ops (mount_disk len bs) ops = Some (outs, d) \<and> disk_good d \<and> disk_view d = V"
  using lfd.cached.dev_run_refines [OF mount_disk_good(1) [OF assms(1), of bs]] assms
  by (simp add: mount_disk_good(2))

lemma image_view_const:
  "image_view len (\<lambda>_. x) n =
    (if (unat n + 1) * SECTOR_SIZE \<le> len then Some (replicate SECTOR_SIZE x) else None)"
  by (simp add: image_view_def map_replicate_const)

text \<open>C1: Over an image below 4 GiB, the sector cache on top of the file driver is
  indistinguishable from an array of sectors: any history of reads, writes, syncs and flushes
  that stays inside the array returns, with the bytes the array gives, and leaves a disk that
  shows the array's final content.\<close>

theorem cached_disk_refines_sector_array:
  assumes "len < 2 ^ 32" and "array_run (image_view len bs) ops = Some (outs, V)"
  shows "\<exists>d. dev_run disk_ops (mount_disk len bs) ops = Some (outs, d) \<and> disk_view d = V"
  using mounted_run [OF assms] by blast

theorem cached_disk_refines_sector_array_witness:
  "\<exists>d. dev_run disk_ops (mount_disk 1024 (\<lambda>_. 7)) [Store 1 510 [1, 2], Flush, Load 1 509]
      = Some ([[], [], [7, 1, 2]], d)
    \<and> disk_view d = (image_view 1024 (\<lambda>_. 7))(1 \<mapsto> replicate 510 7 @ [1, 2])"
  by (rule cached_disk_refines_sector_array)
    (simp_all add: image_view_const overwrite_def SECTOR_SIZE_def)

text \<open>What was written reaches the image: after any such history a flush (the last thing
  \<open>main\<close> does) leaves every change in the file, sector by sector.\<close>

lemma flush_writes_every_change:
  assumes "len < 2 ^ 32" and "array_run (image_view len bs) ops = Some (outs, V)"
  shows "\<exists>d d'. dev_run disk_ops (mount_disk len bs) ops = Some (outs, d) \<and>
    d_clear disk_ops d = Some d' \<and> image_view (file_len (inner_device d')) (file_data (inner_device d')) = V"
proof -
  obtain d where d: "dev_run disk_ops (mount_disk len bs) ops = Some (outs, d)" "disk_good d" "disk_view d = V"
    using mounted_run [OF assms] by blast
  have "lfd_view e = image_view (file_len e) (file_data e)" for e
    by (auto simp: lfd_view_def image_view_def)
  then show ?thesis
    using lfd.cm_clear_flushes [OF d(2)] d by (auto simp: cm_ops_def)
qed

lemma flush_writes_every_change_example:
  "\<exists>d d'. dev_run disk_ops (mount_disk 1024 (\<lambda>_. 7)) [Store 1 510 [1, 2]] = Some ([[]], d) \<and>
    d_clear disk_ops d = Some d' \<and> image_view (file_len (inner_device d')) (file_data (inner_device d'))
      = (image_view 1024 (\<lambda>_. 7))(1 \<mapsto> replicate 510 7 @ [1, 2])"
  by (rule flush_writes_every_change)
    (simp_all add: image_view_const overwrite_def SECTOR_SIZE_def)

text \<open>C34: The file driver computes byte offsets in \<open>u32\<close>, so with 512-byte sectors the sector
  numbers repeat every 4 GiB: reading sector \<open>n + 2^23\<close> yields the bytes of sector \<open>n\<close>, and
  writing it overwrites sector \<open>n\<close>, whatever the size of the image.\<close>

theorem linux_file_driver_sectors_alias:
  "lfd_readSector (LinuxFileDriver_new len bs 512) (n + 2 ^ 23)
      = map_option (apfst (map_option (sec_num_update (\<lambda>_. n + 2 ^ 23))))
          (lfd_readSector (LinuxFileDriver_new len bs 512) n)
   \<and> lfd_writeSectorValue (LinuxFileDriver_new len bs 512) (n + 2 ^ 23) buf
      = lfd_writeSectorValue (LinuxFileDriver_new len bs 512) n buf"
proof -
  have wrap: "(n + 2 ^ 23) * 512 = n * (512 :: u32)" "(n + 2 ^ 23 + 1) * 512 = (n + 1) * (512 :: u32)"
    by (simp_all add: distrib_right)
  show ?thesis
    unfolding lfd_readSector_def lfd_writeSectorValue_def LinuxFileDriver_new_def lfd.simps wrap
    by (simp add: Let_def Sector_new_def read_ptr_def ensure_def)
qed

end
