(* ===== verification/Fat32Layout.thy ===== *)
theory Fat32Layout
  imports Prelude
begin

text \<open>
  The on-disk structures of \<^verbatim>\<open>library/fat32.h\<close> and the functions of \<^verbatim>\<open>fat32.h\<close> and
  \<^verbatim>\<open>fat32.cpp\<close> that compute with them: the boot sector (BPB) and the geometry it fixes, the
  FSInfo sector, one entry of the FAT inside a sector, and the 32-byte directory entries in
  their short and long form. A cast of a byte pointer to a packed struct is \<open>decode_\<dots>\<close>, the
  bytes of a struct are \<open>encode_\<dots>\<close>. Integer promotions are written out as \<open>ucast\<close>.
\<close>

section \<open>Constants\<close>

definition KFat32EocMark :: u32 where "KFat32EocMark = 0x0FFFFFF8"
definition KFsInfoLeadSig :: u32 where "KFsInfoLeadSig = 0x41615252"
definition KStrucSig :: u32 where "KStrucSig = 0x61417272"
definition KTrailSig :: u32 where "KTrailSig = 0xAA550000"
definition KAttrDirectory :: u8 where "KAttrDirectory = 0x10"
definition KAttrLongName :: u8 where "KAttrLongName = 0x01 OR 0x02 OR 0x04 OR 0x08"
definition KAttrLongNameMask :: u8 where
  "KAttrLongNameMask = 0x01 OR 0x02 OR 0x04 OR 0x08 OR 0x10 OR 0x20"
definition KLastLongEntry :: u8 where "KLastLongEntry = 0x40"

lemma attr_values: "KAttrLongName = 0x0F" "KAttrLongNameMask = 0x3F"
  by (simp_all add: KAttrLongName_def KAttrLongNameMask_def)

section \<open>The boot sector\<close>

record BPB =
  BS_jmp_boot :: bytes
  BS_oem_name :: bytes
  BPB_bytes_per_sec :: u16
  BPB_sec_per_clus :: u8
  BPB_resvd_sec_cnt :: u16
  BPB_num_fats :: u8
  BPB_root_ent_cnt :: u16
  BPB_tot_sec16 :: u16
  BPB_media :: u8
  BPB_FATsz16 :: u16
  BPB_sec_per_trk :: u16
  BPB_num_heads :: u16
  BPB_hidd_sec :: u32
  BPB_tot_sec32 :: u32
  BPB_FATsz32 :: u32
  BPB_ext_flags :: u16
  BPB_FSVer :: u16
  BPB_root_clus :: u32
  BPB_fs_info :: u16
  BPB_bk_boot_sec :: u16
  BPB_reserved :: bytes
  BS_drv_num :: u8
  BS_reserved1 :: u8
  BS_boot_sig :: u8
  BS_vol_id :: u32
  BS_vol_lab :: bytes
  BS_fil_sys_type :: bytes

definition field :: "bytes \<Rightarrow> nat \<Rightarrow> nat \<Rightarrow> bytes" where
  "field bs i n = take n (drop i bs)"

definition decode_BPB :: "bytes \<Rightarrow> BPB option" where
  "decode_BPB p = do { ensure (90 \<le> length p); Some
     \<lparr>BS_jmp_boot = field p 0 3, BS_oem_name = field p 3 8,
      BPB_bytes_per_sec = get16 p 11, BPB_sec_per_clus = p ! 13, BPB_resvd_sec_cnt = get16 p 14,
      BPB_num_fats = p ! 16, BPB_root_ent_cnt = get16 p 17, BPB_tot_sec16 = get16 p 19,
      BPB_media = p ! 21, BPB_FATsz16 = get16 p 22, BPB_sec_per_trk = get16 p 24,
      BPB_num_heads = get16 p 26, BPB_hidd_sec = get32 p 28, BPB_tot_sec32 = get32 p 32,
      BPB_FATsz32 = get32 p 36, BPB_ext_flags = get16 p 40, BPB_FSVer = get16 p 42,
      BPB_root_clus = get32 p 44, BPB_fs_info = get16 p 48, BPB_bk_boot_sec = get16 p 50,
      BPB_reserved = field p 52 12, BS_drv_num = p ! 64, BS_reserved1 = p ! 65,
      BS_boot_sig = p ! 66, BS_vol_id = get32 p 67, BS_vol_lab = field p 71 11,
      BS_fil_sys_type = field p 82 8\<rparr> }"

subsection \<open>Geometry\<close>

definition getFirstFATSector :: "BPB \<Rightarrow> u32 \<Rightarrow> u32" where
  "getFirstFATSector bpb n = ucast (BPB_resvd_sec_cnt bpb) + n * BPB_FATsz32 bpb"

definition getFirstDataSector :: "BPB \<Rightarrow> u32" where
  "getFirstDataSector bpb =
     ucast (BPB_resvd_sec_cnt bpb) + ucast (BPB_num_fats bpb) * BPB_FATsz32 bpb"

definition getFirstSectorOfCluster :: "BPB \<Rightarrow> u32 \<Rightarrow> u32" where
  "getFirstSectorOfCluster bpb n =
     (n - 2) * ucast (BPB_sec_per_clus bpb) + getFirstDataSector bpb"

definition getDataSecCnt :: "BPB \<Rightarrow> u32" where
  "getDataSecCnt bpb = BPB_tot_sec32 bpb -
     (ucast (BPB_resvd_sec_cnt bpb) + ucast (BPB_num_fats bpb) * BPB_FATsz32 bpb + 0)"

definition bytesPerClus :: "BPB \<Rightarrow> u32" where
  "bytesPerClus bpb = ucast (BPB_sec_per_clus bpb) * ucast (BPB_bytes_per_sec bpb)"

text \<open>An integer division by zero does not return.\<close>

definition getCountOfClusters :: "BPB \<Rightarrow> u32 option" where
  "getCountOfClusters bpb =
     do { ensure (BPB_sec_per_clus bpb \<noteq> 0);
          Some (getDataSecCnt bpb div ucast (BPB_sec_per_clus bpb)) }"

definition isValidFat32BPB :: "BPB \<Rightarrow> bool option" where
  "isValidFat32BPB bpb =
     (if (BS_jmp_boot bpb ! 0 \<noteq> 0xEB \<or> BS_jmp_boot bpb ! 2 \<noteq> 0x90) \<and> BS_jmp_boot bpb ! 0 \<noteq> 0xE9
      then Some False
      else do { n \<leftarrow> getCountOfClusters bpb;
                if n < 65525 then Some False
                else if BPB_FATsz16 bpb \<noteq> 0 then Some False
                else Some True })"

section \<open>Entries of the FAT\<close>

definition isValidCluster :: "u32 \<Rightarrow> bool" where
  "isValidCluster clus \<longleftrightarrow> clus \<noteq> 0 \<and> clus \<noteq> 1"

definition isEndOfClusChain :: "u32 \<Rightarrow> bool" where
  "isEndOfClusChain clus \<longleftrightarrow> clus \<ge> 0x0FFFFFF8"

record FATPos =
  fat_sec_num :: u32
  fat_ent_offset :: u32

definition getClusPosOnFAT :: "BPB \<Rightarrow> u32 \<Rightarrow> FATPos option" where
  "getClusPosOnFAT bpb n =
     (let fat_offset = n * 4; bps = ucast (BPB_bytes_per_sec bpb) in
      do { ensure (bps \<noteq> 0);
           Some \<lparr>fat_sec_num = ucast (BPB_resvd_sec_cnt bpb) + fat_offset div bps,
                 fat_ent_offset = fat_offset mod bps\<rparr> })"

definition readFATClusEntryVal :: "bytes \<Rightarrow> u32 \<Rightarrow> u32 option" where
  "readFATClusEntryVal sec_buff off =
     do { ensure (unat off + 4 \<le> length sec_buff);
          Some (get32 sec_buff (unat off) AND 0x0FFFFFFF) }"

definition writeFATClusEntryVal :: "u32 \<Rightarrow> u32 \<Rightarrow> bytes \<Rightarrow> bytes option" where
  "writeFATClusEntryVal off val sec_buff =
     (let val = val AND 0x0FFFFFFF in
      do { ensure (unat off + 4 \<le> length sec_buff);
           let buff1 = put32 sec_buff (unat off) (get32 sec_buff (unat off) AND 0xF0000000);
           Some (put32 buff1 (unat off) (get32 buff1 (unat off) OR val)) })"

section \<open>FSInfo\<close>

record FSInfo =
  lead_sig :: u32
  reserved1 :: bytes
  struc_sig :: u32
  free_count :: u32
  nxt_free :: u32
  reserved2 :: bytes
  trail_sig :: u32

definition decode_FSInfo :: "bytes \<Rightarrow> FSInfo option" where
  "decode_FSInfo p = do { ensure (512 \<le> length p); Some
     \<lparr>lead_sig = get32 p 0, reserved1 = field p 4 480, struc_sig = get32 p 484,
      free_count = get32 p 488, nxt_free = get32 p 492, reserved2 = field p 496 12,
      trail_sig = get32 p 508\<rparr> }"

definition assertFSInfo :: "FSInfo \<Rightarrow> unit option" where
  "assertFSInfo i =
     do { ensure (lead_sig i = KFsInfoLeadSig);
          ensure (struc_sig i = KStrucSig);
          ensure (trail_sig i = KTrailSig) }"

section \<open>Directory entries\<close>

record FatTimeStamp =
  ts_time :: u16
  ts_date :: u16

record FatTimeStamp2 =
  ts2_tt :: u8
  ts2_ts :: FatTimeStamp

record ShortDirEntry =
  se_name :: bytes
  se_attr :: u8
  se_rsvd :: u8
  crt_ts2 :: FatTimeStamp2
  lst_acc_date :: u16
  fst_clus_high :: u16
  wrt_ts :: FatTimeStamp
  fst_clus_low :: u16
  se_file_sz :: u32

record LongDirEntry =
  le_ord :: u8
  name1 :: bytes
  le_attr :: u8
  le_type :: u8
  chk_sum :: u8
  name2 :: bytes
  le_fst_clus_low :: u16
  name3 :: bytes

definition decode_short :: "bytes \<Rightarrow> ShortDirEntry" where
  "decode_short p = \<lparr>se_name = field p 0 11, se_attr = p ! 11, se_rsvd = p ! 12,
     crt_ts2 = \<lparr>ts2_tt = p ! 13, ts2_ts = \<lparr>ts_time = get16 p 14, ts_date = get16 p 16\<rparr>\<rparr>,
     lst_acc_date = get16 p 18, fst_clus_high = get16 p 20,
     wrt_ts = \<lparr>ts_time = get16 p 22, ts_date = get16 p 24\<rparr>,
     fst_clus_low = get16 p 26, se_file_sz = get32 p 28\<rparr>"

definition encode_short :: "ShortDirEntry \<Rightarrow> bytes" where
  "encode_short e = se_name e @ [se_attr e, se_rsvd e, ts2_tt (crt_ts2 e)]
     @ bytes16 (ts_time (ts2_ts (crt_ts2 e))) @ bytes16 (ts_date (ts2_ts (crt_ts2 e)))
     @ bytes16 (lst_acc_date e) @ bytes16 (fst_clus_high e)
     @ bytes16 (ts_time (wrt_ts e)) @ bytes16 (ts_date (wrt_ts e))
     @ bytes16 (fst_clus_low e) @ bytes32 (se_file_sz e)"

definition decode_long :: "bytes \<Rightarrow> LongDirEntry" where
  "decode_long p = \<lparr>le_ord = p ! 0, name1 = field p 1 10, le_attr = p ! 11, le_type = p ! 12,
     chk_sum = p ! 13, name2 = field p 14 12, le_fst_clus_low = get16 p 26, name3 = field p 28 4\<rparr>"

definition encode_long :: "LongDirEntry \<Rightarrow> bytes" where
  "encode_long e = [le_ord e] @ name1 e @ [le_attr e, le_type e, chk_sum e] @ name2 e
     @ bytes16 (le_fst_clus_low e) @ name3 e"

text \<open>The reference casts between the two forms.\<close>

definition castLongDirEntryToShort :: "LongDirEntry \<Rightarrow> ShortDirEntry" where
  "castLongDirEntryToShort e = decode_short (encode_long e)"

definition castShortDirEntryToLong :: "ShortDirEntry \<Rightarrow> LongDirEntry" where
  "castShortDirEntryToLong e = decode_long (encode_short e)"

definition setFstClusNo :: "ShortDirEntry \<Rightarrow> u32 \<Rightarrow> ShortDirEntry" where
  "setFstClusNo e clus =
     e\<lparr>fst_clus_high := ucast (drop_bit 16 clus), fst_clus_low := ucast (clus AND 0xFFFF)\<rparr>"

definition readEntryClusNo :: "ShortDirEntry \<Rightarrow> u32" where
  "readEntryClusNo e = push_bit 16 (ucast (fst_clus_high e)) OR ucast (fst_clus_low e)"

definition isDirectory :: "ShortDirEntry \<Rightarrow> bool" where
  "isDirectory e \<longleftrightarrow> se_attr e AND KAttrDirectory \<noteq> 0"

definition isLongDirEntry :: "LongDirEntry \<Rightarrow> bool" where
  "isLongDirEntry e \<longleftrightarrow> le_attr e AND KAttrLongNameMask = KAttrLongName"

definition isValidLongDirEntry :: "LongDirEntry \<Rightarrow> u8 \<Rightarrow> bool" where
  "isValidLongDirEntry e crc \<longleftrightarrow>
     isLongDirEntry e \<and> le_type e = 0 \<and> chk_sum e = crc \<and> le_fst_clus_low e = 0"

definition isEmptyDirEntry :: "LongDirEntry \<Rightarrow> bool" where
  "isEmptyDirEntry e \<longleftrightarrow> le_ord e = 0 \<or> le_ord e = 0xE5"

definition isLstEmptyDirEntry :: "LongDirEntry \<Rightarrow> bool" where
  "isLstEmptyDirEntry e \<longleftrightarrow> le_ord e = 0"

definition setDirEntryEmpty :: "LongDirEntry \<Rightarrow> LongDirEntry" where
  "setDirEntryEmpty e = e\<lparr>le_ord := 0xE5\<rparr>"

definition setDirEntryLstEmpty :: "LongDirEntry \<Rightarrow> LongDirEntry" where
  "setDirEntryLstEmpty e = e\<lparr>le_ord := 0\<rparr>"

datatype EntryType = KEmpty | KEnd | KExist

definition parseEntryType :: "ShortDirEntry \<Rightarrow> EntryType" where
  "parseEntryType e = (let first_byte = se_name e ! 0 in
     if first_byte = 0xE5 then KEmpty else if first_byte = 0 then KEnd else KExist)"

section \<open>Round trips\<close>

lemma nth_drops: "i < length p \<Longrightarrow> drop i p = p ! i # drop (Suc i) p"
  by (simp add: Cons_nth_drop_Suc)

lemma field_step: "i < length p \<Longrightarrow> field p i (Suc n) = p ! i # field p (Suc i) n"
  by (simp add: field_def nth_drops)

lemma field_0 [simp]: "field p i 0 = []"
  by (simp add: field_def)

lemma field_all: "length p = n \<Longrightarrow> field p 0 n = p"
  by (simp add: field_def)

lemma decode_encode_short:
  assumes "length p = 32"
  shows "encode_short (decode_short p) = p"
proof -
  have "encode_short (decode_short p) = field p 0 32"
    using assms by (simp add: encode_short_def decode_short_def bytes16_get16 bytes32_get32
        field_step numeral_eq_Suc)
  then show ?thesis using assms by (simp add: field_all)
qed

lemma decode_encode_long:
  assumes "length p = 32"
  shows "encode_long (decode_long p) = p"
proof -
  have "encode_long (decode_long p) = field p 0 32"
    using assms by (simp add: encode_long_def decode_long_def bytes16_get16 field_step numeral_eq_Suc)
  then show ?thesis using assms by (simp add: field_all)
qed

lemma get16_append: "i + 1 < length xs \<Longrightarrow> get16 (xs @ ys) i = get16 xs i"
  "length xs \<le> i \<Longrightarrow> get16 (xs @ ys) i = get16 ys (i - length xs)"
  by (simp_all add: get16_def nth_append Suc_diff_le)

definition wf_short :: "ShortDirEntry \<Rightarrow> bool" where
  "wf_short e \<longleftrightarrow> length (se_name e) = 11"

definition wf_long :: "LongDirEntry \<Rightarrow> bool" where
  "wf_long e \<longleftrightarrow> length (name1 e) = 10 \<and> length (name2 e) = 12 \<and> length (name3 e) = 4"

lemma length_encode [simp]:
  "wf_short e \<Longrightarrow> length (encode_short e) = 32" "wf_long l \<Longrightarrow> length (encode_long l) = 32"
  by (simp_all add: wf_short_def wf_long_def encode_short_def encode_long_def)

lemma wf_decode: "length p = 32 \<Longrightarrow> wf_short (decode_short p)" "length p = 32 \<Longrightarrow> wf_long (decode_long p)"
  by (simp_all add: wf_short_def wf_long_def decode_short_def decode_long_def field_def)

lemma encode_decode_short: "wf_short e \<Longrightarrow> decode_short (encode_short e) = e"
  by (simp add: wf_short_def decode_short_def encode_short_def field_def nth_append
      get16_def get32_def bytes16_def bytes32_def u16_of_bytes u32_of_bytes)

lemma encode_decode_long: "wf_long e \<Longrightarrow> decode_long (encode_long e) = e"
  by (simp add: wf_long_def decode_long_def encode_long_def field_def nth_append
      get16_def bytes16_def u16_of_bytes)

lemma cast_round_trip:
  "wf_short e \<Longrightarrow> castLongDirEntryToShort (castShortDirEntryToLong e) = e"
  "wf_long l \<Longrightarrow> castShortDirEntryToLong (castLongDirEntryToShort l) = l"
  by (simp_all add: castLongDirEntryToShort_def castShortDirEntryToLong_def
      decode_encode_long decode_encode_short encode_decode_short encode_decode_long)

lemma readEntryClusNo_set: "readEntryClusNo (setFstClusNo e clus) = clus"
proof -
  have "push_bit 16 (ucast (ucast (drop_bit 16 clus) :: u16)) OR ucast (ucast (clus AND 0xFFFF) :: u16) = clus"
    (is "?l = _")
  proof (rule bit_word_eqI)
    fix n assume "n < LENGTH(32)"
    then consider "n < 16" | "16 \<le> n" "n < 32" by fastforce
    moreover have "(0xFFFF :: u32) = mask 16" by (simp add: mask_eq_exp_minus_1)
    ultimately show "bit ?l n = bit clus n"
      unfolding \<open>0xFFFF = mask 16\<close> by cases (auto simp: bit_simps)
  qed
  then show ?thesis by (simp add: readEntryClusNo_def setFstClusNo_def)
qed

section \<open>Reading and writing one FAT entry\<close>

lemma readFATClusEntryVal_eq:
  "unat off + 4 \<le> length buf \<Longrightarrow>
    readFATClusEntryVal buf off = Some (get32 buf (unat off) AND 0x0FFFFFFF)"
  by (simp add: readFATClusEntryVal_def)

lemma writeFATClusEntryVal_eq:
  assumes "unat off + 4 \<le> length buf"
  shows "writeFATClusEntryVal off v buf = Some (put32 buf (unat off)
    ((get32 buf (unat off) AND 0xF0000000) OR (v AND 0x0FFFFFFF)))"
proof -
  have "put32 (put32 buf i a) i b = put32 buf i b" if "i + 4 \<le> length buf" for i a b
    using that by (simp add: put32_def overwrite_def)
  then show ?thesis
    using assms by (simp add: writeFATClusEntryVal_def get32_put32_same Let_def)
qed

lemma fat_entry_masks:
  fixes v w :: u32
  shows "((w AND 0xF0000000) OR (v AND 0x0FFFFFFF)) AND 0x0FFFFFFF = v AND 0x0FFFFFFF"
    and "((w AND 0xF0000000) OR (v AND 0x0FFFFFFF)) AND 0xF0000000 = w AND 0xF0000000"
proof -
  have z: "(0xF0000000 :: u32) AND 0x0FFFFFFF = 0" "(0x0FFFFFFF :: u32) AND 0xF0000000 = 0" by simp_all
  show "((w AND 0xF0000000) OR (v AND 0x0FFFFFFF)) AND 0x0FFFFFFF = v AND 0x0FFFFFFF"
    by (simp add: bit.conj_disj_distrib2 and.assoc z(1))
  show "((w AND 0xF0000000) OR (v AND 0x0FFFFFFF)) AND 0xF0000000 = w AND 0xF0000000"
    by (simp add: bit.conj_disj_distrib2 and.assoc z(2))
qed

section \<open>Where clusters and FAT entries lie\<close>

text \<open>
  A sane boot sector: 512-byte sectors, at least one sector per cluster, one or more FATs,
  and the reserved area and the FATs inside the volume, so that no sector number wraps.
\<close>

definition fat_area :: "BPB \<Rightarrow> nat" where
  "fat_area bpb = unat (BPB_resvd_sec_cnt bpb) + unat (BPB_num_fats bpb) * unat (BPB_FATsz32 bpb)"

definition geometry_ok :: "BPB \<Rightarrow> bool" where
  "geometry_ok bpb \<longleftrightarrow> unat (BPB_bytes_per_sec bpb) = SECTOR_SIZE \<and> BPB_sec_per_clus bpb \<noteq> 0
     \<and> BPB_num_fats bpb \<noteq> 0 \<and> fat_area bpb \<le> unat (BPB_tot_sec32 bpb)
     \<and> unat (BPB_FATsz32 bpb) \<le> 2 ^ 21"

definition cluster_count :: "BPB \<Rightarrow> nat" where
  "cluster_count bpb = (unat (BPB_tot_sec32 bpb) - fat_area bpb) div unat (BPB_sec_per_clus bpb)"

lemma geometryD:
  assumes "geometry_ok bpb"
  shows "BPB_bytes_per_sec bpb = 512" and "0 < unat (BPB_sec_per_clus bpb)"
    and "0 < unat (BPB_num_fats bpb)" and "fat_area bpb < 2 ^ 32"
    and "fat_area bpb \<le> unat (BPB_tot_sec32 bpb)" and "unat (BPB_FATsz32 bpb) \<le> 2 ^ 21"
proof -
  have "fat_area bpb \<le> unat (BPB_tot_sec32 bpb)" using assms by (simp add: geometry_ok_def)
  also have "\<dots> < 2 ^ 32" using unsigned_less [of "BPB_tot_sec32 bpb", where 'a = nat] by simp
  finally show "fat_area bpb < 2 ^ 32" .
  show "BPB_bytes_per_sec bpb = 512"
    using assms by (simp add: geometry_ok_def SECTOR_SIZE_def word_unat_eq_iff)
  show "0 < unat (BPB_sec_per_clus bpb)" "0 < unat (BPB_num_fats bpb)"
    "fat_area bpb \<le> unat (BPB_tot_sec32 bpb)" "unat (BPB_FATsz32 bpb) \<le> 2 ^ 21"
    using assms by (simp_all add: geometry_ok_def word_unat_eq_iff)
qed

lemma unat_FirstDataSector:
  assumes "geometry_ok bpb"
  shows "unat (getFirstDataSector bpb) = fat_area bpb"
proof -
  have lt: "fat_area bpb < 2 ^ 32" by (rule geometryD(4) [OF assms])
  have m: "unat (ucast (BPB_num_fats bpb) * BPB_FATsz32 bpb)
      = unat (BPB_num_fats bpb) * unat (BPB_FATsz32 bpb)"
    using lt by (subst unat_times) (simp_all add: unat_ucast_up fat_area_def)
  show ?thesis
    unfolding getFirstDataSector_def
    using lt by (subst unat_plus) (simp_all add: m unat_ucast_up fat_area_def)
qed

lemma unat_CountOfClusters:
  assumes "geometry_ok bpb"
  shows "\<exists>cnt. getCountOfClusters bpb = Some cnt \<and> unat cnt = cluster_count bpb"
proof -
  have "getDataSecCnt bpb = BPB_tot_sec32 bpb - getFirstDataSector bpb"
    by (simp add: getDataSecCnt_def getFirstDataSector_def)
  moreover have "unat (BPB_tot_sec32 bpb - getFirstDataSector bpb) = unat (BPB_tot_sec32 bpb) - fat_area bpb"
    using unat_FirstDataSector [OF assms] geometryD(5) [OF assms]
    by (subst unat_sub) (simp_all add: word_le_nat_alt)
  moreover have "BPB_sec_per_clus bpb \<noteq> 0" using assms by (simp add: geometry_ok_def)
  ultimately show ?thesis
    by (simp add: getCountOfClusters_def unat_div_distrib unat_ucast_up cluster_count_def)
qed

lemma unat_FirstSectorOfCluster:
  assumes "geometry_ok bpb" and "2 \<le> unat n" and "unat n < cluster_count bpb + 2"
  shows "unat (getFirstSectorOfCluster bpb n) = fat_area bpb + (unat n - 2) * unat (BPB_sec_per_clus bpb)"
    and "fat_area bpb + (unat n - 1) * unat (BPB_sec_per_clus bpb) \<le> unat (BPB_tot_sec32 bpb)"
proof -
  let ?s = "unat (BPB_sec_per_clus bpb)"
  have two: "unat (n - 2) = unat n - 2"
    using assms(2) by (subst unat_sub) (simp_all add: word_le_nat_alt)
  have "(unat n - 1) * ?s \<le> cluster_count bpb * ?s" using assms(3) by (intro mult_le_mono1) simp
  also have "\<dots> \<le> unat (BPB_tot_sec32 bpb) - fat_area bpb" by (simp add: cluster_count_def)
  finally show le: "fat_area bpb + (unat n - 1) * ?s \<le> unat (BPB_tot_sec32 bpb)"
    using geometryD(5) [OF assms(1)] by simp
  have "(unat n - 2) * ?s + fat_area bpb \<le> (unat n - 1) * ?s + fat_area bpb"
    by (intro add_mono mult_le_mono1) simp_all
  also have "\<dots> \<le> unat (BPB_tot_sec32 bpb)" using le by simp
  also have "\<dots> < 2 ^ 32" using unsigned_less [of "BPB_tot_sec32 bpb", where 'a = nat] by simp
  finally have lt: "(unat n - 2) * ?s + fat_area bpb < 2 ^ 32" .
  have m: "unat ((n - 2) * ucast (BPB_sec_per_clus bpb)) = (unat n - 2) * ?s"
    using lt by (subst unat_times) (simp_all add: two unat_ucast_up)
  show "unat (getFirstSectorOfCluster bpb n) = fat_area bpb + (unat n - 2) * ?s"
    unfolding getFirstSectorOfCluster_def using lt
    by (subst unat_plus) (simp_all add: m unat_FirstDataSector [OF assms(1)])
qed

lemma ClusPosOnFAT:
  assumes "geometry_ok bpb" and "unat n < 2 ^ 28" and "unat n < 128 * unat (BPB_FATsz32 bpb)"
  shows "\<exists>p. getClusPosOnFAT bpb n = Some p
    \<and> unat (fat_sec_num p) = unat (BPB_resvd_sec_cnt bpb) + unat n div 128
    \<and> unat (fat_ent_offset p) = 4 * (unat n mod 128)"
proof -
  have n4: "unat (n * 4) = 4 * unat n" using assms(2) by (subst unat_times) simp_all
  have bps: "(ucast (BPB_bytes_per_sec bpb) :: u32) = 512"
    using geometryD(1) [OF assms(1)] by simp
  have "4 * unat n mod 512 = 4 * (unat n mod 128)"
    using mult_mod_right [of 4 "unat n" 128] by simp
  then have d: "unat (n * 4 div 512) = unat n div 128" "unat (n * 4 mod 512) = 4 * (unat n mod 128)"
    using n4 by (simp_all add: unat_div_distrib unat_mod_distrib)
  have "unat n div 128 < unat (BPB_FATsz32 bpb)" using assms(3) by (simp add: div_less_iff_less_mult mult.commute)
  also have "\<dots> \<le> unat (BPB_num_fats bpb) * unat (BPB_FATsz32 bpb)"
    using geometryD(3) [OF assms(1)] by simp
  finally have "unat (BPB_resvd_sec_cnt bpb) + unat n div 128 < 2 ^ 32"
    using geometryD(4) [OF assms(1)] by (simp add: fat_area_def)
  then have "unat (ucast (BPB_resvd_sec_cnt bpb) + n * 4 div 512 :: u32) = unat (BPB_resvd_sec_cnt bpb) + unat n div 128"
    by (subst unat_plus) (simp_all add: d unat_ucast_up)
  then show ?thesis by (simp add: getClusPosOnFAT_def bps d Let_def)
qed

section \<open>Properties\<close>

text \<open>A boot sector for witnesses: 32 reserved sectors, two FATs of 4 sectors, 512 data sectors.\<close>

definition demo_BPB :: BPB where
  "demo_BPB = \<lparr>BS_jmp_boot = [0xEB, 0x58, 0x90], BS_oem_name = replicate 8 0x20,
     BPB_bytes_per_sec = 512, BPB_sec_per_clus = 2, BPB_resvd_sec_cnt = 32, BPB_num_fats = 2,
     BPB_root_ent_cnt = 0, BPB_tot_sec16 = 0, BPB_media = 0xF8, BPB_FATsz16 = 0,
     BPB_sec_per_trk = 32, BPB_num_heads = 8, BPB_hidd_sec = 0, BPB_tot_sec32 = 552,
     BPB_FATsz32 = 4, BPB_ext_flags = 0, BPB_FSVer = 0, BPB_root_clus = 2, BPB_fs_info = 1,
     BPB_bk_boot_sec = 6, BPB_reserved = replicate 12 0, BS_drv_num = 0x80, BS_reserved1 = 0,
     BS_boot_sig = 0x29, BS_vol_id = 0, BS_vol_lab = replicate 11 0x20,
     BS_fil_sys_type = replicate 8 0x20\<rparr>"

lemma demo_BPB_ok: "geometry_ok demo_BPB" "cluster_count demo_BPB = 256" "fat_area demo_BPB = 40"
  by (simp_all add: geometry_ok_def cluster_count_def fat_area_def demo_BPB_def SECTOR_SIZE_def)

text \<open>A 32-byte slot of a directory survives being read as either struct and written
  back, the two reference casts undo each other, and the first cluster stored in a short entry
  is read back through its two halves.\<close>

lemma directory_entry_round_trips:
  assumes "length p = 32" and "wf_short e" and "wf_long l"
  shows "encode_short (decode_short p) = p \<and> encode_long (decode_long p) = p
    \<and> castLongDirEntryToShort (castShortDirEntryToLong e) = e
    \<and> castShortDirEntryToLong (castLongDirEntryToShort l) = l
    \<and> readEntryClusNo (decode_short (encode_short (setFstClusNo e clus))) = clus"
proof -
  have "wf_short (setFstClusNo e clus)" using assms(2) by (simp add: wf_short_def setFstClusNo_def)
  then show ?thesis
    using assms by (simp add: decode_encode_short decode_encode_long cast_round_trip
        encode_decode_short readEntryClusNo_set)
qed

lemma directory_entry_round_trips_example:
  "encode_short (decode_short (replicate 32 9)) = replicate 32 9
    \<and> readEntryClusNo (decode_short (encode_short (setFstClusNo (decode_short (replicate 32 9)) 0x12345))) = 0x12345"
  using directory_entry_round_trips [of "replicate 32 9" "decode_short (replicate 32 9)"
      "decode_long (replicate 32 9)" "0x12345"] by (simp add: wf_decode)

text \<open>Writing a FAT entry into a sector buffer stores the low 28 bits, keeps the top four
  bits that belong to the disk, and touches no other byte; reading the entry returns the 28
  bits.\<close>

lemma FAT_entry_write_read:
  assumes "unat off + 4 \<le> length buf"
  shows "\<exists>buf'. writeFATClusEntryVal off v buf = Some buf'
    \<and> readFATClusEntryVal buf' off = Some (v AND 0x0FFFFFFF)
    \<and> get32 buf' (unat off) AND 0xF0000000 = get32 buf (unat off) AND 0xF0000000
    \<and> length buf' = length buf \<and> take (unat off) buf' = take (unat off) buf
    \<and> drop (unat off + 4) buf' = drop (unat off + 4) buf"
  using assms
  by (simp add: writeFATClusEntryVal_eq readFATClusEntryVal_eq get32_put32_same fat_entry_masks)
    (simp add: put32_def overwrite_def)

lemma FAT_entry_write_read_example:
  "\<exists>buf'. writeFATClusEntryVal 4 0xF2345678 (replicate 12 0xA5) = Some buf'
    \<and> readFATClusEntryVal buf' 4 = Some 0x02345678
    \<and> get32 buf' 4 AND 0xF0000000 = 0xA0000000"
proof -
  have "get32 (replicate 12 0xA5) 4 = 0xA5A5A5A5" by (simp add: get32_def)
  then show ?thesis using FAT_entry_write_read [of 4 "replicate 12 0xA5" "0xF2345678"] by auto
qed

text \<open>In a sane boot sector every data cluster 2 .. CountOfClusters + 1 gets its own run of
  sectors, after the FATs and inside the volume, and two clusters never share a sector.\<close>

lemma clusters_do_not_overlap:
  assumes "geometry_ok bpb" and "getCountOfClusters bpb = Some cnt"
    and "2 \<le> unat m" and "unat m < unat n" and "unat n < unat cnt + 2"
  shows "unat (getFirstDataSector bpb) \<le> unat (getFirstSectorOfCluster bpb m)
    \<and> unat (getFirstSectorOfCluster bpb m) + unat (BPB_sec_per_clus bpb) \<le> unat (getFirstSectorOfCluster bpb n)
    \<and> unat (getFirstSectorOfCluster bpb n) + unat (BPB_sec_per_clus bpb) \<le> unat (BPB_tot_sec32 bpb)"
proof -
  let ?s = "unat (BPB_sec_per_clus bpb)"
  have cnt: "unat cnt = cluster_count bpb" using unat_CountOfClusters [OF assms(1)] assms(2) by auto
  have "(unat m - 2 + 1) * ?s \<le> (unat n - 2) * ?s" using assms(3,4) by (intro mult_le_mono1) simp
  then have "(unat m - 2) * ?s + ?s \<le> (unat n - 2) * ?s" by (simp only: add_mult_distrib mult_1)
  moreover have "(unat n - Suc 0) * ?s = (unat n - 2) * ?s + ?s"
    using assms(3,4) mult_Suc [of "unat n - 2" ?s] by (simp add: numeral_2_eq_2 Suc_diff_Suc)
  ultimately show ?thesis
    using unat_FirstSectorOfCluster [OF assms(1), of m] unat_FirstSectorOfCluster [OF assms(1), of n]
      unat_FirstDataSector [OF assms(1)] assms(3-5) cnt by (simp del: mult_le_cancel2)
qed

lemma clusters_do_not_overlap_example:
  "unat (getFirstSectorOfCluster demo_BPB 256) + 2 \<le> unat (getFirstSectorOfCluster demo_BPB 257)
    \<and> unat (getFirstSectorOfCluster demo_BPB 257) + 2 \<le> 552"
proof -
  have "getCountOfClusters demo_BPB = Some 256"
    by (simp add: getCountOfClusters_def getDataSecCnt_def demo_BPB_def)
  from clusters_do_not_overlap [OF demo_BPB_ok(1) this, of 256 257]
  show ?thesis by (simp add: demo_BPB_def)
qed

text \<open>The FAT entry of a cluster lies inside the first FAT, at a multiple of four that
  leaves room for the entry in its sector, and two clusters never share an entry.\<close>

lemma FAT_positions_are_distinct:
  assumes "geometry_ok bpb" and "unat (max m n) < 2 ^ 28" and "unat (max m n) < 128 * unat (BPB_FATsz32 bpb)"
  shows "\<exists>p q. getClusPosOnFAT bpb m = Some p \<and> getClusPosOnFAT bpb n = Some q
    \<and> unat (getFirstFATSector bpb 0) \<le> unat (fat_sec_num p)
    \<and> unat (fat_sec_num p) < unat (getFirstFATSector bpb 0) + unat (BPB_FATsz32 bpb)
    \<and> unat (fat_ent_offset p) + 4 \<le> SECTOR_SIZE \<and> unat (fat_ent_offset p) mod 4 = 0
    \<and> (p = q \<longleftrightarrow> m = n)"
proof -
  have mn: "unat m \<le> unat (max m n)" "unat n \<le> unat (max m n)"
    by (simp_all flip: word_le_nat_alt)
  obtain p where p: "getClusPosOnFAT bpb m = Some p" "unat (fat_ent_offset p) = 4 * (unat m mod 128)"
      "unat (fat_sec_num p) = unat (BPB_resvd_sec_cnt bpb) + unat m div 128"
    using ClusPosOnFAT [OF assms(1), of m] assms(2,3) mn by auto
  obtain q where q: "getClusPosOnFAT bpb n = Some q" "unat (fat_ent_offset q) = 4 * (unat n mod 128)"
      "unat (fat_sec_num q) = unat (BPB_resvd_sec_cnt bpb) + unat n div 128"
    using ClusPosOnFAT [OF assms(1), of n] assms(2,3) mn by auto
  have "unat m div 128 < unat (BPB_FATsz32 bpb)"
    using assms(3) mn by (simp add: div_less_iff_less_mult mult.commute)
  moreover have "p = q \<longleftrightarrow> m = n"
  proof
    assume "p = q"
    then have "unat m div 128 = unat n div 128" "unat m mod 128 = unat n mod 128"
      using p q by simp_all
    then show "m = n" by (metis div_mult_mod_eq word_unat_eq_iff)
  qed (use p(1) q(1) in simp)
  ultimately show ?thesis
    using p q by (simp add: getFirstFATSector_def unat_ucast_up SECTOR_SIZE_def)
qed

lemma FAT_positions_are_distinct_example:
  "getClusPosOnFAT demo_BPB 130 \<noteq> getClusPosOnFAT demo_BPB 131"
  using FAT_positions_are_distinct [OF demo_BPB_ok(1), of 130 131] by (auto simp: demo_BPB_def max_def)

end
