(* ===== verification/FatTable.thy ===== *)
theory FatTable
  imports Device Fat32Layout
begin

text \<open>
  The class \<open>FAT\<close> of \<^verbatim>\<open>library/fat32.h\<close> and \<^verbatim>\<open>library/fat32.cpp\<close>: the file allocation table
  behind a device, its allocator and its chains. The device is shared with the file system
  object; the record holds its current state. A loop that follows links on the disk may run
  for ever and is a \<open>partial_function (option)\<close>; the loops that scan the table end, and get the
  bounds the code reads from the object in every round as arguments.
\<close>

section \<open>The code\<close>

record 'd FAT =
  F_start_sec_no :: u32
  F_fat_sec_num :: u32
  F_cnt_of_clus :: u32
  F_bpb :: BPB
  F_free_count :: u32
  F_avail_clus_cnt :: "u32 option"
  F_device :: 'd

definition FAT_new :: "BPB \<Rightarrow> u32 \<Rightarrow> 'd \<Rightarrow> 'd FAT option" where
  "FAT_new bpb free_cnt d =
     do { cnt \<leftarrow> getCountOfClusters bpb;
          Some \<lparr>F_start_sec_no = getFirstFATSector bpb 0, F_fat_sec_num = BPB_FATsz32 bpb,
            F_cnt_of_clus = cnt, F_bpb = bpb, F_free_count = free_cnt, F_avail_clus_cnt = None,
            F_device = d\<rparr> }"

definition end_sec_no :: "'d FAT \<Rightarrow> u32" where
  "end_sec_no F = F_start_sec_no F + F_fat_sec_num F"

definition totalClusCnt :: "'d FAT \<Rightarrow> u32" where
  "totalClusCnt F = F_cnt_of_clus F"

definition inc_avail_cnt :: "u64 \<Rightarrow> 'd FAT \<Rightarrow> 'd FAT" where
  "inc_avail_cnt no F = F\<lparr>F_avail_clus_cnt := map_option (\<lambda>a. a + ucast no) (F_avail_clus_cnt F)\<rparr>"

definition dec_avail_cnt :: "u64 \<Rightarrow> 'd FAT \<Rightarrow> 'd FAT" where
  "dec_avail_cnt no F = F\<lparr>F_avail_clus_cnt := map_option (\<lambda>a. a - ucast no) (F_avail_clus_cnt F)\<rparr>"

subsection \<open>One entry\<close>

definition readFatEntry :: "'d device_ops \<Rightarrow> 'd FAT \<Rightarrow> u32 \<Rightarrow> u32 \<Rightarrow> (u32 \<times> 'd FAT) option" where
  "readFatEntry D F sec_no off =
     do { (p, d) \<leftarrow> dev_load D (F_device F) sec_no 0;
          v \<leftarrow> readFATClusEntryVal p off;
          Some (v, F\<lparr>F_device := d\<rparr>) }"

text \<open>The loop over the copies of the FAT; \<open>i\<close> is a \<open>u16\<close> that stays below 256.\<close>

fun write_copies ::
  "'d device_ops \<Rightarrow> 'd \<Rightarrow> u32 \<Rightarrow> u32 \<Rightarrow> u32 \<Rightarrow> u32 \<Rightarrow> u16 list \<Rightarrow> 'd option" where
  "write_copies D d fat_sz sec_no off v [] = Some d"
| "write_copies D d fat_sz sec_no off v (i # is) =
     do { d' \<leftarrow> dev_modify D d (sec_no + ucast i * fat_sz) 0 (writeFATClusEntryVal off v);
          write_copies D d' fat_sz sec_no off v is }"

definition writeFatEntry :: "'d device_ops \<Rightarrow> 'd FAT \<Rightarrow> u32 \<Rightarrow> u32 \<Rightarrow> u32 \<Rightarrow> 'd FAT option" where
  "writeFatEntry D F sec_no off v =
     do { d \<leftarrow> write_copies D (F_device F) (BPB_FATsz32 (F_bpb F)) sec_no off v
            (map of_nat [0..<unat (BPB_num_fats (F_bpb F))]);
          Some (F\<lparr>F_device := d\<rparr>) }"

text \<open>\<open>getClusPosOnFAT\<close> followed by a read or a write of the entry there.\<close>

definition read_clus :: "'d device_ops \<Rightarrow> 'd FAT \<Rightarrow> u32 \<Rightarrow> (u32 \<times> 'd FAT) option" where
  "read_clus D F clus =
     do { p \<leftarrow> getClusPosOnFAT (F_bpb F) clus; readFatEntry D F (fat_sec_num p) (fat_ent_offset p) }"

definition write_clus :: "'d device_ops \<Rightarrow> 'd FAT \<Rightarrow> u32 \<Rightarrow> u32 \<Rightarrow> 'd FAT option" where
  "write_clus D F clus v =
     do { p \<leftarrow> getClusPosOnFAT (F_bpb F) clus; writeFatEntry D F (fat_sec_num p) (fat_ent_offset p) v }"

lemma unat_Suc32: "unat x < k \<Longrightarrow> k < 2 ^ 32 \<Longrightarrow> unat (x + 1) = Suc (unat x)" for x :: u32
  by (simp add: unat_plus)

subsection \<open>Counting the free clusters\<close>

function avail_inner ::
  "'d device_ops \<Rightarrow> u32 \<Rightarrow> u32 \<Rightarrow> 'd FAT \<Rightarrow> u32 \<Rightarrow> u32 \<Rightarrow> u32 \<Rightarrow> (u32 \<times> u32 \<times> 'd FAT) option" where
  "avail_inner D n i F j cnt avail =
     (if j < 128 \<and> cnt < n
      then do { (v, F') \<leftarrow> readFatEntry D F i (j * 4);
                avail_inner D n i F' (j + 1) (cnt + 1) (if v = 0 then avail + 1 else avail) }
      else Some (cnt, avail, F))"
  by pat_completeness auto
termination
  by (relation "measure (\<lambda>(D, n, i, F, j, cnt, avail). 128 - unat j)")
    (auto simp: word_less_nat_alt unat_Suc32 [of _ 128])

function avail_outer ::
  "'d device_ops \<Rightarrow> u32 \<Rightarrow> u32 \<Rightarrow> 'd FAT \<Rightarrow> u32 \<Rightarrow> u32 \<Rightarrow> u32 \<Rightarrow> (u32 \<times> 'd FAT) option" where
  "avail_outer D n e F i cnt avail =
     (if i < e \<and> cnt < n
      then do { (cnt', avail', F') \<leftarrow> avail_inner D n i F 0 cnt avail;
                avail_outer D n e F' (i + 1) cnt' avail' }
      else Some (avail, F))"
  by pat_completeness auto
termination
  by (relation "measure (\<lambda>(D, n, e, F, i, cnt, avail). unat e - unat i)")
    (auto simp: word_less_nat_alt unat_plus1)

definition availClusCnt :: "'d device_ops \<Rightarrow> 'd FAT \<Rightarrow> (u32 \<times> 'd FAT) option" where
  "availClusCnt D F =
     (case F_avail_clus_cnt F of
        Some a \<Rightarrow> Some (a, F)
      | None \<Rightarrow>
          do { (a, F') \<leftarrow> avail_outer D (F_cnt_of_clus F) (end_sec_no F) F (F_start_sec_no F) 0 0;
               Some (a, F'\<lparr>F_avail_clus_cnt := Some a\<rparr>) })"

subsection \<open>Allocation\<close>

text \<open>
  The state of the scan: the last cluster allocated (\<open>cur_clus\<close>), how many there are
  (\<open>alloc_num\<close>) and the chain. \<open>Inl\<close> is the return from inside the loops.
\<close>

record scan =
  cur_clus :: u32
  alloc_num :: u32
  clus_chain :: "u32 list"

definition take_clus :: "'d device_ops \<Rightarrow> u32 \<Rightarrow> 'd FAT \<Rightarrow> scan \<Rightarrow> u32 \<Rightarrow>
    ((u32 list \<times> 'd FAT) + (scan \<times> 'd FAT)) option" where
  "take_clus D req F s cnt =
     do { F1 \<leftarrow> (if cur_clus s \<noteq> 0 then write_clus D F (cur_clus s) cnt else Some F);
          let s' = \<lparr>cur_clus = cnt, alloc_num = alloc_num s + 1, clus_chain = clus_chain s @ [cnt]\<rparr>;
          let F2 = dec_avail_cnt 1 F1;
          if alloc_num s' = req
          then do { F3 \<leftarrow> write_clus D F2 cnt KFat32EocMark; Some (Inl (clus_chain s', F3)) }
          else Some (Inr (s', F2)) }"

function alloc_inner :: "'d device_ops \<Rightarrow> u32 \<Rightarrow> u32 \<Rightarrow> u32 \<Rightarrow> 'd FAT \<Rightarrow> scan \<Rightarrow> u32 \<Rightarrow> u32 \<Rightarrow>
    ((u32 list \<times> 'd FAT) + (u32 \<times> scan \<times> 'd FAT)) option" where
  "alloc_inner D n req i F s j cnt =
     (if j < 128 \<and> cnt < n
      then do { (v, F1) \<leftarrow> readFatEntry D F i (j * 4);
                if v = 0
                then do { r \<leftarrow> take_clus D req F1 s cnt;
                          case r of Inl out \<Rightarrow> Some (Inl out)
                          | Inr (s', F2) \<Rightarrow> alloc_inner D n req i F2 s' (j + 1) (cnt + 1) }
                else alloc_inner D n req i F1 s (j + 1) (cnt + 1) }
      else Some (Inr (cnt, s, F)))"
  by pat_completeness auto
termination
  by (relation "measure (\<lambda>(D, n, req, i, F, s, j, cnt). 128 - unat j)")
    (auto simp: word_less_nat_alt unat_Suc32 [of _ 128])

function alloc_outer :: "'d device_ops \<Rightarrow> u32 \<Rightarrow> u32 \<Rightarrow> u32 \<Rightarrow> 'd FAT \<Rightarrow> scan \<Rightarrow> u32 \<Rightarrow> u32 \<Rightarrow>
    (u32 list \<times> 'd FAT) option" where
  "alloc_outer D n e req F s i cnt =
     (if i < e \<and> cnt < n
      then do { r \<leftarrow> alloc_inner D n req i F s 0 cnt;
                case r of Inl out \<Rightarrow> Some out
                | Inr (cnt', s', F') \<Rightarrow> alloc_outer D n e req F' s' (i + 1) cnt' }
      else None)"
  by pat_completeness auto
termination
  by (relation "measure (\<lambda>(D, n, e, req, F, s, i, cnt). unat e - unat i)")
    (auto simp: word_less_nat_alt unat_plus1)

declare avail_inner.simps [simp del] avail_outer.simps [simp del]
  alloc_inner.simps [simp del] alloc_outer.simps [simp del]

text \<open>\<open>None\<close> inside the result is the \<open>nullopt\<close> the caller gets.\<close>

definition allocClus :: "'d device_ops \<Rightarrow> 'd FAT \<Rightarrow> u32 \<Rightarrow> (u32 list option \<times> 'd FAT) option" where
  "allocClus D F req =
     do { (avail, F1) \<leftarrow> availClusCnt D F;
          if avail < req then Some (None, F1)
          else if F_free_count F1 \<noteq> 0xFFFFFFFF
          then let c = F_free_count F1;
                   s = \<lparr>cur_clus = c, alloc_num = 1, clus_chain = [c]\<rparr>;
                   F2 = dec_avail_cnt 1 (F1\<lparr>F_free_count := 0xFFFFFFFF\<rparr>)
               in if alloc_num s = req
                  then do { F3 \<leftarrow> write_clus D F2 c KFat32EocMark; Some (Some (clus_chain s), F3) }
                  else do { (cs, F3) \<leftarrow> alloc_outer D (F_cnt_of_clus F2) (end_sec_no F2) req F2 s
                              (F_start_sec_no F2) 0;
                            Some (Some cs, F3) }
          else do { (cs, F3) \<leftarrow> alloc_outer D (F_cnt_of_clus F1) (end_sec_no F1) req F1
                      \<lparr>cur_clus = 0, alloc_num = 0, clus_chain = []\<rparr> (F_start_sec_no F1) 0;
                    Some (Some cs, F3) } }"

subsection \<open>Chains\<close>

partial_function (option) free_loop :: "'d device_ops \<Rightarrow> 'd FAT \<Rightarrow> u32 \<Rightarrow> 'd FAT option" where
  "free_loop D F cur =
     (if isEndOfClusChain cur then Some F
      else do { (nxt, F1) \<leftarrow> read_clus D F cur;
                F2 \<leftarrow> write_clus D F1 cur 0;
                free_loop D (inc_avail_cnt 1 F2) nxt })"

definition freeClus :: "'d device_ops \<Rightarrow> 'd FAT \<Rightarrow> u32 \<Rightarrow> 'd FAT option" where
  "freeClus D F fst_clus = (if \<not> isValidCluster fst_clus then Some F else free_loop D F fst_clus)"

partial_function (option) chain_loop ::
  "'d device_ops \<Rightarrow> 'd FAT \<Rightarrow> u32 \<Rightarrow> u32 list \<Rightarrow> (u32 list \<times> 'd FAT) option" where
  "chain_loop D F cur acc =
     (if isEndOfClusChain cur then Some (acc, F)
      else do { (nxt, F1) \<leftarrow> read_clus D F cur; chain_loop D F1 nxt (acc @ [cur]) })"

definition readClusChains :: "'d device_ops \<Rightarrow> 'd FAT \<Rightarrow> u32 \<Rightarrow> (u32 list \<times> 'd FAT) option" where
  "readClusChains D F fst_clus =
     (if isValidCluster fst_clus then chain_loop D F fst_clus [] else Some ([], F))"

function clear_secs :: "'d device_ops \<Rightarrow> u32 \<Rightarrow> 'd FAT \<Rightarrow> u32 \<Rightarrow> 'd FAT option" where
  "clear_secs D e F i =
     (if i < e
      then do { d \<leftarrow> dev_modify D (F_device F) i 0
                  (\<lambda>p. let n = unat (BPB_bytes_per_sec (F_bpb F)) in
                    do { ensure (n \<le> length p); Some (overwrite p 0 (replicate n 0)) });
                clear_secs D e (F\<lparr>F_device := d\<rparr>) (i + 1) }
      else Some F)"
  by pat_completeness auto
termination
  by (relation "measure (\<lambda>(D, e, F, i). unat e - unat i)") (auto simp: word_less_nat_alt unat_plus1)

declare clear_secs.simps [simp del]

fun clearClusChain :: "'d device_ops \<Rightarrow> 'd FAT \<Rightarrow> u32 list \<Rightarrow> 'd FAT option" where
  "clearClusChain D F [] = Some F"
| "clearClusChain D F (c # cs) =
     do { ensure (isValidCluster c);
          let fst_sec = getFirstSectorOfCluster (F_bpb F) c;
          F1 \<leftarrow> clear_secs D (fst_sec + ucast (BPB_sec_per_clus (F_bpb F))) F fst_sec;
          clearClusChain D F1 cs }"

subsection \<open>Resizing\<close>

text \<open>The walk over the chain; it returns \<open>pre_clus\<close> and \<open>clus_cnt\<close>.\<close>

partial_function (option) resize_loop ::
  "'d device_ops \<Rightarrow> u32 \<Rightarrow> 'd FAT \<Rightarrow> u32 \<Rightarrow> u32 \<Rightarrow> u32 \<Rightarrow> (u32 \<times> u32 \<times> 'd FAT) option" where
  "resize_loop D clus_num F pre cur cnt =
     (if isEndOfClusChain cur then Some (pre, cnt, F)
      else do { (nxt, F1) \<leftarrow> read_clus D F cur;
                F2 \<leftarrow> (if cnt + 1 > clus_num
                       then do { F2 \<leftarrow> write_clus D F1 cur 0; Some (dec_avail_cnt 1 F2) }
                       else if cnt + 1 = clus_num then write_clus D F1 cur KFat32EocMark
                       else Some F1);
                resize_loop D clus_num F2 cur nxt (cnt + 1) })"

text \<open>The result, and the new value of the reference parameter \<open>fst_clus\<close>.\<close>

definition resize :: "'d device_ops \<Rightarrow> 'd FAT \<Rightarrow> u32 \<Rightarrow> u32 \<Rightarrow> bool \<Rightarrow> (bool \<times> u32 \<times> 'd FAT) option" where
  "resize D F fst_clus clus_num clear =
     do { (pre, cnt, F1) \<leftarrow>
            (if isValidCluster fst_clus then resize_loop D clus_num F fst_clus fst_clus 0
             else Some (fst_clus, 0, F));
          if cnt < clus_num
          then do { (r, F2) \<leftarrow> allocClus D F1 (clus_num - cnt);
                    case r of
                      None \<Rightarrow> Some (False, fst_clus, F2)
                    | Some cs \<Rightarrow>
                        do { F3 \<leftarrow> (if clear then clearClusChain D F2 cs else Some F2);
                             ensure (cs \<noteq> []);
                             if \<not> isValidCluster fst_clus then Some (True, hd cs, F3)
                             else do { F4 \<leftarrow> write_clus D F3 pre (hd cs); Some (True, fst_clus, F4) } } }
          else if clus_num = 0 then Some (True, 0, F1)
          else Some (True, fst_clus, F1) }"


section \<open>The table behind the sectors\<close>

text \<open>
  The FAT area of a view is a table of 28-bit entries, one per copy. \<open>fat_holds good view F E R\<close>
  ties the object \<open>F\<close> to it: the object was made for its boot sector, the device is in a good
  state, every copy of the FAT holds the table \<open>E\<close>, and the sectors outside the FATs are \<open>R\<close>.
\<close>

definition fat_entries :: "BPB \<Rightarrow> nat" where
  "fat_entries bpb = 128 * unat (BPB_FATsz32 bpb)"

definition fat_sec :: "BPB \<Rightarrow> nat \<Rightarrow> u32 \<Rightarrow> u32" where
  "fat_sec bpb k n =
     word_of_nat (unat (BPB_resvd_sec_cnt bpb) + k * unat (BPB_FATsz32 bpb) + unat n div 128)"

definition fat_tab :: "(u32 \<Rightarrow> bytes option) \<Rightarrow> BPB \<Rightarrow> nat \<Rightarrow> u32 \<Rightarrow> u32" where
  "fat_tab V bpb k n =
     (if unat n < fat_entries bpb
      then get32 (the (V (fat_sec bpb k n))) (4 * (unat n mod 128)) AND 0x0FFFFFFF else 0)"

definition fat_secs :: "BPB \<Rightarrow> u32 set" where
  "fat_secs bpb = {s. unat (BPB_resvd_sec_cnt bpb) \<le> unat s \<and> unat s < fat_area bpb}"

text \<open>A sane volume: its FATs are on the device and have an entry for every cluster.\<close>

definition fat_ok :: "(u32 \<Rightarrow> bytes option) \<Rightarrow> BPB \<Rightarrow> bool" where
  "fat_ok V bpb \<longleftrightarrow> geometry_ok bpb \<and> cluster_count bpb + 2 \<le> fat_entries bpb
     \<and> cluster_count bpb + 2 \<le> 0x0FFFFFF6 \<and> fat_secs bpb \<subseteq> dom V
     \<and> (\<forall>s bs. V s = Some bs \<longrightarrow> length bs = SECTOR_SIZE)"

definition fat_holds ::
  "('d \<Rightarrow> bool) \<Rightarrow> ('d \<Rightarrow> u32 \<Rightarrow> bytes option) \<Rightarrow> 'd FAT \<Rightarrow> (u32 \<Rightarrow> u32) \<Rightarrow> (u32 \<Rightarrow> bytes option) \<Rightarrow> bool" where
  "fat_holds good view F E R \<longleftrightarrow> good (F_device F) \<and> fat_ok (view (F_device F)) (F_bpb F)
     \<and> F_start_sec_no F = getFirstFATSector (F_bpb F) 0 \<and> F_fat_sec_num F = BPB_FATsz32 (F_bpb F)
     \<and> unat (F_cnt_of_clus F) = cluster_count (F_bpb F)
     \<and> (\<forall>k < unat (BPB_num_fats (F_bpb F)). fat_tab (view (F_device F)) (F_bpb F) k = E)
     \<and> view (F_device F) |` (- fat_secs (F_bpb F)) = R"

lemma fat_nat_lt:
  assumes "geometry_ok bpb" and "k < unat (BPB_num_fats bpb)" and "q < unat (BPB_FATsz32 bpb)"
  shows "unat (BPB_resvd_sec_cnt bpb) + k * unat (BPB_FATsz32 bpb) + q < fat_area bpb"
proof -
  have "k * unat (BPB_FATsz32 bpb) + q < Suc k * unat (BPB_FATsz32 bpb)" using assms(3) by simp
  also have "\<dots> \<le> unat (BPB_num_fats bpb) * unat (BPB_FATsz32 bpb)"
    using assms(2) by (intro mult_le_mono1) simp
  finally show ?thesis by (simp add: fat_area_def)
qed

lemma fat_entry_div: "unat n < fat_entries bpb \<Longrightarrow> unat n div 128 < unat (BPB_FATsz32 bpb)"
  by (simp add: fat_entries_def div_less_iff_less_mult mult.commute)

lemma unat_fat_sec:
  assumes "geometry_ok bpb" and "k < unat (BPB_num_fats bpb)" and "unat n < fat_entries bpb"
  shows "unat (fat_sec bpb k n) = unat (BPB_resvd_sec_cnt bpb) + k * unat (BPB_FATsz32 bpb) + unat n div 128"
    and "fat_sec bpb k n \<in> fat_secs bpb"
proof -
  note lt = fat_nat_lt [OF assms(1,2) fat_entry_div [OF assms(3)]]
  then show u: "unat (fat_sec bpb k n) = unat (BPB_resvd_sec_cnt bpb) + k * unat (BPB_FATsz32 bpb) + unat n div 128"
    using geometryD(4) [OF assms(1)] unfolding fat_sec_def by (intro unat_of_nat_lt) simp
  show "fat_sec bpb k n \<in> fat_secs bpb"
    using lt by (simp add: fat_secs_def u)
qed

lemma block_inj:
  fixes q q' f k k' :: nat
  assumes "q < f" and "q' < f"
  shows "k * f + q = k' * f + q' \<longleftrightarrow> k = k' \<and> q = q'"
proof
  assume e: "k * f + q = k' * f + q'"
  have "(k * f + q) div f = k" "(k' * f + q') div f = k'" using assms by auto
  with e have "k = k'" by simp
  with e show "k = k' \<and> q = q'" by simp
qed auto

lemma fat_sec_inj:
  assumes "geometry_ok bpb" and "k < unat (BPB_num_fats bpb)" and "unat n < fat_entries bpb"
    and "k' < unat (BPB_num_fats bpb)" and "unat m < fat_entries bpb"
  shows "fat_sec bpb k n = fat_sec bpb k' m \<longleftrightarrow> k = k' \<and> unat n div 128 = unat m div 128"
proof -
  let ?f = "unat (BPB_FATsz32 bpb)"
  have "k * ?f + unat n div 128 = k' * ?f + unat m div 128 \<longleftrightarrow> k = k' \<and> unat n div 128 = unat m div 128"
    using fat_entry_div [OF assms(3)] fat_entry_div [OF assms(5)] by (rule block_inj)
  then show ?thesis
    using unat_fat_sec(1) [OF assms(1-3)] unat_fat_sec(1) [OF assms(1,4,5)]
    by (auto simp: word_unat_eq_iff)
qed

text \<open>Writing one entry of one copy.\<close>

lemma fat_entry_eq: "unat n = unat m \<longleftrightarrow> unat n div 128 = unat m div 128 \<and> unat n mod 128 = unat m mod 128"
  for n m :: u32
  by (metis div_mult_mod_eq)

lemma put_fat_tab:
  assumes ok: "fat_ok V bpb" and k: "k < unat (BPB_num_fats bpb)" and n: "unat n < fat_entries bpb"
    and bs: "V (fat_sec bpb k n) = Some bs" and w: "w AND 0x0FFFFFFF = v AND 0x0FFFFFFF"
  defines "V' \<equiv> V(fat_sec bpb k n \<mapsto> put32 bs (4 * (unat n mod 128)) w)"
  shows "k' < unat (BPB_num_fats bpb) \<Longrightarrow> fat_tab V' bpb k' =
      (if k' = k then (fat_tab V bpb k)(n := v AND 0x0FFFFFFF) else fat_tab V bpb k')"
    and "fat_ok V' bpb" and "V' |` (- fat_secs bpb) = V |` (- fat_secs bpb)"
proof -
  have g: "geometry_ok bpb" and len: "length bs = 512"
    using ok bs by (auto simp: fat_ok_def SECTOR_SIZE_def)
  have off: "4 * (unat m mod 128) + 4 \<le> length bs" for m :: u32 using len by simp
  show "fat_ok V' bpb"
    using ok bs off [of n] by (auto simp: fat_ok_def V'_def)
  show "V' |` (- fat_secs bpb) = V |` (- fat_secs bpb)"
    using unat_fat_sec(2) [OF g k n] by (auto simp: V'_def restrict_map_def)
  assume k': "k' < unat (BPB_num_fats bpb)"
  have "fat_tab V' bpb k' m = (if k' = k \<and> m = n then v AND 0x0FFFFFFF else fat_tab V bpb k' m)" for m
  proof (cases "unat m < fat_entries bpb \<and> fat_sec bpb k' m = fat_sec bpb k n")
    case True
    then have kk: "k' = k" "unat m div 128 = unat n div 128"
      using fat_sec_inj [OF g k' _ k n, of m] by auto
    show ?thesis
    proof (cases "m = n")
      case False
      then have "unat m mod 128 \<noteq> unat n mod 128"
        using kk(2) fat_entry_eq [of m n] by (auto simp: word_unat_eq_iff)
      then have "4 * (unat m mod 128) + 4 \<le> 4 * (unat n mod 128) \<or> 4 * (unat n mod 128) + 4 \<le> 4 * (unat m mod 128)"
        by linarith
      then show ?thesis
        using False True kk bs get32_put32_other [OF off [of n] off [of m], of w] by (simp add: fat_tab_def V'_def)
    qed (use True kk bs n w in \<open>simp add: fat_tab_def V'_def get32_put32_same off\<close>)
  next
    case False
    then show ?thesis using n by (auto simp: fat_tab_def V'_def)
  qed
  then show "fat_tab V' bpb k' =
      (if k' = k then (fat_tab V bpb k)(n := v AND 0x0FFFFFFF) else fat_tab V bpb k')"
    by auto
qed

lemma fat_sec_code:
  assumes "geometry_ok bpb" and "getClusPosOnFAT bpb n = Some p" and "unat n < 2 ^ 28"
    and "unat n < fat_entries bpb" and "k < 256"
  shows "fat_sec_num p + ucast (of_nat k :: u16) * BPB_FATsz32 bpb = fat_sec bpb k n"
proof -
  have p: "unat (fat_sec_num p) = unat (BPB_resvd_sec_cnt bpb) + unat n div 128"
    using ClusPosOnFAT [OF assms(1,3)] assms(2,4) by (auto simp: fat_entries_def)
  have "fat_sec_num p = word_of_nat (unat (BPB_resvd_sec_cnt bpb) + unat n div 128)"
    using p by (metis of_nat_unat)
  moreover have "(ucast (of_nat k :: u16) :: u32) = word_of_nat k"
    using assms(5) by (simp add: word_unat_eq_iff unat_ucast_up unat_of_nat_lt)
  moreover have "fat_sec bpb k n = word_of_nat (unat (BPB_resvd_sec_cnt bpb)) +
      word_of_nat k * BPB_FATsz32 bpb + word_of_nat (unat n div 128)"
    unfolding fat_sec_def by (simp only: of_nat_add of_nat_mult of_nat_unat)
  ultimately show ?thesis by (simp only: of_nat_add) (simp add: algebra_simps)
qed

lemma fat_entries_28: "geometry_ok bpb \<Longrightarrow> unat n < fat_entries bpb \<Longrightarrow> unat n < 2 ^ 28"
  using geometryD(6) [of bpb] by (simp add: fat_entries_def)

context block_device
begin

lemma readFatEntry_ok:
  assumes h: "fat_holds good view F E R" and n: "unat n < fat_entries (F_bpb F)"
    and sec: "sec_no = fat_sec (F_bpb F) 0 n" and off: "unat off = 4 * (unat n mod 128)"
  shows "\<exists>d. readFatEntry D F sec_no off = Some (E n, F\<lparr>F_device := d\<rparr>) \<and> fat_holds good view (F\<lparr>F_device := d\<rparr>) E R"
proof -
  let ?V = "view (F_device F)" and ?bpb = "F_bpb F"
  have ok: "fat_ok ?V ?bpb" and g: "good (F_device F)" and geo: "geometry_ok ?bpb"
    using h by (auto simp: fat_holds_def fat_ok_def)
  have nf: "0 < unat (BPB_num_fats ?bpb)" by (rule geometryD(3) [OF geo])
  obtain bs where bs: "?V sec_no = Some bs"
    using ok unat_fat_sec(2) [OF geo nf n] sec by (auto simp: fat_ok_def)
  then have len: "length bs = 512" using ok by (auto simp: fat_ok_def SECTOR_SIZE_def)
  obtain d where d: "dev_load D (F_device F) sec_no 0 = Some (bs, d)" "good d" "view d = ?V"
    using dev_load_ok [OF g bs, of 0] by (auto simp: SECTOR_SIZE_def)
  have "fat_tab ?V ?bpb 0 n = E n" using h nf by (simp add: fat_holds_def)
  moreover have "fat_tab ?V ?bpb 0 n = get32 bs (unat off) AND 0x0FFFFFFF"
    using n bs sec off by (simp add: fat_tab_def)
  ultimately have "readFatEntry D F sec_no off = Some (E n, F\<lparr>F_device := d\<rparr>)"
    using len off by (simp add: readFatEntry_def d(1) readFATClusEntryVal_eq)
  moreover have "fat_holds good view (F\<lparr>F_device := d\<rparr>) E R" using h d by (simp add: fat_holds_def)
  ultimately show ?thesis by blast
qed

lemma read_clus_ok:
  assumes h: "fat_holds good view F E R" and n: "unat n < fat_entries (F_bpb F)"
  shows "\<exists>d. read_clus D F n = Some (E n, F\<lparr>F_device := d\<rparr>) \<and> fat_holds good view (F\<lparr>F_device := d\<rparr>) E R"
proof -
  have geo: "geometry_ok (F_bpb F)" using h by (simp add: fat_holds_def fat_ok_def)
  obtain p where p: "getClusPosOnFAT (F_bpb F) n = Some p" "unat (fat_ent_offset p) = 4 * (unat n mod 128)"
    using ClusPosOnFAT [OF geo fat_entries_28 [OF geo n]] n by (auto simp: fat_entries_def)
  have "fat_sec_num p = fat_sec (F_bpb F) 0 n"
    using fat_sec_code [OF geo p(1) fat_entries_28 [OF geo n] n, of 0] by simp
  from readFatEntry_ok [OF h n this p(2)] show ?thesis by (simp add: read_clus_def p(1))
qed

lemma write_copies_ok:
  assumes "good d" and "fat_ok (view d) bpb" and n: "unat n < fat_entries bpb"
    and p: "getClusPosOnFAT bpb n = Some p" and "distinct ks" and "set ks \<subseteq> {..<unat (BPB_num_fats bpb)}"
  shows "\<exists>d'. write_copies D d (BPB_FATsz32 bpb) (fat_sec_num p) (fat_ent_offset p) v (map of_nat ks) = Some d'
    \<and> good d' \<and> fat_ok (view d') bpb \<and> view d' |` (- fat_secs bpb) = view d |` (- fat_secs bpb)
    \<and> (\<forall>k < unat (BPB_num_fats bpb). fat_tab (view d') bpb k =
        (if k \<in> set ks then (fat_tab (view d) bpb k)(n := v AND 0x0FFFFFFF) else fat_tab (view d) bpb k))"
  using assms(1,2,5,6)
proof (induction ks arbitrary: d)
  case (Cons k ks)
  have geo: "geometry_ok bpb" and k: "k < unat (BPB_num_fats bpb)" using Cons.prems by (auto simp: fat_ok_def)
  have off: "unat (fat_ent_offset p) = 4 * (unat n mod 128)"
    using ClusPosOnFAT [OF geo fat_entries_28 [OF geo n]] n p by (auto simp: fat_entries_def)
  have "k < 256" using k unsigned_less [of "BPB_num_fats bpb", where 'a = nat] by simp
  note sec = fat_sec_code [OF geo p fat_entries_28 [OF geo n] n this]
  obtain bs where bs: "view d (fat_sec bpb k n) = Some bs"
    using Cons.prems(2) unat_fat_sec(2) [OF geo k n] by (auto simp: fat_ok_def)
  then have len: "length bs = SECTOR_SIZE" using Cons.prems(2) by (auto simp: fat_ok_def)
  let ?o = "4 * (unat n mod 128)"
  let ?w = "(get32 bs ?o AND 0xF0000000) OR (v AND 0x0FFFFFFF)"
  have "writeFATClusEntryVal (fat_ent_offset p) v bs = Some (put32 bs ?o ?w)"
    using len off by (simp add: writeFATClusEntryVal_eq SECTOR_SIZE_def)
  then obtain d1 where d1: "dev_modify D d (fat_sec bpb k n) 0 (writeFATClusEntryVal (fat_ent_offset p) v) = Some d1"
      "good d1" "view d1 = (view d)(fat_sec bpb k n \<mapsto> put32 bs ?o ?w)"
    using dev_modify_ok [OF Cons.prems(1) bs, of 0 "writeFATClusEntryVal (fat_ent_offset p) v" "put32 bs ?o ?w"] len
    by (auto simp: SECTOR_SIZE_def)
  note put = put_fat_tab [OF Cons.prems(2) k n bs fat_entry_masks(1) [of "get32 bs ?o" v], folded d1(3)]
  obtain d2 where "write_copies D d1 (BPB_FATsz32 bpb) (fat_sec_num p) (fat_ent_offset p) v (map of_nat ks) = Some d2"
      "good d2" "fat_ok (view d2) bpb" "view d2 |` (- fat_secs bpb) = view d1 |` (- fat_secs bpb)"
      "\<forall>k < unat (BPB_num_fats bpb). fat_tab (view d2) bpb k =
        (if k \<in> set ks then (fat_tab (view d1) bpb k)(n := v AND 0x0FFFFFFF) else fat_tab (view d1) bpb k)"
    using Cons.IH [OF d1(2) put(2)] Cons.prems(3,4) by auto
  then show ?case
    using d1(1) sec put(1,3) Cons.prems(3) by (intro exI [of _ d2]) auto
qed simp

lemma write_clus_ok:
  assumes h: "fat_holds good view F E R" and n: "unat n < fat_entries (F_bpb F)"
  shows "\<exists>d. write_clus D F n v = Some (F\<lparr>F_device := d\<rparr>)
    \<and> fat_holds good view (F\<lparr>F_device := d\<rparr>) (E(n := v AND 0x0FFFFFFF)) R"
proof -
  have g: "good (F_device F)" and ok: "fat_ok (view (F_device F)) (F_bpb F)" and geo: "geometry_ok (F_bpb F)"
    using h by (auto simp: fat_holds_def fat_ok_def)
  obtain p where p: "getClusPosOnFAT (F_bpb F) n = Some p"
    using ClusPosOnFAT [OF geo fat_entries_28 [OF geo n]] n by (auto simp: fat_entries_def)
  let ?ks = "[0..<unat (BPB_num_fats (F_bpb F))]"
  have "set ?ks \<subseteq> {..<unat (BPB_num_fats (F_bpb F))}" by auto
  from write_copies_ok [OF g ok n p distinct_upt this, of v] obtain d where
    "write_copies D (F_device F) (BPB_FATsz32 (F_bpb F)) (fat_sec_num p) (fat_ent_offset p) v (map of_nat ?ks) = Some d"
    "good d" "fat_ok (view d) (F_bpb F)"
    "view d |` (- fat_secs (F_bpb F)) = view (F_device F) |` (- fat_secs (F_bpb F))"
    "\<forall>k < unat (BPB_num_fats (F_bpb F)). fat_tab (view d) (F_bpb F) k
      = (fat_tab (view (F_device F)) (F_bpb F) k)(n := v AND 0x0FFFFFFF)"
    by auto
  then show ?thesis using h by (intro exI [of _ d]) (simp add: write_clus_def writeFatEntry_def p fat_holds_def)
qed

end



section \<open>Chains\<close>

text \<open>\<open>chain N E c xs\<close>: following the table \<open>E\<close> (\<open>N\<close> entries) from \<open>c\<close> visits \<open>xs\<close> and then an
  end mark.\<close>

fun chain :: "nat \<Rightarrow> (u32 \<Rightarrow> u32) \<Rightarrow> u32 \<Rightarrow> u32 list \<Rightarrow> bool" where
  "chain N E c [] \<longleftrightarrow> isEndOfClusChain c"
| "chain N E c (x # xs) \<longleftrightarrow> x = c \<and> unat c < N \<and> \<not> isEndOfClusChain c \<and> chain N E (E c) xs"

lemma chain_unique: "chain N E c xs \<Longrightarrow> chain N E c ys \<Longrightarrow> xs = ys"
proof (induction xs arbitrary: c ys)
  case Nil
  then show ?case by (cases ys) auto
next
  case (Cons x xs)
  then show ?case by (cases ys) auto
qed

lemma chain_suffix: "chain N E c (xs @ y # ys) \<Longrightarrow> chain N E y (y # ys)"
  by (induction xs arbitrary: c) auto

lemma chain_distinct:
  assumes "chain N E c xs"
  shows "distinct xs"
proof (rule ccontr)
  assume "\<not> distinct xs"
  then obtain us y vs ws where xs: "xs = us @ [y] @ vs @ [y] @ ws" using not_distinct_decomp by blast
  from assms have "chain N E y (y # vs @ y # ws)" using chain_suffix [of N E c us y "vs @ y # ws"] xs by simp
  moreover from this have "chain N E y (y # ws)" using chain_suffix [of N E y "y # vs" y ws] by simp
  ultimately have "y # vs @ y # ws = y # ws" by (rule chain_unique)
  then show False by simp
qed

lemma chain_cong: "(\<And>x. x \<in> set xs \<Longrightarrow> E x = E' x) \<Longrightarrow> chain N E c xs \<longleftrightarrow> chain N E' c xs"
  by (induction xs arbitrary: c) auto

lemma chain_bounds: "chain N E c xs \<Longrightarrow> x \<in> set xs \<Longrightarrow> unat x < N \<and> \<not> isEndOfClusChain x"
  by (induction xs arbitrary: c) auto

lemma chain_upd_out: "x \<notin> set xs \<Longrightarrow> chain N (E(x := v)) c xs \<longleftrightarrow> chain N E c xs"
  by (rule chain_cong) auto

text \<open>Every link of the table is an end mark or the number of an entry.\<close>

definition closed_table :: "nat \<Rightarrow> (u32 \<Rightarrow> u32) \<Rightarrow> bool" where
  "closed_table N E \<longleftrightarrow> (\<forall>n. unat n < N \<longrightarrow> unat (E n) < N \<or> isEndOfClusChain (E n))"

abbreviation fat_size :: "'d FAT \<Rightarrow> nat" where
  "fat_size F \<equiv> fat_entries (F_bpb F)"

context block_device
begin

lemma chain_loop_ok:
  assumes "fat_holds good view F E R" and "chain (fat_size F) E c xs"
  shows "\<exists>d. chain_loop D F c acc = Some (acc @ xs, F\<lparr>F_device := d\<rparr>) \<and> fat_holds good view (F\<lparr>F_device := d\<rparr>) E R"
  using assms
proof (induction xs arbitrary: F c acc)
  case Nil
  then show ?case by (subst chain_loop.simps) (auto intro!: exI [of _ "F_device F"])
next
  case (Cons x xs)
  then obtain d1 where d1: "read_clus D F c = Some (E c, F\<lparr>F_device := d1\<rparr>)" "fat_holds good view (F\<lparr>F_device := d1\<rparr>) E R"
    using read_clus_ok [OF Cons.prems(1), of c] by auto
  then show ?case
    using Cons.IH [OF d1(2), of "E c" "acc @ [c]"] Cons.prems(2) by (subst chain_loop.simps) auto
qed

lemma chain_loop_sound:
  assumes "chain_loop D' F c acc = Some res" and "D' = D" and "fat_holds good view F E R"
    and "closed_table (fat_size F) E" and "unat c < fat_size F \<or> isEndOfClusChain c"
  shows "\<exists>xs. chain (fat_size F) E c xs \<and> fst res = acc @ xs"
  using assms
proof (induction rule: chain_loop.raw_induct [rotated, consumes 1, case_names step])
  case (step loop D' F cur acc res)
  show ?case
  proof (cases "isEndOfClusChain cur")
    case True
    then show ?thesis using step(2) by (intro exI [of _ "[]"]) auto
  next
    case False
    with step(6) have n: "unat cur < fat_size F" by simp
    then obtain d where d: "read_clus D F cur = Some (E cur, F\<lparr>F_device := d\<rparr>)"
        "fat_holds good view (F\<lparr>F_device := d\<rparr>) E R"
      using read_clus_ok [OF step(4)] by blast
    moreover have "unat (E cur) < fat_size F \<or> isEndOfClusChain (E cur)"
      using step(5) n by (simp add: closed_table_def)
    ultimately obtain xs where "chain (fat_size F) E (E cur) xs" "fst res = (acc @ [cur]) @ xs"
      using step(1) [of D "F\<lparr>F_device := d\<rparr>" "E cur" "acc @ [cur]" res] step(2,3,5) False by auto
    then show ?thesis using n False by (intro exI [of _ "cur # xs"]) auto
  qed
qed

lemma readClusChains_ok:
  assumes "fat_holds good view F E R" and "isValidCluster c" and "chain (fat_size F) E c xs"
  shows "\<exists>d. readClusChains D F c = Some (xs, F\<lparr>F_device := d\<rparr>) \<and> fat_holds good view (F\<lparr>F_device := d\<rparr>) E R"
  using chain_loop_ok [OF assms(1,3), of "[]"] assms(2) by (simp add: readClusChains_def)

lemma free_loop_ok:
  assumes "fat_holds good view F E R" and "chain (fat_size F) E c xs"
  shows "\<exists>d. free_loop D F c = Some (F\<lparr>F_device := d,
      F_avail_clus_cnt := map_option (\<lambda>a. a + of_nat (length xs)) (F_avail_clus_cnt F)\<rparr>)
    \<and> fat_holds good view (F\<lparr>F_device := d\<rparr>) (\<lambda>n. if n \<in> set xs then 0 else E n) R"
  using assms
proof (induction xs arbitrary: F c E)
  case Nil
  have "(\<lambda>a. a) = (id :: u32 \<Rightarrow> u32)" by auto
  with Nil show ?case
    by (subst free_loop.simps) (auto intro!: exI [of _ "F_device F"] simp: option.map_id)
next
  case (Cons x xs)
  have c: "x = c" "unat c < fat_size F" "\<not> isEndOfClusChain c" "chain (fat_size F) E (E c) xs"
    using Cons.prems(2) by auto
  obtain d1 where d1: "read_clus D F c = Some (E c, F\<lparr>F_device := d1\<rparr>)" "fat_holds good view (F\<lparr>F_device := d1\<rparr>) E R"
    using read_clus_ok [OF Cons.prems(1) c(2)] by blast
  obtain d2 where d2: "write_clus D (F\<lparr>F_device := d1\<rparr>) c 0 = Some (F\<lparr>F_device := d2\<rparr>)"
      "fat_holds good view (F\<lparr>F_device := d2\<rparr>) (E(c := 0)) R"
    using write_clus_ok [OF d1(2), of c 0] c(2) by auto
  let ?F = "inc_avail_cnt 1 (F\<lparr>F_device := d2\<rparr>)"
  have "fat_holds good view ?F (E(c := 0)) R" using d2(2) by (simp add: fat_holds_def inc_avail_cnt_def)
  moreover have "chain (fat_size ?F) (E(c := 0)) (E c) xs"
    using chain_distinct [OF Cons.prems(2)] c by (simp add: chain_upd_out inc_avail_cnt_def)
  ultimately obtain d where "free_loop D ?F (E c) = Some (?F\<lparr>F_device := d,
      F_avail_clus_cnt := map_option (\<lambda>a. a + of_nat (length xs)) (F_avail_clus_cnt ?F)\<rparr>)"
      "fat_holds good view (?F\<lparr>F_device := d\<rparr>) (\<lambda>n. if n \<in> set xs then 0 else (E(c := 0)) n) R"
    using Cons.IH by blast
  moreover have "(\<lambda>n. if n \<in> set xs then 0 else (E(c := 0)) n) = (\<lambda>n. if n \<in> set (x # xs) then 0 else E n)"
    using c(1) by auto
  ultimately show ?case
    using d1(1) d2(1) c by (intro exI [of _ d], subst free_loop.simps)
      (simp add: inc_avail_cnt_def fat_holds_def option.map_comp o_def add.assoc)
qed

lemma freeClus_ok:
  assumes "fat_holds good view F E R" and "isValidCluster c" and "chain (fat_size F) E c xs"
  shows "\<exists>d. freeClus D F c = Some (F\<lparr>F_device := d,
      F_avail_clus_cnt := map_option (\<lambda>a. a + of_nat (length xs)) (F_avail_clus_cnt F)\<rparr>)
    \<and> fat_holds good view (F\<lparr>F_device := d\<rparr>) (\<lambda>n. if n \<in> set xs then 0 else E n) R"
  using free_loop_ok [OF assms(1,3)] assms(2) by (simp add: freeClus_def)

end


section \<open>Scanning the table\<close>

text \<open>The free entries from \<open>a\<close> up to \<open>b\<close>; \<open>free_clus E n\<close> are the free clusters the scans see.\<close>

definition free_from :: "(u32 \<Rightarrow> u32) \<Rightarrow> nat \<Rightarrow> nat \<Rightarrow> nat list" where
  "free_from E a b = filter (\<lambda>c. E (of_nat c) = 0) [a..<b]"

definition free_clus :: "(u32 \<Rightarrow> u32) \<Rightarrow> nat \<Rightarrow> u32 list" where
  "free_clus E n = map of_nat (free_from E 0 n)"

lemma free_from_step:
  "a < b \<Longrightarrow> free_from E a b = (if E (of_nat a) = 0 then [a] else []) @ free_from E (Suc a) b"
  by (simp add: free_from_def upt_conv_Cons)

lemma free_from_split: "a \<le> m \<Longrightarrow> m \<le> b \<Longrightarrow> free_from E a b = free_from E a m @ free_from E m b"
  using upt_add_eq_append [of a m "b - m"] by (simp add: free_from_def)

lemma free_from_empty [simp]: "free_from E a a = []"
  by (simp add: free_from_def)

text \<open>The word the loops compute for the sector \<open>s\<close> of the first FAT.\<close>

definition fat_sec_at :: "BPB \<Rightarrow> nat \<Rightarrow> u32" where
  "fat_sec_at bpb s = of_nat (unat (BPB_resvd_sec_cnt bpb) + s)"

lemma fat_sec_at_Suc: "fat_sec_at bpb s + 1 = fat_sec_at bpb (Suc s)"
  by (simp add: fat_sec_at_def add.commute)

lemma fat_sec_at_start: "getFirstFATSector bpb 0 = fat_sec_at bpb 0"
  by (simp add: fat_sec_at_def getFirstFATSector_def word_unat_eq_iff unat_ucast_up unat_of_nat_lt
      order_less_trans [OF unsigned_less [where 'a = nat]])

lemma fat_sec_at_end: "getFirstFATSector bpb 0 + BPB_FATsz32 bpb = fat_sec_at bpb (unat (BPB_FATsz32 bpb))"
  unfolding fat_sec_at_start by (simp add: fat_sec_at_def)

lemma fat_sec_at_less:
  assumes "geometry_ok bpb" and "s \<le> unat (BPB_FATsz32 bpb)"
  shows "fat_sec_at bpb s < fat_sec_at bpb (unat (BPB_FATsz32 bpb)) \<longleftrightarrow> s < unat (BPB_FATsz32 bpb)"
proof -
  have "unat (BPB_FATsz32 bpb) \<le> unat (BPB_num_fats bpb) * unat (BPB_FATsz32 bpb)"
    using geometryD(3) [OF assms(1)] by simp
  then have "unat (BPB_resvd_sec_cnt bpb) + unat (BPB_FATsz32 bpb) < 2 ^ 32"
    using geometryD(4) [OF assms(1)] unfolding fat_area_def by linarith
  then have "unat (fat_sec_at bpb t) = unat (BPB_resvd_sec_cnt bpb) + t" if "t \<le> unat (BPB_FATsz32 bpb)" for t
    using that unfolding fat_sec_at_def by (intro unat_of_nat_lt) simp
  then show ?thesis using assms(2) by (simp add: word_less_nat_alt)
qed

lemma fat_size_lt: "fat_holds good view F E R \<Longrightarrow> n < fat_size F \<Longrightarrow> n < 2 ^ 28"
  using geometryD(6) [of "F_bpb F"] by (simp add: fat_holds_def fat_ok_def fat_entries_def)

context block_device
begin

lemma scan_entry:
  assumes h: "fat_holds good view F E R" and n: "128 * s + j < fat_size F" and j: "j < 128"
  shows "\<exists>d. readFatEntry D F (fat_sec_at (F_bpb F) s) (of_nat j * 4) = Some (E (of_nat (128 * s + j)), F\<lparr>F_device := d\<rparr>)
    \<and> fat_holds good view (F\<lparr>F_device := d\<rparr>) E R"
proof -
  have u: "unat (of_nat (128 * s + j) :: u32) = 128 * s + j"
    using fat_size_lt [OF h n] by (intro unat_of_nat_lt) simp
  have "unat (of_nat j * 4 :: u32) = unat (of_nat (j * 4) :: u32)" by simp
  also have "\<dots> = 4 * j" using j by (subst unat_of_nat_lt) simp_all
  finally have off: "unat (of_nat j * 4 :: u32) = 4 * (unat (of_nat (128 * s + j) :: u32) mod 128)"
    unfolding u using j by simp
  have "fat_sec_at (F_bpb F) s = fat_sec (F_bpb F) 0 (of_nat (128 * s + j))"
    unfolding fat_sec_def u fat_sec_at_def using j by simp
  then show ?thesis using readFatEntry_ok [OF h _ _ off] n u by simp
qed

lemma avail_inner_ok:
  assumes "fat_holds good view F E R" and "unat n \<le> fat_size F" and "128 * s + j \<le> unat n" and "j \<le> 128"
  shows "\<exists>d. avail_inner D n (fat_sec_at (F_bpb F) s) F (of_nat j) (of_nat (128 * s + j)) a =
      Some (of_nat (min (unat n) (128 * s + 128)),
        a + of_nat (length (free_from E (128 * s + j) (min (unat n) (128 * s + 128)))), F\<lparr>F_device := d\<rparr>)
    \<and> fat_holds good view (F\<lparr>F_device := d\<rparr>) E R"
  using assms
proof (induction "128 - j" arbitrary: F j a)
  case 0
  then have "j = 128" by simp
  with 0 show ?case by (subst avail_inner.simps) (auto intro!: exI [of _ "F_device F"])
next
  case (Suc k)
  let ?m = "min (unat n) (128 * s + 128)"
  have j: "j < 128" and k: "k = 128 - Suc j" using Suc.hyps(2) by simp_all
  have uj: "of_nat j < (128 :: u32)" using j by (simp add: word_less_nat_alt unat_of_nat_lt)
  show ?case
  proof (cases "128 * s + j = unat n")
    case True
    then have "?m = unat n" "\<not> of_nat (128 * s + j) < n" using j by (simp_all only: of_nat_unat)
    then show ?thesis using Suc.prems(1) True
      by (subst avail_inner.simps) (auto intro!: exI [of _ "F_device F"])
  next
    case False
    then have lt: "128 * s + j < unat n" using Suc.prems(3) by simp
    then have un: "of_nat (128 * s + j) < n"
      using unsigned_less [of n, where 'a = nat] by (simp add: word_less_nat_alt unat_of_nat_lt del: of_nat_add)
    obtain d1 where d1: "readFatEntry D F (fat_sec_at (F_bpb F) s) (of_nat j * 4) =
        Some (E (of_nat (128 * s + j)), F\<lparr>F_device := d1\<rparr>)" "fat_holds good view (F\<lparr>F_device := d1\<rparr>) E R"
      using scan_entry [OF Suc.prems(1), of s j] lt Suc.prems(2) j by auto
    let ?a = "if E (of_nat (128 * s + j)) = 0 then a + 1 else a"
    obtain d2 where d2: "avail_inner D n (fat_sec_at (F_bpb F) s) (F\<lparr>F_device := d1\<rparr>) (of_nat (Suc j)) (of_nat (128 * s + Suc j)) ?a =
        Some (of_nat ?m, ?a + of_nat (length (free_from E (128 * s + Suc j) ?m)), F\<lparr>F_device := d2\<rparr>)"
        "fat_holds good view (F\<lparr>F_device := d2\<rparr>) E R"
      using Suc.hyps(1) [of "Suc j" "F\<lparr>F_device := d1\<rparr>" ?a] d1(2) k Suc.prems(2) lt j by auto
    have "free_from E (128 * s + j) ?m = (if E (of_nat (128 * s + j)) = 0 then [128 * s + j] else []) @ free_from E (128 * s + Suc j) ?m"
      using free_from_step [of "128 * s + j" ?m E] lt j by simp
    moreover have "of_nat (Suc j) = of_nat j + (1 :: u32)" "of_nat (128 * s + Suc j) = of_nat (128 * s + j) + (1 :: u32)"
      by simp_all
    ultimately show ?thesis
      using d1(1) d2 uj un by (intro exI [of _ d2], subst avail_inner.simps) (auto simp: algebra_simps)
  qed
qed

lemma avail_outer_ok:
  assumes "fat_holds good view F E R" and "unat n \<le> fat_size F" and "s \<le> unat (BPB_FATsz32 (F_bpb F))"
    and "c = min (unat n) (128 * s)"
  shows "\<exists>d. avail_outer D n (fat_sec_at (F_bpb F) (unat (BPB_FATsz32 (F_bpb F)))) F (fat_sec_at (F_bpb F) s) (of_nat c) a =
      Some (a + of_nat (length (free_from E c (unat n))), F\<lparr>F_device := d\<rparr>)
    \<and> fat_holds good view (F\<lparr>F_device := d\<rparr>) E R"
  using assms
proof (induction "unat (BPB_FATsz32 (F_bpb F)) - s" arbitrary: F s c a)
  case 0
  then have "\<not> of_nat c < n" "c = unat n" by (auto simp: fat_entries_def)
  then show ?case using 0 by (subst avail_outer.simps) (auto intro!: exI [of _ "F_device F"])
next
  case (Suc k)
  let ?e = "fat_sec_at (F_bpb F) (unat (BPB_FATsz32 (F_bpb F)))" and ?m = "min (unat n) (128 * Suc s)"
  have geo: "geometry_ok (F_bpb F)" using Suc.prems(1) by (simp add: fat_holds_def fat_ok_def)
  have k: "k = unat (BPB_FATsz32 (F_bpb F)) - Suc s" "Suc s \<le> unat (BPB_FATsz32 (F_bpb F))"
    using Suc.hyps(2) by simp_all
  have s: "fat_sec_at (F_bpb F) s < ?e"
    using fat_sec_at_less [OF geo, of s] Suc.hyps(2) by simp
  show ?case
  proof (cases "c = unat n")
    case True
    then have "\<not> of_nat c < n" by simp
    then show ?thesis using Suc.prems(1) True
      by (subst avail_outer.simps) (auto intro!: exI [of _ "F_device F"])
  next
    case False
    then have c: "c = 128 * s" "c < unat n" using Suc.prems(4) by auto
    have "unat (of_nat c :: u32) = c"
      using c(2) unsigned_less [of n, where 'a = nat] by (intro unat_of_nat_lt) simp
    then have un: "of_nat c < n" using c(2) by (simp only: word_less_nat_alt)
    obtain d1 where d1: "avail_inner D n (fat_sec_at (F_bpb F) s) F 0 (of_nat c) a =
        Some (of_nat ?m, a + of_nat (length (free_from E c ?m)), F\<lparr>F_device := d1\<rparr>)"
        "fat_holds good view (F\<lparr>F_device := d1\<rparr>) E R"
      using avail_inner_ok [OF Suc.prems(1,2), of s 0 a] c by (auto simp: add.commute)
    obtain d2 where d2: "avail_outer D n ?e (F\<lparr>F_device := d1\<rparr>) (fat_sec_at (F_bpb F) (Suc s)) (of_nat ?m) (a + of_nat (length (free_from E c ?m))) =
        Some (a + of_nat (length (free_from E c ?m)) + of_nat (length (free_from E ?m (unat n))), F\<lparr>F_device := d2\<rparr>)"
        "fat_holds good view (F\<lparr>F_device := d2\<rparr>) E R"
      using Suc.hyps(1) [of "F\<lparr>F_device := d1\<rparr>" "Suc s" ?m "a + of_nat (length (free_from E c ?m))"] k d1(2) Suc.prems(2)
      by auto
    have "free_from E c (unat n) = free_from E c ?m @ free_from E ?m (unat n)"
      using c by (intro free_from_split) auto
    then show ?thesis
      using d1(1) d2 s un by (intro exI [of _ d2], subst avail_outer.simps) (simp add: fat_sec_at_Suc add.assoc)
  qed
qed

end

text \<open>The cached count, once there is one, is the number of free entries.\<close>

definition avail_ok :: "'d FAT \<Rightarrow> (u32 \<Rightarrow> u32) \<Rightarrow> bool" where
  "avail_ok F E \<longleftrightarrow>
     F_avail_clus_cnt F \<in> {None, Some (of_nat (length (free_clus E (unat (F_cnt_of_clus F)))))}"

context block_device
begin

lemma availClusCnt_ok:
  assumes "fat_holds good view F E R" and "avail_ok F E"
  shows "\<exists>d. availClusCnt D F = Some (of_nat (length (free_clus E (unat (F_cnt_of_clus F)))),
      F\<lparr>F_device := d, F_avail_clus_cnt := Some (of_nat (length (free_clus E (unat (F_cnt_of_clus F)))))\<rparr>)
    \<and> fat_holds good view (F\<lparr>F_device := d\<rparr>) E R"
proof (cases "F_avail_clus_cnt F")
  case None
  have "unat (F_cnt_of_clus F) \<le> fat_size F" using assms(1) by (simp add: fat_holds_def fat_ok_def)
  moreover have "F_start_sec_no F = fat_sec_at (F_bpb F) 0"
    "end_sec_no F = fat_sec_at (F_bpb F) (unat (BPB_FATsz32 (F_bpb F)))"
    using assms(1) by (simp_all add: fat_holds_def end_sec_no_def fat_sec_at_end)
      (simp add: fat_sec_at_start)
  ultimately show ?thesis
    using avail_outer_ok [OF assms(1), of "F_cnt_of_clus F" 0 0 0] None
    by (auto simp: availClusCnt_def free_clus_def)
next
  case (Some a)
  then have a: "a = of_nat (length (free_clus E (unat (F_cnt_of_clus F))))"
    using assms(2) by (simp add: avail_ok_def)
  then have "F = F\<lparr>F_device := F_device F, F_avail_clus_cnt := Some a\<rparr>" using Some by simp
  then show ?thesis
    using Some a assms(1) by (intro exI [of _ "F_device F"]) (simp add: availClusCnt_def)
qed

end


section \<open>Allocation\<close>

text \<open>
  The loops of \<open>allocClus\<close> as one walk over the numbers of the entries, on the table alone; and
  what the walk comes to: \<open>link p cs E\<close> chains the clusters \<open>cs\<close> behind \<open>p\<close> and ends the chain.
\<close>

fun ascan :: "u32 \<Rightarrow> nat list \<Rightarrow> (u32 \<Rightarrow> u32) \<Rightarrow> scan \<Rightarrow>
    (u32 list \<times> (u32 \<Rightarrow> u32)) + (scan \<times> (u32 \<Rightarrow> u32))" where
  "ascan req [] E s = Inr (s, E)"
| "ascan req (c # cs) E s =
     (if E (of_nat c) \<noteq> 0 then ascan req cs E s
      else let E1 = (if cur_clus s \<noteq> 0 then E(cur_clus s := of_nat c) else E);
               s' = \<lparr>cur_clus = of_nat c, alloc_num = alloc_num s + 1, clus_chain = clus_chain s @ [of_nat c]\<rparr>
           in if alloc_num s' = req then Inl (clus_chain s', E1(of_nat c := KFat32EocMark))
              else ascan req cs E1 s')"

fun link :: "u32 \<Rightarrow> u32 list \<Rightarrow> (u32 \<Rightarrow> u32) \<Rightarrow> (u32 \<Rightarrow> u32)" where
  "link p [] E = E(p := KFat32EocMark)"
| "link p (c # cs) E = link c cs (if p \<noteq> 0 then E(p := c) else E)"

lemma ascan_append:
  "ascan req (xs @ ys) E s =
    (case ascan req xs E s of Inl r \<Rightarrow> Inl r | Inr (s', E') \<Rightarrow> ascan req ys E' s')"
  by (induction xs arbitrary: E s) (simp_all add: Let_def)

lemma eoc_28: "KFat32EocMark AND 0x0FFFFFFF = KFat32EocMark"
  by (simp add: KFat32EocMark_def)

lemma and_28: "unat c < 2 ^ 28 \<Longrightarrow> c AND 0x0FFFFFFF = c" for c :: u32
proof -
  assume "unat c < 2 ^ 28"
  then have "take_bit 28 c = c"
    by (simp add: word_unat_eq_iff unsigned_take_bit_eq take_bit_nat_eq_self)
  moreover have "(0x0FFFFFFF :: u32) = mask 28" by (simp add: mask_eq_exp_minus_1)
  ultimately show ?thesis by (metis take_bit_eq_mask)
qed

text \<open>The object after \<open>k\<close> clusters were taken.\<close>

definition took :: "u32 \<Rightarrow> 'd \<Rightarrow> 'd FAT \<Rightarrow> 'd FAT" where
  "took k d F = F\<lparr>F_device := d, F_avail_clus_cnt := map_option (\<lambda>a. a - k) (F_avail_clus_cnt F)\<rparr>"

lemma took_took: "took k d (took k' d' F) = took (k' + k) d F"
  by (simp add: took_def option.map_comp o_def diff_diff_add)

lemma took_0: "took 0 d F = F\<lparr>F_device := d\<rparr>"
proof -
  have "(\<lambda>a. a) = (id :: u32 \<Rightarrow> u32)" by auto
  then show ?thesis by (simp add: took_def option.map_id)
qed

lemma took_sel [simp]: "F_bpb (took k d F) = F_bpb F" "F_device (took k d F) = d"
  "F_start_sec_no (took k d F) = F_start_sec_no F" "F_fat_sec_num (took k d F) = F_fat_sec_num F"
  "F_cnt_of_clus (took k d F) = F_cnt_of_clus F" "F_free_count (took k d F) = F_free_count F"
  by (simp_all add: took_def)

lemma fat_holds_took: "fat_holds good view (took k d F) E R \<longleftrightarrow> fat_holds good view (F\<lparr>F_device := d\<rparr>) E R"
  by (simp add: fat_holds_def)

definition scan_ok :: "'d FAT \<Rightarrow> scan \<Rightarrow> bool" where
  "scan_ok F s \<longleftrightarrow> cur_clus s = 0 \<or> unat (cur_clus s) < fat_size F"

text \<open>A run of the loops from \<open>F\<close> and \<open>sc\<close> does what the walk \<open>r\<close> does; \<open>x\<close> is the counter it
  stops at when it falls out of the loop.\<close>

definition follows ::
  "('d \<Rightarrow> bool) \<Rightarrow> ('d \<Rightarrow> u32 \<Rightarrow> bytes option) \<Rightarrow> (u32 \<Rightarrow> bytes option) \<Rightarrow> u32 \<Rightarrow> 'x \<Rightarrow> 'd FAT \<Rightarrow> scan \<Rightarrow>
    (u32 list \<times> (u32 \<Rightarrow> u32)) + (scan \<times> (u32 \<Rightarrow> u32)) \<Rightarrow>
    ((u32 list \<times> 'd FAT) + ('x \<times> scan \<times> 'd FAT)) option \<Rightarrow> bool" where
  "follows good view R req x F sc r out \<longleftrightarrow> (\<exists>d. case r of
      Inl (cs, E') \<Rightarrow> out = Some (Inl (cs, took (req - alloc_num sc) d F))
        \<and> fat_holds good view (F\<lparr>F_device := d\<rparr>) E' R
    | Inr (sc', E') \<Rightarrow> out = Some (Inr (x, sc', took (alloc_num sc' - alloc_num sc) d F))
        \<and> fat_holds good view (F\<lparr>F_device := d\<rparr>) E' R \<and> scan_ok F sc')"

lemma follows_device: "follows good view R req x (F\<lparr>F_device := d1\<rparr>) sc r out = follows good view R req x F sc r out"
  by (cases r) (auto simp: follows_def took_def scan_ok_def)

lemma follows_took:
  assumes "follows good view R req x (took 1 d1 F) s' r out" and "alloc_num s' = alloc_num sc + 1"
  shows "follows good view R req x F sc r out"
proof -
  have "fat_holds good view ((took 1 d1 F)\<lparr>F_device := d\<rparr>) E R = fat_holds good view (F\<lparr>F_device := d\<rparr>) E R" for d E
    by (simp add: fat_holds_def)
  moreover have "scan_ok (took 1 d1 F) = scan_ok F" by (simp add: scan_ok_def fun_eq_iff)
  ultimately show ?thesis
    using assms by (cases r) (auto simp: follows_def took_took)
qed

context block_device
begin

lemma take_clus_ok:
  assumes h: "fat_holds good view F E R" and s: "scan_ok F s" and c: "c < fat_size F" and free: "E (of_nat c) = 0"
  shows "(\<exists>d cs E'. ascan req [c] E s = Inl (cs, E') \<and> alloc_num s + 1 = req \<and>
      take_clus D req F s (of_nat c) = Some (Inl (cs, took 1 d F)) \<and> fat_holds good view (took 1 d F) E' R)
    \<or> (\<exists>d s' E'. ascan req [c] E s = Inr (s', E') \<and> alloc_num s' = alloc_num s + 1 \<and>
      take_clus D req F s (of_nat c) = Some (Inr (s', took 1 d F)) \<and> fat_holds good view (took 1 d F) E' R
      \<and> scan_ok (took 1 d F) s')"
proof -
  let ?c = "of_nat c :: u32"
  let ?E = "if cur_clus s \<noteq> 0 then E(cur_clus s := ?c) else E"
  have uc: "unat ?c = c" "unat ?c < fat_size F" "unat ?c < 2 ^ 28"
    using fat_size_lt [OF h c] c by (simp_all add: unat_of_nat_lt)
  obtain d1 where d1: "(if cur_clus s \<noteq> 0 then write_clus D F (cur_clus s) ?c else Some F) = Some (F\<lparr>F_device := d1\<rparr>)"
      "fat_holds good view (F\<lparr>F_device := d1\<rparr>) ?E R"
  proof (cases "cur_clus s = 0")
    case True
    then show ?thesis using h by (intro that [of "F_device F"]) simp_all
  next
    case False
    then show ?thesis
      using write_clus_ok [OF h, of "cur_clus s" ?c] s and_28 [OF uc(3)] that by (auto simp: scan_ok_def)
  qed
  have dec: "dec_avail_cnt 1 (F\<lparr>F_device := d1\<rparr>) = took 1 d1 F"
    by (simp add: dec_avail_cnt_def took_def)
  show ?thesis
  proof (cases "alloc_num s + 1 = req")
    case True
    obtain d2 where "write_clus D (took 1 d1 F) ?c KFat32EocMark = Some ((took 1 d1 F)\<lparr>F_device := d2\<rparr>)"
        "fat_holds good view ((took 1 d1 F)\<lparr>F_device := d2\<rparr>) (?E(?c := KFat32EocMark)) R"
      using write_clus_ok [of "took 1 d1 F" ?E R ?c KFat32EocMark] d1(2) uc(2) by (auto simp: fat_holds_took eoc_28)
    moreover have "(took 1 d1 F)\<lparr>F_device := d2\<rparr> = took 1 d2 F" by (simp add: took_def)
    ultimately show ?thesis
      using d1(1) free True by (intro disjI1 exI [of _ d2]) (simp add: take_clus_def Let_def dec)
  next
    case False
    then show ?thesis
      using d1 free uc by (intro disjI2 exI [of _ d1]) (simp add: take_clus_def Let_def dec fat_holds_took scan_ok_def)
  qed
qed

text \<open>The loops follow the walk.\<close>

lemma alloc_inner_ok:
  assumes "fat_holds good view F E R" and "scan_ok F sc" and "unat n \<le> fat_size F"
    and "128 * s + j \<le> unat n" and "j \<le> 128"
  shows "follows good view R req (of_nat (min (unat n) (128 * s + 128))) F sc
    (ascan req [128 * s + j..<min (unat n) (128 * s + 128)] E sc)
    (alloc_inner D n req (fat_sec_at (F_bpb F) s) F sc (of_nat j) (of_nat (128 * s + j)))"
  using assms
proof (induction "128 - j" arbitrary: F j E sc)
  case 0
  then have "j = 128" by simp
  with 0 show ?case
    by (subst alloc_inner.simps) (auto intro!: exI [of _ "F_device F"] simp: took_0 follows_def)
next
  case (Suc k)
  let ?m = "min (unat n) (128 * s + 128)" and ?i = "fat_sec_at (F_bpb F) s"
  have j: "j < 128" and k: "k = 128 - Suc j" using Suc.hyps(2) by simp_all
  have uj: "of_nat j < (128 :: u32)" using j by (simp add: word_less_nat_alt unat_of_nat_lt)
  show ?case
  proof (cases "128 * s + j = unat n")
    case True
    then have "?m = unat n" "\<not> of_nat (128 * s + j) < n" using j by (simp_all only: of_nat_unat)
    then show ?thesis using Suc.prems(1,2) True
      by (subst alloc_inner.simps) (auto intro!: exI [of _ "F_device F"] simp: took_0 follows_def)
  next
    case False
    let ?c = "128 * s + j"
    have lt: "?c < unat n" "128 * s + Suc j \<le> unat n" "Suc j \<le> 128" using False Suc.prems(4) j by simp_all
    then have un: "of_nat ?c < n"
      using unsigned_less [of n, where 'a = nat] by (simp add: word_less_nat_alt unat_of_nat_lt del: of_nat_add)
    have upt: "[?c..<?m] = ?c # [128 * s + Suc j..<?m]" using lt j by (simp add: upt_conv_Cons)
    have nxt: "of_nat (Suc j) = of_nat j + (1 :: u32)" "of_nat (128 * s + Suc j) = of_nat ?c + (1 :: u32)"
      by simp_all
    obtain d1 where d1: "readFatEntry D F ?i (of_nat j * 4) = Some (E (of_nat ?c), F\<lparr>F_device := d1\<rparr>)"
        "fat_holds good view (F\<lparr>F_device := d1\<rparr>) E R"
      using scan_entry [OF Suc.prems(1), of s j] lt Suc.prems(3) j by auto
    have sc1: "scan_ok (F\<lparr>F_device := d1\<rparr>) sc" using Suc.prems(2) by (simp add: scan_ok_def)
    have step: "alloc_inner D n req ?i F sc (of_nat j) (of_nat ?c) =
      (if E (of_nat ?c) = 0 then do { r \<leftarrow> take_clus D req (F\<lparr>F_device := d1\<rparr>) sc (of_nat ?c);
          case r of Inl out \<Rightarrow> Some (Inl out)
          | Inr (s', F2) \<Rightarrow> alloc_inner D n req ?i F2 s' (of_nat (Suc j)) (of_nat (128 * s + Suc j)) }
       else alloc_inner D n req ?i (F\<lparr>F_device := d1\<rparr>) sc (of_nat (Suc j)) (of_nat (128 * s + Suc j)))"
      unfolding nxt using uj un by (subst alloc_inner.simps) (simp add: d1(1) del: of_nat_add of_nat_mult)
    show ?thesis
    proof (cases "E (of_nat ?c) = 0")
      case used: False
      from Suc.hyps(1) [OF k d1(2) sc1 _ lt(2,3)] Suc.prems(3) show ?thesis
        unfolding step upt follows_device
        by (simp add: used del: of_nat_add of_nat_mult of_nat_Suc)
    next
      case free: True
      have "?c < fat_size (F\<lparr>F_device := d1\<rparr>)" using lt(1) Suc.prems(3) by simp
      from take_clus_ok [OF d1(2) sc1 this free, of req] show ?thesis
      proof (elim disjE exE conjE)
        fix d cs E' assume a: "ascan req [?c] E sc = Inl (cs, E')" "alloc_num sc + 1 = req"
          "take_clus D req (F\<lparr>F_device := d1\<rparr>) sc (of_nat ?c) = Some (Inl (cs, took 1 d (F\<lparr>F_device := d1\<rparr>)))"
          "fat_holds good view (took 1 d (F\<lparr>F_device := d1\<rparr>)) E' R"
        have one: "req - alloc_num sc = 1" using a(2) by auto
        have "ascan req [?c..<?m] E sc = Inl (cs, E')"
          unfolding upt using ascan_append [of req "[?c]" "[128 * s + Suc j..<?m]" E sc] a(1) by simp
        then show ?thesis
          unfolding step using free a(3,4)
          by (simp add: follows_def one) (auto simp: took_def fat_holds_def)
      next
        fix d s' E' assume a: "ascan req [?c] E sc = Inr (s', E')" "alloc_num s' = alloc_num sc + 1"
          "take_clus D req (F\<lparr>F_device := d1\<rparr>) sc (of_nat ?c) = Some (Inr (s', took 1 d (F\<lparr>F_device := d1\<rparr>)))"
          "fat_holds good view (took 1 d (F\<lparr>F_device := d1\<rparr>)) E' R" "scan_ok (took 1 d (F\<lparr>F_device := d1\<rparr>)) s'"
        have "ascan req [?c..<?m] E sc = ascan req [128 * s + Suc j..<?m] E' s'"
          unfolding upt using ascan_append [of req "[?c]" "[128 * s + Suc j..<?m]" E sc] a(1) by simp
        with Suc.hyps(1) [OF k a(4,5) _ lt(2,3)] Suc.prems(3) show ?thesis
          unfolding step using free a(3) follows_took [OF _ a(2), of good view R req _ d "F\<lparr>F_device := d1\<rparr>"]
          by (simp add: follows_device del: of_nat_add of_nat_mult of_nat_Suc)
      qed
    qed
  qed
qed

end


context block_device
begin

lemma alloc_outer_ok:
  assumes "fat_holds good view F E R" and "scan_ok F sc" and "unat n \<le> fat_size F"
    and "s \<le> unat (BPB_FATsz32 (F_bpb F))" and "c = min (unat n) (128 * s)"
    and "ascan req [c..<unat n] E sc = Inl (cs, E')"
  shows "\<exists>d. alloc_outer D n (fat_sec_at (F_bpb F) (unat (BPB_FATsz32 (F_bpb F)))) req F sc (fat_sec_at (F_bpb F) s) (of_nat c)
      = Some (cs, took (req - alloc_num sc) d F) \<and> fat_holds good view (F\<lparr>F_device := d\<rparr>) E' R"
  using assms
proof (induction "unat (BPB_FATsz32 (F_bpb F)) - s" arbitrary: F s c E sc)
  case 0
  then have "c = unat n" by (simp add: fat_entries_def)
  then show ?case using 0 by simp
next
  case (Suc k)
  let ?e = "fat_sec_at (F_bpb F) (unat (BPB_FATsz32 (F_bpb F)))" and ?m = "min (unat n) (128 * s + 128)"
  have geo: "geometry_ok (F_bpb F)" using Suc.prems(1) by (simp add: fat_holds_def fat_ok_def)
  have k: "k = unat (BPB_FATsz32 (F_bpb F)) - Suc s" "Suc s \<le> unat (BPB_FATsz32 (F_bpb F))"
    using Suc.hyps(2) by simp_all
  have s: "fat_sec_at (F_bpb F) s < ?e"
    using fat_sec_at_less [OF geo, of s] Suc.hyps(2) by simp
  have "c \<noteq> unat n" using Suc.prems(6) by auto
  then have c: "c = 128 * s" "c < unat n" using Suc.prems(5) by auto
  have "unat (of_nat c :: u32) = c"
    using c(2) unsigned_less [of n, where 'a = nat] by (intro unat_of_nat_lt) simp
  then have un: "of_nat c < n" using c(2) by (simp only: word_less_nat_alt)
  have upt: "[c..<unat n] = [c..<?m] @ [?m..<unat n]"
    using upt_add_eq_append [of c ?m "unat n - ?m"] c by simp
  have f: "follows good view R req (of_nat ?m) F sc (ascan req [c..<?m] E sc)
      (alloc_inner D n req (fat_sec_at (F_bpb F) s) F sc 0 (of_nat c))"
    using alloc_inner_ok [OF Suc.prems(1-3), of s 0 req] c by simp
  show ?case
  proof (cases "ascan req [c..<?m] E sc")
    case (Inl r)
    then have "r = (cs, E')" using Suc.prems(6) by (simp add: upt ascan_append)
    with f Inl show ?thesis
      by (subst alloc_outer.simps) (auto simp: follows_def s un)
  next
    case (Inr r)
    obtain sc1 E1 where r: "r = (sc1, E1)" by (metis surj_pair)
    with f Inr obtain d1 where d1: "alloc_inner D n req (fat_sec_at (F_bpb F) s) F sc 0 (of_nat c)
        = Some (Inr (of_nat ?m, sc1, took (alloc_num sc1 - alloc_num sc) d1 F))"
        "fat_holds good view (F\<lparr>F_device := d1\<rparr>) E1 R" "scan_ok F sc1"
      by (auto simp: follows_def)
    let ?F = "took (alloc_num sc1 - alloc_num sc) d1 F"
    have "ascan req [?m..<unat n] E1 sc1 = Inl (cs, E')"
      using Suc.prems(6) Inr r by (simp add: upt ascan_append)
    then obtain d where "alloc_outer D n ?e req ?F sc1 (fat_sec_at (F_bpb F) (Suc s)) (of_nat ?m)
        = Some (cs, took (req - alloc_num sc1) d ?F)" "fat_holds good view (?F\<lparr>F_device := d\<rparr>) E' R"
      using Suc.hyps(1) [of ?F "Suc s" E1 sc1 ?m] k d1(2,3) Suc.prems(3)
      by (auto simp: fat_holds_took scan_ok_def add.commute)
    then show ?thesis
      using d1(1) by (intro exI [of _ d], subst alloc_outer.simps)
        (simp add: s un fat_sec_at_Suc took_took fat_holds_def)
  qed
qed

end

text \<open>The walk takes the first free entries, in ascending order.\<close>

lemma ascan_takes:
  assumes "distinct L" and "list_all (\<lambda>c. c < 2 ^ 28) L"
    and "cur_clus s \<noteq> 0 \<Longrightarrow> list_all (\<lambda>c. cur_clus s \<noteq> of_nat c) L"
    and "fl = map of_nat (filter (\<lambda>c. E (of_nat c) = 0) L)"
    and "0 < unat (req - alloc_num s)" and "unat (req - alloc_num s) \<le> length fl"
  shows "ascan req L E s = Inl (clus_chain s @ take (unat (req - alloc_num s)) fl,
    link (cur_clus s) (take (unat (req - alloc_num s)) fl) E)"
  using assms
proof (induction L arbitrary: E s fl)
  case (Cons c L)
  let ?c = "of_nat c :: u32" and ?k = "unat (req - alloc_num s)"
  have uc: "unat ?c = c" using Cons.prems(2) by (intro unat_of_nat_lt) simp
  show ?case
  proof (cases "E ?c = 0")
    case False
    then show ?thesis using Cons.IH [of s fl E] Cons.prems by simp
  next
    case True
    let ?E = "if cur_clus s \<noteq> 0 then E(cur_clus s := ?c) else E"
    let ?s = "\<lparr>cur_clus = ?c, alloc_num = alloc_num s + 1, clus_chain = clus_chain s @ [?c]\<rparr>"
    let ?fl = "map of_nat (filter (\<lambda>c. E (of_nat c) = 0) L) :: u32 list"
    have fl: "fl = ?c # ?fl" using True Cons.prems(4) by simp
    have same: "filter (\<lambda>c. ?E (of_nat c) = 0) L = filter (\<lambda>c. E (of_nat c) = 0) L"
    proof (cases "cur_clus s = 0")
      case False
      then have "\<forall>b \<in> set L. of_nat b \<noteq> cur_clus s" using Cons.prems(3) by (auto simp: list_all_iff)
      then show ?thesis by (intro filter_cong) auto
    qed simp
    have ne: "list_all (\<lambda>b. cur_clus ?s \<noteq> of_nat b) L"
    proof -
      have "?c \<noteq> of_nat b" if "b \<in> set L" for b
      proof -
        have "unat (of_nat b :: u32) = b"
          using that Cons.prems(2) by (intro unat_of_nat_lt) (force simp: list_all_iff)
        then show ?thesis using that Cons.prems(1) uc by (metis distinct.simps(2))
      qed
      then show ?thesis by (simp add: list_all_iff)
    qed
    have minus: "unat (req - alloc_num ?s) = ?k - 1"
    proof -
      have "req - alloc_num ?s = (req - alloc_num s) - 1" by simp
      moreover have "req - alloc_num s \<noteq> 0" using Cons.prems(5) by (metis unat_0 less_irrefl)
      ultimately show ?thesis by (metis unat_minus_one)
    qed
    show ?thesis
    proof (cases "alloc_num s + 1 = req")
      case last: True
      then have "req - alloc_num s = 1" by auto
      then show ?thesis using True fl last by (auto simp: Let_def fun_eq_iff)
    next
      case more: False
      then have "?k - 1 \<noteq> 0" using minus by (auto simp: unat_eq_zero)
      then have k1: "0 < unat (req - alloc_num ?s)" "?k = Suc (unat (req - alloc_num ?s))"
        unfolding minus by simp_all
      have "ascan req L ?E ?s = Inl (clus_chain ?s @ take (unat (req - alloc_num ?s)) ?fl,
          link ?c (take (unat (req - alloc_num ?s)) ?fl) ?E)"
        using Cons.IH [of ?s ?fl ?E] Cons.prems(1,2,6) ne k1 same fl by simp
      then show ?thesis
        using True more fl unfolding k1(2) by (simp add: Let_def)
    qed
  qed
qed simp

lemma link_other: "n \<noteq> p \<Longrightarrow> n \<notin> set cs \<Longrightarrow> link p cs E n = E n"
  by (induction p cs E rule: link.induct) auto

lemma link_keeps: "p \<notin> set cs \<Longrightarrow> cs = c # cs' \<Longrightarrow> p \<noteq> 0 \<Longrightarrow> distinct cs \<Longrightarrow> link p cs E p = c"
  by (simp add: link_other)

lemma link_chain:
  assumes "distinct (c # cs)" and "0 \<notin> set (c # cs)"
    and "\<And>x. x \<in> set (c # cs) \<Longrightarrow> unat x < N \<and> \<not> isEndOfClusChain x"
  shows "chain N (link c cs E) c (c # cs)"
  using assms
proof (induction cs arbitrary: c E)
  case Nil
  then show ?case by (simp add: isEndOfClusChain_def KFat32EocMark_def)
next
  case (Cons b cs)
  have "chain N (link b cs (E(c := b))) b (b # cs)" using Cons.prems by (intro Cons.IH) auto
  moreover have "link b cs (E(c := b)) c = b" using Cons.prems(1) by (simp add: link_other)
  ultimately show ?case using Cons.prems by simp
qed

text \<open>\<open>link_new cs\<close> is what allocating the clusters \<open>cs\<close> as a new chain does to the table.\<close>

definition link_new :: "u32 list \<Rightarrow> (u32 \<Rightarrow> u32) \<Rightarrow> (u32 \<Rightarrow> u32)" where
  "link_new cs E = link 0 cs E"

lemma link_new_Cons: "link_new (c # cs) E = link c cs E"
  by (simp add: link_new_def)

lemma free_clus_facts:
  assumes "n < 2 ^ 28"
  shows "distinct (free_clus E n)" and "c \<in> set (free_clus E n) \<longleftrightarrow> E c = 0 \<and> unat c < n"
proof -
  have u: "unat (of_nat k :: u32) = k" if "k < n" for k using that assms by (intro unat_of_nat_lt) simp
  have "inj_on (of_nat :: nat \<Rightarrow> u32) {..<n}" by (rule inj_onI) (metis u lessThan_iff)
  then show "distinct (free_clus E n)"
    by (auto simp: free_clus_def free_from_def distinct_map intro: inj_on_subset)
  show "c \<in> set (free_clus E n) \<longleftrightarrow> E c = 0 \<and> unat c < n"
  proof
    assume "E c = 0 \<and> unat c < n"
    then show "c \<in> set (free_clus E n)"
      by (auto simp: free_clus_def free_from_def intro!: image_eqI [of c _ "unat c"])
  qed (use u in \<open>auto simp: free_clus_def free_from_def\<close>)
qed

context block_device
begin

lemma allocClus_ok:
  assumes h: "fat_holds good view F E R" and a: "avail_ok F E" and hint: "F_free_count F = 0xFFFFFFFF"
    and r: "0 < req"
  defines "fl \<equiv> free_clus E (unat (F_cnt_of_clus F))"
  shows "\<exists>d. allocClus D F req =
      (if length fl < unat req
       then Some (None, F\<lparr>F_device := d, F_avail_clus_cnt := Some (of_nat (length fl))\<rparr>)
       else Some (Some (take (unat req) fl),
              F\<lparr>F_device := d, F_avail_clus_cnt := Some (of_nat (length fl) - req)\<rparr>))
    \<and> fat_holds good view (F\<lparr>F_device := d\<rparr>)
        (if length fl < unat req then E else link_new (take (unat req) fl) E) R"
proof -
  let ?n = "unat (F_cnt_of_clus F)"
  have n: "?n + 2 \<le> fat_size F" "?n < 2 ^ 28"
    using h by (auto simp: fat_holds_def fat_ok_def)
  have "length fl \<le> ?n"
    using length_filter_le [of "\<lambda>c. E (of_nat c) = 0" "[0..<?n]"]
    by (simp add: fl_def free_clus_def free_from_def)
  then have len: "unat (of_nat (length fl) :: u32) = length fl"
    using n(2) by (intro unat_of_nat_lt) simp
  obtain d1 where d1: "availClusCnt D F = Some (of_nat (length fl),
      F\<lparr>F_device := d1, F_avail_clus_cnt := Some (of_nat (length fl))\<rparr>)" "fat_holds good view (F\<lparr>F_device := d1\<rparr>) E R"
    using availClusCnt_ok [OF h a] by (auto simp: fl_def)
  show ?thesis
  proof (cases "length fl < unat req")
    case True
    then show ?thesis
      using d1 len by (intro exI [of _ d1]) (simp add: allocClus_def word_less_nat_alt)
  next
    case False
    let ?F = "F\<lparr>F_device := d1, F_avail_clus_cnt := Some (of_nat (length fl))\<rparr>"
    let ?s = "\<lparr>cur_clus = 0, alloc_num = 0, clus_chain = []\<rparr>"
    have F: "fat_holds good view ?F E R" using d1(2) by (simp add: fat_holds_def)
    have asc: "ascan req [0..<?n] E ?s = Inl (take (unat req) fl, link_new (take (unat req) fl) E)"
      using ascan_takes [of "[0..<?n]" ?s fl E req] False r n(2)
      by (simp add: fl_def free_clus_def free_from_def link_new_def list_all_iff word_less_nat_alt)
    have sec: "F_start_sec_no F = fat_sec_at (F_bpb F) 0"
      "end_sec_no ?F = fat_sec_at (F_bpb F) (unat (BPB_FATsz32 (F_bpb F)))"
      using h by (simp_all add: fat_holds_def end_sec_no_def fat_sec_at_end) (simp add: fat_sec_at_start)
    obtain d where d: "alloc_outer D (F_cnt_of_clus F) (end_sec_no ?F) req ?F ?s (F_start_sec_no F) 0
        = Some (take (unat req) fl, took req d ?F)"
        "fat_holds good view (?F\<lparr>F_device := d\<rparr>) (link_new (take (unat req) fl) E) R"
      using alloc_outer_ok [OF F, of ?s "F_cnt_of_clus F" 0 0 req] asc n(1) sec by (auto simp: scan_ok_def)
    have "allocClus D F req = Some (Some (take (unat req) fl), took req d ?F)"
      using d1(1) d(1) hint False len by (simp add: allocClus_def word_less_nat_alt)
    then show ?thesis
      using d(2) False by (intro exI [of _ d]) (simp add: took_def fat_holds_def)
  qed
qed

end


section \<open>Sectors outside the FATs\<close>

text \<open>The data sectors are the sectors a cluster number leads to.\<close>

definition clus_secs :: "BPB \<Rightarrow> u32 \<Rightarrow> u32 set" where
  "clus_secs bpb c = {s. unat (getFirstSectorOfCluster bpb c) \<le> unat s
     \<and> unat s < unat (getFirstSectorOfCluster bpb c) + unat (BPB_sec_per_clus bpb)}"

definition zero_secs :: "u32 set \<Rightarrow> (u32 \<Rightarrow> bytes option) \<Rightarrow> (u32 \<Rightarrow> bytes option)" where
  "zero_secs S R = (\<lambda>s. if s \<in> S then Some (replicate SECTOR_SIZE 0) else R s)"

lemma zero_secs_Un: "zero_secs (S \<union> T) R = zero_secs T (zero_secs S R)"
  by (auto simp: zero_secs_def)

definition data_clus :: "BPB \<Rightarrow> u32 \<Rightarrow> bool" where
  "data_clus bpb c \<longleftrightarrow> 2 \<le> unat c \<and> unat c < cluster_count bpb + 2"

lemma fat_tab_upd:
  assumes "geometry_ok bpb" and "s \<notin> fat_secs bpb" and "k < unat (BPB_num_fats bpb)"
  shows "fat_tab (V(s \<mapsto> bs)) bpb k = fat_tab V bpb k"
  using unat_fat_sec(2) [OF assms(1,3)] assms(2) by (fastforce simp: fat_tab_def)

context block_device
begin

lemma data_load_ok:
  assumes h: "fat_holds good view F E R" and bs: "R s = Some bs" and off: "unat off < SECTOR_SIZE"
  shows "\<exists>d. dev_load D (F_device F) s off = Some (drop (unat off) bs, d) \<and> fat_holds good view (F\<lparr>F_device := d\<rparr>) E R"
proof -
  have "good (F_device F)" "view (F_device F) s = Some bs"
    using h bs by (auto simp: fat_holds_def restrict_map_def split: if_splits)
  from dev_load_ok [OF this off] h show ?thesis by (auto simp: fat_holds_def)
qed

lemma data_modify_ok:
  assumes h: "fat_holds good view F E R" and bs: "R s = Some bs" and off: "unat off < SECTOR_SIZE"
    and f: "f (drop (unat off) bs) = Some p" and len: "length p = SECTOR_SIZE - unat off"
  shows "\<exists>d. dev_modify D (F_device F) s off f = Some d
    \<and> fat_holds good view (F\<lparr>F_device := d\<rparr>) E (R(s \<mapsto> take (unat off) bs @ p))"
proof -
  let ?V = "view (F_device F)"
  have g: "good (F_device F)" "?V s = Some bs" and out: "s \<notin> fat_secs (F_bpb F)"
    and geo: "geometry_ok (F_bpb F)"
    using h bs by (auto simp: fat_holds_def fat_ok_def restrict_map_def split: if_splits)
  obtain d where d: "dev_modify D (F_device F) s off f = Some d" "good d" "view d = ?V(s \<mapsto> take (unat off) bs @ p)"
    using dev_modify_ok [OF g off, where f = f and p = p, OF f len] by blast
  have "length bs = SECTOR_SIZE" by (rule view_length [OF g])
  then have "fat_ok (view d) (F_bpb F)" using h len off by (auto simp: fat_holds_def fat_ok_def d(3))
  moreover have "view d |` (- fat_secs (F_bpb F)) = R(s \<mapsto> take (unat off) bs @ p)"
    using h out by (auto simp: fat_holds_def d(3) restrict_map_def)
  ultimately show ?thesis
    using h d out geo by (intro exI [of _ d]) (auto simp: fat_holds_def fat_tab_upd)
qed

lemma clear_secs_ok:
  assumes "fat_holds good view F E R" and "unat i \<le> unat e"
    and "{s. unat i \<le> unat s \<and> unat s < unat e} \<subseteq> dom R"
  shows "\<exists>d. clear_secs D e F i = Some (F\<lparr>F_device := d\<rparr>)
    \<and> fat_holds good view (F\<lparr>F_device := d\<rparr>) E (zero_secs {s. unat i \<le> unat s \<and> unat s < unat e} R)"
  using assms
proof (induction "unat e - unat i" arbitrary: F i R)
  case 0
  then have emp: "{s. unat i \<le> unat s \<and> unat s < unat e} = {}" and "\<not> i < e"
    by (auto simp: word_less_nat_alt)
  then show ?case
    using 0(2) unfolding emp by (subst clear_secs.simps) (auto intro!: exI [of _ "F_device F"] simp: zero_secs_def)
next
  case (Suc k)
  have lt: "i < e" and i1: "unat (i + 1) = unat i + 1"
    using Suc.hyps(2) by (simp_all add: word_less_nat_alt unat_plus1 [of i e])
  obtain bs where bs: "R i = Some bs" using Suc.prems(3) lt by (auto simp: word_less_nat_alt)
  have len: "length bs = SECTOR_SIZE" and bps: "unat (BPB_bytes_per_sec (F_bpb F)) = SECTOR_SIZE"
    using Suc.prems(1) bs view_length
    by (auto simp: fat_holds_def fat_ok_def geometry_ok_def restrict_map_def split: if_splits)
  let ?f = "\<lambda>p. let n = unat (BPB_bytes_per_sec (F_bpb F)) in
    do { ensure (n \<le> length p); Some (overwrite p 0 (replicate n 0)) }"
  have "?f bs = Some (replicate SECTOR_SIZE 0)" using len bps by (simp add: overwrite_def)
  then obtain d1 where d1: "dev_modify D (F_device F) i 0 ?f = Some d1"
      "fat_holds good view (F\<lparr>F_device := d1\<rparr>) E (R(i \<mapsto> replicate SECTOR_SIZE 0))"
    using data_modify_ok [OF Suc.prems(1) bs, of 0 ?f "replicate SECTOR_SIZE 0"] by (auto simp: SECTOR_SIZE_def)
  have "{s. unat (i + 1) \<le> unat s \<and> unat s < unat e} \<subseteq> {s. unat i \<le> unat s \<and> unat s < unat e}"
    by (auto simp: i1)
  from subset_trans [OF this Suc.prems(3)] have pre: "k = unat e - unat (i + 1)" "unat (i + 1) \<le> unat e"
    "{s. unat (i + 1) \<le> unat s \<and> unat s < unat e} \<subseteq> dom (R(i \<mapsto> replicate SECTOR_SIZE 0))"
    using Suc.hyps(2) i1 by (simp_all add: subset_insertI2)
  obtain d where d: "clear_secs D e (F\<lparr>F_device := d1\<rparr>) (i + 1) = Some (F\<lparr>F_device := d\<rparr>)"
      "fat_holds good view (F\<lparr>F_device := d\<rparr>) E
        (zero_secs {s. unat (i + 1) \<le> unat s \<and> unat s < unat e} (R(i \<mapsto> replicate SECTOR_SIZE 0)))"
    using Suc.hyps(1) [OF pre(1) d1(2) pre(2,3)] by auto
  have "zero_secs {s. unat (i + 1) \<le> unat s \<and> unat s < unat e} (R(i \<mapsto> replicate SECTOR_SIZE 0)) s
      = zero_secs {s. unat i \<le> unat s \<and> unat s < unat e} R s" for s
  proof (cases "s = i")
    case True
    then show ?thesis using lt by (simp add: zero_secs_def i1 word_less_nat_alt)
  next
    case False
    then have "unat s \<noteq> unat i" by (simp add: word_unat_eq_iff)
    then have "unat (i + 1) \<le> unat s \<longleftrightarrow> unat i \<le> unat s" unfolding i1 by linarith
    then show ?thesis using False by (simp add: zero_secs_def)
  qed
  then have "zero_secs {s. unat (i + 1) \<le> unat s \<and> unat s < unat e} (R(i \<mapsto> replicate SECTOR_SIZE 0))
      = zero_secs {s. unat i \<le> unat s \<and> unat s < unat e} R" by (rule ext)
  then show ?case using d d1(1) lt by (intro exI [of _ d], subst clear_secs.simps) simp
qed

lemma clearClusChain_ok:
  assumes "fat_holds good view F E R" and "\<And>c. c \<in> set cs \<Longrightarrow> data_clus (F_bpb F) c \<and> clus_secs (F_bpb F) c \<subseteq> dom R"
  shows "\<exists>d. clearClusChain D F cs = Some (F\<lparr>F_device := d\<rparr>)
    \<and> fat_holds good view (F\<lparr>F_device := d\<rparr>) E (zero_secs (\<Union>c \<in> set cs. clus_secs (F_bpb F) c) R)"
  using assms
proof (induction cs arbitrary: F R)
  case Nil
  then show ?case by (auto intro!: exI [of _ "F_device F"] simp: zero_secs_def)
next
  case (Cons c cs)
  let ?f = "getFirstSectorOfCluster (F_bpb F) c" and ?spc = "BPB_sec_per_clus (F_bpb F)"
  have geo: "geometry_ok (F_bpb F)" using Cons.prems(1) by (simp add: fat_holds_def fat_ok_def)
  have c: "2 \<le> unat c" "unat c < cluster_count (F_bpb F) + 2" using Cons.prems(2) by (auto simp: data_clus_def)
  have "unat ?f + unat ?spc \<le> unat (BPB_tot_sec32 (F_bpb F))"
    using unat_FirstSectorOfCluster [OF geo c] c(1) mult_Suc [of "unat c - 2" "unat ?spc"]
    by (simp add: numeral_2_eq_2 Suc_diff_Suc)
  then have e: "unat (?f + ucast ?spc) = unat ?f + unat ?spc"
    using unsigned_less [of "BPB_tot_sec32 (F_bpb F)", where 'a = nat]
    by (subst unat_plus) (simp_all add: unat_ucast_up)
  have secs: "{s. unat ?f \<le> unat s \<and> unat s < unat (?f + ucast ?spc)} = clus_secs (F_bpb F) c"
    by (simp add: clus_secs_def e)
  obtain d1 where d1: "clear_secs D (?f + ucast ?spc) F ?f = Some (F\<lparr>F_device := d1\<rparr>)"
      "fat_holds good view (F\<lparr>F_device := d1\<rparr>) E (zero_secs (clus_secs (F_bpb F) c) R)"
    using clear_secs_ok [OF Cons.prems(1), of ?f "?f + ucast ?spc"] Cons.prems(2) e unfolding secs by auto
  have "clus_secs (F_bpb F) x \<subseteq> dom (zero_secs (clus_secs (F_bpb F) c) R)" if "x \<in> set cs" for x
    using Cons.prems(2) [of x] that by (auto simp: zero_secs_def dom_def)
  then obtain d where "clearClusChain D (F\<lparr>F_device := d1\<rparr>) cs = Some (F\<lparr>F_device := d\<rparr>)"
      "fat_holds good view (F\<lparr>F_device := d\<rparr>) E
        (zero_secs (\<Union>c \<in> set cs. clus_secs (F_bpb F) c) (zero_secs (clus_secs (F_bpb F) c) R))"
    using Cons.IH [OF d1(2)] Cons.prems(2) by auto
  moreover have "isValidCluster c" using c(1) by (auto simp: isValidCluster_def)
  ultimately show ?case
    using d1(1) by (intro exI [of _ d]) (simp add: Let_def zero_secs_Un)
qed

end

section \<open>Resizing\<close>

text \<open>What a chain that keeps its first \<open>k\<close> clusters does to the table.\<close>

fun cut :: "nat \<Rightarrow> u32 list \<Rightarrow> (u32 \<Rightarrow> u32) \<Rightarrow> (u32 \<Rightarrow> u32)" where
  "cut k [] E = E"
| "cut 0 (x # xs) E = cut 0 xs (E(x := 0))"
| "cut (Suc k) (x # xs) E = cut k xs (if k = 0 then E(x := KFat32EocMark) else E)"

lemma cut_other: "n \<notin> set xs \<Longrightarrow> cut k xs E n = E n"
proof (induction xs arbitrary: k E)
  case (Cons x xs)
  then show ?case by (cases k) auto
qed simp

lemma cut_apply:
  assumes "distinct xs"
  shows "cut k xs E n = (if n \<in> set (drop k xs) then 0
    else if 0 < k \<and> k \<le> length xs \<and> n = xs ! (k - 1) then KFat32EocMark else E n)"
  using assms
proof (induction xs arbitrary: k E)
  case (Cons x xs)
  show ?case
  proof (cases k)
    case 0
    then show ?thesis using Cons.IH [of 0 "E(x := 0)"] Cons.prems by (simp add: fun_upd_def)
  next
    case (Suc j)
    then show ?thesis
      using Cons.IH [of j "if j = 0 then E(x := KFat32EocMark) else E"] Cons.prems
      by (cases j) (auto simp: cut_other fun_upd_def)
  qed
qed auto

lemma chain_prefix:
  assumes "chain N E c xs" and "0 < k" and "k \<le> length xs"
    and "\<And>x. x \<in> set (take (k - 1) xs) \<Longrightarrow> E' x = E x" and "isEndOfClusChain (E' (xs ! (k - 1)))"
  shows "chain N E' c (take k xs)"
  using assms
proof (induction xs arbitrary: c k)
  case (Cons x xs)
  obtain j where k: "k = Suc j" using Cons.prems(2) by (cases k) auto
  show ?case
  proof (cases j)
    case 0
    then show ?thesis using Cons.prems k by auto
  next
    case (Suc i)
    then have "E' x = E x" "chain N E' (E x) (take j xs)"
      using Cons.prems k by (auto intro!: Cons.IH)
    then show ?thesis using Cons.prems(1) k by simp
  qed
qed simp

lemma cut_chain:
  assumes "chain N E c xs" and "0 < k" and "k \<le> length xs"
  shows "chain N (cut k xs E) c (take k xs)"
proof (rule chain_prefix [OF assms])
  have d: "distinct xs" by (rule chain_distinct [OF assms(1)])
  then show "isEndOfClusChain (cut k xs E (xs ! (k - 1)))"
    using assms(2,3) by (auto simp: cut_apply isEndOfClusChain_def KFat32EocMark_def in_set_conv_nth nth_eq_iff_index_eq)
  fix x assume "x \<in> set (take (k - 1) xs)"
  then obtain i where i: "i < k - 1" "x = xs ! i" using assms(3) by (auto simp: in_set_conv_nth)
  then show "cut k xs E x = E x"
    using d assms(2,3) by (auto simp: cut_apply in_set_conv_nth nth_eq_iff_index_eq)
qed

context block_device
begin

lemma resize_loop_ok:
  assumes "fat_holds good view F E R" and "chain (fat_size F) E c xs" and "unat cnt + length xs < 2 ^ 32"
  shows "\<exists>d. resize_loop D num F pre c cnt =
      Some (last (pre # xs), cnt + of_nat (length xs), took (of_nat (length xs - (unat num - unat cnt))) d F)
    \<and> fat_holds good view (F\<lparr>F_device := d\<rparr>) (cut (unat num - unat cnt) xs E) R"
  using assms
proof (induction xs arbitrary: F E c cnt pre)
  case Nil
  then show ?case
    by (subst resize_loop.simps) (auto intro!: exI [of _ "F_device F"] simp: took_0)
next
  case (Cons x xs)
  let ?k = "unat num - unat cnt"
  have c: "x = c" "unat c < fat_size F" "\<not> isEndOfClusChain c" "chain (fat_size F) E (E c) xs"
    using Cons.prems(2) by auto
  have notin: "c \<notin> set xs" using chain_distinct [OF Cons.prems(2)] c(1) by simp
  have cnt1: "unat (cnt + 1) = unat cnt + 1" using Cons.prems(3) by (subst unat_plus) simp_all
  obtain d1 where d1: "read_clus D F c = Some (E c, F\<lparr>F_device := d1\<rparr>)" "fat_holds good view (F\<lparr>F_device := d1\<rparr>) E R"
    using read_clus_ok [OF Cons.prems(1) c(2)] by blast
  have k1: "unat num - unat (cnt + 1) = ?k - 1" and len1: "unat (cnt + 1) + length xs < 2 ^ 32"
    using Cons.prems(3) by (simp_all add: cnt1)
  let ?step = "if cnt + 1 > num then do { F2 \<leftarrow> write_clus D (F\<lparr>F_device := d1\<rparr>) c 0; Some (dec_avail_cnt 1 F2) }
    else if cnt + 1 = num then write_clus D (F\<lparr>F_device := d1\<rparr>) c KFat32EocMark else Some (F\<lparr>F_device := d1\<rparr>)"
  define E1 where "E1 = (if ?k = 0 then E(c := 0) else if ?k = 1 then E(c := KFat32EocMark) else E)"
  define t where "t = (if ?k = 0 then 1 else 0 :: u32)"
  obtain d2 where d2: "?step = Some (took t d2 F)" "fat_holds good view (took t d2 F) E1 R"
  proof -
    have dec: "dec_avail_cnt 1 (F\<lparr>F_device := d\<rparr>) = took 1 d F" for d
      by (simp add: dec_avail_cnt_def took_def)
    consider "?k = 0" | "?k = 1" | "1 < ?k" by linarith
    then show ?thesis
    proof cases
      case 1
      then have "cnt + 1 > num" by (simp add: word_less_nat_alt cnt1)
      then show ?thesis
        using write_clus_ok [OF d1(2), of c 0] c(2) 1 that by (auto simp: E1_def t_def dec fat_holds_took)
    next
      case 2
      then have "\<not> cnt + 1 > num" "cnt + 1 = num" by (auto simp: word_less_nat_alt word_unat_eq_iff cnt1)
      then show ?thesis
        using write_clus_ok [OF d1(2), of c KFat32EocMark] c(2) 2 that by (auto simp: E1_def t_def took_0 eoc_28)
    next
      case 3
      then have "\<not> cnt + 1 > num" "cnt + 1 \<noteq> num" by (auto simp: word_less_nat_alt word_unat_eq_iff cnt1)
      moreover have "E1 = E" "t = 0" using 3 by (auto simp: E1_def t_def)
      ultimately show ?thesis using d1(2) that [of d1] by (simp add: took_0)
    qed
  qed
  have ch: "chain (fat_size (took t d2 F)) E1 (E c) xs"
    using c(4) notin by (simp add: E1_def chain_upd_out)
  obtain d where d: "resize_loop D num (took t d2 F) c (E c) (cnt + 1) =
      Some (last (c # xs), cnt + 1 + of_nat (length xs), took (of_nat (length xs - (?k - 1))) d (took t d2 F))"
      "fat_holds good view ((took t d2 F)\<lparr>F_device := d\<rparr>) (cut (?k - 1) xs E1) R"
    using Cons.IH [OF d2(2) ch len1, of c] unfolding k1 by blast
  have "cut ?k (x # xs) E = cut (?k - 1) xs E1"
    using c(1) by (cases ?k) (auto simp: E1_def)
  moreover have "t + of_nat (length xs - (?k - 1)) = of_nat (length (x # xs) - ?k)"
    by (cases ?k) (simp_all add: t_def)
  ultimately show ?case
    using d1(1) d2(1) d c by (intro exI [of _ d], subst resize_loop.simps)
      (auto simp: took_took fat_holds_def add.assoc)
qed

end


lemma chain_length: "chain N E c xs \<Longrightarrow> length xs \<le> N"
proof -
  assume c: "chain N E c xs"
  have "card (unat ` set xs) \<le> card {..<N}"
    using chain_bounds [OF c] by (intro card_mono) auto
  moreover have "card (unat ` set xs) = length xs"
    using distinct_card [OF chain_distinct [OF c]]
    by (subst card_image) (auto intro!: inj_onI simp: word_unat_eq_iff)
  ultimately show ?thesis by simp
qed

lemma chain_join:
  assumes "chain N E c xs" and "xs \<noteq> []" and "chain N E' d ys" and "E' (last xs) = d"
    and "\<And>x. x \<in> set (butlast xs) \<Longrightarrow> E' x = E x"
  shows "chain N E' c (xs @ ys)"
  using assms
proof (induction xs arbitrary: c)
  case (Cons x xs)
  show ?case
  proof (cases xs)
    case Nil
    then show ?thesis using Cons.prems by simp
  next
    case (Cons b bs)
    then show ?thesis using Cons.prems Cons.IH [of "E c"] by simp
  qed
qed simp

text \<open>Clusters 0 and 1 are never free.\<close>

definition reserved_ok :: "(u32 \<Rightarrow> u32) \<Rightarrow> bool" where
  "reserved_ok E \<longleftrightarrow> E 0 \<noteq> 0 \<and> E 1 \<noteq> 0"

lemma link_new_other: "n \<notin> set cs \<Longrightarrow> cs \<noteq> [] \<Longrightarrow> link_new cs E n = E n"
  by (cases cs) (auto simp: link_new_Cons link_other)

lemma link_nonzero:
  "distinct (p # cs) \<Longrightarrow> 0 \<notin> set (p # cs) \<Longrightarrow> n \<in> set (p # cs) \<Longrightarrow> link p cs E n \<noteq> 0"
proof (induction cs arbitrary: p E)
  case (Cons c cs)
  then show ?case
    using link_other [of p c cs "E(p := c)"] by (cases "n = p") auto
qed (simp add: KFat32EocMark_def)

lemma free_clus_bound:
  assumes "reserved_ok E" and "n < 2 ^ 28" and "c \<in> set (free_clus E n)"
  shows "E c = 0" and "unat c < n" and "2 \<le> unat c"
proof -
  show e: "E c = 0" "unat c < n" using assms(2,3) by (simp_all add: free_clus_facts)
  have "c \<noteq> 0" "c \<noteq> 1" using assms(1) e(1) by (auto simp: reserved_ok_def)
  then have "unat c \<noteq> 0" "unat c \<noteq> 1" by (simp_all add: word_unat_eq_iff)
  then show "2 \<le> unat c" by linarith
qed

text \<open>Taking the first \<open>k\<close> free clusters as a chain: they form the chain, and no others change.\<close>

lemma link_new_free:
  assumes res: "reserved_ok E" and n: "n < 2 ^ 28" "n \<le> N" "n \<le> 0x0FFFFFF8"
    and k: "0 < k" "k \<le> length (free_clus E n)"
  defines "cs \<equiv> take k (free_clus E n)"
  shows "chain N (link_new cs E) (hd cs) cs" and "cs \<noteq> []" and "distinct cs"
    and "length (free_clus (link_new cs E) n) = length (free_clus E n) - k"
    and "\<And>c. c \<in> set cs \<Longrightarrow> E c = 0 \<and> 2 \<le> unat c \<and> unat c < n"
proof -
  have dis: "distinct (free_clus E n)" using free_clus_facts [OF n(1)] by simp
  then show d: "distinct cs" by (simp add: cs_def)
  show in_cs: "\<And>c. c \<in> set cs \<Longrightarrow> E c = 0 \<and> 2 \<le> unat c \<and> unat c < n"
    using free_clus_bound [OF res n(1)] by (auto simp: cs_def dest: in_set_takeD)
  then have z: "0 \<notin> set cs" by force
  show ne: "cs \<noteq> []" using k by (auto simp: cs_def)
  then obtain b bs where cs: "cs = b # bs" by (cases cs) auto
  have bounds: "unat x < N \<and> \<not> isEndOfClusChain x" if "x \<in> set cs" for x
    using in_cs [OF that] n by (auto simp: isEndOfClusChain_def word_le_nat_alt)
  show "chain N (link_new cs E) (hd cs) cs"
    unfolding cs link_new_Cons list.sel using d z bounds unfolding cs by (intro link_chain) auto
  have "link_new cs E x = 0 \<longleftrightarrow> E x = 0 \<and> x \<notin> set cs" for x
    using link_nonzero [of b bs x E] link_new_other [of x cs E] d z ne in_cs
    by (cases "x \<in> set cs") (auto simp: cs link_new_Cons)
  then have "free_clus (link_new cs E) n = filter (\<lambda>x. x \<notin> set cs) (free_clus E n)"
    by (simp add: free_clus_def free_from_def filter_map o_def conj_commute)
  moreover have "filter (\<lambda>x. x \<notin> set cs) (free_clus E n) = drop k (free_clus E n)"
  proof -
    have "free_clus E n = cs @ drop k (free_clus E n)" by (simp add: cs_def)
    moreover have "set cs \<inter> set (drop k (free_clus E n)) = {}"
      using dis unfolding cs_def by (rule set_take_disj_set_drop_if_distinct) simp
    ultimately show ?thesis
      by (metis (no_types, lifting) append_Nil disjoint_iff filter_False filter_True filter_append)
  qed
  ultimately show "length (free_clus (link_new cs E) n) = length (free_clus E n) - k" by simp
qed

context block_device
begin

lemma resize_shrink_ok:
  assumes h: "fat_holds good view F E R" and c: "isValidCluster c" "chain (fat_size F) E c xs"
    and num: "unat num \<le> length xs"
  shows "\<exists>d. resize D F c num clear = Some (True, if num = 0 then 0 else c, took (of_nat (length xs - unat num)) d F)
    \<and> fat_holds good view (F\<lparr>F_device := d\<rparr>) (cut (unat num) xs E) R"
proof -
  have "length xs \<le> fat_size F" "fat_size F \<le> 2 ^ 28"
    using chain_length [OF c(2)] geometryD(6) [of "F_bpb F"] h by (auto simp: fat_holds_def fat_ok_def fat_entries_def)
  then have len: "length xs < 2 ^ 32" by simp
  then have u: "unat (of_nat (length xs) :: u32) = length xs" by (intro unat_of_nat_lt) simp
  then have "\<not> of_nat (length xs) < num" using num by (simp add: word_less_nat_alt)
  moreover obtain d where "resize_loop D num F c c 0 = Some (last (c # xs), of_nat (length xs), took (of_nat (length xs - unat num)) d F)"
      "fat_holds good view (F\<lparr>F_device := d\<rparr>) (cut (unat num) xs E) R"
    using resize_loop_ok [OF h c(2), of 0 num c] len by auto
  ultimately show ?thesis using c(1) by (intro exI [of _ d]) (simp add: resize_def)
qed

text \<open>The walk to the last cluster when all are to be kept, and clearing what was taken.\<close>

lemma resize_walk_ok:
  assumes h: "fat_holds good view F E R" and c: "if isValidCluster c then xs \<noteq> [] \<and> chain (fat_size F) E c xs else xs = []"
    and num: "length xs < unat num"
  shows "\<exists>d. (if isValidCluster c then resize_loop D num F c c 0 else Some (c, 0, F))
      = Some (last (c # xs), of_nat (length xs), F\<lparr>F_device := d\<rparr>) \<and> fat_holds good view (F\<lparr>F_device := d\<rparr>) E R"
proof (cases "isValidCluster c")
  case True
  have "length xs - unat num = 0" "unat num - 0 > length xs" using num by simp_all
  moreover from this have "cut (unat num) xs E = E"
    using c True chain_distinct by (auto simp: fun_eq_iff cut_apply)
  moreover have "length xs < 2 ^ 32" using num unsigned_less [of num, where 'a = nat] by simp
  ultimately show ?thesis using resize_loop_ok [OF h, of c xs 0 num c] c True by (auto simp: took_0)
next
  case False
  then show ?thesis using h c by (intro exI [of _ "F_device F"]) auto
qed

lemma clear_if_ok:
  assumes h: "fat_holds good view F E R" and dc: "\<forall>b \<in> set cs. data_clus (F_bpb F) b"
    and secs: "clear \<Longrightarrow> \<forall>b \<in> set cs. clus_secs (F_bpb F) b \<subseteq> dom R"
  shows "\<exists>d. (if clear then clearClusChain D F cs else Some F) = Some (F\<lparr>F_device := d\<rparr>)
    \<and> fat_holds good view (F\<lparr>F_device := d\<rparr>) E (if clear then zero_secs (\<Union>b \<in> set cs. clus_secs (F_bpb F) b) R else R)"
proof (cases clear)
  case True
  then show ?thesis using clearClusChain_ok [OF h, of cs] dc secs by auto
next
  case False
  then show ?thesis using h by (intro exI [of _ "F_device F"]) simp
qed

lemma resize_grow_ok:
  assumes h: "fat_holds good view F E R" and a: "avail_ok F E" and hint: "F_free_count F = 0xFFFFFFFF"
    and res: "reserved_ok E"
    and c: "if isValidCluster c then xs \<noteq> [] \<and> chain (fat_size F) E c xs else xs = []"
    and num: "length xs < unat num"
    and secs: "clear \<Longrightarrow> (\<forall>b. data_clus (F_bpb F) b \<longrightarrow> clus_secs (F_bpb F) b \<subseteq> dom R)"
  defines "fl \<equiv> free_clus E (unat (F_cnt_of_clus F))" and "k \<equiv> unat num - length xs"
  defines "cs \<equiv> take k fl"
  defines "E' \<equiv> (if xs = [] then link_new cs E else (link_new cs E)(last xs := hd cs))"
    and "R' \<equiv> (if clear then zero_secs (\<Union>b \<in> set cs. clus_secs (F_bpb F) b) R else R)"
  shows "\<exists>d. resize D F c num clear =
      (if length fl < k then Some (False, c, F\<lparr>F_device := d, F_avail_clus_cnt := Some (of_nat (length fl))\<rparr>)
       else Some (True, if isValidCluster c then c else hd cs,
              F\<lparr>F_device := d, F_avail_clus_cnt := Some (of_nat (length fl) - of_nat k)\<rparr>))
    \<and> fat_holds good view (F\<lparr>F_device := d\<rparr>) (if length fl < k then E else E') (if length fl < k then R else R')"
proof -
  let ?n = "unat (F_cnt_of_clus F)"
  have n: "?n < 2 ^ 28" "?n \<le> fat_size F" "?n \<le> 0x0FFFFFF8" "?n = cluster_count (F_bpb F)"
    using h by (auto simp: fat_holds_def fat_ok_def)
  have u: "unat (of_nat (length xs) :: u32) = length xs"
    using num unsigned_less [of num, where 'a = nat] by (intro unat_of_nat_lt) simp
  have less: "of_nat (length xs) < num" using num u by (simp add: word_less_nat_alt)
  have uk: "unat (num - of_nat (length xs)) = k" "0 < k"
    using num u by (simp_all add: k_def unat_sub word_le_nat_alt)
  then have wk: "num - of_nat (length xs) = of_nat k" by (metis of_nat_unat)
  with uk(1) have uk1: "unat (of_nat k :: u32) = k" by simp
  obtain d1 where d1: "(if isValidCluster c then resize_loop D num F c c 0 else Some (c, 0, F))
      = Some (last (c # xs), of_nat (length xs), F\<lparr>F_device := d1\<rparr>)" "fat_holds good view (F\<lparr>F_device := d1\<rparr>) E R"
    using resize_walk_ok [OF h c num] by blast
  let ?F = "F\<lparr>F_device := d1\<rparr>"
  have a1: "avail_ok ?F E" "F_free_count ?F = 0xFFFFFFFF" using a hint by (simp_all add: avail_ok_def)
  have sel: "F_cnt_of_clus ?F = F_cnt_of_clus F" "?F\<lparr>F_device := d\<rparr> = F\<lparr>F_device := d\<rparr>"
    "?F\<lparr>F_device := d, F_avail_clus_cnt := v\<rparr> = F\<lparr>F_device := d, F_avail_clus_cnt := v\<rparr>" for d v
    by simp_all
  have "0 < num - of_nat (length xs)" using uk by (simp add: word_less_nat_alt)
  from allocClus_ok [OF d1(2) a1 this] obtain d2 where
    al: "allocClus D ?F (num - of_nat (length xs)) =
      (if length fl < k then Some (None, F\<lparr>F_device := d2, F_avail_clus_cnt := Some (of_nat (length fl))\<rparr>)
       else Some (Some cs, F\<lparr>F_device := d2, F_avail_clus_cnt := Some (of_nat (length fl) - of_nat k)\<rparr>))"
    "fat_holds good view (F\<lparr>F_device := d2\<rparr>) (if length fl < k then E else link_new cs E) R"
    unfolding wk uk1 sel fl_def [symmetric] cs_def [symmetric] by blast
  show ?thesis
  proof (cases "length fl < k")
    case True
    then show ?thesis
      using d1(1) less al by (intro exI [of _ d2]) (simp add: resize_def)
  next
    case False
    let ?F2 = "F\<lparr>F_device := d2, F_avail_clus_cnt := Some (of_nat (length fl) - of_nat k)\<rparr>"
    note new = link_new_free [OF res n(1-3) uk(2), folded fl_def, folded cs_def]
    have k: "k \<le> length fl" using False by simp
    have h2: "fat_holds good view ?F2 (link_new cs E) R" using al(2) False by (simp add: fat_holds_def)
    have dc: "data_clus (F_bpb F) b" if "b \<in> set cs" for b
      using new(5) [OF k that] n(4) by (simp add: data_clus_def)
    have b2: "F_bpb ?F2 = F_bpb F" by simp
    obtain d3 where d3: "(if clear then clearClusChain D ?F2 cs else Some ?F2) = Some (?F2\<lparr>F_device := d3\<rparr>)"
        "fat_holds good view (?F2\<lparr>F_device := d3\<rparr>) (link_new cs E) R'"
      using clear_if_ok [OF h2, of cs clear, unfolded b2] dc secs unfolding R'_def by blast
    show ?thesis
    proof (cases "isValidCluster c")
      case False
      then show ?thesis
        using d1(1) less al(1) d3 \<open>\<not> length fl < k\<close> c new(2) [OF k]
        by (intro exI [of _ d3]) (simp add: resize_def E'_def fat_holds_def)
    next
      case True
      then have ch: "chain (fat_size F) E c xs" "xs \<noteq> []" using c by simp_all
      have "hd cs \<in> set cs" using new(2) [OF k] by (rule hd_in_set)
      then have "unat (hd cs) < 2 ^ 28" using new(5) [OF k] n(1) by force
      note hd = and_28 [OF this]
      have "unat (last xs) < fat_size (?F2\<lparr>F_device := d3\<rparr>)" using chain_bounds [OF ch(1)] ch(2) by simp
      from write_clus_ok [OF d3(2) this, of "hd cs"] obtain d4 where
        d4: "write_clus D (?F2\<lparr>F_device := d3\<rparr>) (last xs) (hd cs) = Some (?F2\<lparr>F_device := d4\<rparr>)"
          "fat_holds good view (?F2\<lparr>F_device := d4\<rparr>) ((link_new cs E)(last xs := hd cs)) R'"
        unfolding hd by auto
      show ?thesis
        using d1(1) less al(1) d3(1) d4 \<open>\<not> length fl < k\<close> True ch(2) new(2) [OF k]
        by (intro exI [of _ d4]) (simp add: resize_def E'_def fat_holds_def)
    qed
  qed
qed

end

end
