(* ===== verification/FatCorrect.thy ===== *)
theory FatCorrect
  imports FatTable
begin

text \<open>
  What the file allocation table promises on the devices the program mounts (the sector cache
  over an image file): the statements about \<open>FAT\<close> in terms of the table \<open>E\<close> every copy of the
  FAT holds and the other sectors \<open>R\<close>. A small volume with one file serves the witnesses.
\<close>

abbreviation disk_fat :: "lfd cache_mgr FAT \<Rightarrow> (u32 \<Rightarrow> u32) \<Rightarrow> (u32 \<Rightarrow> bytes option) \<Rightarrow> bool" where
  "disk_fat \<equiv> fat_holds disk_good disk_view"

section \<open>A volume for the witnesses\<close>

text \<open>The FATs of \<open>demo_BPB\<close> with the root directory in cluster 2 and one file in 3, 4, 5.\<close>

definition demo_table :: "nat \<Rightarrow> u32" where
  "demo_table n = (if n = 0 then 0x0FFFFFF8 else if n = 1 then 0x0FFFFFFF else if n = 2 then KFat32EocMark
     else if n = 3 then 4 else if n = 4 then 5 else if n = 5 then KFat32EocMark else 0)"

definition demo_byte :: "nat \<Rightarrow> u8" where
  "demo_byte i = (if 16384 \<le> i \<and> i < 20480
     then bytes32 (demo_table ((i - 16384) mod 2048 div 4)) ! (i mod 4) else 0)"

definition demo_E :: "u32 \<Rightarrow> u32" where
  "demo_E n = (if unat n < 512 then demo_table (unat n) AND 0x0FFFFFFF else 0)"

abbreviation demo_len :: nat where
  "demo_len \<equiv> 282624"

definition demo_R :: "u32 \<Rightarrow> bytes option" where
  "demo_R = image_view demo_len demo_byte |` (- fat_secs demo_BPB)"

definition demo_FAT :: "lfd cache_mgr FAT" where
  "demo_FAT = \<lparr>F_start_sec_no = 32, F_fat_sec_num = 4, F_cnt_of_clus = 256, F_bpb = demo_BPB,
     F_free_count = 0xFFFFFFFF, F_avail_clus_cnt = None, F_device = mount_disk demo_len demo_byte\<rparr>"

lemma demo_FAT_new: "FAT_new demo_BPB 0xFFFFFFFF (mount_disk demo_len demo_byte) = Some demo_FAT"
  by (simp add: FAT_new_def demo_FAT_def getCountOfClusters_def getDataSecCnt_def getFirstFATSector_def demo_BPB_def)

lemma demo_byte_fat:
  assumes "k < 2" and "n < 512" and "j < 4"
  shows "demo_byte (16384 + 2048 * k + 4 * n + j) = bytes32 (demo_table n) ! j"
proof -
  have i: "16384 + 2048 * k + 4 * n + j - 16384 = 4 * n + j + 2048 * k" by simp
  have m: "(4 * n + j + 2048 * k) mod 2048 = 4 * n + j" using assms(2,3) by simp
  have d: "(4 * n + j) div 4 = n" using assms(3) by simp
  have "16384 + 2048 * k + 4 * n + j = j + 4 * (4096 + 512 * k + n)" by simp
  then have r: "(16384 + 2048 * k + 4 * n + j) mod 4 = j" using assms(3) by (metis mod_less mod_mult_self2)
  show ?thesis unfolding demo_byte_def i m d r using assms by simp
qed

lemma get32_cong:
  assumes "\<And>j. j < 4 \<Longrightarrow> xs ! (a + j) = ys ! j"
  shows "get32 xs a = get32 ys 0"
  using assms [of 0] assms [of 1] assms [of 2] assms [of 3]
  by (simp add: get32_def numeral_2_eq_2 numeral_3_eq_3)

lemma demo_fat_tab:
  assumes "k < 2"
  shows "fat_tab (image_view demo_len demo_byte) demo_BPB k = demo_E"
proof
  fix n
  show "fat_tab (image_view demo_len demo_byte) demo_BPB k n = demo_E n"
  proof (cases "unat n < 512")
    case True
    define q r where "q = unat n div 128" and "r = unat n mod 128"
    have n: "unat n = 128 * q + r" by (simp add: q_def r_def)
    have qr: "q < 4" "r < 128" using True by (simp_all add: q_def r_def div_less_iff_less_mult)
    let ?s = "fat_sec demo_BPB k n"
    have s: "unat ?s = 32 + k * 4 + q"
      using unat_fat_sec(1) [OF demo_BPB_ok(1), of k n] assms True
      by (simp add: demo_BPB_def fat_entries_def q_def)
    have idx: "unat ?s * SECTOR_SIZE + (4 * r + j) = 16384 + 2048 * k + 4 * unat n + j" for j
      by (simp add: n s SECTOR_SIZE_def)
    have bs: "image_view demo_len demo_byte ?s = Some (map demo_byte [unat ?s * SECTOR_SIZE..<(unat ?s + 1) * SECTOR_SIZE])"
      (is "_ = Some ?bs")
      using assms qr(1) by (simp add: image_view_def s SECTOR_SIZE_def)
    have at: "?bs ! (4 * r + j) = bytes32 (demo_table (unat n)) ! j" if "j < 4" for j
    proof -
      have "4 * r + j < 512" using that qr(2) by simp
      then have "?bs ! (4 * r + j) = demo_byte (unat ?s * SECTOR_SIZE + (4 * r + j))"
        by (simp add: SECTOR_SIZE_def)
      then show ?thesis using demo_byte_fat [OF assms True that] by (simp only: idx)
    qed
    have "get32 ?bs (4 * r) = get32 (bytes32 (demo_table (unat n))) 0"
      using at by (rule get32_cong)
    moreover have "fat_entries demo_BPB = 512" by (simp add: fat_entries_def demo_BPB_def)
    ultimately show ?thesis
      using True unfolding fat_tab_def bs demo_E_def by (simp add: get32_bytes32 flip: r_def)
  qed (simp add: fat_tab_def demo_E_def fat_entries_def demo_BPB_def)
qed

lemma demo_disk: "disk_good (mount_disk demo_len demo_byte)"
  "disk_view (mount_disk demo_len demo_byte) = image_view demo_len demo_byte"
  using mount_disk_good [of demo_len demo_byte] by simp_all

lemma demo_fat_ok: "fat_ok (image_view demo_len demo_byte) demo_BPB"
proof -
  have "unat s < 40 \<Longrightarrow> image_view demo_len demo_byte s \<noteq> None" for s
    by (simp add: image_view_def SECTOR_SIZE_def)
  then show ?thesis
    using demo_BPB_ok by (auto simp: fat_ok_def fat_secs_def fat_entries_def image_view_def demo_BPB_def
        simp flip: demo_BPB_ok(3) split: if_splits)
qed

lemma demo_holds: "disk_fat demo_FAT demo_E demo_R"
  using demo_disk demo_fat_ok demo_fat_tab demo_BPB_ok
  by (simp add: fat_holds_def demo_FAT_def demo_R_def)
    (simp add: getFirstFATSector_def demo_BPB_def)

lemma demo_entries: "demo_E 0 = 0x0FFFFFF8" "demo_E 1 = 0x0FFFFFFF" "demo_E 3 = 4" "demo_E 4 = 5"
  "demo_E 5 = KFat32EocMark" "demo_E 6 = 0" "demo_E 7 = 0"
  by (simp_all add: demo_E_def demo_table_def KFat32EocMark_def)

lemma demo_size: "fat_size demo_FAT = 512"
  by (simp add: demo_FAT_def fat_entries_def demo_BPB_def)

lemma demo_chain: "chain (fat_size demo_FAT) demo_E 3 [3, 4, 5]"
  by (simp add: demo_size demo_entries isEndOfClusChain_def KFat32EocMark_def)


lemma demo_free: "free_clus demo_E 256 = map of_nat [6..<256]"
proof -
  have "demo_E (of_nat c) = 0" if "6 \<le> c" "c < 256" for c
    using that by (simp add: demo_E_def demo_table_def unat_of_nat_lt)
  then have "free_from demo_E 6 256 = [6..<256]"
    unfolding free_from_def by (intro filter_True ballI) (simp only: set_upt atLeastLessThan_iff)
  moreover have "free_from demo_E 0 6 = []"
  proof -
    have "demo_E (of_nat c) \<noteq> 0" if "c < 6" for c
      using that by (auto simp: demo_E_def demo_table_def KFat32EocMark_def unat_of_nat_lt)
    then show ?thesis
      unfolding free_from_def by (intro filter_False ballI) (simp only: set_upt atLeastLessThan_iff not_False_eq_True)
  qed
  ultimately show ?thesis
    using free_from_split [of 0 6 256 demo_E] unfolding free_clus_def by (simp del: upt_rec_numeral)
qed

lemma demo_count: "F_cnt_of_clus demo_FAT = 256" "F_bpb demo_FAT = demo_BPB" "F_free_count demo_FAT = 0xFFFFFFFF"
  "avail_ok demo_FAT E"
  by (simp_all add: demo_FAT_def avail_ok_def)

lemma demo_closed: "closed_table (fat_size demo_FAT) demo_E"
  by (auto simp: closed_table_def demo_size demo_E_def demo_table_def KFat32EocMark_def isEndOfClusChain_def)

section \<open>Counting\<close>

lemma length_free_clus:
  assumes "n < 2 ^ 28"
  shows "length (free_clus E n) = card {c. E c = 0 \<and> unat c < n}"
proof -
  have "set (free_clus E n) = {c. E c = 0 \<and> unat c < n}" using free_clus_facts(2) [OF assms] by auto
  then show ?thesis using distinct_card [OF free_clus_facts(1) [OF assms, of E]] by simp
qed

lemma finite_clus: "finite {c :: u32. P c}"
  by (rule finite_subset [OF subset_UNIV]) simp

lemma cnt_bound:
  assumes "disk_fat F E R"
  shows "unat (F_cnt_of_clus F) + 2 \<le> fat_size F" and "unat (F_cnt_of_clus F) < 2 ^ 28"
    and "unat (F_cnt_of_clus F) \<le> 0x0FFFFFF8"
  using assms by (auto simp: fat_holds_def fat_ok_def)

text \<open>Clusters that become free, and clusters that stop being free.\<close>

lemma free_clus_zeroed:
  assumes "n < 2 ^ 28" and "distinct xs" and "\<And>x. x \<in> set xs \<Longrightarrow> E x \<noteq> 0 \<and> unat x < n"
    and "\<And>c. E' c = 0 \<longleftrightarrow> c \<in> set xs \<or> E c = 0"
  shows "length (free_clus E' n) = length (free_clus E n) + length xs"
proof -
  have "{c. E' c = 0 \<and> unat c < n} = {c. E c = 0 \<and> unat c < n} \<union> set xs" using assms(3,4) by auto
  moreover have "{c. E c = 0 \<and> unat c < n} \<inter> set xs = {}" using assms(3) by auto
  ultimately show ?thesis
    using length_free_clus [OF assms(1)] by (simp add: card_Un_disjoint finite_clus distinct_card assms(2))
qed

text \<open>The links of a chain that avoids cluster 0 are not 0.\<close>

lemma chain_nonzero:
  assumes "chain N E c xs" and "0 \<notin> set xs" and "x \<in> set xs"
  shows "E x \<noteq> 0"
  using assms
proof (induction xs arbitrary: c)
  case (Cons y ys)
  show ?case
  proof (cases "x = y")
    case True
    have "chain N E (E y) ys" using Cons.prems(1) by simp
    then show ?thesis using Cons.prems True by (cases ys) (auto simp: isEndOfClusChain_def)
  qed (use Cons in auto)
qed simp

lemma fat_holds_avail_cnt [simp]:
  "fat_holds good view (F\<lparr>F_avail_clus_cnt := a\<rparr>) E R = fat_holds good view F E R"
  by (simp add: fat_holds_def)

lemma avail_ok_count [simp]:
  "avail_ok (F\<lparr>F_device := d, F_avail_clus_cnt := a\<rparr>) E
    \<longleftrightarrow> a \<in> {None, Some (of_nat (length (free_clus E (unat (F_cnt_of_clus F)))))}"
  by (simp add: avail_ok_def)

section \<open>Reading chains\<close>

text \<open>C35: \<open>readClusChains\<close> returns the clusters of the chain, in order and without changing the
  disk, exactly when following the table from the first cluster reaches an end mark; on a table
  with a cycle it does not return.\<close>

theorem readClusChains_follows_the_chain:
  assumes "disk_fat F E R" and "closed_table (fat_size F) E"
    and "isValidCluster c" and "unat c < fat_size F"
  shows "case readClusChains disk_ops F c of
      Some (xs, F') \<Rightarrow> chain (fat_size F) E c xs \<and> disk_fat F' E R
    | None \<Rightarrow> \<nexists>xs. chain (fat_size F) E c xs"
proof (cases "readClusChains disk_ops F c")
  case None
  then show ?thesis using lfd.cached.readClusChains_ok [OF assms(1,3)] by fastforce
next
  case (Some res)
  then have "chain_loop disk_ops F c [] = Some res" using assms(3) by (simp add: readClusChains_def)
  from lfd.cached.chain_loop_sound [OF this refl assms(1,2)] assms(4)
  have "chain (fat_size F) E c (fst res)" by auto
  with lfd.cached.readClusChains_ok [OF assms(1,3) this] Some show ?thesis by (cases res) auto
qed

theorem readClusChains_follows_the_chain_witness:
  "\<exists>F'. readClusChains disk_ops demo_FAT 3 = Some ([3, 4, 5], F') \<and> disk_fat F' demo_E demo_R"
proof -
  have "isValidCluster 3" by (simp add: isValidCluster_def)
  note f = readClusChains_follows_the_chain [OF demo_holds demo_closed this]
  obtain xs F' where r: "readClusChains disk_ops demo_FAT 3 = Some (xs, F')"
    using f demo_chain by (cases "readClusChains disk_ops demo_FAT 3") (auto simp del: chain.simps simp: demo_size)
  with f have "chain (fat_size demo_FAT) demo_E 3 xs" "disk_fat F' demo_E demo_R"
    by (simp_all add: demo_size del: chain.simps)
  with r show ?thesis using chain_unique [OF demo_chain] by blast
qed

section \<open>Freeing\<close>

text \<open>\<open>freeClus\<close> zeroes the entries of the chain and no others, in every copy of the FAT,
  leaves the sectors outside the FATs alone, and keeps the cached count of free clusters equal
  to their number.\<close>

lemma freeClus_frees_the_chain:
  assumes "disk_fat F E R" and "avail_ok F E" and "isValidCluster c" and "chain (fat_size F) E c xs"
    and "0 \<notin> set xs" and "\<forall>x \<in> set xs. unat x < unat (F_cnt_of_clus F)"
  shows "\<exists>F'. freeClus disk_ops F c = Some F'
    \<and> disk_fat F' (\<lambda>n. if n \<in> set xs then 0 else E n) R
    \<and> avail_ok F' (\<lambda>n. if n \<in> set xs then 0 else E n)"
proof -
  obtain d where d: "freeClus disk_ops F c = Some (F\<lparr>F_device := d,
        F_avail_clus_cnt := map_option (\<lambda>a. a + of_nat (length xs)) (F_avail_clus_cnt F)\<rparr>)"
      "disk_fat (F\<lparr>F_device := d\<rparr>) (\<lambda>n. if n \<in> set xs then 0 else E n) R"
    using lfd.cached.freeClus_ok [OF assms(1,3,4)] by blast
  have "E x \<noteq> 0 \<and> unat x < unat (F_cnt_of_clus F)" if "x \<in> set xs" for x
    using chain_nonzero [OF assms(4,5) that] assms(6) that by blast
  from free_clus_zeroed [OF cnt_bound(2) [OF assms(1)] chain_distinct [OF assms(4)] this,
      of "\<lambda>n. if n \<in> set xs then 0 else E n"]
  have "length (free_clus (\<lambda>n. if n \<in> set xs then 0 else E n) (unat (F_cnt_of_clus F)))
      = length (free_clus E (unat (F_cnt_of_clus F))) + length xs" by simp
  then show ?thesis using d assms(2) by (auto simp: avail_ok_def [of F])
qed

lemma freeClus_frees_the_chain_example:
  "\<exists>F'. freeClus disk_ops demo_FAT 3 = Some F' \<and> disk_fat F' (\<lambda>n. if n \<in> {3, 4, 5} then 0 else demo_E n) demo_R"
  using freeClus_frees_the_chain [OF demo_holds demo_count(4) _ demo_chain]
  by (simp add: isValidCluster_def demo_count(1)) blast

section \<open>Allocating\<close>

text \<open>\<open>availClusCnt\<close> is the number of free entries among the first \<open>CountOfClusters\<close> of the
  table, whether it is counted or cached, and computing it changes nothing on the disk.\<close>

lemma availClusCnt_counts:
  assumes "disk_fat F E R" and "avail_ok F E"
  shows "\<exists>F'. availClusCnt disk_ops F = Some (of_nat (card {c. E c = 0 \<and> unat c < unat (F_cnt_of_clus F)}), F')
    \<and> disk_fat F' E R \<and> avail_ok F' E"
  using lfd.cached.availClusCnt_ok [OF assms] length_free_clus [OF cnt_bound(2) [OF assms(1)], of E]
  by auto

lemma availClusCnt_counts_example:
  "\<exists>F'. availClusCnt disk_ops demo_FAT = Some (250, F') \<and> disk_fat F' demo_E demo_R"
proof -
  have "card {c. demo_E c = 0 \<and> unat c < 256} = 250"
    using length_free_clus [of 256 demo_E] by (simp add: demo_free)
  then show ?thesis using availClusCnt_counts [OF demo_holds demo_count(4)] by (auto simp: demo_count)
qed

text \<open>C36: \<open>allocClus\<close> either reports that there are too few free clusters, without a change, or
  returns the first \<open>req\<close> free clusters in ascending order, with the table now holding them as
  one terminated chain and no other entry changed. The cached count stays exact.\<close>

theorem allocClus_allocates:
  assumes "disk_fat F E R" and "avail_ok F E" and "reserved_ok E"
    and "F_free_count F = 0xFFFFFFFF" and "0 < req"
  shows "case allocClus disk_ops F req of
      None \<Rightarrow> False
    | Some (None, F') \<Rightarrow> length (free_clus E (unat (F_cnt_of_clus F))) < unat req \<and> disk_fat F' E R \<and> avail_ok F' E
    | Some (Some cs, F') \<Rightarrow> cs = take (unat req) (free_clus E (unat (F_cnt_of_clus F))) \<and> length cs = unat req
        \<and> (\<exists>E'. disk_fat F' E' R \<and> avail_ok F' E' \<and> chain (fat_size F) E' (hd cs) cs
            \<and> (\<forall>n. n \<notin> set cs \<longrightarrow> E' n = E n))"
proof -
  define fl where "fl = free_clus E (unat (F_cnt_of_clus F))"
  note b = cnt_bound [OF assms(1)]
  obtain d where d: "allocClus disk_ops F req =
      (if length fl < unat req
       then Some (None, F\<lparr>F_device := d, F_avail_clus_cnt := Some (of_nat (length fl))\<rparr>)
       else Some (Some (take (unat req) fl), F\<lparr>F_device := d, F_avail_clus_cnt := Some (of_nat (length fl) - req)\<rparr>))"
    "disk_fat (F\<lparr>F_device := d\<rparr>) (if length fl < unat req then E else link_new (take (unat req) fl) E) R"
    using lfd.cached.allocClus_ok [OF assms(1,2,4,5)] unfolding fl_def by blast
  show ?thesis
  proof (cases "length fl < unat req")
    case True
    then show ?thesis using d by (simp flip: fl_def)
  next
    case False
    have k: "0 < unat req" "unat req \<le> length (free_clus E (unat (F_cnt_of_clus F)))"
      using False assms(5) by (simp_all add: fl_def word_less_nat_alt)
    have "unat (F_cnt_of_clus F) \<le> fat_size F" using b(1) by simp
    note new = link_new_free [OF assms(3) b(2) this b(3) k, folded fl_def]
    have "(of_nat (length fl - unat req) :: u32) = of_nat (length fl) - req"
      using False by (simp add: of_nat_diff)
    moreover have "link_new (take (unat req) fl) E n = E n" if "n \<notin> set (take (unat req) fl)" for n
      using link_new_other [OF that new(2)] .
    ultimately show ?thesis
      using d False new(1,4) by (auto simp flip: fl_def intro!: exI [of _ "link_new (take (unat req) fl) E"])
  qed
qed

theorem allocClus_allocates_witness:
  "\<exists>F' E'. allocClus disk_ops demo_FAT 2 = Some (Some [6, 7], F') \<and> disk_fat F' E' demo_R
    \<and> chain (fat_size demo_FAT) E' 6 [6, 7] \<and> E' 3 = 4"
proof -
  have "reserved_ok demo_E" by (simp add: reserved_ok_def demo_entries)
  note f = allocClus_allocates [OF demo_holds demo_count(4) this demo_count(3), of 2, simplified]
  have "take 2 (free_clus demo_E 256) = [6, 7]" "length (free_clus demo_E 256) = 250"
    by (simp_all add: demo_free upt_conv_Cons del: upt_rec_numeral flip: list.map_comp)
  moreover obtain r F' where r: "allocClus disk_ops demo_FAT 2 = Some (r, F')"
    using f by (cases "allocClus disk_ops demo_FAT 2") auto
  ultimately show ?thesis
    using f by (cases r) (auto simp: demo_count demo_entries simp del: chain.simps)
qed


section \<open>Resizing\<close>

lemma demo_reserved: "reserved_ok demo_E"
  by (simp add: reserved_ok_def demo_entries)

lemma demo_data_secs: "data_clus demo_BPB b \<Longrightarrow> clus_secs demo_BPB b \<subseteq> dom demo_R"
proof
  fix s assume b: "data_clus demo_BPB b" and s: "s \<in> clus_secs demo_BPB b"
  have "unat (getFirstSectorOfCluster demo_BPB b) = 40 + (unat b - 2) * 2"
    using unat_FirstSectorOfCluster [OF demo_BPB_ok(1), of b] b
    by (simp add: data_clus_def demo_BPB_ok) (simp add: demo_BPB_def)
  then have "40 \<le> unat s" "unat s < 552" using s b by (auto simp: clus_secs_def data_clus_def demo_BPB_ok) (simp add: demo_BPB_def)
  then show "s \<in> dom demo_R"
    by (simp add: demo_R_def restrict_map_def fat_secs_def demo_BPB_ok image_view_def SECTOR_SIZE_def dom_def)
qed

text \<open>The table after a chain (or none, \<open>xs = []\<close>) is extended by the first \<open>k\<close> free clusters.\<close>

lemma grown_table:
  assumes res: "reserved_ok E" and n: "n < 2 ^ 28" "n \<le> N" "n \<le> 0x0FFFFFF8"
    and k: "0 < k" "k \<le> length (free_clus E n)"
    and c: "if v then xs \<noteq> [] \<and> 0 \<notin> set xs \<and> chain N E c xs else xs = []"
  defines "cs \<equiv> take k (free_clus E n)"
  defines "E' \<equiv> (if xs = [] then link_new cs E else (link_new cs E)(last xs := hd cs))"
  shows "chain N E' (if v then c else hd cs) (xs @ cs)"
    and "length (free_clus E' n) = length (free_clus E n) - k"
    and "b \<in> set cs \<Longrightarrow> E b = 0 \<and> 2 \<le> unat b"
    and "x \<notin> set cs \<Longrightarrow> x \<notin> set xs \<Longrightarrow> E' x = E x"
proof -
  note new = link_new_free [OF res n k, folded cs_def]
  have used: "E x \<noteq> 0" if "x \<in> set xs" for x
    using chain_nonzero [of N E c xs x] c that by (auto split: if_splits)
  then have l: "last xs \<notin> set cs" if "xs \<noteq> []" using last_in_set [OF that] new(5) by blast
  have old: "E' x = E x" if "x \<notin> set cs" "xs = [] \<or> x \<noteq> last xs" for x
    using that link_new_other [OF that(1) new(2)] by (auto simp: E'_def)
  show "b \<in> set cs \<Longrightarrow> E b = 0 \<and> 2 \<le> unat b" using new(5) by blast
  show "x \<notin> set cs \<Longrightarrow> x \<notin> set xs \<Longrightarrow> E' x = E x" by (rule old) auto
  have "hd cs \<noteq> 0" using new(5) [of "hd cs"] new(2) by auto
  then have "E' x = 0 \<longleftrightarrow> link_new cs E x = 0" for x
    using used l link_new_other [of "last xs" cs E] new(2) by (auto simp: E'_def)
  then show "length (free_clus E' n) = length (free_clus E n) - k"
    using new(4) by (simp add: free_clus_def free_from_def)
  show "chain N E' (if v then c else hd cs) (xs @ cs)"
  proof (cases "xs = []")
    case False
    then have ch: "chain N E c xs" "v" using c by (simp_all split: if_splits)
    have "chain N E' c (xs @ cs)"
    proof (rule chain_join [OF ch(1) False, where d = "hd cs"])
      show "chain N E' (hd cs) cs" using new(1) l False by (simp add: E'_def chain_upd_out)
      show "E' (last xs) = hd cs" using False by (simp add: E'_def)
      show "E' x = E x" if "x \<in> set (butlast xs)" for x
      proof (rule old)
        show "x \<notin> set cs" using used [OF in_set_butlastD [OF that]] new(5) by blast
        have "distinct (butlast xs @ [last xs])" using chain_distinct [OF ch(1)] False by simp
        then show "xs = [] \<or> x \<noteq> last xs" using that by auto
      qed
    qed
    then show ?thesis using ch(2) by simp
  qed (use c new(1) in \<open>auto simp: E'_def split: if_splits\<close>)
qed

text \<open>Growing a chain with \<open>resize\<close>, when there are enough free clusters, keeps the clusters
  it has and puts free ones behind them, up to the size asked for; no entry of another chain
  changes, the new clusters are zeroed when \<open>clear\<close> is set, and nothing else on the disk changes.\<close>

lemma resize_grows_the_chain:
  assumes "disk_fat F E R" and "avail_ok F E" and "reserved_ok E" and "F_free_count F = 0xFFFFFFFF"
    and "if isValidCluster c then xs \<noteq> [] \<and> 0 \<notin> set xs \<and> chain (fat_size F) E c xs else xs = []"
    and "length xs < unat num"
    and "unat num - length xs \<le> length (free_clus E (unat (F_cnt_of_clus F)))"
    and "clear \<Longrightarrow> (\<forall>b. data_clus (F_bpb F) b \<longrightarrow> clus_secs (F_bpb F) b \<subseteq> dom R)"
  shows "\<exists>c' F' cs E'. resize disk_ops F c num clear = Some (True, c', F')
    \<and> c' = (if isValidCluster c then c else hd cs)
    \<and> disk_fat F' E' (if clear then zero_secs (\<Union>b \<in> set cs. clus_secs (F_bpb F) b) R else R) \<and> avail_ok F' E'
    \<and> chain (fat_size F) E' c' (xs @ cs) \<and> length (xs @ cs) = unat num
    \<and> (\<forall>b \<in> set cs. E b = 0 \<and> 2 \<le> unat b)
    \<and> (\<forall>n. n \<notin> set cs \<longrightarrow> n \<notin> set xs \<longrightarrow> E' n = E n)"
proof -
  define n where "n = unat (F_cnt_of_clus F)"
  define k where "k = unat num - length xs"
  define cs where "cs = take k (free_clus E n)"
  define E' where "E' = (if xs = [] then link_new cs E else (link_new cs E)(last xs := hd cs))"
  note b = cnt_bound [OF assms(1), folded n_def]
  have k: "0 < k" "k \<le> length (free_clus E n)" using assms(6,7) by (simp_all add: k_def n_def)
  have n: "n \<le> fat_size F" using b(1) by simp
  note new = grown_table [OF assms(3) b(2) n b(3) k assms(5), folded cs_def, folded E'_def]
  have c: "if isValidCluster c then xs \<noteq> [] \<and> chain (fat_size F) E c xs else xs = []" using assms(5) by presburger
  obtain d where d: "resize disk_ops F c num clear = Some (True, if isValidCluster c then c else hd cs,
        F\<lparr>F_device := d, F_avail_clus_cnt := Some (of_nat (length (free_clus E n)) - of_nat k)\<rparr>)"
      "disk_fat (F\<lparr>F_device := d\<rparr>) E' (if clear then zero_secs (\<Union>b \<in> set cs. clus_secs (F_bpb F) b) R else R)"
    using lfd.cached.resize_grow_ok [OF assms(1,2,4,3) c assms(6,8), folded n_def, folded k_def, folded cs_def,
        folded E'_def] k(2)
    by auto
  let ?F' = "F\<lparr>F_device := d, F_avail_clus_cnt := Some (of_nat (length (free_clus E n)) - of_nat k)\<rparr>"
  have "avail_ok ?F' E'"
    using new(2) k(2) by (simp add: of_nat_diff flip: n_def)
  moreover have "length (xs @ cs) = unat num" using assms(6) k by (simp add: cs_def k_def)
  ultimately show ?thesis
    using d new(1,3,4) by (intro exI [of _ "if isValidCluster c then c else hd cs"] exI [of _ ?F'] exI [of _ cs] exI [of _ E']) simp
qed

lemma resize_grows_the_chain_example:
  "\<exists>F' cs E'. resize disk_ops demo_FAT 3 5 True = Some (True, 3, F')
    \<and> disk_fat F' E' (zero_secs (\<Union>b \<in> set cs. clus_secs demo_BPB b) demo_R)
    \<and> chain (fat_size demo_FAT) E' 3 ([3, 4, 5] @ cs) \<and> length cs = 2 \<and> E' 2 = KFat32EocMark"
proof -
  have "isValidCluster 3" by (simp add: isValidCluster_def)
  moreover have "length (free_clus demo_E 256) = 250" by (simp add: demo_free)
  ultimately have "\<exists>c' F' cs E'. resize disk_ops demo_FAT 3 5 True = Some (True, c', F') \<and> c' = 3
    \<and> disk_fat F' E' (zero_secs (\<Union>b \<in> set cs. clus_secs demo_BPB b) demo_R) \<and> avail_ok F' E'
    \<and> chain (fat_size demo_FAT) E' c' ([3, 4, 5] @ cs) \<and> length ([3, 4, 5] @ cs) = 5
    \<and> (\<forall>b \<in> set cs. demo_E b = 0 \<and> 2 \<le> unat b)
    \<and> (\<forall>n. n \<notin> set cs \<longrightarrow> n \<notin> set [3, 4, 5] \<longrightarrow> E' n = demo_E n)"
    using resize_grows_the_chain [OF demo_holds demo_count(4) demo_reserved demo_count(3), of 3 "[3, 4, 5]" 5 True]
      demo_chain demo_data_secs by (simp add: demo_count del: chain.simps)
  then obtain F' cs E' where r: "resize disk_ops demo_FAT 3 5 True = Some (True, 3, F')"
      "disk_fat F' E' (zero_secs (\<Union>b \<in> set cs. clus_secs demo_BPB b) demo_R)"
      "chain (fat_size demo_FAT) E' 3 ([3, 4, 5] @ cs)" "length ([3, 4, 5] @ cs) = 5"
      "\<And>b. b \<in> set cs \<Longrightarrow> demo_E b = 0" "\<And>n. n \<notin> set cs \<Longrightarrow> n \<notin> set [3, 4, 5] \<Longrightarrow> E' n = demo_E n"
    by metis
  have "demo_E 2 = KFat32EocMark" "KFat32EocMark \<noteq> 0"
    by (simp_all add: demo_E_def demo_table_def KFat32EocMark_def)
  then have "E' 2 = KFat32EocMark" using r(5) [of 2] r(6) [of 2] by auto
  with r(1-4) show ?thesis by auto
qed


lemma cut_table:
  assumes "chain N E c xs" and "k \<le> length xs"
  shows "0 < k \<Longrightarrow> chain N (cut k xs E) c (take k xs)"
    and "x \<in> set (drop k xs) \<Longrightarrow> cut k xs E x = 0"
    and "x \<notin> set xs \<Longrightarrow> cut k xs E x = E x"
  using cut_chain [OF assms(1) _ assms(2)] cut_apply [OF chain_distinct [OF assms(1)], of k E x] cut_other [of x xs k E]
  by simp_all

text \<open>Shrinking a chain with \<open>resize\<close> keeps its first \<open>num\<close> clusters as a terminated chain,
  frees the others, and changes no other entry and no sector outside the FATs; shrinking to
  nothing returns cluster number 0.\<close>

lemma resize_shrinks_the_chain:
  assumes "disk_fat F E R" and "isValidCluster c" and "chain (fat_size F) E c xs" and "unat num \<le> length xs"
  shows "\<exists>F' E'. resize disk_ops F c num clear = Some (True, if num = 0 then 0 else c, F') \<and> disk_fat F' E' R
    \<and> (0 < unat num \<longrightarrow> chain (fat_size F) E' c (take (unat num) xs))
    \<and> (\<forall>n \<in> set (drop (unat num) xs). E' n = 0) \<and> (\<forall>n. n \<notin> set xs \<longrightarrow> E' n = E n)"
proof -
  obtain d where d: "resize disk_ops F c num clear
        = Some (True, if num = 0 then 0 else c, took (of_nat (length xs - unat num)) d F)"
      "disk_fat (F\<lparr>F_device := d\<rparr>) (cut (unat num) xs E) R"
    using lfd.cached.resize_shrink_ok [OF assms] by blast
  then have "disk_fat (took (of_nat (length xs - unat num)) d F) (cut (unat num) xs E) R"
    by (simp only: fat_holds_took)
  with d(1) show ?thesis
    using cut_table [OF assms(3,4)] unsigned_eq_0_iff [of num] by (intro exI [of _ "cut (unat num) xs E"] exI [of _ "took (of_nat (length xs - unat num)) d F"] conjI impI ballI allI)
      simp_all
qed

lemma resize_shrinks_the_chain_example:
  "\<exists>F' E'. resize disk_ops demo_FAT 3 1 False = Some (True, 3, F') \<and> disk_fat F' E' demo_R
    \<and> chain (fat_size demo_FAT) E' 3 [3] \<and> E' 4 = 0 \<and> E' 5 = 0"
proof -
  have "isValidCluster 3" by (simp add: isValidCluster_def)
  from resize_shrinks_the_chain [OF demo_holds this demo_chain, of 1 False]
  show ?thesis by (simp del: chain.simps) blast
qed

text \<open>C38: But the cached number of free clusters goes the wrong way: every cluster that shrinking
  frees is subtracted from the count instead of added, so it ends up too small by twice their
  number.\<close>

theorem resize_shrink_miscounts:
  assumes "disk_fat F E R" and "isValidCluster c" and "chain (fat_size F) E c xs" and "unat num \<le> length xs"
    and "0 \<notin> set xs" and "\<forall>x \<in> set xs. unat x < unat (F_cnt_of_clus F)"
    and "F_avail_clus_cnt F = Some (of_nat (length (free_clus E (unat (F_cnt_of_clus F)))))"
  shows "\<exists>F' E'. resize disk_ops F c num clear = Some (True, if num = 0 then 0 else c, F') \<and> disk_fat F' E' R
    \<and> F_avail_clus_cnt F' = Some (of_nat (length (free_clus E' (unat (F_cnt_of_clus F))))
        - 2 * of_nat (length xs - unat num))"
proof -
  let ?ys = "drop (unat num) xs" and ?E' = "cut (unat num) xs E" and ?n = "unat (F_cnt_of_clus F)"
  obtain d where d: "resize disk_ops F c num clear
        = Some (True, if num = 0 then 0 else c, took (of_nat (length xs - unat num)) d F)"
      "disk_fat (F\<lparr>F_device := d\<rparr>) ?E' R"
    using lfd.cached.resize_shrink_ok [OF assms(1-4)] by blast
  have dist: "distinct xs" by (rule chain_distinct [OF assms(3)])
  have used: "E x \<noteq> 0 \<and> unat x < ?n" if "x \<in> set ?ys" for x
    using chain_nonzero [OF assms(3,5)] assms(6) in_set_dropD [OF that] by blast
  have "?E' x = 0 \<longleftrightarrow> x \<in> set ?ys \<or> E x = 0" for x
  proof -
    have "E (xs ! (unat num - 1)) \<noteq> 0" if "0 < unat num"
      using chain_nonzero [OF assms(3,5)] assms(4) that by simp
    then show ?thesis
      using cut_apply [OF dist, of "unat num" E x] by (auto simp: KFat32EocMark_def)
  qed
  from free_clus_zeroed [OF cnt_bound(2) [OF assms(1)] distinct_drop [OF dist] used this]
  have "length (free_clus ?E' ?n) = length (free_clus E ?n) + (length xs - unat num)" by simp
  moreover have "disk_fat (took (of_nat (length xs - unat num)) d F) ?E' R"
    using d(2) by (simp only: fat_holds_took)
  ultimately show ?thesis using d(1) assms(7) by (auto simp: took_def intro!: exI [of _ ?E'])
qed

theorem resize_shrink_miscounts_witness:
  "\<exists>F' E'. resize disk_ops (demo_FAT\<lparr>F_avail_clus_cnt := Some 250\<rparr>) 3 1 False = Some (True, 3, F')
    \<and> disk_fat F' E' demo_R \<and> F_avail_clus_cnt F' = Some (of_nat (length (free_clus E' 256)) - 4)"
proof -
  have "isValidCluster 3" by (simp add: isValidCluster_def)
  from resize_shrink_miscounts [of "demo_FAT\<lparr>F_avail_clus_cnt := Some 250\<rparr>", OF _ this, of demo_E demo_R "[3, 4, 5]" 1 False]
    demo_holds demo_chain demo_free
  show ?thesis by (simp add: demo_count del: chain.simps upt_rec_numeral)
qed

section \<open>Single entries\<close>

text \<open>Writing the FAT entry of a cluster (at the position \<open>getClusPosOnFAT\<close> gives) stores its
  28 bits in every copy of the FAT, and changes no other entry of any copy and no sector outside
  the FATs; reading an entry returns what the table holds.\<close>

lemma FAT_entry_write_reaches_every_copy:
  assumes "disk_fat F E R" and "unat n < fat_size F" and "getClusPosOnFAT (F_bpb F) n = Some p"
  shows "\<exists>F' F''. writeFatEntry disk_ops F (fat_sec_num p) (fat_ent_offset p) v = Some F'
    \<and> disk_fat F' (E(n := v AND 0x0FFFFFFF)) R
    \<and> readFatEntry disk_ops F (fat_sec_num p) (fat_ent_offset p) = Some (E n, F'') \<and> disk_fat F'' E R"
  using lfd.cached.write_clus_ok [OF assms(1,2), of v] lfd.cached.read_clus_ok [OF assms(1,2)] assms(3)
  by (auto simp: write_clus_def read_clus_def)

lemma FAT_entry_write_reaches_every_copy_example:
  "\<exists>F' F''. writeFatEntry disk_ops demo_FAT 32 12 0xF0000009 = Some F' \<and> disk_fat F' (demo_E(3 := 9)) demo_R
    \<and> readFatEntry disk_ops demo_FAT 32 12 = Some (4, F'') \<and> disk_fat F'' demo_E demo_R"
proof -
  have "getClusPosOnFAT (F_bpb demo_FAT) 3 = Some \<lparr>fat_sec_num = 32, fat_ent_offset = 12\<rparr>"
    by (simp add: getClusPosOnFAT_def demo_count demo_BPB_def getFirstFATSector_def)
  from FAT_entry_write_reaches_every_copy [OF demo_holds _ this, of "0xF0000009"]
  show ?thesis by (simp add: demo_size demo_entries)
qed

text \<open>C37: The first allocation after mounting does not search for a free cluster: it hands out the
  number that \<open>FSInfo\<close> stores as its \<^emph>\<open>count\<close> of free clusters, whether or not that cluster is in
  use. The chain that owned the cluster is cut there and shares it with the new one.\<close>

theorem FSInfo_count_is_allocated:
  assumes "disk_fat F E R" and "avail_ok F E" and "F_free_count F \<noteq> 0xFFFFFFFF"
    and "unat (F_free_count F) < fat_size F" and "free_clus E (unat (F_cnt_of_clus F)) \<noteq> []"
  shows "\<exists>F'. allocClus disk_ops F 1 = Some (Some [F_free_count F], F')
    \<and> disk_fat F' (E(F_free_count F := KFat32EocMark)) R"
proof -
  let ?fl = "free_clus E (unat (F_cnt_of_clus F))"
  obtain d where d: "availClusCnt disk_ops F = Some (of_nat (length ?fl),
        F\<lparr>F_device := d, F_avail_clus_cnt := Some (of_nat (length ?fl))\<rparr>)" "disk_fat (F\<lparr>F_device := d\<rparr>) E R"
    using lfd.cached.availClusCnt_ok [OF assms(1,2)] by blast
  let ?F2 = "dec_avail_cnt 1 (F\<lparr>F_device := d, F_avail_clus_cnt := Some (of_nat (length ?fl)), F_free_count := 0xFFFFFFFF\<rparr>)"
  have "disk_fat ?F2 E R" "fat_size ?F2 = fat_size F"
    using d(2) by (simp_all add: dec_avail_cnt_def fat_holds_def)
  then obtain d' where d': "write_clus disk_ops ?F2 (F_free_count F) KFat32EocMark = Some (?F2\<lparr>F_device := d'\<rparr>)"
      "disk_fat (?F2\<lparr>F_device := d'\<rparr>) (E(F_free_count F := KFat32EocMark)) R"
    using lfd.cached.write_clus_ok [of ?F2 E R "F_free_count F" KFat32EocMark] assms(4) by (auto simp: eoc_28)
  have "length ?fl \<le> unat (F_cnt_of_clus F)"
    unfolding free_clus_def free_from_def using length_filter_le [of _ "[0..<unat (F_cnt_of_clus F)]"] by simp
  then have "unat (of_nat (length ?fl) :: u32) = length ?fl"
    using cnt_bound(2) [OF assms(1)] by (intro unat_of_nat_lt) simp
  moreover have "0 < length ?fl" using assms(5) by (rule length_greater_0_conv [THEN iffD2])
  ultimately have "\<not> (of_nat (length ?fl) :: u32) < 1" unfolding word_less_nat_alt unat_1 by linarith
  then show ?thesis
    using d(1) d' assms(3) unfolding allocClus_def by (simp add: Let_def del: length_0_conv length_greater_0_conv)
qed

theorem FSInfo_count_is_allocated_witness:
  "\<exists>F'. allocClus disk_ops (demo_FAT\<lparr>F_free_count := 4\<rparr>) 1 = Some (Some [4], F')
    \<and> disk_fat F' (demo_E(4 := KFat32EocMark)) demo_R \<and> demo_E 3 = 4"
proof -
  have "disk_fat (demo_FAT\<lparr>F_free_count := 4\<rparr>) demo_E demo_R" "avail_ok (demo_FAT\<lparr>F_free_count := 4\<rparr>) demo_E"
    using demo_holds by (simp_all add: fat_holds_def demo_FAT_def avail_ok_def)
  from FSInfo_count_is_allocated [OF this] demo_size show ?thesis
    by (simp add: demo_count demo_entries demo_free upt_conv_Cons del: upt_rec_numeral)
qed

end
