(* ===== verification/Fat32Names.thy ===== *)
theory Fat32Names
  imports Fat32Layout
begin

text \<open>
  Names on disk: the string helpers of \<^verbatim>\<open>library/util.cpp\<close>, the 8.3 \<open>BasisName\<close> and its
  check sum, the short entry's name, and the 13 UTF-16 code units of a long entry, from
  \<^verbatim>\<open>library/fat32.cpp\<close>. Strings are byte lists in the encoding the code gives them (UTF-8, GBK,
  UTF-16LE). The conversions call \<open>iconv\<close>, which is not part of the repository: they are
  arguments.
\<close>

section \<open>String helpers\<close>

text \<open>\<open>std::toupper\<close> in the "C" locale, byte by byte.\<close>

definition toupper :: "u8 \<Rightarrow> u8" where
  "toupper c = (if 0x61 \<le> c \<and> c \<le> 0x7A then c - 0x20 else c)"

definition toUpper :: "bytes \<Rightarrow> bytes" where
  "toUpper s = map toupper s"

definition lstrip :: "bytes \<Rightarrow> u8 \<Rightarrow> bytes" where
  "lstrip s a = dropWhile (\<lambda>ch. ch = a) s"

definition rstrip :: "bytes \<Rightarrow> u8 \<Rightarrow> bytes" where
  "rstrip s a = rev (dropWhile (\<lambda>ch. ch = a) (rev s))"

definition strip :: "bytes \<Rightarrow> u8 \<Rightarrow> bytes" where
  "strip s a = rstrip (lstrip s a) a"

section \<open>Characters that names may not hold\<close>

definition KInvalidShortEntryBytes :: bytes where
  "KInvalidShortEntryBytes = [0x22, 0x2A, 0x2B, 0x2C, 0x2E, 0x2F, 0x3A, 0x3B,
     0x3C, 0x3D, 0x3E, 0x3F, 0x5B, 0x5C, 0x5D, 0x7C]"

text \<open>\<open>'\\', '/', ':', '*', '?', '"', '<', '>', '|'\<close>\<close>

definition KInvalidLongEntryBytes :: bytes where
  "KInvalidLongEntryBytes = [0x5C, 0x2F, 0x3A, 0x2A, 0x3F, 0x22, 0x3C, 0x3E, 0x7C]"

definition isInvalidShortEntryChr :: "u8 \<Rightarrow> bool" where
  "isInvalidShortEntryChr val =
     (if val < 0x20 \<and> val \<noteq> 0x05 then True else val \<in> set KInvalidShortEntryBytes)"

definition isInvalidLongEntryChr :: "u8 \<Rightarrow> bool" where
  "isInvalidLongEntryChr val = (val \<in> set KInvalidLongEntryBytes)"

section \<open>Names of short entries\<close>

text \<open>The two loops stop at the first blank; a leading \<open>0x05\<close> stands for \<open>0xE5\<close>.\<close>

fun read_primary :: "nat \<Rightarrow> bytes \<Rightarrow> bytes" where
  "read_primary i [] = []"
| "read_primary i (c # cs) =
     (if c = 0x20 then []
      else (if i = 0 \<and> c = 0x05 then 0xE5 else c) # read_primary (Suc i) cs)"

fun read_extension :: "nat \<Rightarrow> bytes \<Rightarrow> bytes" where
  "read_extension i [] = []"
| "read_extension i (c # cs) =
     (if c = 0x20 then []
      else (if i = 8 then [0x2E] else []) @ c # read_extension (Suc i) cs)"

definition readShortEntryName :: "ShortDirEntry \<Rightarrow> bytes option" where
  "readShortEntryName e =
     do { ensure (parseEntryType e = KExist);
          Some (read_primary 0 (take 8 (se_name e)) @ read_extension 8 (take 3 (drop 8 (se_name e)))) }"

section \<open>BasisName\<close>

record BasisName =
  primary :: bytes
  extension :: bytes

definition mkEmptyBasisName :: BasisName where
  "mkEmptyBasisName =
     \<lparr>primary = (replicate 9 0x20)[8 := 0], extension = (replicate 4 0x20)[3 := 0]\<rparr>"

fun chkSum_loop :: "u8 \<Rightarrow> bytes \<Rightarrow> u8" where
  "chkSum_loop s [] = s"
| "chkSum_loop s (c # cs) =
     chkSum_loop ((if s AND 1 \<noteq> 0 then 0x80 else 0) + drop_bit 1 s + c) cs"

definition chkSum :: "BasisName \<Rightarrow> u8" where
  "chkSum b = chkSum_loop 0 (take 8 (primary b) @ take 3 (extension b))"

text \<open>
  \<open>genBasisNameFromShort\<close>: the loop over the primary part returns \<open>i\<close> and the array; what
  follows the dot is the extension.
\<close>

function short_primary :: "bytes \<Rightarrow> nat \<Rightarrow> bytes \<Rightarrow> nat \<times> bytes" where
  "short_primary nm i prim =
     (if i < 8 \<and> i < length nm \<and> nm ! i \<noteq> 0x2E then short_primary nm (Suc i) (prim[i := nm ! i])
      else (i, prim))"
  by pat_completeness auto
termination by (relation "measure (\<lambda>(nm, i, prim). 8 - i)") auto

function short_extension :: "bytes \<Rightarrow> nat \<Rightarrow> nat \<Rightarrow> bytes \<Rightarrow> bytes" where
  "short_extension nm i j ext =
     (if j < 3 \<and> i < length nm then short_extension nm (Suc i) (Suc j) (ext[j := nm ! i]) else ext)"
  by pat_completeness auto
termination by (relation "measure (\<lambda>(nm, i, j, ext). 3 - j)") auto

declare short_primary.simps [simp del] short_extension.simps [simp del]

definition genBasisNameFromShort :: "bytes \<Rightarrow> BasisName option" where
  "genBasisNameFromShort short_name =
     do { ensure (length short_name \<le> 12);
          let (i, prim) = short_primary short_name 0 (primary mkEmptyBasisName);
          if i \<ge> length short_name
          then Some (mkEmptyBasisName\<lparr>primary := prim\<rparr>)
          else Some \<lparr>primary = prim,
                extension = short_extension short_name (i + 1) 0 (extension mkEmptyBasisName)\<rparr> }"

text \<open>\<open>genBasisNameFromLong\<close>; \<open>to_gbk\<close> is \<open>util::utf8ToGbk\<close>.\<close>

definition basis_chr :: "u8 \<Rightarrow> u8" where
  "basis_chr c = (if isInvalidShortEntryChr c then 0x5F else c)"

function long_primary :: "bytes \<Rightarrow> nat \<Rightarrow> bytes \<Rightarrow> bytes" where
  "long_primary g i prim =
     (if i < 8 \<and> i < length g \<and> g ! i \<noteq> 0x2E
      then long_primary g (Suc i) (prim[i := basis_chr (g ! i)]) else prim)"
  by pat_completeness auto
termination by (relation "measure (\<lambda>(g, i, prim). 8 - i)") auto

text \<open>The search for the last dot runs down from \<open>length - 1\<close>; without a dot it gives the length.\<close>

fun last_dot :: "bytes \<Rightarrow> nat \<Rightarrow> nat" where
  "last_dot g 0 = length g"
| "last_dot g (Suc i) = (if g ! i = 0x2E then i else last_dot g i)"

function long_extension :: "bytes \<Rightarrow> nat \<Rightarrow> nat \<Rightarrow> bytes \<Rightarrow> bytes" where
  "long_extension g i cnt ext =
     (if cnt < 3 \<and> i < length g
      then long_extension g (Suc i) (Suc cnt) (ext[cnt := basis_chr (g ! i)]) else ext)"
  by pat_completeness auto
termination by (relation "measure (\<lambda>(g, i, cnt, ext). 3 - cnt)") auto

declare long_primary.simps [simp del] long_extension.simps [simp del]

definition genBasisNameFromLong :: "(bytes \<Rightarrow> bytes option) \<Rightarrow> bytes \<Rightarrow> BasisName option" where
  "genBasisNameFromLong to_gbk long_name =
     (let long_name = strip (strip (toUpper long_name) 0x20) 0x2E in
      do { g \<leftarrow> to_gbk long_name;
           let prim = long_primary g 0 (primary mkEmptyBasisName);
           let ext = long_extension g (last_dot g (length g) + 1) 0 (extension mkEmptyBasisName);
           Some \<lparr>primary = prim, extension = ext\<rparr> })"

section \<open>Names of long entries\<close>

text \<open>
  \<open>name[off]\<close> and \<open>name[off + 1]\<close> while the name lasts, then one zero code unit, then \<open>0xFFFF\<close>;
  \<open>std::string::operator[]\<close> gives a zero byte at the length.
\<close>

definition name_unit :: "bytes \<Rightarrow> u32 \<Rightarrow> bytes" where
  "name_unit nm off =
     (let len = (word_of_nat (length nm) :: u32) in
      if off < len
      then [nm ! unat off, if unat (off + 1) < length nm then nm ! unat (off + 1) else 0]
      else if off = len then [0, 0] else [0xFF, 0xFF])"

fun name_units :: "nat \<Rightarrow> bytes \<Rightarrow> u32 \<Rightarrow> bytes" where
  "name_units 0 nm off = []"
| "name_units (Suc k) nm off = name_unit nm off @ name_units k nm (off + 2)"

definition mkLongDirEntry :: "bool \<Rightarrow> u8 \<Rightarrow> u8 \<Rightarrow> bytes \<Rightarrow> u32 \<Rightarrow> LongDirEntry" where
  "mkLongDirEntry is_lst ord crc nm off =
     (let us = name_units 13 nm off in
      \<lparr>le_ord = (if is_lst then KLastLongEntry OR ord else ord), name1 = take 10 us,
       le_attr = KAttrLongName, le_type = 0, chk_sum = crc, name2 = take 12 (drop 10 us),
       le_fst_clus_low = 0, name3 = drop 22 us\<rparr>)"

fun read_units :: "bytes \<Rightarrow> bytes" where
  "read_units (a # b # r) =
     (if (a = 0 \<and> b = 0) \<or> (a = 0xFF \<and> b = 0xFF) then [] else a # b # read_units r)"
| "read_units _ = []"

definition readLongEntryName :: "LongDirEntry \<Rightarrow> bytes" where
  "readLongEntryName e = read_units (name1 e @ name2 e @ name3 e)"

section \<open>Making short entries\<close>

definition mkShortDirEntry :: "FatTimeStamp2 \<Rightarrow> BasisName \<Rightarrow> bool \<Rightarrow> ShortDirEntry" where
  "mkShortDirEntry now b is_dir = setFstClusNo
     \<lparr>se_name = take 8 (primary b) @ take 3 (extension b),
      se_attr = (if is_dir then KAttrDirectory else 0), se_rsvd = 0, crt_ts2 = now,
      lst_acc_date = ts_date (ts2_ts now), fst_clus_high = 0, wrt_ts = ts2_ts now,
      fst_clus_low = 0, se_file_sz = 0\<rparr> 0"

definition mkDotShortDirEntry :: "FatTimeStamp2 \<Rightarrow> FatTimeStamp2 \<Rightarrow> u32 \<Rightarrow> ShortDirEntry" where
  "mkDotShortDirEntry now fat_ts2 fst_clus =
     (let b = \<lparr>primary = [0x2E, 0x20, 0x20, 0x20, 0x20, 0x20, 0x20, 0x20, 0],
               extension = [0x20, 0x20, 0x20, 0]\<rparr>;
          e = mkShortDirEntry now b True
      in setFstClusNo (e\<lparr>crt_ts2 := fat_ts2, lst_acc_date := ts_date (ts2_ts fat_ts2),
           wrt_ts := ts2_ts fat_ts2\<rparr>) fst_clus)"

definition mkDotDotShortDirEntry :: "FatTimeStamp2 \<Rightarrow> FatTimeStamp2 \<Rightarrow> u32 \<Rightarrow> ShortDirEntry" where
  "mkDotDotShortDirEntry now fat_ts2 fst_clus =
     (let b = \<lparr>primary = [0x2E, 0x2E, 0x20, 0x20, 0x20, 0x20, 0x20, 0x20, 0],
               extension = [0x20, 0x20, 0x20, 0]\<rparr>;
          e = mkShortDirEntry now b True
      in setFstClusNo (e\<lparr>crt_ts2 := fat_ts2, lst_acc_date := ts_date (ts2_ts fat_ts2),
           wrt_ts := ts2_ts fat_ts2\<rparr>) fst_clus)"


section \<open>Long names survive the trip through the entries\<close>

text \<open>UTF-16 code units other than the two that end a name.\<close>

fun units_ok :: "bytes \<Rightarrow> bool" where
  "units_ok [] = True"
| "units_ok (a # b # r) = (\<not> (a = 0 \<and> b = 0) \<and> \<not> (a = 0xFF \<and> b = 0xFF) \<and> units_ok r)"
| "units_ok [a] = False"

lemma units_ok_drop: "units_ok nm \<Longrightarrow> even n \<Longrightarrow> units_ok (drop n nm)"
proof (induction nm arbitrary: n rule: units_ok.induct)
  case (2 a b r)
  show ?case
  proof (cases n)
    case (Suc m)
    with "2.prems"(2) obtain k where k: "n = Suc (Suc k)" "even k" by (cases m) auto
    from "2.IH" "2.prems"(1) k(2) have "units_ok (drop k r)" by simp
    then show ?thesis by (simp add: k(1))
  qed (use 2 in simp)
qed simp_all

lemma units_ok_even: "units_ok nm \<Longrightarrow> even (length nm)"
  by (induction nm rule: units_ok.induct) auto

lemma name_unit_nat:
  assumes "length nm < 2 ^ 31" and "n < 2 ^ 31"
  shows "name_unit nm (word_of_nat n) =
    (if n < length nm then [nm ! n, if n + 1 < length nm then nm ! (n + 1) else 0]
     else if n = length nm then [0, 0] else [0xFF, 0xFF])"
proof -
  have n: "unat (word_of_nat n :: u32) = n" and l: "unat (word_of_nat (length nm) :: u32) = length nm"
    and n1: "unat (word_of_nat n + 1 :: u32) = n + 1"
    using assms by (simp_all add: unat_of_nat_lt unat_plus)
  show ?thesis
    unfolding name_unit_def Let_def word_less_nat_alt word_unat_eq_iff n l n1 ..
qed

lemma length_name_units: "length (name_units k nm off) = 2 * k"
  by (induction k arbitrary: off) (auto simp: name_unit_def Let_def)

lemma name_units_Suc:
  "name_units (Suc k) nm (word_of_nat n) = name_unit nm (word_of_nat n) @ name_units k nm (word_of_nat (n + 2))"
  by (simp add: add.commute)

lemma read_units_name:
  assumes "units_ok nm" and "length nm < 2 ^ 31" and "even n" and "n + 2 * k < 2 ^ 31"
  shows "read_units (name_units k nm (word_of_nat n)) = take (2 * k) (drop n nm)"
  using assms(3,4)
proof (induction k arbitrary: n)
  case (Suc k)
  have unit: "name_unit nm (word_of_nat n) =
    (if n < length nm then [nm ! n, if n + 1 < length nm then nm ! (n + 1) else 0]
     else if n = length nm then [0, 0] else [0xFF, 0xFF])"
    using assms(2) Suc.prems(2) by (intro name_unit_nat) auto
  show ?case
  proof (cases "n < length nm")
    case True
    then have n1: "n + 1 < length nm"
      using units_ok_even [OF assms(1)] Suc.prems(1) by (auto elim!: evenE oddE)
    have d: "drop n nm = nm ! n # nm ! (n + 1) # drop (n + 2) nm"
      using True n1 by (simp add: nth_drops)
    have "units_ok (nm ! n # nm ! (n + 1) # drop (n + 2) nm)"
      using units_ok_drop [OF assms(1) Suc.prems(1)] by (simp add: d)
    moreover have "read_units (name_units k nm (word_of_nat (n + 2))) = take (2 * k) (drop (n + 2) nm)"
      using Suc.prems by (intro Suc.IH) auto
    ultimately show ?thesis
      using True n1 by (simp only: name_units_Suc unit d) simp
  next
    case False
    then show ?thesis by (simp only: name_units_Suc unit) simp
  qed
qed simp

lemma readLong_mkLong: "readLongEntryName (mkLongDirEntry l r c nm off) = read_units (name_units 13 nm off)"
proof -
  have "take 10 us @ take 12 (drop 10 us) @ drop 22 us = us" for us :: bytes
    using append_take_drop_id [of 12 "drop 10 us"] append_take_drop_id [of 10 us] by simp
  then show ?thesis by (simp add: readLongEntryName_def mkLongDirEntry_def Let_def)
qed

lemma readLong_mkLong_slice:
  assumes "units_ok nm" and "length nm < 2 ^ 30" and "26 * i \<le> length nm"
  shows "readLongEntryName (mkLongDirEntry l r c nm (word_of_nat (26 * i))) = take 26 (drop (26 * i) nm)"
proof -
  have "read_units (name_units 13 nm (word_of_nat (26 * i))) = take (2 * 13) (drop (26 * i) nm)"
    using assms by (intro read_units_name) auto
  then show ?thesis by (simp add: readLong_mkLong)
qed

lemma concat_slices: "concat (map (\<lambda>i. take k (drop (k * i) xs)) [0..<n]) = take (k * n) xs"
  by (induction n) (simp_all add: take_add [symmetric] add.commute)

lemma long_entries_name:
  assumes "units_ok nm" and "length nm < 2 ^ 30" and "26 * n < length nm + 26" and "length nm \<le> 26 * n"
  shows "concat (map (\<lambda>i. readLongEntryName (mkLongDirEntry (l i) (r i) c nm (word_of_nat (26 * i)))) [0..<n]) = nm"
proof -
  have "map (\<lambda>i. readLongEntryName (mkLongDirEntry (l i) (r i) c nm (word_of_nat (26 * i)))) [0..<n]
      = map (\<lambda>i. take 26 (drop (26 * i) nm)) [0..<n]"
    using assms(3) by (intro map_cong refl readLong_mkLong_slice [OF assms(1,2)]) auto
  then show ?thesis using assms(4) by (simp only: concat_slices) simp
qed

section \<open>The check sum is a rotation\<close>

lemma chkSum_step: "(if s AND 1 \<noteq> 0 then 0x80 else 0) + drop_bit 1 s = word_rotr 1 s"
  for s :: u8
proof -
  let ?h = "(if s AND 1 \<noteq> 0 then 0x80 else 0) :: u8"
  have h: "bit ?h n \<longleftrightarrow> n = 7 \<and> bit s 0" for n
  proof -
    have "bit (0x80 :: u8) n \<longleftrightarrow> n = 7"
      using bit_push_bit_iff [of 7 "1 :: u8" n] by (auto simp: bit_1_iff)
    moreover have "s AND 1 \<noteq> 0 \<longleftrightarrow> bit s 0" by (simp add: and_one_eq bit_0 odd_iff_mod_2_eq_one mod2_eq_if)
    ultimately show ?thesis by simp
  qed
  have "?h + drop_bit 1 s = ?h OR drop_bit 1 s"
    by (rule disjunctive_add) (auto simp: h bit_drop_bit_eq dest: bit_imp_le_length)
  also have "\<dots> = word_rotr 1 s"
  proof (rule bit_word_eqI)
    fix n assume "n < LENGTH(8)"
    then consider "n < 7" | "n = 7" by fastforce
    then show "bit (?h OR drop_bit 1 s) n \<longleftrightarrow> bit (word_rotr 1 s) n"
      by cases (auto simp: bit_or_iff h bit_drop_bit_eq bit_word_rotr_iff dest: bit_imp_le_length)
  qed
  finally show ?thesis .
qed

lemma chkSum_loop_rotr: "chkSum_loop s cs = foldl (\<lambda>s c. word_rotr 1 s + c) s cs"
  by (induction cs arbitrary: s) (simp_all only: chkSum_loop.simps foldl.simps chkSum_step)

lemma chkSum_loop_inj: "chkSum_loop s cs = chkSum_loop s' cs \<longleftrightarrow> s = s'"
proof (induction cs arbitrary: s s')
  case (Cons c cs)
  have "word_rotr 1 s + c = word_rotr 1 s' + c \<longleftrightarrow> s = s'"
    by (metis add_right_cancel word_rot_rl)
  then show ?case by (simp only: chkSum_loop.simps chkSum_step Cons.IH)
qed simp

section \<open>Short names survive the trip through the entry\<close>

lemma empty_basis: "primary mkEmptyBasisName = replicate 8 0x20 @ [0]"
  "extension mkEmptyBasisName = replicate 3 0x20 @ [0]"
  by (simp_all add: mkEmptyBasisName_def numeral_eq_Suc)

lemma short_primary_loop:
  assumes "j \<le> 8" and "j \<le> length nm" and "\<forall>k<j. nm ! k \<noteq> 0x2E"
    and "j = 8 \<or> j = length nm \<or> nm ! j = 0x2E"
  shows "i \<le> j \<Longrightarrow> j \<le> length prim \<Longrightarrow>
    short_primary nm i prim = (j, take i prim @ drop i (take j nm) @ drop j prim)"
proof (induction "j - i" arbitrary: i prim)
  case 0
  then have "i = j" by simp
  then show ?case
    using assms by (subst short_primary.simps) auto
next
  case (Suc n)
  then have ij: "i < j" by simp
  have "short_primary nm i prim = short_primary nm (Suc i) (prim[i := nm ! i])"
    using ij assms by (subst short_primary.simps) auto
  also have "\<dots> = (j, take (Suc i) (prim[i := nm ! i]) @ drop (Suc i) (take j nm) @ drop j (prim[i := nm ! i]))"
    using Suc.hyps(2) ij Suc.prems by (intro Suc.hyps(1)) auto
  also have "take (Suc i) (prim[i := nm ! i]) = take i prim @ [nm ! i]"
    using ij Suc.prems by (simp add: take_Suc_conv_app_nth)
  finally have step: "short_primary nm i prim
    = (j, (take i prim @ [nm ! i]) @ drop (Suc i) (take j nm) @ drop j (prim[i := nm ! i]))" .
  have "drop i (take j nm) = nm ! i # drop (Suc i) (take j nm)"
    using ij assms(2) by (simp add: nth_drops)
  then show ?case using ij by (simp add: step)
qed

lemma short_extension_loop:
  "j \<le> 3 \<Longrightarrow> i \<le> length nm \<Longrightarrow> 3 \<le> length ext \<Longrightarrow>
    short_extension nm i j ext =
      take j ext @ take (3 - j) (drop i nm) @ drop (j + min (3 - j) (length nm - i)) ext"
proof (induction "3 - j" arbitrary: i j ext)
  case 0
  then show ?case by (subst short_extension.simps) auto
next
  case (Suc n)
  show ?case
  proof (cases "i < length nm")
    case True
    have j: "j < 3" using Suc.hyps(2) by simp
    have "short_extension nm i j ext = short_extension nm (Suc i) (Suc j) (ext[j := nm ! i])"
      using True j by (subst short_extension.simps) auto
    also have "\<dots> = take (Suc j) (ext[j := nm ! i]) @ take (3 - Suc j) (drop (Suc i) nm)
        @ drop (Suc j + min (3 - Suc j) (length nm - Suc i)) (ext[j := nm ! i])"
      using Suc.hyps(2) Suc.prems True by (intro Suc.hyps(1)) auto
    also have "take (Suc j) (ext[j := nm ! i]) = take j ext @ [nm ! i]"
      using j Suc.prems by (simp add: take_Suc_conv_app_nth)
    also have "Suc j + min (3 - Suc j) (length nm - Suc i) = j + min (3 - j) (length nm - i)"
      using True j by linarith
    also have "drop (j + min (3 - j) (length nm - i)) (ext[j := nm ! i]) = drop (j + min (3 - j) (length nm - i)) ext"
      using True j by simp
    finally have step: "short_extension nm i j ext
      = (take j ext @ [nm ! i]) @ take (3 - Suc j) (drop (Suc i) nm)
        @ drop (j + min (3 - j) (length nm - i)) ext" .
    have "take (3 - j) (drop i nm) = nm ! i # take (3 - Suc j) (drop (Suc i) nm)"
      using True j by (simp add: nth_drops Suc_diff_Suc [symmetric])
    then show ?thesis by (simp add: step)
  next
    case False
    then show ?thesis using Suc.prems by (subst short_extension.simps) simp
  qed
qed

lemma read_primary_pad:
  "0x20 \<notin> set p \<Longrightarrow> i = 0 \<longrightarrow> (p = [] \<or> hd p \<noteq> 0x05) \<Longrightarrow> read_primary i (p @ replicate k 0x20) = p"
proof (induction p arbitrary: i)
  case Nil
  then show ?case by (cases k) auto
qed auto

lemma read_extension_pad:
  "0x20 \<notin> set x \<Longrightarrow> read_extension i (x @ replicate k 0x20) = (if i = 8 \<and> x \<noteq> [] then [0x2E] else []) @ x"
  if "8 \<le> i" for x
  using that
proof (induction x arbitrary: i)
  case Nil
  then show ?case by (cases k) auto
qed auto

definition short_parts_ok :: "bytes \<Rightarrow> bytes \<Rightarrow> bool" where
  "short_parts_ok p x \<longleftrightarrow> p \<noteq> [] \<and> length p \<le> 8 \<and> length x \<le> 3 \<and> 0x20 \<notin> set p \<and> 0x20 \<notin> set x
     \<and> 0x2E \<notin> set p \<and> hd p \<notin> {0x00, 0x05, 0xE5}"

definition padded_name :: "bytes \<Rightarrow> bytes \<Rightarrow> bytes" where
  "padded_name p x = p @ replicate (8 - length p) 0x20 @ x @ replicate (3 - length x) 0x20"

lemma readShortEntryName_padded:
  assumes "short_parts_ok p x" and "se_name e = padded_name p x"
  shows "readShortEntryName e = Some (p @ (if x = [] then [] else 0x2E # x))"
proof -
  have "parseEntryType e = KExist"
    using assms by (cases p) (auto simp: parseEntryType_def short_parts_ok_def padded_name_def)
  moreover have "take 8 (se_name e) = p @ replicate (8 - length p) 0x20"
    and "take 3 (drop 8 (se_name e)) = x @ replicate (3 - length x) 0x20"
    using assms by (auto simp: padded_name_def short_parts_ok_def)
  moreover have "read_primary 0 (p @ replicate (8 - length p) 0x20) = p"
    using assms(1) by (intro read_primary_pad) (auto simp: short_parts_ok_def)
  moreover have "read_extension 8 (x @ replicate (3 - length x) 0x20) = (if x = [] then [] else 0x2E # x)"
    using assms(1) by (subst read_extension_pad) (auto simp: short_parts_ok_def)
  ultimately show ?thesis by (simp add: readShortEntryName_def)
qed

text \<open>The cut only needs the lengths and a primary part without a dot.\<close>

lemma genBasisNameFromShort_cut:
  assumes "length p \<le> 8" and "length x \<le> 3" and "0x2E \<notin> set p"
  shows "genBasisNameFromShort (p @ (if x = [] then [] else 0x2E # x)) =
    Some \<lparr>primary = p @ replicate (8 - length p) 0x20 @ [0],
          extension = x @ replicate (3 - length x) 0x20 @ [0]\<rparr>"
proof -
  let ?nm = "p @ (if x = [] then [] else 0x2E # x)"
  have prim: "short_primary ?nm 0 (primary mkEmptyBasisName) = (length p, p @ replicate (8 - length p) 0x20 @ [0])"
    using assms by (subst short_primary_loop [of "length p"])
      (auto simp: empty_basis nth_append in_set_conv_nth)
  have ext: "x \<noteq> [] \<Longrightarrow> short_extension ?nm (length p + 1) 0 (extension mkEmptyBasisName)
      = x @ replicate (3 - length x) 0x20 @ [0]"
    using assms by (subst short_extension_loop) (auto simp: empty_basis)
  show ?thesis
    using assms prim ext
    by (auto simp: genBasisNameFromShort_def empty_basis mkEmptyBasisName_def numeral_eq_Suc)
qed

section \<open>Basis names\<close>

lemma long_primary_keeps:
  "length (long_primary g i prim) = length prim"
  "list_all (\<lambda>c. \<not> isInvalidShortEntryChr c) (take 8 prim) \<Longrightarrow>
    list_all (\<lambda>c. \<not> isInvalidShortEntryChr c) (take 8 (long_primary g i prim))"
proof (induction g i prim rule: long_primary.induct)
  case (1 g i prim)
  have ok: "\<not> isInvalidShortEntryChr (basis_chr c)" for c
    by (simp add: basis_chr_def isInvalidShortEntryChr_def KInvalidShortEntryBytes_def)
  { case 1 show ?case using "1.IH"(1) by (subst long_primary.simps) simp
  next
    case 2
    then have "list_all (\<lambda>c. \<not> isInvalidShortEntryChr c) (take 8 (prim[i := basis_chr (g ! i)]))"
      using ok set_update_subset_insert [of "take 8 prim" i] by (fastforce simp: list_all_iff take_update_swap)
    then show ?case using "1.IH"(2) 2 by (subst long_primary.simps) simp }
qed

lemma long_extension_keeps:
  "length (long_extension g i j ext) = length ext"
  "list_all (\<lambda>c. \<not> isInvalidShortEntryChr c) (take 3 ext) \<Longrightarrow>
    list_all (\<lambda>c. \<not> isInvalidShortEntryChr c) (take 3 (long_extension g i j ext))"
proof (induction g i j ext rule: long_extension.induct)
  case (1 g i j ext)
  have ok: "\<not> isInvalidShortEntryChr (basis_chr c)" for c
    by (simp add: basis_chr_def isInvalidShortEntryChr_def KInvalidShortEntryBytes_def)
  { case 1 show ?case using "1.IH"(1) by (subst long_extension.simps) simp
  next
    case 2
    then have "list_all (\<lambda>c. \<not> isInvalidShortEntryChr c) (take 3 (ext[j := basis_chr (g ! i)]))"
      using ok set_update_subset_insert [of "take 3 ext" j] by (fastforce simp: list_all_iff take_update_swap)
    then show ?case using "1.IH"(2) 2 by (subst long_extension.simps) simp }
qed

lemma blank_ok: "\<not> isInvalidShortEntryChr 0x20"
  by (simp add: isInvalidShortEntryChr_def KInvalidShortEntryBytes_def)

definition short_name_of :: "bytes \<Rightarrow> bytes \<Rightarrow> bytes" where
  "short_name_of p x = p @ (if x = [] then [] else 0x2E # x)"

section \<open>Properties\<close>

text \<open>C31: A long name comes back unchanged from the directory. The name is cut into
  \<open>(size - 1) / 26 + 1\<close> entries, as \<open>crtFileInner\<close> does; each is a valid long entry for the
  check sum, and what \<open>readLongEntryName\<close> reads from them, put together in the order of their
  numbers, is the name.\<close>

theorem long_name_round_trip:
  assumes "units_ok nm" and "nm \<noteq> []" and "length nm < 2 ^ 30" and "n = (length nm - 1) div 26 + 1"
  shows "concat (map (\<lambda>i. readLongEntryName (decode_long (encode_long
      (mkLongDirEntry (i + 1 = n) (of_nat (i + 1)) crc nm (of_nat (26 * i)))))) [0..<n]) = nm
    \<and> list_all (\<lambda>i. isValidLongDirEntry (mkLongDirEntry (i + 1 = n) (of_nat (i + 1)) crc nm (of_nat (26 * i))) crc)
        [0..<n]"
proof -
  have wf: "wf_long (mkLongDirEntry l r c nm off)" for l r c off
    by (simp add: wf_long_def mkLongDirEntry_def length_name_units Let_def del: name_units.simps)
  have n: "26 * n < length nm + 26" "length nm \<le> 26 * n" using assms(2,4) by (cases nm; simp; linarith)+
  have "isValidLongDirEntry (mkLongDirEntry l r crc nm off) crc" for l r off
    by (simp add: isValidLongDirEntry_def isLongDirEntry_def mkLongDirEntry_def Let_def attr_values)
  then show ?thesis
    using long_entries_name [OF assms(1,3) n, of "\<lambda>i. i + 1 = n" "\<lambda>i. of_nat (i + 1)" crc]
    by (simp only: encode_decode_long [OF wf] list_all_iff) simp
qed

theorem long_name_round_trip_witness:
  "concat (map (\<lambda>i. readLongEntryName (decode_long (encode_long
      (mkLongDirEntry (i + 1 = 2) (of_nat (i + 1)) 0x5A (concat (replicate 14 [0x41, 0])) (of_nat (26 * i))))))
     [0..<2]) = concat (replicate 14 [0x41, 0])"
proof -
  have "units_ok (concat (replicate n [0x41, 0]))" for n by (induction n) simp_all
  moreover have "length (concat (replicate n [0x41, 0 :: u8])) = 2 * n" for n
    by (simp add: length_concat sum_list_replicate)
  moreover have "concat (replicate 14 [0x41, 0 :: u8]) \<noteq> []" by simp
  ultimately show ?thesis
    by (intro conjunct1 [OF long_name_round_trip]) (simp_all only:, simp_all)
qed

text \<open>A short name (up to 8 and 3 bytes, no blanks, the first byte none of the three with a
  meaning of its own) survives being cut into a basis name and stored in a short entry, and the
  check sum of the basis name is the check sum of the eleven bytes in the entry.\<close>

lemma short_name_round_trip:
  assumes "short_parts_ok p x"
  shows "\<exists>b. genBasisNameFromShort (short_name_of p x) = Some b
    \<and> readShortEntryName (mkShortDirEntry now b is_dir) = Some (short_name_of p x)
    \<and> chkSum b = chkSum_loop 0 (se_name (mkShortDirEntry now b is_dir))"
proof -
  let ?b = "\<lparr>primary = p @ replicate (8 - length p) 0x20 @ [0], extension = x @ replicate (3 - length x) 0x20 @ [0]\<rparr>"
  have "se_name (mkShortDirEntry now ?b is_dir) = padded_name p x"
    using assms by (simp add: mkShortDirEntry_def setFstClusNo_def padded_name_def short_parts_ok_def)
  then show ?thesis
    using genBasisNameFromShort_cut [of p x] assms readShortEntryName_padded [OF assms]
    by (simp add: short_name_of_def chkSum_def mkShortDirEntry_def setFstClusNo_def short_parts_ok_def)
qed

lemma short_name_round_trip_example:
  "\<exists>b. genBasisNameFromShort [0x41, 0x42, 0x2E, 0x43] = Some b
    \<and> readShortEntryName (mkShortDirEntry \<lparr>ts2_tt = 0, ts2_ts = \<lparr>ts_time = 0, ts_date = 33\<rparr>\<rparr> b False)
        = Some [0x41, 0x42, 0x2E, 0x43]"
  using short_name_round_trip [of "[0x41, 0x42]" "[0x43]"
      "\<lparr>ts2_tt = 0, ts2_ts = \<lparr>ts_time = 0, ts_date = 33\<rparr>\<rparr>" False]
  by (auto simp: short_parts_ok_def short_name_of_def)

text \<open>Whatever long name a file is created with (as far as it converts to GBK), the basis
  name made from it fills its 9 and 4 bytes exactly and holds no character that a short entry
  may not hold.\<close>

lemma genBasisNameFromLong_valid:
  assumes "genBasisNameFromLong to_gbk long_name = Some b"
  shows "length (primary b) = 9 \<and> length (extension b) = 4
    \<and> list_all (\<lambda>c. \<not> isInvalidShortEntryChr c) (take 8 (primary b) @ take 3 (extension b))"
proof -
  have "list_all (\<lambda>c. \<not> isInvalidShortEntryChr c) (take 8 (primary mkEmptyBasisName))"
    "list_all (\<lambda>c. \<not> isInvalidShortEntryChr c) (take 3 (extension mkEmptyBasisName))"
    by (simp_all add: empty_basis list_all_iff blank_ok)
  then show ?thesis
    using assms long_primary_keeps long_extension_keeps
    by (auto simp: genBasisNameFromLong_def Let_def empty_basis split: bind_splits)
qed

lemma genBasisNameFromLong_valid_example:
  "\<exists>b. genBasisNameFromLong Some [0x61, 0x2B, 0x2E, 0x63] = Some b \<and> length (primary b) = 9
    \<and> list_all (\<lambda>c. \<not> isInvalidShortEntryChr c) (take 8 (primary b) @ take 3 (extension b))"
  using genBasisNameFromLong_valid [of Some "[0x61, 0x2B, 0x2E, 0x63]"]
  by (simp add: genBasisNameFromLong_def Let_def)

text \<open>The check sum detects every change of a single byte of the 8.3 name.\<close>

lemma chkSum_detects_one_byte:
  assumes "length (primary b) = 9" and "i < 8"
  shows "chkSum (b\<lparr>primary := (primary b)[i := c]\<rparr>) = chkSum b \<longleftrightarrow> c = primary b ! i"
proof -
  have split: "chkSum_loop s (xs @ a # ys) = chkSum_loop (word_rotr 1 (chkSum_loop s xs) + a) ys" for s xs a ys
    by (simp add: chkSum_loop_rotr)
  let ?p = "take 8 (primary b)" and ?e = "take 3 (extension b)"
  have p: "?p = take i ?p @ ?p ! i # drop (Suc i) ?p" using assms by (intro id_take_nth_drop) simp
  have q: "take 8 ((primary b)[i := c]) = take i ?p @ c # drop (Suc i) ?p"
    using assms upd_conv_take_nth_drop [of i ?p c] by (simp add: take_update_swap)
  have "chkSum (b\<lparr>primary := (primary b)[i := c]\<rparr>)
      = chkSum_loop (word_rotr 1 (chkSum_loop 0 (take i ?p)) + c) (drop (Suc i) ?p @ ?e)"
    unfolding chkSum_def by (simp add: q split)
  moreover have "chkSum b
      = chkSum_loop (word_rotr 1 (chkSum_loop 0 (take i ?p)) + ?p ! i) (drop (Suc i) ?p @ ?e)"
    unfolding chkSum_def by (subst p) (simp add: split)
  ultimately show ?thesis using assms(2) by (simp add: chkSum_loop_inj)
qed

lemma chkSum_detects_one_byte_example:
  "chkSum (mkEmptyBasisName\<lparr>primary := (primary mkEmptyBasisName)[3 := 0x41]\<rparr>) \<noteq> chkSum mkEmptyBasisName"
  using chkSum_detects_one_byte [of mkEmptyBasisName 3 "0x41"] by (simp add: empty_basis nth_append)

text \<open>C33: The lead byte \<open>0xE5\<close> (a legal GBK lead byte, stored as \<open>0x05\<close>) is not handled on the
  way in: \<open>mkShortDirEntry\<close> stores it as it is, so the entry of the new file reads as deleted;
  and the name read from an entry stored with \<open>0x05\<close> has a basis name with another check sum
  than the bytes in the entry, so the assertion on the check sum of its long entries fails.\<close>

theorem lead_byte_E5_is_lost:
  assumes "length (primary b) = 9" and "primary b ! 0 = 0xE5"
    and "short_parts_ok (0x41 # p) x" and "se_name e = padded_name (0x05 # p) x"
  shows "parseEntryType (mkShortDirEntry now b is_dir) = KEmpty
    \<and> (\<exists>nm b'. readShortEntryName e = Some nm \<and> genBasisNameFromShort nm = Some b'
        \<and> chkSum b' \<noteq> chkSum_loop 0 (se_name e))"
proof -
  have "parseEntryType (mkShortDirEntry now b is_dir) = KEmpty"
    using assms(1,2) by (cases "primary b") (auto simp: parseEntryType_def mkShortDirEntry_def setFstClusNo_def)
  moreover have "readShortEntryName e = Some (short_name_of (0xE5 # p) x)"
    using assms(3,4) read_primary_pad [of p "Suc 0" "7 - length p"] read_extension_pad [of 8 x "3 - length x"]
    by (auto simp: readShortEntryName_def parseEntryType_def padded_name_def short_parts_ok_def short_name_of_def)
  moreover have "genBasisNameFromShort (short_name_of (0xE5 # p) x) =
    Some \<lparr>primary = (0xE5 # p) @ replicate (7 - length p) 0x20 @ [0], extension = x @ replicate (3 - length x) 0x20 @ [0]\<rparr>"
    using genBasisNameFromShort_cut [of "0xE5 # p" x] assms(3) by (simp add: short_name_of_def short_parts_ok_def)
  moreover have "chkSum_loop 0 ((0xE5 # p) @ q) \<noteq> chkSum_loop 0 ((0x05 # p) @ q)" for q
    by (simp add: chkSum_loop_inj)
  ultimately show ?thesis
    using assms(3,4) by (simp add: chkSum_def padded_name_def short_parts_ok_def)
qed

theorem lead_byte_E5_is_lost_witness:
  "parseEntryType (mkShortDirEntry \<lparr>ts2_tt = 0, ts2_ts = \<lparr>ts_time = 0, ts_date = 33\<rparr>\<rparr>
     (mkEmptyBasisName\<lparr>primary := 0xE5 # replicate 7 0x20 @ [0]\<rparr>) False) = KEmpty"
  using lead_byte_E5_is_lost [of "mkEmptyBasisName\<lparr>primary := 0xE5 # replicate 7 0x20 @ [0]\<rparr>" "[]" "[]"
      "(decode_short (replicate 32 0))\<lparr>se_name := padded_name [0x05] []\<rparr>"
      "\<lparr>ts2_tt = 0, ts2_ts = \<lparr>ts_time = 0, ts_date = 33\<rparr>\<rparr>" False]
  by (simp add: short_parts_ok_def)

end
