(* ===== verification/Fat32Time.thy ===== *)
theory Fat32Time
  imports Fat32Layout
begin

text \<open>
  DOS time stamps: \<open>unix2DosTs\<close>, \<open>dos2UnixTs\<close> and their variants with hundredths of a second,
  from \<^verbatim>\<open>library/fat32.cpp\<close>. \<open>gmtime\<close> is modelled as the C standard defines it, on the
  proleptic Gregorian calendar. \<open>mktime\<close> depends on the time zone of the process and is an
  argument; \<open>timegm\<close> is what it computes in UTC. The clock (\<open>clock_gettime\<close>) is an argument
  \<open>now\<close>.
\<close>

section \<open>Calendar time\<close>

record timespec =
  tv_sec :: int
  tv_nsec :: int

record tm =
  tm_sec :: int
  tm_min :: int
  tm_hour :: int
  tm_mday :: int
  tm_mon :: int
  tm_year :: int

text \<open>Days from 1970-01-01 to the first day of a year.\<close>

definition leaps_until :: "int \<Rightarrow> int" where
  "leaps_until y = y div 4 - y div 100 + y div 400"

definition days_before_year :: "int \<Rightarrow> int" where
  "days_before_year y = 365 * (y - 1970) + leaps_until (y - 1) - leaps_until 1969"

definition is_leap :: "int \<Rightarrow> bool" where
  "is_leap y \<longleftrightarrow> y mod 4 = 0 \<and> (y mod 100 \<noteq> 0 \<or> y mod 400 = 0)"

definition month_start :: "int \<Rightarrow> nat \<Rightarrow> int" where
  "month_start y m = [0, 31, 59, 90, 120, 151, 181, 212, 243, 273, 304, 334, 365] ! m
     + (if is_leap y \<and> 2 \<le> m then 1 else 0)"

text \<open>A month outside 0 .. 11 counts years, a day outside the month counts on, as in \<open>mktime\<close>.\<close>

definition timegm :: "tm \<Rightarrow> int" where
  "timegm t = (let y = 1900 + tm_year t + tm_mon t div 12; m = nat (tm_mon t mod 12) in
     (((days_before_year y + month_start y m + tm_mday t - 1) * 24 + tm_hour t) * 60 + tm_min t) * 60
       + tm_sec t)"

lemma div_step:
  fixes k y :: int
  assumes "0 < k"
  shows "y div k = (y - 1) div k + (if y mod k = 0 then 1 else 0)"
proof -
  obtain q r where q: "y = k * q + r" and r: "0 \<le> r" "r < k"
    using mult_div_mod_eq [of k y] assms by (metis pos_mod_bound pos_mod_sign)
  have y: "y div k = q" "y mod k = r"
    using q r by (auto intro: int_div_pos_eq int_mod_pos_eq)
  show ?thesis
  proof (cases "r = 0")
    case True
    have "(y - 1) div k = q - 1"
      using assms by (intro int_div_pos_eq [where r = "k - 1"]) (simp_all add: q True algebra_simps)
    with True show ?thesis by (simp only: y) simp
  next
    case False
    have "(y - 1) div k = q"
      using r False by (intro int_div_pos_eq [where r = "r - 1"]) (simp_all add: q)
    with False show ?thesis by (simp only: y) simp
  qed
qed

lemma mod_weaken: "y mod (a * b) = 0 \<Longrightarrow> y mod a = 0" for y a b :: int
  by (auto simp: mod_eq_0_iff_dvd)

lemma leap_rule:
  "(P100 \<Longrightarrow> P4) \<Longrightarrow> (P400 \<Longrightarrow> P100) \<Longrightarrow>
    (a + (if P4 then 1 else 0)) - (b + (if P100 then 1 else 0)) + (c + (if P400 then 1 else 0))
      = a - b + c + (if P4 \<and> (\<not> P100 \<or> P400) then 1 else (0 :: int))"
  by (cases P4; cases P100; cases P400) simp_all

lemma leaps_until_step: "leaps_until y = leaps_until (y - 1) + (if is_leap y then 1 else 0)"
proof -
  have w: "y mod 100 = 0 \<Longrightarrow> y mod 4 = 0" "y mod 400 = 0 \<Longrightarrow> y mod 100 = 0"
    by (rule mod_weaken [of y 4 25], simp only: semiring_norm mult_numeral_left)
      (rule mod_weaken [of y 100 4], simp only: semiring_norm mult_numeral_left)
  show ?thesis
    unfolding leaps_until_def is_leap_def div_step [of 4 y, simplified] div_step [of 100 y, simplified]
      div_step [of 400 y, simplified]
    by (rule leap_rule; erule w)
qed

lemma days_before_year_Suc: "days_before_year (y + 1) = days_before_year y + 365 + (if is_leap y then 1 else 0)"
  using leaps_until_step [of y] by (simp add: days_before_year_def)

lemma days_before_1970: "days_before_year 1970 = 0"
  by (simp add: days_before_year_def leaps_until_def)

lemma days_before_year_bounds:
  "days_before_year (1970 + int k) \<le> 366 * int k" "days_before_year (1970 - int k) \<le> - 365 * int k"
proof (induction k)
  case (Suc k)
  { case 1 show ?case using Suc(1) days_before_year_Suc [of "1970 + int k"] by (simp add: add.commute split: if_splits)
  next
    case 2 show ?case using Suc(2) days_before_year_Suc [of "1970 - int (Suc k)"] by (simp split: if_splits) }
qed (simp_all add: days_before_1970)

text \<open>
  \<open>gmtime\<close>: the year whose days include day \<open>d\<close>, searched upwards from a year that is not
  later, then the month.
\<close>

function find_year :: "int \<Rightarrow> int \<Rightarrow> int" where
  "find_year y d = (if days_before_year (y + 1) \<le> d then find_year (y + 1) d else y)"
  by pat_completeness auto
termination
  by (relation "measure (\<lambda>(y, d). nat (d - days_before_year y))") (auto simp: days_before_year_Suc split: if_splits)

declare find_year.simps [simp del]

definition find_month :: "int \<Rightarrow> int \<Rightarrow> nat" where
  "find_month y yday = last (filter (\<lambda>m. month_start y m \<le> yday) [0..<12])"

definition gmtime :: "int \<Rightarrow> tm" where
  "gmtime t =
     (let d = t div 86400; s = t mod 86400;
          y = find_year (1970 + (if d < 0 then d div 365 else d div 366)) d;
          yday = d - days_before_year y; m = find_month y yday
      in \<lparr>tm_sec = s mod 60, tm_min = s div 60 mod 60, tm_hour = s div 3600,
          tm_mday = yday - month_start y m + 1, tm_mon = int m, tm_year = y - 1900\<rparr>)"


subsection \<open>timegm undoes gmtime\<close>

lemma find_year_bounds:
  "days_before_year y \<le> d \<Longrightarrow>
    days_before_year (find_year y d) \<le> d \<and> d < days_before_year (find_year y d + 1)"
proof (induction y d rule: find_year.induct)
  case (1 y d)
  then show ?case by (subst (1 2) find_year.simps) auto
qed

lemma first_guess: "days_before_year (1970 + (if d < 0 then d div 365 else d div 366)) \<le> d"
proof (cases "d < 0")
  case True
  define k where "k = nat (- (d div 365))"
  have "d div 365 < 0" using True by (simp add: pos_imp_zdiv_neg_iff)
  then have k: "d div 365 = - int k" by (simp add: k_def)
  have "365 * (d div 365) \<le> d" using mult_div_mod_eq [of 365 d] pos_mod_sign [of 365 d] by simp
  then show ?thesis using days_before_year_bounds(2) [of k] True by (simp add: k)
next
  case False
  define k where "k = nat (d div 366)"
  have k: "d div 366 = int k" using False by (simp add: k_def pos_imp_zdiv_nonneg_iff)
  have "366 * (d div 366) \<le> d" using mult_div_mod_eq [of 366 d] pos_mod_sign [of 366 d] by simp
  then show ?thesis using days_before_year_bounds(1) [of k] False by (simp add: k)
qed

lemma month_start_step:
  assumes "m < 12"
  shows "month_start y (Suc m) \<le> month_start y m + 31"
proof -
  have "m = 0 \<or> m = 1 \<or> m = 2 \<or> m = 3 \<or> m = 4 \<or> m = 5 \<or> m = 6 \<or> m = 7 \<or> m = 8 \<or> m = 9
      \<or> m = 10 \<or> m = 11" using assms by presburger
  then show ?thesis by (elim disjE) (simp_all add: month_start_def)
qed

lemma sorted_le_last: "sorted xs \<Longrightarrow> x \<in> set xs \<Longrightarrow> x \<le> last xs"
  by (induction xs) auto

lemma find_month_bounds:
  assumes "0 \<le> yday" and "yday < 365 + (if is_leap y then 1 else 0)"
  shows "find_month y yday < 12" and "month_start y (find_month y yday) \<le> yday"
    and "yday - month_start y (find_month y yday) < 31"
proof -
  let ?ms = "filter (\<lambda>m. month_start y m \<le> yday) [0..<12]" and ?m = "find_month y yday"
  have "0 \<in> set ?ms" using assms(1) by (simp add: month_start_def)
  then have "?m \<in> set ?ms" unfolding find_month_def by (metis empty_iff empty_set last_in_set)
  then show m: "?m < 12" "month_start y ?m \<le> yday" by auto
  have "sorted ?ms" using sorted_filter [of "\<lambda>m. m" "[0..<12]"] by simp
  then have "Suc ?m \<notin> set ?ms" using sorted_le_last [of ?ms "Suc ?m"] by (auto simp: find_month_def)
  then have "?m = 11 \<or> yday < month_start y (Suc ?m)" using m(1) by auto
  then show "yday - month_start y ?m < 31"
    using month_start_step [OF m(1), of y] assms(2) by (auto simp: month_start_def split: if_splits)
qed

lemma timegm_gmtime: "timegm (gmtime t) = t"
  and gmtime_ranges: "tm_mon (gmtime t) \<in> {0..11}" "tm_mday (gmtime t) \<in> {1..31}"
    "tm_hour (gmtime t) \<in> {0..23}" "tm_min (gmtime t) \<in> {0..59}" "tm_sec (gmtime t) \<in> {0..59}"
  and gmtime_year: "days_before_year (1900 + tm_year (gmtime t)) \<le> t div 86400"
    "t div 86400 < days_before_year (1901 + tm_year (gmtime t))"
proof -
  define d where "d = t div 86400"
  define s where "s = t mod 86400"
  define y where "y = find_year (1970 + (if d < 0 then d div 365 else d div 366)) d"
  define yday where "yday = d - days_before_year y"
  define m where "m = find_month y yday"
  have tm: "gmtime t = \<lparr>tm_sec = s mod 60, tm_min = s div 60 mod 60, tm_hour = s div 3600,
      tm_mday = yday - month_start y m + 1, tm_mon = int m, tm_year = y - 1900\<rparr>"
    by (simp add: gmtime_def Let_def d_def s_def y_def yday_def m_def)
  have y: "days_before_year y \<le> d" "d < days_before_year (y + 1)"
    using find_year_bounds [OF first_guess] by (simp_all add: y_def)
  then have "0 \<le> yday" "yday < 365 + (if is_leap y then 1 else 0)"
    by (simp_all add: yday_def days_before_year_Suc)
  note m = find_month_bounds [OF this, folded m_def]
  have s: "0 \<le> s" "s < 86400" by (simp_all add: s_def)
  define h mi se where h_def: "h = s div 3600" and mi_def: "mi = s div 60 mod 60" and se_def: "se = s mod 60"
  have "s div 3600 = s div 60 div 60" using zdiv_zmult2_eq [of 60 s 60] by simp
  then have hms: "(h * 60 + mi) * 60 + se = s"
    by (simp only: h_def mi_def se_def div_mult_mod_eq)
  have hour: "0 \<le> s div 3600" "s div 3600 \<le> 23"
    using s zdiv_mono1 [of s 86399 3600] by (simp_all add: pos_imp_zdiv_nonneg_iff)
  have "int m div 12 = 0" "nat (int m mod 12) = m" using m(1) by simp_all
  then have "timegm (gmtime t) = ((d * 24 + h) * 60 + mi) * 60 + se"
    unfolding tm h_def [symmetric] mi_def [symmetric] se_def [symmetric]
    by (simp only: timegm_def tm.simps Let_def) (simp add: yday_def)
  also have "\<dots> = d * 86400 + ((h * 60 + mi) * 60 + se)" by (simp only: distrib_right)
  also have "\<dots> = t" unfolding hms by (simp add: d_def s_def)
  finally show "timegm (gmtime t) = t" .
  show "tm_mon (gmtime t) \<in> {0..11}" "tm_mday (gmtime t) \<in> {1..31}"
    "tm_min (gmtime t) \<in> {0..59}" "tm_sec (gmtime t) \<in> {0..59}" "tm_hour (gmtime t) \<in> {0..23}"
    using m pos_mod_bound [of 60 s] pos_mod_bound [of 60 "s div 60"] hour by (simp_all add: tm)
  show "days_before_year (1900 + tm_year (gmtime t)) \<le> t div 86400"
    "t div 86400 < days_before_year (1901 + tm_year (gmtime t))"
    using y by (simp_all add: tm d_def add.commute)
qed


section \<open>DOS time stamps\<close>

text \<open>A leap second (\<open>tm_sec = 60\<close>) never comes out of \<open>gmtime\<close>; the code's branch is kept.\<close>

definition unix2DosTs :: "timespec \<Rightarrow> FatTimeStamp" where
  "unix2DosTs unix_ts =
     (let t = gmtime (tv_sec unix_ts);
          t = (if tm_sec t = 60 then t\<lparr>tm_sec := 59\<rparr> else t);
          date = push_bit 9 (word_of_int (tm_year t - 80) AND 0x7F)
            OR push_bit 5 (word_of_int (tm_mon t + 1) AND 0xF) OR (word_of_int (tm_mday t) AND 0x1F);
          time = push_bit 11 (word_of_int (tm_hour t) AND 0x1F)
            OR push_bit 5 (word_of_int (tm_min t) AND 0x3F) OR (word_of_int (tm_sec t div 2) AND 0x1F)
      in \<lparr>ts_time = time, ts_date = date\<rparr>)"

definition dos_tm :: "FatTimeStamp \<Rightarrow> tm" where
  "dos_tm ts = \<lparr>tm_sec = uint (ts_time ts AND 0x1F) * 2, tm_min = uint (drop_bit 5 (ts_time ts) AND 0x3F),
     tm_hour = uint (drop_bit 11 (ts_time ts) AND 0x1F), tm_mday = uint (ts_date ts AND 0x1F),
     tm_mon = uint (drop_bit 5 (ts_date ts) AND 0xF) - 1,
     tm_year = uint (drop_bit 9 (ts_date ts) AND 0x7F) + 80\<rparr>"

definition dos2UnixTs :: "(tm \<Rightarrow> int) \<Rightarrow> FatTimeStamp \<Rightarrow> timespec option" where
  "dos2UnixTs mktime ts =
     (let sec = mktime (dos_tm ts) in do { ensure (sec \<noteq> -1); Some \<lparr>tv_sec = sec, tv_nsec = 0\<rparr> })"

text \<open>
  \<open>tv_sec % 2 == 1\<close> in C holds for odd positive seconds only. \<open>tt\<close> and the sums with it are
  \<open>u8\<close>.
\<close>

definition unix2DosTs_2 :: "timespec \<Rightarrow> FatTimeStamp2" where
  "unix2DosTs_2 unix_ts =
     (let tenths = (word_of_int (tv_nsec unix_ts div 10000000) :: u8);
          tenths = (if 0 < tv_sec unix_ts \<and> tv_sec unix_ts mod 2 = 1 then tenths + 100 else tenths)
      in \<lparr>ts2_tt = tenths, ts2_ts = unix2DosTs unix_ts\<rparr>)"

definition dos2UnixTs_2 :: "(tm \<Rightarrow> int) \<Rightarrow> FatTimeStamp2 \<Rightarrow> timespec option" where
  "dos2UnixTs_2 mktime ts2 =
     do { ensure (ts2_tt ts2 \<le> 199);
          unix_ts \<leftarrow> dos2UnixTs mktime (ts2_ts ts2);
          let (unix_ts, tt) =
            (if ts2_tt ts2 > 100 then (unix_ts\<lparr>tv_sec := tv_sec unix_ts + 1\<rparr>, ts2_tt ts2 - 100)
             else (unix_ts, ts2_tt ts2));
          Some (unix_ts\<lparr>tv_nsec := uint tt * 10000000\<rparr>) }"

definition getCurDosTs :: "timespec \<Rightarrow> FatTimeStamp" where
  "getCurDosTs now = unix2DosTs now"

definition getCurDosTs2 :: "timespec \<Rightarrow> FatTimeStamp2" where
  "getCurDosTs2 now = unix2DosTs_2 now"

subsection \<open>Packed fields\<close>

lemma uint_and_mask: "uint (word_of_int x AND mask n :: 'a::len word) = x"
  if "0 \<le> x" "x < 2 ^ n" "n \<le> LENGTH('a)"
proof -
  have "x < 2 ^ LENGTH('a)" using that(2,3) by (meson le_less_trans not_le power_increasing_iff one_less_numeral_iff semiring_norm(76) less_le_trans)
  then have "uint (word_of_int x :: 'a word) = x" using that(1) by (simp add: uint_word_of_int)
  then show ?thesis using that by (simp add: unsigned_take_bit_eq take_bit_int_eq_self flip: take_bit_eq_mask)
qed

lemma packed_fields:
  fixes a b c :: u16
  assumes "n + m + k \<le> 16"
    and "w = push_bit (n + m) (a AND mask k) OR push_bit n (b AND mask m) OR (c AND mask n)"
  shows "w AND mask n = c AND mask n" and "drop_bit n w AND mask m = b AND mask m"
    and "drop_bit (n + m) w AND mask k = a AND mask k"
  unfolding assms(2) by (rule bit_word_eqI; use assms(1) in \<open>auto simp: bit_simps\<close>)+

lemma masks16: "(0x1F :: u16) = mask 5" "(0x3F :: u16) = mask 6" "(0xF :: u16) = mask 4" "(0x7F :: u16) = mask 7"
  by (simp_all add: mask_eq_exp_minus_1)

text \<open>The fields of a DOS stamp are the fields of the calendar time, the seconds halved.\<close>

lemma dos_tm_unix2DosTs:
  assumes "tm_year (gmtime (tv_sec u)) \<in> {80..207}"
  shows "dos_tm (unix2DosTs u) = (gmtime (tv_sec u))\<lparr>tm_sec := tm_sec (gmtime (tv_sec u)) div 2 * 2\<rparr>"
proof -
  define t where "t = gmtime (tv_sec u)"
  note r = gmtime_ranges [of "tv_sec u", folded t_def]
  have y: "tm_year t - 80 \<in> {0..127}" using assms by (simp add: t_def)
  define date where "date = push_bit (5 + 4) (word_of_int (tm_year t - 80) AND mask 7)
    OR push_bit 5 (word_of_int (tm_mon t + 1) AND mask 4) OR (word_of_int (tm_mday t) AND (mask 5 :: u16))"
  define time where "time = push_bit (5 + 6) (word_of_int (tm_hour t) AND mask 5)
    OR push_bit 5 (word_of_int (tm_min t) AND mask 6) OR (word_of_int (tm_sec t div 2) AND (mask 5 :: u16))"
  have "unix2DosTs u = \<lparr>ts_time = time, ts_date = date\<rparr>"
    using r(5) by (simp add: unix2DosTs_def Let_def t_def [symmetric] masks16 time_def date_def)
  moreover note packed_fields [of 5 4 7, OF _ date_def] packed_fields [of 5 6 5, OF _ time_def]
  ultimately have "dos_tm (unix2DosTs u) =
    \<lparr>tm_sec = uint (word_of_int (tm_sec t div 2) AND mask 5 :: u16) * 2,
     tm_min = uint (word_of_int (tm_min t) AND mask 6 :: u16),
     tm_hour = uint (word_of_int (tm_hour t) AND mask 5 :: u16),
     tm_mday = uint (word_of_int (tm_mday t) AND mask 5 :: u16),
     tm_mon = uint (word_of_int (tm_mon t + 1) AND mask 4 :: u16) - 1,
     tm_year = uint (word_of_int (tm_year t - 80) AND mask 7 :: u16) + 80\<rparr>"
    by (simp add: dos_tm_def masks16)
  moreover have "uint (word_of_int (tm_sec t div 2) AND mask 5 :: u16) = tm_sec t div 2"
    "uint (word_of_int (tm_min t) AND mask 6 :: u16) = tm_min t"
    "uint (word_of_int (tm_hour t) AND mask 5 :: u16) = tm_hour t"
    "uint (word_of_int (tm_mday t) AND mask 5 :: u16) = tm_mday t"
    "uint (word_of_int (tm_mon t + 1) AND mask 4 :: u16) = tm_mon t + 1"
    "uint (word_of_int (tm_year t - 80) AND mask 7 :: u16) = tm_year t - 80"
    using r y zdiv_mono1 [of "tm_sec t" 59 2] by - (rule uint_and_mask; simp)+
  ultimately show ?thesis unfolding t_def [symmetric] by (cases t) simp
qed

lemma timegm_sec: "timegm (t\<lparr>tm_sec := s\<rparr>) = timegm t - tm_sec t + s"
  by (simp add: timegm_def Let_def)

lemma even_minute: "(t :: int) mod 60 div 2 * 2 - t mod 60 = - (t mod 2)"
  by (simp add: mod_mod_cancel flip: minus_mod_eq_div_mult)

lemma timegm_dos_tm:
  assumes "tm_year (gmtime (tv_sec u)) \<in> {80..207}"
  shows "timegm (dos_tm (unix2DosTs u)) = tv_sec u - tv_sec u mod 2"
proof -
  have "tm_sec (gmtime s) = s mod 86400 mod 60" for s by (simp add: gmtime_def Let_def)
  then have "tm_sec (gmtime s) = s mod 60" for s by (simp add: mod_mod_cancel)
  then show ?thesis
    using even_minute [of "tv_sec u"] by (simp add: dos_tm_unix2DosTs [OF assms] timegm_sec timegm_gmtime)
qed

text \<open>The years 1980 to 2107 in seconds.\<close>

lemma dos_years:
  assumes "315532800 \<le> s" and "s < 4354819200"
  shows "tm_year (gmtime s) \<in> {80..207}"
proof -
  have d: "3652 \<le> s div 86400" "s div 86400 < 50403"
    using assms zdiv_mono1 [of 315532800 s 86400] zdiv_mono1 [of s 4354819199 86400] by simp_all
  have mono: "days_before_year a \<le> days_before_year b" if "a \<le> b" for a b
    using that
  proof (induction "nat (b - a)" arbitrary: b)
    case (Suc n)
    then have "days_before_year a \<le> days_before_year (b - 1)" by simp
    then show ?case using days_before_year_Suc [of "b - 1"] by (simp split: if_splits)
  qed simp
  have "days_before_year 1980 = 3652" "days_before_year 2108 = 50403"
    by (simp_all add: days_before_year_def leaps_until_def)
  then show ?thesis
    using d gmtime_year [of s] mono [of "1901 + tm_year (gmtime s)" 1980]
      mono [of 2108 "1900 + tm_year (gmtime s)"] by fastforce
qed


section \<open>Properties\<close>

text \<open>C39: With the process in UTC, a time from 1980 to 2107 written to a directory entry and read
  back is the same time, rounded down to an even second.\<close>

theorem dos_time_round_trip:
  assumes "315532800 \<le> tv_sec u" and "tv_sec u < 4354819200"
  shows "dos2UnixTs timegm (unix2DosTs u) = Some \<lparr>tv_sec = tv_sec u - tv_sec u mod 2, tv_nsec = 0\<rparr>"
  using assms pos_mod_bound [of 2 "tv_sec u"]
  by (simp add: dos2UnixTs_def Let_def timegm_dos_tm [OF dos_years])

theorem dos_time_round_trip_witness:
  "dos2UnixTs timegm (unix2DosTs \<lparr>tv_sec = 951786061, tv_nsec = 0\<rparr>) = Some \<lparr>tv_sec = 951786060, tv_nsec = 0\<rparr>"
  using dos_time_round_trip [of "\<lparr>tv_sec = 951786061, tv_nsec = 0\<rparr>"] by simp

text \<open>The creation time keeps hundredths of a second: what is read back counts the same
  nanoseconds as what was written, rounded down to 10 ms. The result is not always a
  normalised \<open>timespec\<close>: in the first 10 ms of an odd second \<open>tt\<close> is exactly 100, which the
  code takes for less than a second, and the nanoseconds are \<open>10^9\<close>.\<close>

lemma dos_creation_time_round_trip:
  assumes "315532800 \<le> tv_sec u" and "tv_sec u < 4354819200"
    and "0 \<le> tv_nsec u" and "tv_nsec u < 10 ^ 9"
  shows "\<exists>v. dos2UnixTs_2 timegm (unix2DosTs_2 u) = Some v
    \<and> tv_sec v * 10 ^ 9 + tv_nsec v = tv_sec u * 10 ^ 9 + tv_nsec u div 10 ^ 7 * 10 ^ 7
    \<and> (tv_nsec v = 10 ^ 9 \<longleftrightarrow> odd (tv_sec u) \<and> tv_nsec u < 10 ^ 7)"
proof -
  define c where "c = tv_nsec u div 10000000"
  have c: "0 \<le> c" "c < 100"
    using assms(3,4) zdiv_mono1 [of "tv_nsec u" 999999999 10000000]
    by (simp_all add: c_def pos_imp_zdiv_nonneg_iff)
  have cz: "c = 0 \<longleftrightarrow> tv_nsec u < 10000000"
    using assms(3) by (auto simp: c_def zdiv_eq_0_iff)
  have uc: "uint (word_of_int c :: u8) = c" "uint (word_of_int c + 100 :: u8) = c + 100"
    using c by (simp_all add: uint_word_of_int uint_plus_if' take_bit_int_eq_self)
  have rt: "dos2UnixTs timegm (unix2DosTs u) = Some \<lparr>tv_sec = tv_sec u - tv_sec u mod 2, tv_nsec = 0\<rparr>"
    using assms(1,2) pos_mod_bound [of 2 "tv_sec u"] by (simp add: dos2UnixTs_def Let_def timegm_dos_tm [OF dos_years])
  show ?thesis
  proof (cases "even (tv_sec u)")
    case True
    then have m: "tv_sec u mod 2 = 0" by presburger
    have "word_of_int c \<le> (199 :: u8)" "\<not> word_of_int c > (100 :: u8)"
      using c uc(1) by (simp_all add: word_le_def word_less_def)
    then show ?thesis
      using True m c uc(1)
      by (simp add: dos2UnixTs_2_def unix2DosTs_2_def rt Let_def flip: c_def)
  next
    case False
    then have m: "tv_sec u mod 2 = 1" by presburger
    have le: "word_of_int c + 100 \<le> (199 :: u8)" using c uc(2) by (simp add: word_le_def)
    have gt: "word_of_int c + 100 > (100 :: u8) \<longleftrightarrow> c \<noteq> 0" using c uc(2) by (auto simp: word_less_def)
    show ?thesis
      using False m c uc le gt cz assms(1)
      by (cases "c = 0") (simp_all add: dos2UnixTs_2_def unix2DosTs_2_def rt Let_def flip: c_def)
  qed
qed

lemma dos_creation_time_round_trip_example:
  "\<exists>v. dos2UnixTs_2 timegm (unix2DosTs_2 \<lparr>tv_sec = 951786061, tv_nsec = 5000000\<rparr>) = Some v \<and> tv_nsec v = 10 ^ 9"
  using dos_creation_time_round_trip [of "\<lparr>tv_sec = 951786061, tv_nsec = 5000000\<rparr>"] by auto

text \<open>A stamp is written in UTC (\<open>gmtime\<close>) and read in local time (\<open>mktime\<close>): in a zone whose
  local clock is \<open>off\<close> seconds ahead of UTC every time that goes through the disk comes back
  \<open>off\<close> seconds early.\<close>

lemma dos_time_shifts_by_zone:
  assumes "315532800 \<le> tv_sec u" and "tv_sec u < 4354819200" and "0 < off" and "off < 86400"
  shows "dos2UnixTs (\<lambda>t. timegm t - off) (unix2DosTs u)
    = Some \<lparr>tv_sec = tv_sec u - tv_sec u mod 2 - off, tv_nsec = 0\<rparr>"
  using assms pos_mod_bound [of 2 "tv_sec u"]
  by (simp add: dos2UnixTs_def Let_def timegm_dos_tm [OF dos_years])

lemma dos_time_shifts_by_zone_example:
  "dos2UnixTs (\<lambda>t. timegm t - 28800) (unix2DosTs \<lparr>tv_sec = 951786060, tv_nsec = 0\<rparr>)
    = Some \<lparr>tv_sec = 951757260, tv_nsec = 0\<rparr>"
  using dos_time_shifts_by_zone [of "\<lparr>tv_sec = 951786060, tv_nsec = 0\<rparr>" 28800] by simp

end
