(* ===== verification/FsFile.thy ===== *)
theory FsFile
  imports FatCorrect Fat32Names Fat32Time
begin

text \<open>
  The class \<open>File\<close> of \<^verbatim>\<open>library/fs.h\<close> and \<^verbatim>\<open>library/fs.cpp\<close>. The object keeps the metadata of
  its directory entry and a lazy copy of its cluster chain; its data goes through the FAT
  object and the device. The reference \<open>fs_\<close> is the argument \<open>F\<close>, the \<open>FAT\<close> object with the
  device both share. A method returns its result, the object and \<open>F\<close>. \<open>f_is_dir\<close> is the
  dynamic type of the object, which the virtual methods dispatch on; the current time is an
  argument.
\<close>

section \<open>The code\<close>

record fobj =
  f_is_dir :: bool
  f_file_sz :: u32
  f_parent_clus :: u32
  f_crt_time :: FatTimeStamp2
  f_acc_date :: u16
  f_wrt_time :: FatTimeStamp
  f_fst_entry_num :: u32
  f_fst_clus :: u32
  f_name :: bytes
  f_is_deleted :: bool
  f_clus_chain :: "u32 list option"

definition KDirEntrySize :: u32 where
  "KDirEntrySize = 32"

definition KRootDirIno :: u64 where
  "KRootDirIno = 0"

definition File_new :: "bool \<Rightarrow> u32 \<Rightarrow> u32 \<Rightarrow> bytes \<Rightarrow> ShortDirEntry \<Rightarrow> fobj" where
  "File_new dir parent_clus fst_entry_num name meta_entry =
     \<lparr>f_is_dir = dir, f_file_sz = se_file_sz meta_entry, f_parent_clus = parent_clus,
      f_crt_time = crt_ts2 meta_entry, f_acc_date = lst_acc_date meta_entry,
      f_wrt_time = wrt_ts meta_entry, f_fst_entry_num = fst_entry_num,
      f_fst_clus = readEntryClusNo meta_entry, f_name = name, f_is_deleted = False, f_clus_chain = None\<rparr>"

definition ino :: "fobj \<Rightarrow> u64" where
  "ino f = push_bit 32 (ucast (f_parent_clus f)) OR ucast (f_fst_entry_num f)"

definition setCrtTime :: "FatTimeStamp2 \<Rightarrow> fobj \<Rightarrow> fobj" where
  "setCrtTime ts f = f\<lparr>f_crt_time := ts\<rparr>"

definition setAccTime :: "FatTimeStamp \<Rightarrow> fobj \<Rightarrow> fobj" where
  "setAccTime ts f = f\<lparr>f_acc_date := ts_date ts\<rparr>"

definition setWrtTime :: "FatTimeStamp \<Rightarrow> fobj \<Rightarrow> fobj" where
  "setWrtTime ts f = f\<lparr>f_wrt_time := ts\<rparr>"

definition crtTime :: "fobj \<Rightarrow> FatTimeStamp2" where
  "crtTime f = f_crt_time f"

definition accTime :: "fobj \<Rightarrow> FatTimeStamp" where
  "accTime f = \<lparr>ts_time = 0, ts_date = f_acc_date f\<rparr>"

definition wrtTime :: "fobj \<Rightarrow> FatTimeStamp" where
  "wrtTime f = f_wrt_time f"

definition isDir :: "fobj \<Rightarrow> bool" where
  "isDir f = f_is_dir f"

subsection \<open>The cluster chain and its sectors\<close>

definition readClusChain :: "'d device_ops \<Rightarrow> 'd FAT \<Rightarrow> fobj \<Rightarrow> (u32 list \<times> fobj \<times> 'd FAT) option" where
  "readClusChain D F f =
     (case f_clus_chain f of
        Some cs \<Rightarrow> Some (cs, f, F)
      | None \<Rightarrow> do { (cs, F') \<leftarrow> readClusChains D F (f_fst_clus f);
                    Some (cs, f\<lparr>f_clus_chain := Some cs\<rparr>, F') })"

definition sector_no :: "'d device_ops \<Rightarrow> 'd FAT \<Rightarrow> fobj \<Rightarrow> u32 \<Rightarrow> (u32 option \<times> fobj \<times> 'd FAT) option" where
  "sector_no D F f n =
     do { (cl, f', F') \<leftarrow> readClusChain D F f;
          let spc = ucast (BPB_sec_per_clus (F_bpb F));
          let sec_cnt = (of_nat (length cl) * spc :: u32);
          if n \<ge> sec_cnt then Some (None, f', F')
          else do { ensure (spc \<noteq> 0);
                    ensure (unat (n div spc) < length cl);
                    let fst_sec = getFirstSectorOfCluster (F_bpb F) (cl ! unat (n div spc));
                    Some (Some (fst_sec + n mod spc), f', F') } }"

text \<open>The ways callers use \<open>readSector\<close>: \<open>.has_value()\<close>, the bytes behind \<open>.value()->read_ptr(off)\<close>,
  changing those behind \<open>.value()->write_ptr(off)\<close>, and \<open>.value()->sync()\<close>.\<close>

definition has_sector :: "'d device_ops \<Rightarrow> 'd FAT \<Rightarrow> fobj \<Rightarrow> u32 \<Rightarrow> (bool \<times> fobj \<times> 'd FAT) option" where
  "has_sector D F f n =
     do { (no, f', F') \<leftarrow> sector_no D F f n;
          case no of None \<Rightarrow> Some (False, f', F')
          | Some s \<Rightarrow>
              do { (r, d) \<leftarrow> d_readSector D (F_device F') s;
                   case r of None \<Rightarrow> Some (False, f', F'\<lparr>F_device := d\<rparr>)
                   | Some sec \<Rightarrow> do { d' \<leftarrow> d_release D d sec; Some (True, f', F'\<lparr>F_device := d'\<rparr>) } } }"

definition load_sector :: "'d device_ops \<Rightarrow> 'd FAT \<Rightarrow> fobj \<Rightarrow> u32 \<Rightarrow> u32 \<Rightarrow> (bytes \<times> fobj \<times> 'd FAT) option" where
  "load_sector D F f n off =
     do { (no, f', F') \<leftarrow> sector_no D F f n;
          s \<leftarrow> no;
          (p, d) \<leftarrow> dev_load D (F_device F') s off;
          Some (p, f', F'\<lparr>F_device := d\<rparr>) }"

definition modify_sector ::
  "'d device_ops \<Rightarrow> 'd FAT \<Rightarrow> fobj \<Rightarrow> u32 \<Rightarrow> u32 \<Rightarrow> (bytes \<Rightarrow> bytes option) \<Rightarrow> (fobj \<times> 'd FAT) option" where
  "modify_sector D F f n off g =
     do { (no, f', F') \<leftarrow> sector_no D F f n;
          s \<leftarrow> no;
          d \<leftarrow> dev_modify D (F_device F') s off g;
          Some (f', F'\<lparr>F_device := d\<rparr>) }"

definition sync_sector_no :: "'d device_ops \<Rightarrow> 'd FAT \<Rightarrow> fobj \<Rightarrow> u32 \<Rightarrow> (fobj \<times> 'd FAT) option" where
  "sync_sector_no D F f n =
     do { (no, f', F') \<leftarrow> sector_no D F f n;
          s \<leftarrow> no;
          d \<leftarrow> dev_sync D (F_device F') s;
          Some (f', F'\<lparr>F_device := d\<rparr>) }"

text \<open>\<open>file_sz\<close> is virtual: a directory is as long as its chain.\<close>

definition file_sz :: "'d device_ops \<Rightarrow> 'd FAT \<Rightarrow> fobj \<Rightarrow> (u32 \<times> fobj \<times> 'd FAT) option" where
  "file_sz D F f =
     (if f_is_dir f
      then do { (cs, f', F') \<leftarrow> readClusChain D F f;
                Some (of_nat (length cs) * bytesPerClus (F_bpb F), f', F') }
      else Some (f_file_sz f, f, F))"

subsection \<open>Reading\<close>

lemma unat_minus_less: "r \<noteq> 0 \<Longrightarrow> k \<noteq> 0 \<Longrightarrow> k \<le> r \<Longrightarrow> unat (r - k) < unat r" for r k :: u32
  using unat_gt_0 [of k] unat_gt_0 [of r] unat_sub [of k r] by linarith

text \<open>The bytes copied so far are \<open>acc\<close>. With a sector size of 0 the loop would not advance.\<close>

function read_loop :: "'d device_ops \<Rightarrow> u32 \<Rightarrow> 'd FAT \<Rightarrow> fobj \<Rightarrow> u32 \<Rightarrow> u32 \<Rightarrow> bytes \<Rightarrow>
    (bytes \<times> fobj \<times> 'd FAT) option" where
  "read_loop D bps F f sec_no remained_sz acc =
     (if remained_sz = 0 then Some (acc, f, F)
      else do { (has, f1, F1) \<leftarrow> has_sector D F f sec_no;
                if \<not> has then Some (acc, f1, F1)
                else do { (p, f2, F2) \<leftarrow> load_sector D F1 f1 sec_no 0;
                          let wrt_sz = min bps remained_sz;
                          ensure (wrt_sz \<noteq> 0 \<and> unat wrt_sz \<le> length p);
                          read_loop D bps F2 f2 (sec_no + 1) (remained_sz - wrt_sz)
                            (acc @ take (unat wrt_sz) p) } })"
  by pat_completeness auto
termination
  by (relation "measure (\<lambda>(D, bps, F, f, n, r, acc). unat r)") (auto intro!: unat_minus_less)

declare read_loop.simps [simp del]

definition File_read :: "'d device_ops \<Rightarrow> timespec \<Rightarrow> 'd FAT \<Rightarrow> fobj \<Rightarrow> u32 \<Rightarrow> u32 \<Rightarrow>
    (bytes \<times> fobj \<times> 'd FAT) option" where
  "File_read D now F f cnt offset =
     do { let bps = (ucast (BPB_bytes_per_sec (F_bpb F)) :: u32);
          ensure (bps \<noteq> 0);
          let sec_no = offset div bps;
          let off_in_bytes = offset mod bps;
          (sz, f1, F1) \<leftarrow> file_sz D F f;
          if offset \<ge> sz then Some ([], f1, F1)
          else do { (sz', f2, F2) \<leftarrow> file_sz D F1 f1;
                    let remained_sz = min cnt (sz' - offset);
                    (p, f3, F3) \<leftarrow> load_sector D F2 f2 sec_no off_in_bytes;
                    let wrt_sz = min remained_sz (bps - off_in_bytes);
                    ensure (unat wrt_sz \<le> length p);
                    (out, f4, F4) \<leftarrow> read_loop D bps F3 f3 (sec_no + 1) (remained_sz - wrt_sz)
                                       (take (unat wrt_sz) p);
                    Some (out, setAccTime (getCurDosTs now) f4, F4) } }"

subsection \<open>Writing\<close>

definition File_truncate :: "'d device_ops \<Rightarrow> 'd FAT \<Rightarrow> fobj \<Rightarrow> u32 \<Rightarrow> (bool \<times> fobj \<times> 'd FAT) option" where
  "File_truncate D F f len =
     do { ensure (len = 0 \<or> bytesPerClus (F_bpb F) \<noteq> 0);
          let clus_num = (if len = 0 then 0 else (len - 1) div bytesPerClus (F_bpb F) + 1);
          (ok, fst_clus, F') \<leftarrow> resize D F (f_fst_clus f) clus_num (isDir f);
          let f' = f\<lparr>f_fst_clus := fst_clus\<rparr>;
          if ok
          then let f'' = f'\<lparr>f_clus_chain := None\<rparr>
               in Some (True, if isDir f'' then f'' else f''\<lparr>f_file_sz := len\<rparr>, F')
          else Some (False, f', F') }"

text \<open>\<open>memcpy\<close> of the first \<open>n\<close> bytes of \<open>src\<close> to the place behind a pointer.\<close>

definition memcpy_in :: "nat \<Rightarrow> bytes \<Rightarrow> bytes \<Rightarrow> bytes option" where
  "memcpy_in n src p = do { ensure (n \<le> length p \<and> n \<le> length src); Some (overwrite p 0 (take n src)) }"

function write_loop :: "'d device_ops \<Rightarrow> u32 \<Rightarrow> 'd FAT \<Rightarrow> fobj \<Rightarrow> u32 \<Rightarrow> u32 \<Rightarrow> bytes \<Rightarrow>
    (u32 \<times> fobj \<times> 'd FAT) option" where
  "write_loop D bps F f sec_no remained_sz src =
     (if remained_sz = 0 then Some (0, f, F)
      else do { (has, f1, F1) \<leftarrow> has_sector D F f sec_no;
                if \<not> has then Some (remained_sz, f1, F1)
                else do { let read_sz = min bps remained_sz;
                          ensure (read_sz \<noteq> 0);
                          (f2, F2) \<leftarrow> modify_sector D F1 f1 sec_no 0 (memcpy_in (unat read_sz) src);
                          write_loop D bps F2 f2 (sec_no + 1) (remained_sz - read_sz)
                            (drop (unat read_sz) src) } })"
  by pat_completeness auto
termination
  by (relation "measure (\<lambda>(D, bps, F, f, n, r, src). unat r)") (auto intro!: unat_minus_less)

declare write_loop.simps [simp del]

text \<open>\<open>write_loop\<close> returns the size left over; the method returns what it has copied.\<close>

definition File_write :: "'d device_ops \<Rightarrow> timespec \<Rightarrow> 'd FAT \<Rightarrow> fobj \<Rightarrow> bytes \<Rightarrow> u32 \<Rightarrow> u32 \<Rightarrow>
    (u32 \<times> fobj \<times> 'd FAT) option" where
  "File_write D now F f buf cnt offset =
     do { let bps = (ucast (BPB_bytes_per_sec (F_bpb F)) :: u32);
          ensure (bps \<noteq> 0);
          let sec_no = offset div bps;
          let off_in_bytes = offset mod bps;
          (sz, f1, F1) \<leftarrow> file_sz D F f;
          (ok, f2, F2) \<leftarrow> (if offset + cnt \<ge> sz then File_truncate D F1 f1 (offset + cnt) else Some (True, f1, F1));
          if \<not> ok then Some (0, f2, F2)
          else do { let read_sz = min cnt (bps - off_in_bytes);
                    (f3, F3) \<leftarrow> modify_sector D F2 f2 sec_no off_in_bytes (memcpy_in (unat read_sz) buf);
                    (rest, f4, F4) \<leftarrow> write_loop D bps F3 f3 (sec_no + 1) (cnt - read_sz) (drop (unat read_sz) buf);
                    Some (cnt - rest, setWrtTime (getCurDosTs now) f4, F4) } }"

subsection \<open>Directory entries of the file\<close>

text \<open>The position of an entry in the parent's chain: cluster, sector in it, byte in that. The
  result is the boolean the code returns, and the three reference parameters.\<close>

definition iterClusChainEntry ::
  "u32 list \<Rightarrow> u32 \<Rightarrow> u32 \<Rightarrow> u32 \<Rightarrow> BPB \<Rightarrow> (bool \<times> u32 \<times> u32 \<times> u32) option" where
  "iterClusChainEntry cl chain_index sec_index sec_off bpb =
     do { ensure (sec_off < ucast (BPB_bytes_per_sec bpb));
          let sec_off' = sec_off + 32;
          if sec_off' = ucast (BPB_bytes_per_sec bpb)
          then if sec_index + 1 = ucast (BPB_sec_per_clus bpb)
               then Some (unat (chain_index + 1) < length cl, chain_index + 1, 0, 0)
               else Some (True, chain_index, sec_index + 1, 0)
          else Some (True, chain_index, sec_index, sec_off') }"

definition entry_sec :: "BPB \<Rightarrow> u32 list \<Rightarrow> u32 \<Rightarrow> u32 \<Rightarrow> u32 option" where
  "entry_sec bpb cl clus_i sec_i =
     do { ensure (unat clus_i < length cl);
          Some (getFirstSectorOfCluster bpb (cl ! unat clus_i) + sec_i) }"

text \<open>The walk to the short entry; \<open>sec\<close> and \<open>sec_off\<close> are what the code goes on with, also when it
  falls out at the end of the chain. The sector object stays the one just read, which the device
  would return again.\<close>

partial_function (option) find_short ::
  "'d device_ops \<Rightarrow> 'd FAT \<Rightarrow> u32 list \<Rightarrow> u32 \<Rightarrow> u32 \<Rightarrow> u32 \<Rightarrow> (u32 \<times> u32 \<times> 'd FAT) option" where
  "find_short D F cl clus_i sec_i sec_off =
     do { sec \<leftarrow> entry_sec (F_bpb F) cl clus_i sec_i;
          (p, d) \<leftarrow> dev_load D (F_device F) sec sec_off;
          ensure (32 \<le> length p);
          if \<not> isLongDirEntry (decode_long p) then Some (sec, sec_off, F\<lparr>F_device := d\<rparr>)
          else do { r \<leftarrow> iterClusChainEntry cl clus_i sec_i sec_off (F_bpb F);
                    (case r of (go_on, clus_i', sec_i', sec_off') \<Rightarrow>
                       if go_on then find_short D (F\<lparr>F_device := d\<rparr>) cl clus_i' sec_i' sec_off'
                       else Some (sec, sec_off', F\<lparr>F_device := d\<rparr>)) } }"

text \<open>The fields \<open>sync\<close> stores; \<open>dir\<close> is the outcome of the virtual call \<open>isDir()\<close>.\<close>

definition meta_into :: "fobj \<Rightarrow> bool \<Rightarrow> ShortDirEntry \<Rightarrow> ShortDirEntry" where
  "meta_into f dir e =
     (let e1 = e\<lparr>crt_ts2 := f_crt_time f, lst_acc_date := f_acc_date f, wrt_ts := f_wrt_time f\<rparr>;
          e2 = (if dir then e1 else e1\<lparr>se_file_sz := f_file_sz f\<rparr>)
      in setFstClusNo e2 (f_fst_clus f))"

definition store_meta :: "fobj \<Rightarrow> bool \<Rightarrow> bytes \<Rightarrow> bytes option" where
  "store_meta f dir p =
     do { ensure (32 \<le> length p); Some (encode_short (meta_into f dir (decode_short p)) @ drop 32 p) }"

text \<open>The sector and the byte of an entry, counted from the start of the directory. \<open>sizeof\<close> is 64 bits wide, so
  \<open>sync\<close> and \<open>selfDestruct\<close> multiply without a wrap and cut the results to \<open>u32\<close>; \<open>fromIno\<close> multiplies in \<open>u32\<close>.\<close>

definition entry_pos :: "BPB \<Rightarrow> u32 \<Rightarrow> (u32 \<times> u32) option" where
  "entry_pos bpb n =
     (let bps = (ucast (BPB_bytes_per_sec bpb) :: u64); off = (ucast n :: u64) * 32 in
      do { ensure (bps \<noteq> 0); Some (ucast (off div bps), ucast (off mod bps)) })"

definition entry_pos32 :: "BPB \<Rightarrow> u32 \<Rightarrow> (u32 \<times> u32) option" where
  "entry_pos32 bpb n =
     (let bps = (ucast (BPB_bytes_per_sec bpb) :: u32) in
      do { ensure (bps \<noteq> 0); Some (n * KDirEntrySize div bps, n * KDirEntrySize mod bps) })"

definition sync_meta_entry :: "'d device_ops \<Rightarrow> 'd FAT \<Rightarrow> fobj \<Rightarrow> bool \<Rightarrow> 'd FAT option" where
  "sync_meta_entry D F f dir =
     do { (p_clus_chain, F1) \<leftarrow> readClusChains D F (f_parent_clus f);
          (sec_i, sec_off) \<leftarrow> entry_pos (F_bpb F) (f_fst_entry_num f);
          (sec, sec_off', F2) \<leftarrow> find_short D F1 p_clus_chain 0 sec_i sec_off;
          d \<leftarrow> dev_modify D (F_device F2) sec sec_off' (store_meta f dir);
          Some (F2\<lparr>F_device := d\<rparr>) }"

partial_function (option) sync_data :: "'d device_ops \<Rightarrow> 'd FAT \<Rightarrow> fobj \<Rightarrow> u32 \<Rightarrow> (fobj \<times> 'd FAT) option" where
  "sync_data D F f n =
     do { (has, f1, F1) \<leftarrow> has_sector D F f n;
          if \<not> has then Some (f1, F1)
          else do { (f2, F2) \<leftarrow> sync_sector_no D F1 f1 n; sync_data D F2 f2 (n + 1) } }"

definition File_sync :: "'d device_ops \<Rightarrow> 'd FAT \<Rightarrow> fobj \<Rightarrow> bool \<Rightarrow> bool \<Rightarrow> (fobj \<times> 'd FAT) option" where
  "File_sync D F f dir sync_meta =
     (if f_is_deleted f then Some (f, F)
      else do { F1 \<leftarrow> (if sync_meta \<and> ino f \<noteq> KRootDirIno then sync_meta_entry D F f dir else Some F);
                sync_data D F1 f 0 })"

text \<open>In a destructor the virtual call finds \<open>File::isDir\<close>, whatever the object was.\<close>

definition File_destroy :: "'d device_ops \<Rightarrow> 'd FAT \<Rightarrow> fobj \<Rightarrow> 'd FAT option" where
  "File_destroy D F f = do { (_, F') \<leftarrow> File_sync D F f False True; Some F' }"

subsection \<open>Deleting\<close>

text \<open>\<open>erase_entries\<close> marks the entries of the file empty, the short one last.\<close>

definition mark_empty :: "bytes \<Rightarrow> bytes option" where
  "mark_empty p = do { ensure (32 \<le> length p); Some (encode_long (setDirEntryEmpty (decode_long p)) @ drop 32 p) }"

partial_function (option) erase_entries ::
  "'d device_ops \<Rightarrow> 'd FAT \<Rightarrow> u32 list \<Rightarrow> u32 \<Rightarrow> u32 \<Rightarrow> u32 \<Rightarrow> 'd FAT option" where
  "erase_entries D F cl clus_i sec_i sec_off =
     do { sec \<leftarrow> entry_sec (F_bpb F) cl clus_i sec_i;
          (p, d0) \<leftarrow> dev_load D (F_device F) sec sec_off;
          d \<leftarrow> dev_modify D d0 sec sec_off mark_empty;
          if \<not> isLongDirEntry (decode_long p) then Some (F\<lparr>F_device := d\<rparr>)
          else do { r \<leftarrow> iterClusChainEntry cl clus_i sec_i sec_off (F_bpb F);
                    (case r of (go_on, clus_i', sec_i', sec_off') \<Rightarrow>
                       if go_on then erase_entries D (F\<lparr>F_device := d\<rparr>) cl clus_i' sec_i' sec_off'
                       else Some (F\<lparr>F_device := d\<rparr>)) } }"

text \<open>What \<open>selfDestruct\<close> does to the disk; the lookup cache of the file system follows there.\<close>

definition selfDestruct_disk :: "'d device_ops \<Rightarrow> 'd FAT \<Rightarrow> fobj \<Rightarrow> 'd FAT option" where
  "selfDestruct_disk D F f =
     do { (p_clus_chain, F1) \<leftarrow> readClusChains D F (f_parent_clus f);
          (sec_i, sec_off) \<leftarrow> entry_pos (F_bpb F) (f_fst_entry_num f);
          F2 \<leftarrow> erase_entries D F1 p_clus_chain 0 sec_i sec_off;
          freeClus D F2 (f_fst_clus f) }"

subsection \<open>Exchanging the metadata of two files\<close>

definition swap_meta :: "fobj \<Rightarrow> fobj \<Rightarrow> fobj" where
  "swap_meta f g = f\<lparr>f_file_sz := f_file_sz g, f_fst_clus := f_fst_clus g, f_crt_time := f_crt_time g,
     f_acc_date := f_acc_date g, f_wrt_time := f_wrt_time g, f_clus_chain := None\<rparr>"

definition exchangeMetaData ::
  "'d device_ops \<Rightarrow> 'd FAT \<Rightarrow> fobj \<Rightarrow> fobj \<Rightarrow> (fobj \<times> fobj \<times> 'd FAT) option" where
  "exchangeMetaData D F f target =
     do { (f', F1) \<leftarrow> File_sync D F (swap_meta f target) (isDir f) True;
          (target', F2) \<leftarrow> File_sync D F1 (swap_meta target f) (isDir target) True;
          Some (f', target', F2) }"

subsection \<open>From an inode number to the object\<close>

record conversions =
  utf8ToGbk :: "bytes \<Rightarrow> bytes option"
  gbkToUtf8 :: "bytes \<Rightarrow> bytes option"
  utf8ToUtf16 :: "bytes \<Rightarrow> bytes option"
  utf16ToUtf8 :: "bytes \<Rightarrow> bytes option"

text \<open>The loop of \<open>fromIno\<close>: the long name read so far with the check sum of the first long entry,
  if there was one. \<open>Inl\<close> is the return from inside the loop.\<close>

partial_function (option) ino_loop ::
  "'d device_ops \<Rightarrow> 'd FAT \<Rightarrow> u32 list \<Rightarrow> u32 \<Rightarrow> u32 \<Rightarrow> u32 \<Rightarrow> bytes \<Rightarrow> u8 option \<Rightarrow>
    ((unit + (ShortDirEntry \<times> bytes \<times> u8 option)) \<times> 'd FAT) option" where
  "ino_loop D F cl chain_index sec_index sec_off long_name crc =
     do { sec_no \<leftarrow> entry_sec (F_bpb F) cl chain_index sec_index;
          (p, d) \<leftarrow> dev_load D (F_device F) sec_no sec_off;
          ensure (32 \<le> length p);
          let F' = F\<lparr>F_device := d\<rparr>;
          let e = decode_long p;
          if isEmptyDirEntry e then Some (Inl (), F')
          else if \<not> isLongDirEntry e then Some (Inr (decode_short p, long_name, crc), F')
          else do { ensure (case crc of None \<Rightarrow> True | Some c \<Rightarrow> isValidLongDirEntry e c);
                    r \<leftarrow> iterClusChainEntry cl chain_index sec_index sec_off (F_bpb F);
                    (case r of (go_on, chain_index', sec_index', sec_off') \<Rightarrow>
                       do { ensure go_on;
                            ino_loop D F' cl chain_index' sec_index' sec_off' (readLongEntryName e @ long_name)
                              (case crc of None \<Rightarrow> Some (chk_sum e) | Some c \<Rightarrow> Some c) }) } }"

definition fromIno :: "'d device_ops \<Rightarrow> conversions \<Rightarrow> 'd FAT \<Rightarrow> u64 \<Rightarrow> (fobj option \<times> 'd FAT) option" where
  "fromIno D C F n =
     do { let parent_clus = (ucast (drop_bit 32 n) :: u32);
          let fst_entry_num = (ucast (n AND 0xffffffff) :: u32);
          (sec_index, sec_off) \<leftarrow> entry_pos32 (F_bpb F) fst_entry_num;
          (cl, F1) \<leftarrow> readClusChains D F parent_clus;
          ensure (cl \<noteq> []);
          (r, F2) \<leftarrow> ino_loop D F1 cl 0 sec_index sec_off [] None;
          (case r of
             Inl _ \<Rightarrow> Some (None, F2)
           | Inr (short_dir_entry, long_name_utf16, crc) \<Rightarrow>
               do { short_name_gbk \<leftarrow> readShortEntryName short_dir_entry;
                    file_name \<leftarrow>
                      (case crc of
                         None \<Rightarrow> gbkToUtf8 C short_name_gbk
                       | Some chk \<Rightarrow>
                           do { basis_name \<leftarrow> genBasisNameFromShort short_name_gbk;
                                ensure (chkSum basis_name = chk);
                                utf16ToUtf8 C long_name_utf16 });
                    Some (Some (File_new (isDirectory short_dir_entry) parent_clus fst_entry_num
                                  file_name short_dir_entry), F2) }) }"

end
