(* ===== verification/FileLayout.thy ===== *)
theory FileLayout
  imports FsFile
begin

text \<open>
  Where the data of a file lies: the sectors of its chain in order, and its content, the bytes
  of these sectors. Lemmas on cutting a list into blocks, and on reading and changing one block
  through a map of sectors.
\<close>

section \<open>Lists of blocks\<close>

lemma concat_nth:
  assumes "\<forall>ys \<in> set yss. length ys = k" and "n < k * length yss"
  shows "concat yss ! n = yss ! (n div k) ! (n mod k)"
  using assms
proof (induction yss arbitrary: n)
  case (Cons y ys)
  have k: "length y = k" "0 < k" using Cons.prems by (auto intro: Nat.gr0I)
  show ?case
  proof (cases "n < k")
    case False
    then have "(n - k) div k = n div k - 1" "(n - k) mod k = n mod k" "0 < n div k"
      using k(2) by (simp_all add: le_div_geq le_mod_geq)
    moreover have "n - k < k * length ys" using Cons.prems(2) False by (simp add: less_diff_conv2)
    ultimately show ?thesis using Cons.IH [of "n - k"] Cons.prems(1) False k(1) by (simp add: nth_append nth_Cons')
  qed (use k in \<open>simp add: nth_append\<close>)
qed simp

lemma length_concat_blocks: "\<forall>ys \<in> set yss. length ys = k \<Longrightarrow> length (concat yss) = k * length yss"
  by (induction yss) simp_all

lemma drop_concat_blocks:
  "\<forall>ys \<in> set yss. length ys = k \<Longrightarrow> n \<le> length yss \<Longrightarrow> drop (k * n) (concat yss) = concat (drop n yss)"
proof (induction yss arbitrary: n)
  case (Cons y ys)
  then show ?case by (cases n) simp_all
qed simp

lemma take_concat_blocks:
  "\<forall>ys \<in> set yss. length ys = k \<Longrightarrow> n \<le> length yss \<Longrightarrow> take (k * n) (concat yss) = concat (take n yss)"
proof (induction yss arbitrary: n)
  case (Cons y ys)
  then show ?case by (cases n) simp_all
qed simp

text \<open>Bytes from \<open>k * n + off\<close> on: the rest of block \<open>n\<close>, then the other blocks.\<close>

lemma drop_into_block:
  assumes "\<forall>ys \<in> set yss. length ys = k" and "n < length yss" and "off \<le> k"
  shows "drop (k * n + off) (concat yss) = drop off (yss ! n) @ concat (drop (Suc n) yss)"
proof -
  have "drop (k * n + off) (concat yss) = drop off (concat (drop n yss))"
    using drop_concat_blocks [OF assms(1), of n] assms(2) by (simp add: add.commute flip: drop_drop)
  moreover have "drop n yss = yss ! n # drop (Suc n) yss" using assms(2) by (simp add: Cons_nth_drop_Suc)
  moreover have "length (yss ! n) = k" using assms(1,2) by simp
  ultimately show ?thesis using assms(3) by simp
qed

text \<open>Overwriting inside one block, and overwriting in two steps.\<close>

lemma overwrite_block:
  assumes "\<forall>ys \<in> set yss. length ys = k" and "n < length yss" and "off + length src \<le> k"
  shows "concat (yss[n := overwrite (yss ! n) off src]) = overwrite (concat yss) (k * n + off) src"
proof -
  have split: "yss = take n yss @ yss ! n # drop (Suc n) yss" using assms(2) by (simp add: id_take_nth_drop)
  have len: "length (concat (take n yss)) = k * n" "length (yss ! n) = k"
    using length_concat_blocks [of "take n yss" k] assms(1,2) by (auto dest: in_set_takeD)
  have c: "concat yss = concat (take n yss) @ yss ! n @ concat (drop (Suc n) yss)"
    by (subst split) simp
  have "concat (yss[n := w]) = concat (take n yss) @ w @ concat (drop (Suc n) yss)" for w
    using assms(2) by (simp add: upd_conv_take_nth_drop)
  moreover have "overwrite (A @ B @ C) (length A + off) src = A @ overwrite B off src @ C"
    if "off + length src \<le> length B" for A B C :: "'a list"
    using that by (simp add: overwrite_def)
  from this [of "yss ! n" "concat (take n yss)"] have
    "overwrite (concat yss) (k * n + off) src
      = concat (take n yss) @ overwrite (yss ! n) off src @ concat (drop (Suc n) yss)"
    using assms(3) len by (simp add: c)
  ultimately show ?thesis by simp
qed

lemma overwrite_overwrite:
  assumes "i + length a + length b \<le> length xs"
  shows "overwrite (overwrite xs i a) (i + length a) b = overwrite xs i (a @ b)"
proof (cases "a = []")
  case False
  then have "i < length xs" using assms by (cases a) simp_all
  with assms show ?thesis by (auto simp: overwrite_def min_def ac_simps)
qed simp

section \<open>The sectors of a chain\<close>

abbreviation spc :: "BPB \<Rightarrow> nat" where
  "spc bpb \<equiv> unat (BPB_sec_per_clus bpb)"

definition clus_sec_list :: "BPB \<Rightarrow> u32 \<Rightarrow> u32 list" where
  "clus_sec_list bpb c = map (\<lambda>i. getFirstSectorOfCluster bpb c + of_nat i) [0..<spc bpb]"

definition file_secs :: "BPB \<Rightarrow> u32 list \<Rightarrow> u32 list" where
  "file_secs bpb xs = concat (map (clus_sec_list bpb) xs)"

lemma file_secs_append: "file_secs bpb (xs @ ys) = file_secs bpb xs @ file_secs bpb ys"
  by (simp add: file_secs_def)

lemma length_file_secs [simp]: "length (file_secs bpb xs) = length xs * spc bpb"
  by (induction xs) (simp_all add: file_secs_def clus_sec_list_def)

lemma nth_file_secs:
  assumes "n < length xs * spc bpb"
  shows "file_secs bpb xs ! n = getFirstSectorOfCluster bpb (xs ! (n div spc bpb)) + of_nat (n mod spc bpb)"
proof -
  have "0 < spc bpb" using assms by (rule_tac Nat.gr0I) simp
  moreover from this have "n div spc bpb < length xs" using assms by (simp add: div_less_iff_less_mult)
  ultimately show ?thesis
    using concat_nth [of "map (clus_sec_list bpb) xs" "spc bpb" n] assms
    by (simp add: file_secs_def clus_sec_list_def mult.commute)
qed

lemma clus_sec_nat:
  assumes "geometry_ok bpb" and "data_clus bpb c" and "i < spc bpb"
  shows "unat (getFirstSectorOfCluster bpb c + of_nat i) = fat_area bpb + (unat c - 2) * spc bpb + i"
    and "fat_area bpb + (unat c - 2) * spc bpb + i < unat (BPB_tot_sec32 bpb)"
proof -
  have c: "2 \<le> unat c" "unat c < cluster_count bpb + 2" using assms(2) by (simp_all add: data_clus_def)
  note f = unat_FirstSectorOfCluster [OF assms(1) c]
  have "unat c - 1 = Suc (unat c - 2)" using c(1) by simp
  then have "(unat c - 1) * spc bpb = (unat c - 2) * spc bpb + spc bpb" by simp
  with f(2) assms(3) show lt: "fat_area bpb + (unat c - 2) * spc bpb + i < unat (BPB_tot_sec32 bpb)" by linarith
  have t: "unat (BPB_tot_sec32 bpb) < 2 ^ 32" using unsigned_less [of "BPB_tot_sec32 bpb", where 'a = nat] by simp
  have "i < 256" using assms(3) unsigned_less [of "BPB_sec_per_clus bpb", where 'a = nat] by simp
  then have "unat (of_nat i :: u32) = i" by (intro unat_of_nat_lt) simp
  with f(1) lt t show "unat (getFirstSectorOfCluster bpb c + of_nat i) = fat_area bpb + (unat c - 2) * spc bpb + i"
    by (subst unat_plus) simp_all
qed

lemma set_clus_sec_list:
  assumes "geometry_ok bpb" and "data_clus bpb c"
  shows "set (clus_sec_list bpb c) = clus_secs bpb c" and "distinct (clus_sec_list bpb c)"
proof -
  have c: "2 \<le> unat c" "unat c < cluster_count bpb + 2" using assms(2) by (simp_all add: data_clus_def)
  note f = unat_FirstSectorOfCluster(1) [OF assms(1) c]
  note n = clus_sec_nat(1) [OF assms]
  show "set (clus_sec_list bpb c) = clus_secs bpb c"
  proof (intro equalityI subsetI)
    fix s assume "s \<in> clus_secs bpb c"
    then have "unat (getFirstSectorOfCluster bpb c) \<le> unat s" "unat s < unat (getFirstSectorOfCluster bpb c) + spc bpb"
      by (simp_all add: clus_secs_def)
    then obtain j where j: "unat s = unat (getFirstSectorOfCluster bpb c) + j" "j < spc bpb"
      using le_Suc_ex by (metis nat_add_left_cancel_less)
    then have "s = getFirstSectorOfCluster bpb c + of_nat j" using n [OF j(2)] f by (simp add: word_unat_eq_iff)
    then show "s \<in> set (clus_sec_list bpb c)" using j(2) by (auto simp: clus_sec_list_def)
  qed (auto simp: clus_sec_list_def clus_secs_def f n)
  show "distinct (clus_sec_list bpb c)"
    by (auto simp: clus_sec_list_def distinct_map inj_on_def word_unat_eq_iff n)
qed

lemma clus_secs_disjoint:
  assumes "geometry_ok bpb" and "data_clus bpb c" and "data_clus bpb d" and "c \<noteq> d"
  shows "clus_secs bpb c \<inter> clus_secs bpb d = {}"
proof -
  have "s \<notin> clus_secs bpb d" if "s \<in> clus_secs bpb c" "unat c < unat d" "data_clus bpb c" "data_clus bpb d" for c d s
  proof -
    have "Suc (unat c - 2) * spc bpb \<le> (unat d - 2) * spc bpb"
      using that(2-4) by (intro mult_le_mono1) (simp add: data_clus_def)
    then show ?thesis
      using that unat_FirstSectorOfCluster(1) [OF assms(1), of c] unat_FirstSectorOfCluster(1) [OF assms(1), of d]
      by (simp add: clus_secs_def data_clus_def)
  qed
  from this [of _ c d] this [of _ d c] assms(2-4) show ?thesis by (auto simp: word_unat_eq_iff linorder_neq_iff)
qed

lemma distinct_file_secs:
  assumes "geometry_ok bpb" and "distinct xs" and "\<forall>x \<in> set xs. data_clus bpb x"
  shows "distinct (file_secs bpb xs)" and "set (file_secs bpb xs) = (\<Union>x \<in> set xs. clus_secs bpb x)"
proof -
  have "distinct (file_secs bpb xs) \<and> set (file_secs bpb xs) = (\<Union>x \<in> set xs. clus_secs bpb x)"
    using assms(2,3)
  proof (induction xs)
    case (Cons x xs)
    have "clus_secs bpb x \<inter> clus_secs bpb y = {}" if "y \<in> set xs" for y
      using clus_secs_disjoint [OF assms(1), of x y] Cons.prems that by auto
    then show ?case using Cons set_clus_sec_list [OF assms(1), of x] by (auto simp: file_secs_def)
  qed (simp add: file_secs_def)
  then show "distinct (file_secs bpb xs)" "set (file_secs bpb xs) = (\<Union>x \<in> set xs. clus_secs bpb x)" by simp_all
qed

text \<open>A chain of data clusters has fewer than \<open>2 ^ 32\<close> sectors.\<close>

lemma chain_sectors_bound:
  assumes "geometry_ok bpb" and "distinct xs" and "\<forall>x \<in> set xs. data_clus bpb x"
  shows "length xs \<le> cluster_count bpb" and "length xs * spc bpb < 2 ^ 32"
proof -
  have "inj_on unat (set xs)" by (auto simp: inj_on_def word_unat_eq_iff)
  then have "length xs = card (unat ` set xs)" using assms(2) by (simp add: card_image distinct_card)
  also have "\<dots> \<le> card {2..<cluster_count bpb + 2}"
    using assms(3) by (intro card_mono) (auto simp: data_clus_def)
  finally show l: "length xs \<le> cluster_count bpb" by simp
  have "length xs * spc bpb \<le> cluster_count bpb * spc bpb" using l by (rule mult_le_mono1)
  also have "\<dots> \<le> unat (BPB_tot_sec32 bpb) - fat_area bpb" unfolding cluster_count_def by (rule div_times_less_eq_dividend)
  also have "\<dots> < 2 ^ 32" using unsigned_less [of "BPB_tot_sec32 bpb", where 'a = nat] by simp
  finally show "length xs * spc bpb < 2 ^ 32" .
qed

section \<open>The content of a file\<close>

definition sec_bytes :: "(u32 \<Rightarrow> bytes option) \<Rightarrow> u32 list \<Rightarrow> bytes list" where
  "sec_bytes R ss = map (\<lambda>s. the (R s)) ss"

definition file_content :: "(u32 \<Rightarrow> bytes option) \<Rightarrow> BPB \<Rightarrow> u32 list \<Rightarrow> bytes" where
  "file_content R bpb xs = concat (sec_bytes R (file_secs bpb xs))"

lemma length_sec_bytes [simp]: "length (sec_bytes R ss) = length ss"
  by (simp add: sec_bytes_def)

lemma sec_bytes_upd:
  assumes "distinct ss" and "n < length ss"
  shows "sec_bytes (R(ss ! n \<mapsto> bs)) ss = (sec_bytes R ss)[n := bs]"
  using assms by (intro nth_equalityI) (auto simp: sec_bytes_def nth_list_update nth_eq_iff_index_eq)

end
