(* ===== verification/FileCorrect.thy ===== *)
theory FileCorrect
  imports FileLayout
begin

text \<open>
  Reading, writing and resizing files, on any device that satisfies \<open>block_device\<close>: the methods
  of \<open>File\<close> against the content of the file.
\<close>

section \<open>A file on a volume\<close>

text \<open>\<open>file_holds F E R f xs\<close>: the clusters of the object \<open>f\<close> are \<open>xs\<close>, its cached chain is not stale,
  and their sectors are on the device.\<close>

definition file_holds :: "'d FAT \<Rightarrow> (u32 \<Rightarrow> u32) \<Rightarrow> (u32 \<Rightarrow> bytes option) \<Rightarrow> fobj \<Rightarrow> u32 list \<Rightarrow> bool" where
  "file_holds F E R f xs \<longleftrightarrow>
     (if isValidCluster (f_fst_clus f) then xs \<noteq> [] \<and> chain (fat_size F) E (f_fst_clus f) xs else xs = [])
     \<and> f_clus_chain f \<in> {None, Some xs}
     \<and> (\<forall>x \<in> set xs. data_clus (F_bpb F) x \<and> clus_secs (F_bpb F) x \<subseteq> dom R)"

definition with_chain :: "u32 list \<Rightarrow> fobj \<Rightarrow> fobj" where
  "with_chain xs f = f\<lparr>f_clus_chain := Some xs\<rparr>"

lemma with_chain_sel [simp]: "f_clus_chain (with_chain xs f) = Some xs" "f_is_dir (with_chain xs f) = f_is_dir f"
  "f_file_sz (with_chain xs f) = f_file_sz f" "f_fst_clus (with_chain xs f) = f_fst_clus f"
  "with_chain xs (with_chain xs f) = with_chain xs f"
  by (simp_all add: with_chain_def)

lemma file_holds_simps [simp]: "file_holds (F\<lparr>F_device := d\<rparr>) E R f xs = file_holds F E R f xs"
  "file_holds F E R f xs \<Longrightarrow> file_holds F E R (with_chain xs f) xs"
  by (simp_all add: file_holds_def)

lemma file_holds_upd: "file_holds F E R f xs \<Longrightarrow> file_holds F E (R(s \<mapsto> bs)) f xs"
  by (auto simp: file_holds_def)

lemma file_holds_facts:
  assumes "fat_holds good view F E R" and "file_holds F E R f xs"
  shows "geometry_ok (F_bpb F)" and "distinct xs" and "length xs * spc (F_bpb F) < 2 ^ 32"
    and "0 < spc (F_bpb F)" and "distinct (file_secs (F_bpb F) xs)"
    and "s \<in> set (file_secs (F_bpb F) xs) \<Longrightarrow> s \<in> dom R"
proof -
  show g: "geometry_ok (F_bpb F)" using assms(1) by (simp add: fat_holds_def fat_ok_def)
  show d: "distinct xs" using assms(2) chain_distinct by (auto simp: file_holds_def split: if_splits)
  have x: "\<forall>x \<in> set xs. data_clus (F_bpb F) x" using assms(2) by (simp add: file_holds_def)
  show "length xs * spc (F_bpb F) < 2 ^ 32" by (rule chain_sectors_bound(2) [OF g d x])
  show "0 < spc (F_bpb F)" by (rule geometryD(2) [OF g])
  show "distinct (file_secs (F_bpb F) xs)" by (rule distinct_file_secs(1) [OF g d x])
  show "s \<in> dom R" if "s \<in> set (file_secs (F_bpb F) xs)"
    using that assms(2) distinct_file_secs(2) [OF g d x] by (auto simp: file_holds_def)
qed

text \<open>The content in blocks.\<close>

abbreviation blocks :: "(u32 \<Rightarrow> bytes option) \<Rightarrow> BPB \<Rightarrow> u32 list \<Rightarrow> bytes list" where
  "blocks R bpb xs \<equiv> sec_bytes R (file_secs bpb xs)"

lemma blocks_length:
  assumes "fat_holds good view F E R" and "file_holds F E R f xs"
  shows "\<forall>b \<in> set (blocks R (F_bpb F) xs). length b = 512"
    and "n < length xs * spc (F_bpb F) \<Longrightarrow> R (file_secs (F_bpb F) xs ! n) = Some (blocks R (F_bpb F) xs ! n)"
proof -
  have R: "length bs = 512" if "R s = Some bs" for s bs
  proof -
    have "view (F_device F) s = Some bs"
      using assms(1) that by (auto simp: fat_holds_def restrict_map_def split: if_splits)
    then show ?thesis using assms(1) by (auto simp: fat_holds_def fat_ok_def SECTOR_SIZE_def)
  qed
  show "\<forall>b \<in> set (blocks R (F_bpb F) xs). length b = 512"
    using file_holds_facts(6) [OF assms] R by (fastforce simp: sec_bytes_def)
  show "R (file_secs (F_bpb F) xs ! n) = Some (blocks R (F_bpb F) xs ! n)" if "n < length xs * spc (F_bpb F)"
    using file_holds_facts(6) [OF assms nth_mem, of n] that by (auto simp: sec_bytes_def)
qed

lemma length_content:
  assumes "fat_holds good view F E R" and "file_holds F E R f xs"
  shows "length (file_content R (F_bpb F) xs) = 512 * (length xs * spc (F_bpb F))"
  using length_concat_blocks [OF blocks_length(1) [OF assms]] by (simp add: file_content_def)

section \<open>Sectors\<close>

context block_device
begin

lemma readClusChain_ok:
  assumes "fat_holds good view F E R" and "file_holds F E R f xs"
  shows "\<exists>d. readClusChain D F f = Some (xs, with_chain xs f, F\<lparr>F_device := d\<rparr>)
    \<and> fat_holds good view (F\<lparr>F_device := d\<rparr>) E R"
proof (cases "f_clus_chain f")
  case None
  show ?thesis
  proof (cases "isValidCluster (f_fst_clus f)")
    case True
    then have "chain (fat_size F) E (f_fst_clus f) xs" using assms(2) by (simp add: file_holds_def)
    from readClusChains_ok [OF assms(1) True this] None show ?thesis
      by (auto simp: readClusChain_def with_chain_def)
  next
    case False
    then show ?thesis
      using None assms by (intro exI [of _ "F_device F"]) (simp add: readClusChain_def readClusChains_def file_holds_def with_chain_def)
  qed
next
  case (Some cs)
  then show ?thesis
    using assms by (intro exI [of _ "F_device F"]) (auto simp: readClusChain_def file_holds_def with_chain_def)
qed

lemma sector_no_ok:
  assumes h: "fat_holds good view F E R" "file_holds F E R f xs" and n: "n < 2 ^ 32"
  shows "\<exists>d. sector_no D F f (of_nat n) = Some
      (if n < length xs * spc (F_bpb F) then Some (file_secs (F_bpb F) xs ! n) else None,
       with_chain xs f, F\<lparr>F_device := d\<rparr>)
    \<and> fat_holds good view (F\<lparr>F_device := d\<rparr>) E R"
proof -
  let ?s = "ucast (BPB_sec_per_clus (F_bpb F)) :: u32"
  note facts = file_holds_facts [OF h]
  have s: "unat ?s = spc (F_bpb F)" by (rule unat_ucast_up) simp
  have un: "unat (of_nat n :: u32) = n" using n by (intro unat_of_nat_lt) simp
  have "length xs \<le> length xs * spc (F_bpb F)" using facts(4) by simp
  then have "length xs < 2 ^ 32" using facts(3) by (rule order_le_less_trans)
  then have ul: "unat (of_nat (length xs) :: u32) = length xs" by (intro unat_of_nat_lt) simp
  have cnt: "unat (of_nat (length xs) * ?s) = length xs * spc (F_bpb F)"
    using facts(3) by (subst unat_times) (simp_all add: ul s)
  have dm: "unat (of_nat n div ?s) = n div spc (F_bpb F)" "of_nat n mod ?s = of_nat (n mod spc (F_bpb F))"
    by (simp_all add: unat_div s un word_unat_eq_iff unat_mod unat_of_nat_lt [where 'a = 32]
        order_le_less_trans [OF mod_less_eq_dividend n [simplified]])
  have ne: "?s \<noteq> 0" using s facts(4) by auto
  obtain d where d: "readClusChain D F f = Some (xs, with_chain xs f, F\<lparr>F_device := d\<rparr>)"
      "fat_holds good view (F\<lparr>F_device := d\<rparr>) E R"
    using readClusChain_ok [OF h] by blast
  have "of_nat n \<ge> of_nat (length xs) * ?s \<longleftrightarrow> \<not> n < length xs * spc (F_bpb F)"
    by (simp add: word_le_nat_alt cnt un not_less)
  moreover have "n div spc (F_bpb F) < length xs" if "n < length xs * spc (F_bpb F)"
    using that facts(4) by (simp add: div_less_iff_less_mult)
  ultimately have "sector_no D F f (of_nat n) = Some
      (if n < length xs * spc (F_bpb F) then Some (file_secs (F_bpb F) xs ! n) else None,
       with_chain xs f, F\<lparr>F_device := d\<rparr>)"
    using ne unfolding sector_no_def d(1) by (simp add: Let_def dm nth_file_secs)
  with d(2) show ?thesis by blast
qed

lemma probe_sector_ok:
  assumes "good d" and "view d n = Some bs"
  shows "\<exists>s d1 d2. d_readSector D d n = Some (Some s, d1) \<and> d_release D d1 s = Some d2 \<and> good d2 \<and> view d2 = view d"
proof -
  obtain s d1 where s: "d_readSector D d n = Some (Some s, d1)" "sec_num s = n" "sec_value s = bs"
      "sec_sz s = of_nat SECTOR_SIZE"
    and rel: "\<And>t. kept s t \<Longrightarrow>
      \<exists>d2. d_release D d1 t = Some d2 \<and> good d2 \<and> view d2 = (view d)(n \<mapsto> sec_value t)"
    using use_sector [OF assms] by blast
  have "kept s s" using view_length [OF assms] s by (simp add: kept_def)
  from rel [OF this] s assms(2) show ?thesis by (metis fun_upd_triv)
qed

lemma has_sector_ok:
  assumes h: "fat_holds good view F E R" "file_holds F E R f xs" and n: "n < 2 ^ 32"
  shows "\<exists>d. has_sector D F f (of_nat n) = Some (n < length xs * spc (F_bpb F), with_chain xs f, F\<lparr>F_device := d\<rparr>)
    \<and> fat_holds good view (F\<lparr>F_device := d\<rparr>) E R"
proof -
  obtain d where d: "sector_no D F f (of_nat n) = Some
      (if n < length xs * spc (F_bpb F) then Some (file_secs (F_bpb F) xs ! n) else None,
       with_chain xs f, F\<lparr>F_device := d\<rparr>)" "fat_holds good view (F\<lparr>F_device := d\<rparr>) E R"
    using sector_no_ok [OF assms] by blast
  show ?thesis
  proof (cases "n < length xs * spc (F_bpb F)")
    case True
    have g: "good d" using d(2) by (simp add: fat_holds_def)
    have "view d (file_secs (F_bpb F) xs ! n) = Some (blocks R (F_bpb F) xs ! n)"
      using blocks_length(2) [OF h True] d(2) by (auto simp: fat_holds_def restrict_map_def split: if_splits)
    from probe_sector_ok [OF g this] obtain s d1 d2 where
      "d_readSector D d (file_secs (F_bpb F) xs ! n) = Some (Some s, d1)" "d_release D d1 s = Some d2"
      "good d2" "view d2 = view d" by blast
    then show ?thesis
      using d True by (intro exI [of _ d2]) (simp add: has_sector_def fat_holds_def)
  qed (use d in \<open>auto simp: has_sector_def\<close>)
qed

lemma load_sector_ok:
  assumes h: "fat_holds good view F E R" "file_holds F E R f xs" and n: "n < length xs * spc (F_bpb F)"
    and off: "unat off < 512"
  shows "\<exists>d. load_sector D F f (of_nat n) off
      = Some (drop (unat off) (blocks R (F_bpb F) xs ! n), with_chain xs f, F\<lparr>F_device := d\<rparr>)
    \<and> fat_holds good view (F\<lparr>F_device := d\<rparr>) E R"
proof -
  have n32: "n < 2 ^ 32" using n file_holds_facts(3) [OF h] by simp
  obtain d where d: "sector_no D F f (of_nat n) = Some
      (Some (file_secs (F_bpb F) xs ! n), with_chain xs f, F\<lparr>F_device := d\<rparr>)"
      "fat_holds good view (F\<lparr>F_device := d\<rparr>) E R"
    using sector_no_ok [OF h n32] n by auto
  obtain d' where "dev_load D d (file_secs (F_bpb F) xs ! n) off = Some (drop (unat off) (blocks R (F_bpb F) xs ! n), d')"
      "fat_holds good view (F\<lparr>F_device := d'\<rparr>) E R"
    using data_load_ok [OF d(2) blocks_length(2) [OF h n], of off] off by (auto simp: SECTOR_SIZE_def)
  with d(1) show ?thesis by (intro exI [of _ d']) (simp add: load_sector_def)
qed

lemma modify_sector_ok:
  assumes h: "fat_holds good view F E R" "file_holds F E R f xs" and n: "n < length xs * spc (F_bpb F)"
    and off: "unat off < 512" and g: "g (drop (unat off) (blocks R (F_bpb F) xs ! n)) = Some p"
    and len: "length p = 512 - unat off"
  defines "s \<equiv> file_secs (F_bpb F) xs ! n"
  shows "\<exists>d. modify_sector D F f (of_nat n) off g = Some (with_chain xs f, F\<lparr>F_device := d\<rparr>)
    \<and> fat_holds good view (F\<lparr>F_device := d\<rparr>) E (R(s \<mapsto> take (unat off) (blocks R (F_bpb F) xs ! n) @ p))"
proof -
  have n32: "n < 2 ^ 32" using n file_holds_facts(3) [OF h] by simp
  obtain d where d: "sector_no D F f (of_nat n) = Some (Some s, with_chain xs f, F\<lparr>F_device := d\<rparr>)"
      "fat_holds good view (F\<lparr>F_device := d\<rparr>) E R"
    using sector_no_ok [OF h n32] n by (auto simp: s_def)
  have sz: "unat off < SECTOR_SIZE" "length p = SECTOR_SIZE - unat off" using off len by (simp_all add: SECTOR_SIZE_def)
  obtain d' where "dev_modify D d s off g = Some d'"
      "fat_holds good view (F\<lparr>F_device := d'\<rparr>) E (R(s \<mapsto> take (unat off) (blocks R (F_bpb F) xs ! n) @ p))"
    using data_modify_ok [where f = g, OF d(2) blocks_length(2) [OF h n, folded s_def] sz(1) g sz(2)] by auto
  with d(1) show ?thesis by (intro exI [of _ d']) (simp add: modify_sector_def)
qed

lemma sync_sector_no_ok:
  assumes h: "fat_holds good view F E R" "file_holds F E R f xs" and n: "n < length xs * spc (F_bpb F)"
  shows "\<exists>d. sync_sector_no D F f (of_nat n) = Some (with_chain xs f, F\<lparr>F_device := d\<rparr>)
    \<and> fat_holds good view (F\<lparr>F_device := d\<rparr>) E R"
proof -
  have n32: "n < 2 ^ 32" using n file_holds_facts(3) [OF h] by simp
  obtain d where d: "sector_no D F f (of_nat n) = Some
      (Some (file_secs (F_bpb F) xs ! n), with_chain xs f, F\<lparr>F_device := d\<rparr>)"
      "fat_holds good view (F\<lparr>F_device := d\<rparr>) E R"
    using sector_no_ok [OF h n32] n by auto
  have "good d" "view d (file_secs (F_bpb F) xs ! n) = Some (blocks R (F_bpb F) xs ! n)"
    using blocks_length(2) [OF h n] d(2) by (auto simp: fat_holds_def restrict_map_def split: if_splits)
  from sync_sector [OF this] obtain d' where "dev_sync D d (file_secs (F_bpb F) xs ! n) = Some d'"
      "good d'" "view d' = view d" by blast
  with d show ?thesis by (intro exI [of _ d']) (simp add: sync_sector_no_def fat_holds_def)
qed

section \<open>Reading\<close>

lemma read_loop_ok:
  assumes "fat_holds good view F E R" and "file_holds F E R f xs" and "n \<le> length xs * spc (F_bpb F)"
  shows "\<exists>d. read_loop D 512 F (with_chain xs f) (of_nat n) r acc
      = Some (acc @ take (unat r) (concat (drop n (blocks R (F_bpb F) xs))), with_chain xs f, F\<lparr>F_device := d\<rparr>)
    \<and> fat_holds good view (F\<lparr>F_device := d\<rparr>) E R"
  using assms
proof (induction "length xs * spc (F_bpb F) - n" arbitrary: n r acc F)
  case 0
  show ?case
  proof (cases "r = 0")
    case False
    obtain d where d: "has_sector D F (with_chain xs f) (of_nat n) = Some (n < length xs * spc (F_bpb F),
          with_chain xs f, F\<lparr>F_device := d\<rparr>)" "fat_holds good view (F\<lparr>F_device := d\<rparr>) E R"
      using has_sector_ok [OF 0(2) file_holds_simps(2) [OF 0(3)], of n] file_holds_facts(3) [OF 0(2,3)] 0(1,4) by auto
    then show ?thesis using False 0(1,4) by (intro exI [of _ d]) (simp add: read_loop.simps [of D 512 F])
  qed (use 0 in \<open>intro exI [of _ "F_device F"], simp add: read_loop.simps\<close>)
next
  case (Suc m)
  have h: "fat_holds good view F E R" "file_holds F E R (with_chain xs f) xs" using Suc.prems by simp_all
  have n: "n < length xs * spc (F_bpb F)" "m = length xs * spc (F_bpb F) - Suc n" using Suc.hyps(2) by simp_all
  let ?b = "blocks R (F_bpb F) xs ! n"
  show ?case
  proof (cases "r = 0")
    case False
    obtain d1 where d1: "has_sector D F (with_chain xs f) (of_nat n) = Some (True, with_chain xs f, F\<lparr>F_device := d1\<rparr>)"
        "fat_holds good view (F\<lparr>F_device := d1\<rparr>) E R"
      using has_sector_ok [OF h, of n] n(1) file_holds_facts(3) [OF h] by auto
    obtain d2 where d2: "load_sector D (F\<lparr>F_device := d1\<rparr>) (with_chain xs f) (of_nat n) 0
          = Some (?b, with_chain xs f, F\<lparr>F_device := d2\<rparr>)" "fat_holds good view (F\<lparr>F_device := d2\<rparr>) E R"
      using load_sector_ok [OF d1(2) _ , of "with_chain xs f" xs n 0] h n by auto
    define k where "k = min 512 r"
    have b: "length ?b = 512" using blocks_length(1) [OF h] n(1) by simp
    have k: "k \<noteq> 0" "unat k = min 512 (unat r)" using False by (auto simp: k_def min_def word_le_nat_alt)
    then have rk: "unat (r - k) = unat r - unat k" by (simp add: unat_sub word_le_nat_alt)
    obtain d3 where d3: "read_loop D 512 (F\<lparr>F_device := d2\<rparr>) (with_chain xs f) (of_nat (Suc n)) (r - k) (acc @ take (unat k) ?b)
          = Some ((acc @ take (unat k) ?b) @ take (unat (r - k)) (concat (drop (Suc n) (blocks R (F_bpb F) xs))),
              with_chain xs f, F\<lparr>F_device := d3\<rparr>)" "fat_holds good view (F\<lparr>F_device := d3\<rparr>) E R"
      using Suc.hyps(1) [of "F\<lparr>F_device := d2\<rparr>" "Suc n" "r - k" "acc @ take (unat k) ?b"] n d2(2) Suc.prems by auto
    have "drop n (blocks R (F_bpb F) xs) = ?b # drop (Suc n) (blocks R (F_bpb F) xs)"
      using n(1) by (simp add: Cons_nth_drop_Suc)
    then have "take (unat r) (concat (drop n (blocks R (F_bpb F) xs)))
        = take (unat k) ?b @ take (unat (r - k)) (concat (drop (Suc n) (blocks R (F_bpb F) xs)))"
      using b by (simp add: k(2) rk min_def)
    moreover have "unat k \<le> length ?b" using b k(2) by simp
    ultimately show ?thesis
      using d3 False k(1) by (intro exI [of _ d3]) (simp add: read_loop.simps [of D 512 F] d1(1) d2(1) Let_def add.commute flip: k_def)
  qed (use Suc.prems in \<open>intro exI [of _ "F_device F"], simp add: read_loop.simps\<close>)
qed

end

text \<open>The size of the file in bytes; a directory is as long as its chain.\<close>

definition byte_len :: "'d FAT \<Rightarrow> fobj \<Rightarrow> u32 list \<Rightarrow> nat" where
  "byte_len F f xs = (if f_is_dir f then 512 * (length xs * spc (F_bpb F)) else unat (f_file_sz f))"

lemma byte_len_simps [simp]: "byte_len (F\<lparr>F_device := d\<rparr>) f xs = byte_len F f xs"
  "byte_len F (with_chain ys f) xs = byte_len F f xs"
  by (simp_all add: byte_len_def)

text \<open>The size fits in a \<open>u32\<close> and the chain holds it.\<close>

definition sized :: "'d FAT \<Rightarrow> fobj \<Rightarrow> u32 list \<Rightarrow> bool" where
  "sized F f xs \<longleftrightarrow> byte_len F f xs < 2 ^ 32 \<and> byte_len F f xs \<le> 512 * (length xs * spc (F_bpb F))"

lemma sized_simps [simp]: "sized (F\<lparr>F_device := d\<rparr>) f xs = sized F f xs"
  "sized F (with_chain ys f) xs = sized F f xs"
  by (simp_all add: sized_def)

text \<open>The objects a method may leave: with the chain read, or not.\<close>

definition same_file :: "u32 list \<Rightarrow> fobj \<Rightarrow> fobj \<Rightarrow> bool" where
  "same_file xs f f' \<longleftrightarrow> f' = f \<or> f' = with_chain xs f"

lemma same_file_facts:
  assumes "same_file xs f f'"
  shows "with_chain xs f' = with_chain xs f" and "f_is_dir f' = f_is_dir f"
    and "file_holds F E R f xs \<Longrightarrow> file_holds F E R f' xs" and "byte_len F f' xs = byte_len F f xs"
  using assms by (auto simp: same_file_def)

lemma word_split_512:
  fixes off :: u32
  shows "off div 512 = of_nat (unat off div 512)" and "unat (off mod 512) = unat off mod 512"
    and "unat (512 - off mod 512) = 512 - unat off mod 512" and "off div 512 + 1 = of_nat (Suc (unat off div 512))"
proof -
  show "off div 512 = of_nat (unat off div 512)"
    by (simp add: word_unat_eq_iff unat_div unat_of_nat_lt order_le_less_trans [OF div_le_dividend unsigned_less [of off, where 'a = nat, simplified]])
  then show "off div 512 + 1 = of_nat (Suc (unat off div 512))" by (simp add: add.commute)
  show m: "unat (off mod 512) = unat off mod 512" by (simp add: unat_mod)
  then have "off mod 512 \<le> 512" by (simp add: word_le_nat_alt)
  then show "unat (512 - off mod 512) = 512 - unat off mod 512" by (simp add: unat_sub m)
qed

context block_device
begin

lemma file_sz_ok:
  assumes h: "fat_holds good view F E R" "file_holds F E R f xs"
  shows "\<exists>f' d. file_sz D F f = Some (of_nat (byte_len F f xs), f', F\<lparr>F_device := d\<rparr>) \<and> same_file xs f f'
    \<and> fat_holds good view (F\<lparr>F_device := d\<rparr>) E R"
proof (cases "f_is_dir f")
  case True
  have bps: "BPB_bytes_per_sec (F_bpb F) = 512" by (rule geometryD(1) [OF file_holds_facts(1) [OF h]])
  have "(of_nat (length xs) :: u32) * bytesPerClus (F_bpb F) = of_nat (512 * (length xs * spc (F_bpb F)))"
    by (simp add: bytesPerClus_def bps)
  with readClusChain_ok [OF h] True show ?thesis
    by (auto simp: file_sz_def byte_len_def same_file_def)
next
  case False
  then show ?thesis
    using h by (intro exI [of _ f] exI [of _ "F_device F"]) (simp add: file_sz_def byte_len_def same_file_def)
qed

lemma File_read_ok:
  fixes cnt off :: u32
  assumes h: "fat_holds good view F E R" "file_holds F E R f xs" and sz: "sized F f xs"
  defines "out \<equiv> take (min (unat cnt) (byte_len F f xs - unat off)) (drop (unat off) (file_content R (F_bpb F) xs))"
  shows "\<exists>f' d. File_read D now F f cnt off = Some (out, f', F\<lparr>F_device := d\<rparr>)
    \<and> (if unat off < byte_len F f xs then f' = setAccTime (getCurDosTs now) (with_chain xs f) else same_file xs f f')
    \<and> fat_holds good view (F\<lparr>F_device := d\<rparr>) E R"
proof -
  let ?len = "byte_len F f xs" and ?bs = "blocks R (F_bpb F) xs"
  define n j where "n = unat off div 512" and "j = unat off mod 512"
  have off: "unat off = 512 * n + j" "j < 512" by (simp_all add: n_def j_def)
  note w = word_split_512 [of off, folded n_def j_def]
  have "BPB_bytes_per_sec (F_bpb F) = 512" by (rule geometryD(1) [OF file_holds_facts(1) [OF h]])
  then have bps: "(ucast (BPB_bytes_per_sec (F_bpb F)) :: u32) = 512" by simp
  have len: "unat (of_nat ?len :: u32) = ?len" using sz by (intro unat_of_nat_lt) (simp add: sized_def)
  obtain f1 d1 where r1: "file_sz D F f = Some (of_nat ?len, f1, F\<lparr>F_device := d1\<rparr>)" "same_file xs f f1"
      "fat_holds good view (F\<lparr>F_device := d1\<rparr>) E R" using file_sz_ok [OF h] by blast
  note sf1 = same_file_facts [OF r1(2)]
  show ?thesis
  proof (cases "unat off < ?len")
    case False
    then have "of_nat ?len \<le> off" by (simp add: word_le_nat_alt len)
    then have "File_read D now F f cnt off = Some (out, f1, F\<lparr>F_device := d1\<rparr>)"
      using False r1(1) by (simp add: File_read_def bps Let_def out_def)
    with r1 False show ?thesis by auto
  next
    case True
    have h1: "file_holds (F\<lparr>F_device := d1\<rparr>) E R f1 xs" using sf1(3) h(2) by simp
    obtain f2 d2 where r2: "file_sz D (F\<lparr>F_device := d1\<rparr>) f1 = Some (of_nat ?len, f2, F\<lparr>F_device := d2\<rparr>)"
        "same_file xs f1 f2" "fat_holds good view (F\<lparr>F_device := d2\<rparr>) E R"
      using file_sz_ok [OF r1(3) h1] by (simp add: sf1(4)) blast
    note sf2 = same_file_facts [OF r2(2)]
    have h2: "file_holds (F\<lparr>F_device := d2\<rparr>) E R f2 xs" using sf2(3) h1 by simp
    have "512 * n < 512 * (length xs * spc (F_bpb F))" using True sz off by (simp add: sized_def)
    then have n: "n < length xs * spc (F_bpb F)" by simp
    obtain d3 where r3: "load_sector D (F\<lparr>F_device := d2\<rparr>) f2 (of_nat n) (off mod 512)
          = Some (drop j (?bs ! n), with_chain xs f, F\<lparr>F_device := d3\<rparr>)" "fat_holds good view (F\<lparr>F_device := d3\<rparr>) E R"
      using load_sector_ok [OF r2(3) h2, of n "off mod 512"] n off(2) w(2) sf1(1) sf2(1) by auto
    define r k where "r = min cnt (of_nat ?len - off)" and "k = min r (512 - off mod 512)"
    have ur: "unat r = min (unat cnt) (?len - unat off)"
      using True by (simp add: r_def min_def word_le_nat_alt unat_sub len)
    have uk: "unat k = min (unat r) (512 - j)" by (simp add: k_def min_def word_le_nat_alt w(3))
    have rk: "unat (r - k) = unat r - unat k" using uk by (simp add: unat_sub word_le_nat_alt)
    obtain d4 where r4: "read_loop D 512 (F\<lparr>F_device := d3\<rparr>) (with_chain xs f) (off div 512 + 1) (r - k)
          (take (unat k) (drop j (?bs ! n))) = Some (take (unat k) (drop j (?bs ! n)) @
            take (unat (r - k)) (concat (drop (Suc n) ?bs)), with_chain xs f, F\<lparr>F_device := d4\<rparr>)"
        "fat_holds good view (F\<lparr>F_device := d4\<rparr>) E R"
      using read_loop_ok [OF r3(2), of f xs "Suc n" "r - k"] h(2) n w(4) by auto
    have b: "length (?bs ! n) = 512" using blocks_length(1) [OF h] n by simp
    have "drop (unat off) (file_content R (F_bpb F) xs) = drop j (?bs ! n) @ concat (drop (Suc n) ?bs)"
      unfolding file_content_def off(1) using blocks_length(1) [OF h] n off(2) by (intro drop_into_block) simp_all
    then have out: "out = take (unat k) (drop j (?bs ! n)) @ take (unat (r - k)) (concat (drop (Suc n) ?bs))"
      using b off(2) unfolding out_def ur [symmetric] rk uk by (auto simp: min_def)
    have "\<not> of_nat ?len \<le> off" "unat k \<le> length (drop j (?bs ! n))"
      using True b uk by (simp_all add: word_le_nat_alt len)
    then have "File_read D now F f cnt off = Some (out, setAccTime (getCurDosTs now) (with_chain xs f), F\<lparr>F_device := d4\<rparr>)"
      using r1(1) r2(1) r3(1) r4(1) w(1)
      by (simp add: File_read_def bps Let_def out r_def [symmetric] k_def [symmetric])
    with r4(2) True show ?thesis by auto
  qed
qed

end

section \<open>Writing\<close>

text \<open>The other sectors are as before.\<close>

definition only_secs :: "u32 set \<Rightarrow> (u32 \<Rightarrow> bytes option) \<Rightarrow> (u32 \<Rightarrow> bytes option) \<Rightarrow> bool" where
  "only_secs S R R' \<longleftrightarrow> (\<forall>s. s \<notin> S \<longrightarrow> R' s = R s) \<and> dom R' = dom R"

lemma only_secs_refl [simp]: "only_secs S R R"
  by (simp add: only_secs_def)

lemma only_secs_trans: "only_secs S R R1 \<Longrightarrow> only_secs S R1 R2 \<Longrightarrow> only_secs S R R2"
  by (simp add: only_secs_def)

lemma only_secs_upd: "s \<in> S \<Longrightarrow> s \<in> dom R \<Longrightarrow> only_secs S R (R(s \<mapsto> bs))"
  by (auto simp: only_secs_def)

lemma file_holds_only_secs: "file_holds F E R f xs \<Longrightarrow> only_secs S R R' \<Longrightarrow> file_holds F E R' f xs"
  by (simp add: file_holds_def only_secs_def)

context block_device
begin

text \<open>One \<open>memcpy\<close> into block \<open>n\<close> of the file.\<close>

lemma modify_block_ok:
  assumes h: "fat_holds good view F E R" "file_holds F E R f xs" and n: "n < length xs * spc (F_bpb F)"
    and k: "unat off + k \<le> 512" "unat off < 512" "k \<le> length src"
  shows "\<exists>d R'. modify_sector D F f (of_nat n) off (memcpy_in k src) = Some (with_chain xs f, F\<lparr>F_device := d\<rparr>)
    \<and> fat_holds good view (F\<lparr>F_device := d\<rparr>) E R'
    \<and> file_content R' (F_bpb F) xs = overwrite (file_content R (F_bpb F) xs) (512 * n + unat off) (take k src)
    \<and> only_secs (set (file_secs (F_bpb F) xs)) R R'"
proof -
  let ?b = "blocks R (F_bpb F) xs ! n" and ?s = "file_secs (F_bpb F) xs ! n"
  have b: "length ?b = 512" using blocks_length(1) [OF h] n by simp
  have m: "memcpy_in k src (drop (unat off) ?b) = Some (overwrite (drop (unat off) ?b) 0 (take k src))"
    using b k by (simp add: memcpy_in_def)
  have o: "take (unat off) ?b @ overwrite (drop (unat off) ?b) 0 (take k src) = overwrite ?b (unat off) (take k src)"
    by (simp add: overwrite_def add.commute)
  have "length (overwrite (drop (unat off) ?b) 0 (take k src)) = 512 - unat off" using b k by simp
  from modify_sector_ok [where g = "memcpy_in k src", OF h n k(2) m this] obtain d where
    "modify_sector D F f (of_nat n) off (memcpy_in k src) = Some (with_chain xs f, F\<lparr>F_device := d\<rparr>)"
    "fat_holds good view (F\<lparr>F_device := d\<rparr>) E (R(?s \<mapsto> overwrite ?b (unat off) (take k src)))"
    unfolding o by blast
  moreover have "blocks (R(?s \<mapsto> overwrite ?b (unat off) (take k src))) (F_bpb F) xs
      = (blocks R (F_bpb F) xs)[n := overwrite ?b (unat off) (take k src)]"
    using file_holds_facts(5) [OF h] n by (intro sec_bytes_upd) simp_all
  then have "file_content (R(?s \<mapsto> overwrite ?b (unat off) (take k src))) (F_bpb F) xs
      = overwrite (file_content R (F_bpb F) xs) (512 * n + unat off) (take k src)"
    using overwrite_block [OF blocks_length(1) [OF h], of n "unat off" "take k src"] n k
    by (simp add: file_content_def)
  moreover have "only_secs (set (file_secs (F_bpb F) xs)) R (R(?s \<mapsto> overwrite ?b (unat off) (take k src)))"
    using file_holds_facts(6) [OF h, of ?s] n by (intro only_secs_upd) simp_all
  ultimately show ?thesis by blast
qed

lemma write_loop_ok:
  assumes "fat_holds good view F E R" and "file_holds F E R f xs"
    and "unat r \<le> length src" and "unat r \<le> 512 * (length xs * spc (F_bpb F) - n)"
  shows "\<exists>d R'. write_loop D 512 F (with_chain xs f) (of_nat n) r src = Some (0, with_chain xs f, F\<lparr>F_device := d\<rparr>)
    \<and> fat_holds good view (F\<lparr>F_device := d\<rparr>) E R'
    \<and> file_content R' (F_bpb F) xs = overwrite (file_content R (F_bpb F) xs) (512 * n) (take (unat r) src)
    \<and> only_secs (set (file_secs (F_bpb F) xs)) R R'"
  using assms
proof (induction "length xs * spc (F_bpb F) - n" arbitrary: n r src F R)
  case 0
  then show ?case
    by (intro exI [of _ "F_device F"] exI [of _ R]) (simp add: write_loop.simps unsigned_eq_0_iff)
next
  case (Suc m)
  let ?N = "length xs * spc (F_bpb F)"
  have h: "fat_holds good view F E R" "file_holds F E R (with_chain xs f) xs" using Suc.prems by simp_all
  have n: "n < ?N" "m = ?N - Suc n" using Suc.hyps(2) by simp_all
  show ?case
  proof (cases "r = 0")
    case False
    obtain d1 where d1: "has_sector D F (with_chain xs f) (of_nat n) = Some (True, with_chain xs f, F\<lparr>F_device := d1\<rparr>)"
        "fat_holds good view (F\<lparr>F_device := d1\<rparr>) E R"
      using has_sector_ok [OF h, of n] n(1) file_holds_facts(3) [OF h] by auto
    define k where "k = min 512 r"
    have k: "k \<noteq> 0" "unat k = min 512 (unat r)" using False by (auto simp: k_def min_def word_le_nat_alt)
    then have rk: "unat (r - k) = unat r - unat k" by (simp add: unat_sub word_le_nat_alt)
    have kl: "unat k \<le> 512" "unat k \<le> length src" using k(2) Suc.prems(3) by linarith+
    obtain d2 R2 where d2: "modify_sector D (F\<lparr>F_device := d1\<rparr>) (with_chain xs f) (of_nat n) 0 (memcpy_in (unat k) src)
          = Some (with_chain xs f, F\<lparr>F_device := d2\<rparr>)" "fat_holds good view (F\<lparr>F_device := d2\<rparr>) E R2"
        "file_content R2 (F_bpb F) xs = overwrite (file_content R (F_bpb F) xs) (512 * n) (take (unat k) src)"
        "only_secs (set (file_secs (F_bpb F) xs)) R R2"
      using modify_block_ok [OF d1(2), of "with_chain xs f" xs n 0 "unat k" src] h n(1) kl by auto
    have "file_holds F E R2 f xs" by (rule file_holds_only_secs [OF Suc.prems(2) d2(4)])
    moreover have "unat (r - k) \<le> 512 * (?N - Suc n)" using Suc.prems(4) n(1) by (auto simp: rk k(2) min_def)
    moreover have "unat (r - k) \<le> length (drop (unat k) src)" using rk Suc.prems(3) by (simp add: diff_le_mono)
    ultimately obtain d3 R3 where d3: "write_loop D 512 (F\<lparr>F_device := d2\<rparr>) (with_chain xs f) (of_nat (Suc n)) (r - k) (drop (unat k) src)
          = Some (0, with_chain xs f, F\<lparr>F_device := d3\<rparr>)" "fat_holds good view (F\<lparr>F_device := d3\<rparr>) E R3"
        "file_content R3 (F_bpb F) xs
          = overwrite (file_content R2 (F_bpb F) xs) (512 * Suc n) (take (unat (r - k)) (drop (unat k) src))"
        "only_secs (set (file_secs (F_bpb F) xs)) R2 R3"
      using Suc.hyps(1) [of "F\<lparr>F_device := d2\<rparr>" "Suc n" R2 "r - k" "drop (unat k) src"] n d2(2) by auto
    have "file_content R3 (F_bpb F) xs = overwrite (file_content R (F_bpb F) xs) (512 * n) (take (unat r) src)"
    proof (cases "unat r \<le> 512")
      case True
      then show ?thesis using d3(3) d2(3) k(2) rk by simp
    next
      case big: False
      have "512 * n + 512 + (unat r - 512) \<le> 512 * ?N" using Suc.prems(4) n(1) big by simp
      moreover have "length (take 512 src) = 512" "length (take (unat r - 512) (drop 512 src)) = unat r - 512"
        using Suc.prems(3) big by simp_all
      ultimately have "overwrite (overwrite (file_content R (F_bpb F) xs) (512 * n) (take 512 src)) (512 * n + 512)
          (take (unat r - 512) (drop 512 src))
        = overwrite (file_content R (F_bpb F) xs) (512 * n) (take 512 src @ take (unat r - 512) (drop 512 src))"
        using overwrite_overwrite [of "512 * n" "take 512 src" "take (unat r - 512) (drop 512 src)" "file_content R (F_bpb F) xs"]
          length_content [OF h] by (simp del: length_take length_drop)
      moreover have "take 512 src @ take (unat r - 512) (drop 512 src) = take (unat r) src"
        using big by (metis le_add_diff_inverse nat_le_linear take_add)
      ultimately show ?thesis using d3(3) d2(3) k(2) rk big by (simp add: add.commute)
    qed
    with d3 d2(4) False k(1) show ?thesis
      by (intro exI [of _ d3] exI [of _ R3])
        (simp add: write_loop.simps [of D 512 F] d1(1) d2(1) Let_def add.commute only_secs_trans flip: k_def)
  qed (use Suc.prems in \<open>intro exI [of _ "F_device F"] exI [of _ R], simp add: write_loop.simps\<close>)
qed

lemma write_body_ok:
  fixes cnt off :: u32
  assumes h: "fat_holds good view F E R" "file_holds F E R f xs" and buf: "unat cnt \<le> length buf"
    and off: "unat off + unat cnt \<le> 512 * (length xs * spc (F_bpb F))"
      "unat off div 512 < length xs * spc (F_bpb F)"
  defines "k \<equiv> min cnt (512 - off mod 512)"
  shows "\<exists>d1 d R'. modify_sector D F f (off div 512) (off mod 512) (memcpy_in (unat k) buf)
      = Some (with_chain xs f, F\<lparr>F_device := d1\<rparr>)
    \<and> write_loop D 512 (F\<lparr>F_device := d1\<rparr>) (with_chain xs f) (off div 512 + 1) (cnt - k) (drop (unat k) buf)
      = Some (0, with_chain xs f, F\<lparr>F_device := d\<rparr>)
    \<and> fat_holds good view (F\<lparr>F_device := d\<rparr>) E R'
    \<and> file_content R' (F_bpb F) xs = overwrite (file_content R (F_bpb F) xs) (unat off) (take (unat cnt) buf)
    \<and> only_secs (set (file_secs (F_bpb F) xs)) R R'"
proof -
  let ?N = "length xs * spc (F_bpb F)" and ?S = "set (file_secs (F_bpb F) xs)"
  define n j where "n = unat off div 512" and "j = unat off mod 512"
  have o: "unat off = 512 * n + j" "j < 512" "n < ?N" using off(2) by (simp_all add: n_def j_def)
  note w = word_split_512 [of off, folded n_def j_def]
  have k: "unat k = min (unat cnt) (512 - j)" by (simp add: k_def min_def word_le_nat_alt w(3))
  then have rk: "unat (cnt - k) = unat cnt - unat k" by (simp add: unat_sub word_le_nat_alt)
  have kl: "unat (off mod 512) + unat k \<le> 512" "unat (off mod 512) < 512" "unat k \<le> length buf"
    using k o(2) buf w(2) by linarith+
  obtain d1 R1 where r1: "modify_sector D F f (of_nat n) (off mod 512) (memcpy_in (unat k) buf)
        = Some (with_chain xs f, F\<lparr>F_device := d1\<rparr>)" "fat_holds good view (F\<lparr>F_device := d1\<rparr>) E R1"
      "file_content R1 (F_bpb F) xs = overwrite (file_content R (F_bpb F) xs) (unat off) (take (unat k) buf)"
      "only_secs ?S R R1"
    using modify_block_ok [OF h o(3) kl] unfolding w(2) o(1) [symmetric] by blast
  have "unat cnt - unat k \<le> 512 * (?N - Suc n)"
  proof (cases "unat cnt \<le> 512 - j")
    case False
    then show ?thesis using off(1) o k by (simp add: min_def)
  qed (simp add: k)
  moreover have "unat (cnt - k) \<le> length (drop (unat k) buf)" using rk buf by simp
  moreover have "file_holds (F\<lparr>F_device := d1\<rparr>) E R1 f xs" using file_holds_only_secs [OF h(2) r1(4)] by simp
  ultimately obtain d R' where r2: "write_loop D 512 (F\<lparr>F_device := d1\<rparr>) (with_chain xs f) (of_nat (Suc n)) (cnt - k) (drop (unat k) buf)
      = Some (0, with_chain xs f, F\<lparr>F_device := d\<rparr>)" "fat_holds good view (F\<lparr>F_device := d\<rparr>) E R'"
      "file_content R' (F_bpb F) xs = overwrite (file_content R1 (F_bpb F) xs) (512 * Suc n) (take (unat (cnt - k)) (drop (unat k) buf))"
      "only_secs ?S R1 R'"
    using write_loop_ok [OF r1(2), of f xs "cnt - k" "drop (unat k) buf" "Suc n"] rk by auto
  have "file_content R' (F_bpb F) xs = overwrite (file_content R (F_bpb F) xs) (unat off) (take (unat cnt) buf)"
  proof (cases "unat cnt \<le> 512 - j")
    case True
    then show ?thesis using r2(3) r1(3) k rk by simp
  next
    case False
    then have k': "unat k = 512 - j" using k by simp
    have l: "length (take (unat k) buf) = unat k" "length (take (unat cnt - unat k) (drop (unat k) buf)) = unat cnt - unat k"
      using buf False k' by simp_all
    have e: "512 * Suc n = unat off + unat k" using o(1,2) k' by simp
    have "unat off + unat k + (unat cnt - unat k) \<le> length (file_content R (F_bpb F) xs)"
      using off(1) length_content [OF h] False k' by simp
    then have "overwrite (overwrite (file_content R (F_bpb F) xs) (unat off) (take (unat k) buf)) (unat off + unat k)
        (take (unat cnt - unat k) (drop (unat k) buf))
      = overwrite (file_content R (F_bpb F) xs) (unat off) (take (unat k) buf @ take (unat cnt - unat k) (drop (unat k) buf))"
      using overwrite_overwrite [of "unat off" "take (unat k) buf" "take (unat cnt - unat k) (drop (unat k) buf)"
          "file_content R (F_bpb F) xs"] l by (simp del: length_take length_drop add: add.assoc)
    moreover have "take (unat k) buf @ take (unat cnt - unat k) (drop (unat k) buf) = take (unat cnt) buf"
      using take_add [of "unat k" "unat cnt - unat k" buf] k by simp
    ultimately show ?thesis unfolding r2(3) r1(3) e rk by simp
  qed
  moreover have "only_secs ?S R R'" by (rule only_secs_trans [OF r1(4) r2(4)])
  ultimately show ?thesis
    using r1(1) r2(1,2) unfolding w(1) [symmetric] w(4) [symmetric] by blast
qed

lemma bps_512: "fat_holds good view F E R \<Longrightarrow> (ucast (BPB_bytes_per_sec (F_bpb F)) :: u32) = 512"
  using geometryD(1) [of "F_bpb F"] by (simp add: fat_holds_def fat_ok_def)

lemma File_write_in_place_ok:
  fixes cnt off :: u32
  assumes h: "fat_holds good view F E R" "file_holds F E R f xs" and sz: "sized F f xs"
    and buf: "unat cnt \<le> length buf" and off: "unat off + unat cnt < byte_len F f xs"
  shows "\<exists>d R'. File_write D now F f buf cnt off
      = Some (cnt, setWrtTime (getCurDosTs now) (with_chain xs f), F\<lparr>F_device := d\<rparr>)
    \<and> fat_holds good view (F\<lparr>F_device := d\<rparr>) E R'
    \<and> file_content R' (F_bpb F) xs = overwrite (file_content R (F_bpb F) xs) (unat off) (take (unat cnt) buf)
    \<and> only_secs (set (file_secs (F_bpb F) xs)) R R'"
proof -
  let ?len = "byte_len F f xs"
  have len: "unat (of_nat ?len :: u32) = ?len" using sz by (intro unat_of_nat_lt) (simp add: sized_def)
  obtain f1 d1 where r1: "file_sz D F f = Some (of_nat ?len, f1, F\<lparr>F_device := d1\<rparr>)" "same_file xs f f1"
      "fat_holds good view (F\<lparr>F_device := d1\<rparr>) E R" using file_sz_ok [OF h] by blast
  note sf1 = same_file_facts [OF r1(2)]
  have cap: "?len \<le> 512 * (length xs * spc (F_bpb F))" "?len < 2 ^ 32" using sz by (simp_all add: sized_def)
  then have "512 * (unat off div 512) < 512 * (length xs * spc (F_bpb F))"
    using off times_div_less_eq_dividend [of 512 "unat off"] by linarith
  then have n: "unat off div 512 < length xs * spc (F_bpb F)" by simp
  have "unat (off + cnt) = unat off + unat cnt" using off cap(2) by (intro unat_plus) simp
  then have "\<not> of_nat ?len \<le> off + cnt" using off by (simp add: word_le_nat_alt len)
  moreover have h1: "file_holds (F\<lparr>F_device := d1\<rparr>) E R f1 xs" using sf1(3) h(2) by simp
  have "unat off + unat cnt \<le> 512 * (length xs * spc (F_bpb F))" using off cap by simp
  with write_body_ok [OF r1(3) h1 buf, of off] n obtain d2 d R' where
    "modify_sector D (F\<lparr>F_device := d1\<rparr>) f1 (off div 512) (off mod 512) (memcpy_in (unat (min cnt (512 - off mod 512))) buf)
      = Some (with_chain xs f, F\<lparr>F_device := d2\<rparr>)"
    "write_loop D 512 (F\<lparr>F_device := d2\<rparr>) (with_chain xs f) (off div 512 + 1) (cnt - min cnt (512 - off mod 512))
        (drop (unat (min cnt (512 - off mod 512))) buf) = Some (0, with_chain xs f, F\<lparr>F_device := d\<rparr>)"
    "fat_holds good view (F\<lparr>F_device := d\<rparr>) E R'"
    "file_content R' (F_bpb F) xs = overwrite (file_content R (F_bpb F) xs) (unat off) (take (unat cnt) buf)"
    "only_secs (set (file_secs (F_bpb F) xs)) R R'"
    unfolding sf1(1) by auto
  ultimately show ?thesis
    using r1(1) bps_512 [OF h(1)] by (intro exI [of _ d] exI [of _ R']) (simp add: File_write_def Let_def)
qed

end

end
