(* ===== verification/FileResize.thy ===== *)
theory FileResize
  imports FileCorrect
begin

text \<open>
  \<open>File::truncate\<close>, and writing past the end of a file.
\<close>

section \<open>Truncating\<close>

text \<open>The clusters a file of \<open>len\<close> bytes needs.\<close>

definition clus_need :: "BPB \<Rightarrow> nat \<Rightarrow> nat" where
  "clus_need bpb len = (if len = 0 then 0 else (len - 1) div (512 * spc bpb) + 1)"

lemma clus_need_covers: "0 < spc bpb \<Longrightarrow> len \<le> 512 * (clus_need bpb len * spc bpb)"
proof -
  assume s: "0 < spc bpb"
  define X where "X = 512 * spc bpb"
  have "len - 1 < X + (len - 1) div X * X" unfolding X_def using s by (intro dividend_less_div_times) simp
  then have "len \<le> X + (len - 1) div X * X" by linarith
  moreover have "512 * (clus_need bpb len * spc bpb) = X + (len - 1) div X * X" if "len \<noteq> 0"
    using that by (simp add: clus_need_def X_def algebra_simps)
  ultimately show ?thesis by (cases "len = 0") simp_all
qed

lemma clus_need_least:
  assumes "0 < spc bpb" and "len \<le> 512 * (k * spc bpb)"
  shows "clus_need bpb len \<le> k"
proof (cases "len = 0")
  case False
  then have "len - 1 < k * (512 * spc bpb)" using assms(2) by (simp add: mult.assoc mult.left_commute)
  then have "(len - 1) div (512 * spc bpb) < k" using assms(1) by (simp add: div_less_iff_less_mult)
  then show ?thesis using False by (simp add: clus_need_def)
qed (simp add: clus_need_def)

text \<open>The object after a successful \<open>truncate\<close>.\<close>

definition truncated :: "u32 \<Rightarrow> u32 \<Rightarrow> fobj \<Rightarrow> fobj" where
  "truncated c len f =
     (let f' = f\<lparr>f_fst_clus := c, f_clus_chain := None\<rparr> in if f_is_dir f then f' else f'\<lparr>f_file_sz := len\<rparr>)"

lemma truncated_sel [simp]: "f_fst_clus (truncated c len f) = c" "f_clus_chain (truncated c len f) = None"
  "f_is_dir (truncated c len f) = f_is_dir f" "f_file_sz (truncated c len f) = (if f_is_dir f then f_file_sz f else len)"
  by (simp_all add: truncated_def Let_def)

lemma bytes_per_clus:
  assumes "geometry_ok bpb"
  shows "unat (bytesPerClus bpb) = 512 * spc bpb"
proof -
  have "unat (ucast (BPB_sec_per_clus bpb) :: u32) = spc bpb" by (rule unat_ucast_up) simp
  moreover have "spc bpb < 256" using unsigned_less [of "BPB_sec_per_clus bpb", where 'a = nat] by simp
  ultimately show ?thesis
    unfolding bytesPerClus_def geometryD(1) [OF assms] by (subst unat_times) (simp_all add: mult.commute)
qed

lemma clus_num_code:
  fixes len :: u32
  assumes "geometry_ok bpb"
  shows "bytesPerClus bpb \<noteq> 0"
    and "unat (if len = 0 then 0 else (len - 1) div bytesPerClus bpb + 1) = clus_need bpb (unat len)"
proof -
  note b = bytes_per_clus [OF assms]
  have s: "0 < spc bpb" using geometryD(2) [OF assms] by simp
  then show "bytesPerClus bpb \<noteq> 0" using b by auto
  show "unat (if len = 0 then 0 else (len - 1) div bytesPerClus bpb + 1) = clus_need bpb (unat len)"
  proof (cases "len = 0")
    case False
    then have u: "unat (len - 1) = unat len - 1" by (simp add: unat_minus_one)
    have "unat len \<noteq> 0" using False by (simp add: unsigned_eq_0_iff)
    then have "unat len - 1 < 2 ^ 32 - 1" using unsigned_less [of len, where 'a = nat] by simp
    then have "(unat len - 1) div (512 * spc bpb) < 2 ^ 32 - 1"
      by (rule order_le_less_trans [OF div_le_dividend])
    moreover have "unat ((len - 1) div bytesPerClus bpb) = (unat len - 1) div (512 * spc bpb)"
      by (simp add: unat_div b u)
    ultimately show ?thesis using False \<open>unat len \<noteq> 0\<close>
      by (simp add: clus_need_def) (subst unat_plus, simp_all)
  qed (simp add: clus_need_def)
qed

context block_device
begin

lemma truncate_shrink_ok:
  assumes h: "fat_holds good view F E R" "file_holds F E R f xs"
    and need: "clus_need (F_bpb F) (unat len) \<le> length xs"
  defines "k \<equiv> clus_need (F_bpb F) (unat len)"
  defines "f' \<equiv> truncated (if k = 0 then 0 else f_fst_clus f) len f"
  shows "\<exists>d. File_truncate D F f len = Some (True, f', took (of_nat (length xs - k)) d F)
    \<and> fat_holds good view (F\<lparr>F_device := d\<rparr>) (cut k xs E) R
    \<and> file_holds F (cut k xs E) R f' (take k xs)"
proof -
  let ?num = "if len = 0 then 0 else (len - 1) div bytesPerClus (F_bpb F) + 1 :: u32"
  note num = clus_num_code(1) [OF file_holds_facts(1) [OF h]]
    clus_num_code(2) [OF file_holds_facts(1) [OF h], of len, folded k_def]
  have k0: "?num = 0 \<longleftrightarrow> k = 0" unfolding num(2) [symmetric] by (simp only: unsigned_eq_0_iff)
  obtain d where d: "resize D F (f_fst_clus f) ?num (isDir f)
        = Some (True, if k = 0 then 0 else f_fst_clus f, took (of_nat (length xs - k)) d F)"
      "fat_holds good view (F\<lparr>F_device := d\<rparr>) (cut k xs E) R"
      "0 < k \<Longrightarrow> isValidCluster (f_fst_clus f) \<and> chain (fat_size F) (cut k xs E) (f_fst_clus f) (take k xs)"
  proof (cases "isValidCluster (f_fst_clus f)")
    case True
    then have c: "chain (fat_size F) E (f_fst_clus f) xs" using h(2) by (simp add: file_holds_def)
    have "unat ?num \<le> length xs" using num(2) need by (simp add: k_def)
    from resize_shrink_ok [OF h(1) True c this] obtain d where
      "resize D F (f_fst_clus f) ?num (isDir f)
        = Some (True, if k = 0 then 0 else f_fst_clus f, took (of_nat (length xs - k)) d F)"
      "fat_holds good view (F\<lparr>F_device := d\<rparr>) (cut k xs E) R"
      unfolding num(2) k0 by blast
    then show ?thesis using that cut_chain [OF c, of k] need True by (simp add: k_def)
  next
    case False
    then have "xs = []" "k = 0" using h(2) need by (auto simp: file_holds_def k_def)
    then have "?num = 0" using k0 by simp
    then have "resize D F (f_fst_clus f) ?num (isDir f) = Some (True, 0, took 0 (F_device F) F)"
      using False unfolding resize_def by (simp add: took_0)
    then show ?thesis using that [of "F_device F"] h(1) \<open>xs = []\<close> \<open>k = 0\<close> by simp
  qed
  have "File_truncate D F f len = Some (True, f', took (of_nat (length xs - k)) d F)"
    using d(1) num(1) unfolding File_truncate_def by (simp add: Let_def f'_def truncated_def isDir_def)
  moreover have "file_holds F (cut k xs E) R f' (take k xs)"
    using h(2) d(3) need by (auto simp: file_holds_def f'_def isValidCluster_def k_def dest: in_set_takeD)
  ultimately show ?thesis using d(2) by blast
qed

lemma truncate_grow_ok:
  assumes h: "fat_holds good view F E R" "file_holds F E R f xs"
    and a: "avail_ok F E" and hint: "F_free_count F = 0xFFFFFFFF" and res: "reserved_ok E"
    and secs: "\<forall>b. data_clus (F_bpb F) b \<longrightarrow> clus_secs (F_bpb F) b \<subseteq> dom R"
    and need: "length xs < clus_need (F_bpb F) (unat len)"
  defines "k \<equiv> clus_need (F_bpb F) (unat len) - length xs" and "fl \<equiv> free_clus E (unat (F_cnt_of_clus F))"
  defines "cs \<equiv> take k fl"
  defines "f' \<equiv> truncated (if xs = [] then hd cs else f_fst_clus f) len f"
    and "R' \<equiv> (if f_is_dir f then zero_secs (\<Union>b \<in> set cs. clus_secs (F_bpb F) b) R else R)"
  shows "length fl < k \<Longrightarrow> \<exists>d. File_truncate D F f len = Some (False, f, F\<lparr>F_device := d, F_avail_clus_cnt := Some (of_nat (length fl))\<rparr>)
      \<and> fat_holds good view (F\<lparr>F_device := d\<rparr>) E R"
    and "k \<le> length fl \<Longrightarrow> \<exists>d E'. File_truncate D F f len
        = Some (True, f', F\<lparr>F_device := d, F_avail_clus_cnt := Some (of_nat (length (free_clus E' (unat (F_cnt_of_clus F)))))\<rparr>)
      \<and> fat_holds good view (F\<lparr>F_device := d\<rparr>) E' R' \<and> file_holds F E' R' f' (xs @ cs)
      \<and> length (free_clus E' (unat (F_cnt_of_clus F))) = length fl - k
      \<and> (\<forall>x \<in> set cs. E x = 0 \<and> 2 \<le> unat x) \<and> (\<forall>n. n \<notin> set cs \<longrightarrow> n \<notin> set xs \<longrightarrow> E' n = E n)"
proof -
  let ?num = "if len = 0 then 0 else (len - 1) div bytesPerClus (F_bpb F) + 1 :: u32" and ?n = "unat (F_cnt_of_clus F)"
  note num = clus_num_code(1) [OF file_holds_facts(1) [OF h]] clus_num_code(2) [OF file_holds_facts(1) [OF h], of len]
  have v: "isValidCluster (f_fst_clus f) \<longleftrightarrow> xs \<noteq> []" using h(2) by (auto simp: file_holds_def split: if_splits)
  have c: "if isValidCluster (f_fst_clus f) then xs \<noteq> [] \<and> chain (fat_size F) E (f_fst_clus f) xs else xs = []"
    using h(2) by (simp add: file_holds_def)
  have zero: "0 \<notin> set xs" using h(2) by (auto simp: file_holds_def data_clus_def)
  have lt: "length xs < unat ?num" using need num(2) by simp
  have k: "unat ?num - length xs = k" unfolding num(2) by (simp add: k_def)
  define E' where "E' = (if xs = [] then link_new cs E else (link_new cs E)(last xs := hd cs))"
  from resize_grow_ok [where clear = "f_is_dir f", OF h(1) a hint res c lt secs, unfolded k, folded fl_def, folded cs_def,
      folded E'_def, folded R'_def]
  obtain d where d: "resize D F (f_fst_clus f) ?num (isDir f) =
      (if length fl < k then Some (False, f_fst_clus f, F\<lparr>F_device := d, F_avail_clus_cnt := Some (of_nat (length fl))\<rparr>)
       else Some (True, if isValidCluster (f_fst_clus f) then f_fst_clus f else hd cs,
              F\<lparr>F_device := d, F_avail_clus_cnt := Some (of_nat (length fl) - of_nat k)\<rparr>))"
    "fat_holds good view (F\<lparr>F_device := d\<rparr>) (if length fl < k then E else E') (if length fl < k then R else R')"
    unfolding isDir_def by blast
  show "\<exists>d. File_truncate D F f len = Some (False, f, F\<lparr>F_device := d, F_avail_clus_cnt := Some (of_nat (length fl))\<rparr>)
      \<and> fat_holds good view (F\<lparr>F_device := d\<rparr>) E R" if "length fl < k"
    using d that num(1) by (intro exI [of _ d]) (simp add: File_truncate_def Let_def)
  assume enough: "k \<le> length fl"
  have "0 < k" using need by (simp add: k_def)
  have n: "?n < 2 ^ 28" "?n \<le> fat_size F" "?n \<le> 0x0FFFFFF8" "?n = cluster_count (F_bpb F)"
    using h(1) by (auto simp: fat_holds_def fat_ok_def)
  have c0: "if isValidCluster (f_fst_clus f) then xs \<noteq> [] \<and> 0 \<notin> set xs \<and> chain (fat_size F) E (f_fst_clus f) xs else xs = []"
    using c zero by auto
  note new = grown_table [OF res n(1-3) \<open>0 < k\<close> enough [unfolded fl_def] c0, folded fl_def, folded cs_def, folded E'_def]
  have "x \<in> set cs \<Longrightarrow> data_clus (F_bpb F) x" for x
    using new(3) free_clus_facts(2) [OF n(1), of x E] n(4) by (auto simp: data_clus_def cs_def fl_def dest: in_set_takeD)
  moreover have dom: "dom R' \<supseteq> dom R" by (auto simp: R'_def zero_secs_def)
  moreover have "cs \<noteq> []" using \<open>0 < k\<close> enough by (auto simp: cs_def)
  then have "hd cs \<in> set cs" by (rule hd_in_set)
  moreover have "isValidCluster x" if "x \<in> set cs" for x using new(3) [OF that] by (auto simp: isValidCluster_def)
  ultimately have "file_holds F E' R' f' (xs @ cs)"
    using new(1) secs h(2) v by (auto simp: file_holds_def f'_def split: if_splits) blast+
  moreover have "File_truncate D F f len
      = Some (True, f', F\<lparr>F_device := d, F_avail_clus_cnt := Some (of_nat (length (free_clus E' ?n)))\<rparr>)"
    using d(1) enough num(1) v new(2) by (simp add: File_truncate_def Let_def f'_def truncated_def isDir_def fl_def of_nat_diff)
  ultimately show "\<exists>d E'. File_truncate D F f len
        = Some (True, f', F\<lparr>F_device := d, F_avail_clus_cnt := Some (of_nat (length (free_clus E' ?n)))\<rparr>)
      \<and> fat_holds good view (F\<lparr>F_device := d\<rparr>) E' R' \<and> file_holds F E' R' f' (xs @ cs)
      \<and> length (free_clus E' ?n) = length fl - k
      \<and> (\<forall>x \<in> set cs. E x = 0 \<and> 2 \<le> unat x) \<and> (\<forall>n. n \<notin> set cs \<longrightarrow> n \<notin> set xs \<longrightarrow> E' n = E n)"
    using d(2) enough new(2,3,4) by (intro exI [of _ d] exI [of _ E']) auto
qed

end

end
