(* ===== verification/FileData.thy ===== *)
theory FileData
  imports FileResize
begin

text \<open>
  A regular file as a sequence of bytes: what \<open>File::read\<close>, \<open>File::write\<close> and \<open>File::truncate\<close>
  do to the bytes the file holds and to the number of free clusters. The lemmas in the locale of
  the device carry the theorems on mounted images in \<open>FileProps\<close>.
\<close>

section \<open>A sound regular file\<close>

text \<open>Its chain has as many clusters as its size needs, and the volume is one \<open>allocClus\<close> works on.\<close>

definition frees :: "BPB \<Rightarrow> (u32 \<Rightarrow> u32) \<Rightarrow> nat" where
  "frees bpb E = length (free_clus E (cluster_count bpb))"

definition file_ok :: "('d \<Rightarrow> bool) \<Rightarrow> ('d \<Rightarrow> u32 \<Rightarrow> bytes option) \<Rightarrow> 'd FAT \<Rightarrow> (u32 \<Rightarrow> u32) \<Rightarrow>
    (u32 \<Rightarrow> bytes option) \<Rightarrow> fobj \<Rightarrow> u32 list \<Rightarrow> bool" where
  "file_ok good view F E R f xs \<longleftrightarrow>
     fat_holds good view F E R \<and> avail_ok F E \<and> F_free_count F = 0xFFFFFFFF \<and> reserved_ok E
     \<and> (\<forall>b. data_clus (F_bpb F) b \<longrightarrow> clus_secs (F_bpb F) b \<subseteq> dom R)
     \<and> file_holds F E R f xs \<and> \<not> f_is_dir f \<and> length xs = clus_need (F_bpb F) (unat (f_file_sz f))"

definition file_bytes :: "(u32 \<Rightarrow> bytes option) \<Rightarrow> BPB \<Rightarrow> fobj \<Rightarrow> u32 list \<Rightarrow> bytes" where
  "file_bytes R bpb f xs = take (unat (f_file_sz f)) (file_content R bpb xs)"

text \<open>What an operation on the file with chain \<open>xs\<close> that takes the clusters \<open>ys\<close> may change.\<close>

definition only_clus :: "BPB \<Rightarrow> u32 list \<Rightarrow> u32 list \<Rightarrow> (u32 \<Rightarrow> u32) \<Rightarrow> (u32 \<Rightarrow> u32) \<Rightarrow> (u32 \<Rightarrow> bytes option) \<Rightarrow>
    (u32 \<Rightarrow> bytes option) \<Rightarrow> bool" where
  "only_clus bpb xs ys E E' R R' \<longleftrightarrow>
     (\<forall>n. n \<notin> set (xs @ ys) \<longrightarrow> E' n = E n) \<and> (\<forall>y \<in> set ys. E y = 0) \<and> only_secs (set (file_secs bpb (xs @ ys))) R R'"

lemma file_okD:
  assumes "file_ok good view F E R f xs"
  shows "fat_holds good view F E R" and "file_holds F E R f xs" and "sized F f xs"
    and "byte_len F f xs = unat (f_file_sz f)" and "unat (F_cnt_of_clus F) = cluster_count (F_bpb F)"
    and "unat (f_file_sz f) \<le> 512 * (length xs * spc (F_bpb F))"
    and "length (file_bytes R (F_bpb F) f xs) = unat (f_file_sz f)"
    and "\<not> f_is_dir f" and "length xs = clus_need (F_bpb F) (unat (f_file_sz f))"
proof -
  show h: "fat_holds good view F E R" "file_holds F E R f xs" "\<not> f_is_dir f"
    "length xs = clus_need (F_bpb F) (unat (f_file_sz f))"
    using assms by (simp_all add: file_ok_def)
  show b: "byte_len F f xs = unat (f_file_sz f)" using assms by (simp add: file_ok_def byte_len_def)
  show "unat (F_cnt_of_clus F) = cluster_count (F_bpb F)" using h(1) by (simp add: fat_holds_def)
  show c: "unat (f_file_sz f) \<le> 512 * (length xs * spc (F_bpb F))"
    using clus_need_covers [OF file_holds_facts(4) [OF h(1,2)]] assms by (simp add: file_ok_def)
  then show "sized F f xs"
    using unsigned_less [of "f_file_sz f", where 'a = nat] by (simp add: sized_def b)
  show "length (file_bytes R (F_bpb F) f xs) = unat (f_file_sz f)"
    using c length_content [OF h(1,2)] by (simp add: file_bytes_def)
qed

lemma file_holds_count [simp]: "file_holds (F\<lparr>F_device := d, F_avail_clus_cnt := a\<rparr>) E R f xs = file_holds F E R f xs"
  by (simp add: file_holds_def)

text \<open>What may change without breaking it.\<close>

lemma file_ok_stable:
  assumes "file_ok good view F E R f xs" and "fat_holds good view (F\<lparr>F_device := d\<rparr>) E R'"
    and "dom R' = dom R" and "f_fst_clus f' = f_fst_clus f" "f_is_dir f' = f_is_dir f" "f_file_sz f' = f_file_sz f"
      "f_clus_chain f' \<in> {None, Some xs}"
  shows "file_ok good view (F\<lparr>F_device := d\<rparr>) E R' f' xs"
  using assms by (auto simp: file_ok_def file_holds_def avail_ok_def split: if_splits)

lemma content_dom_eq: "(\<And>s. s \<in> set (file_secs bpb xs) \<Longrightarrow> R' s = R s) \<Longrightarrow> file_content R' bpb xs = file_content R bpb xs"
  unfolding file_content_def sec_bytes_def by (intro arg_cong [where f = concat] map_cong) auto

lemma file_clus_used:
  assumes "file_holds F E R f xs" and "x \<in> set xs"
  shows "E x \<noteq> 0" and "data_clus (F_bpb F) x"
proof -
  have d: "\<forall>x \<in> set xs. data_clus (F_bpb F) x" and c: "chain (fat_size F) E (f_fst_clus f) xs"
    using assms by (auto simp: file_holds_def split: if_splits)
  have "0 \<notin> set xs" using d by (auto simp: data_clus_def)
  then show "E x \<noteq> 0" by (rule chain_nonzero [OF c _ assms(2)])
qed (use assms in \<open>simp add: file_holds_def\<close>)

text \<open>A change to some clusters leaves a file made of others as it was.\<close>

lemma secs_apart:
  assumes "geometry_ok bpb" and "distinct xs" and "distinct ys" and "\<forall>x \<in> set xs. data_clus bpb x" and "\<forall>y \<in> set ys. data_clus bpb y"
    and "set xs \<inter> set ys = {}"
  shows "set (file_secs bpb xs) \<inter> set (file_secs bpb ys) = {}"
  unfolding distinct_file_secs(2) [OF assms(1,2,4)] distinct_file_secs(2) [OF assms(1,3,5)]
  using clus_secs_disjoint [OF assms(1)] assms(4-6) by blast

lemma file_apart:
  assumes h: "fat_holds good view F E R" "file_holds F E R f xs" and h': "fat_holds good view F' E' R'" "file_holds F' E' R' g (ys @ cs)"
    and bpb: "F_bpb F' = F_bpb F" and only: "only_clus (F_bpb F) ys cs E E' R R'" and dis: "set (ys @ cs) \<inter> set xs = {}"
  shows "file_holds F' E' R' f xs" and "file_content R' (F_bpb F) xs = file_content R (F_bpb F) xs"
proof -
  have dc: "\<forall>x \<in> set xs. data_clus (F_bpb F) x" "\<forall>x \<in> set (ys @ cs). data_clus (F_bpb F) x"
    using h(2) h'(2) bpb by (simp_all add: file_holds_def)
  have secs: "set (file_secs (F_bpb F) (ys @ cs)) \<inter> set (file_secs (F_bpb F) xs) = {}"
    by (rule secs_apart [OF file_holds_facts(1) [OF h] file_holds_facts(2) [OF h'] file_holds_facts(2) [OF h] dc(2,1) dis])
  have "E' x = E x" if "x \<in> set xs" for x using that only dis by (auto simp: only_clus_def)
  then have "chain (fat_size F') E' c xs \<longleftrightarrow> chain (fat_size F) E c xs" for c
    by (simp add: bpb) (rule chain_cong, simp)
  then show "file_holds F' E' R' f xs" using h(2) only bpb by (simp add: file_holds_def only_clus_def only_secs_def)
  have "R' s = R s" if "s \<in> set (file_secs (F_bpb F) xs)" for s using that secs only by (auto simp: only_clus_def only_secs_def)
  then show "file_content R' (F_bpb F) xs = file_content R (F_bpb F) xs" by (rule content_dom_eq)
qed

lemma file_content_append: "file_content R bpb (xs @ ys) = file_content R bpb xs @ file_content R bpb ys"
  by (simp add: file_content_def file_secs_append sec_bytes_def)

lemma clus_need_mono: "m \<le> n \<Longrightarrow> clus_need bpb m \<le> clus_need bpb n"
  by (simp add: clus_need_def div_le_mono)

context block_device
begin

section \<open>Reading\<close>

lemma read_bytes_ok:
  fixes cnt off :: u32
  assumes "file_ok good view F E R f xs"
  shows "\<exists>f' F'. File_read D now F f cnt off = Some (take (unat cnt) (drop (unat off) (file_bytes R (F_bpb F) f xs)), f', F')
    \<and> file_ok good view F' E R f' xs \<and> F_bpb F' = F_bpb F \<and> f_file_sz f' = f_file_sz f"
proof -
  note fo = file_okD [OF assms]
  obtain f' d where r: "File_read D now F f cnt off
        = Some (take (min (unat cnt) (byte_len F f xs - unat off)) (drop (unat off) (file_content R (F_bpb F) xs)), f', F\<lparr>F_device := d\<rparr>)"
      "if unat off < byte_len F f xs then f' = setAccTime (getCurDosTs now) (with_chain xs f) else same_file xs f f'"
      "fat_holds good view (F\<lparr>F_device := d\<rparr>) E R"
    using File_read_ok [OF fo(1-3)] by blast
  have f': "f_file_sz f' = f_file_sz f" "f_fst_clus f' = f_fst_clus f" "f_is_dir f' = f_is_dir f"
    "f_clus_chain f' \<in> {None, Some xs}"
    using r(2) fo(2) by (auto simp: setAccTime_def same_file_def file_holds_def split: if_splits)
  have "file_ok good view (F\<lparr>F_device := d\<rparr>) E R f' xs"
    by (rule file_ok_stable [OF assms r(3)]) (use f' in simp_all)
  with r(1) f'(1) show ?thesis by (auto simp: fo(4) file_bytes_def drop_take min.commute)
qed

section \<open>Truncating\<close>

text \<open>Within the clusters the file has.\<close>

lemma truncate_fit_ok:
  assumes ok: "file_ok good view F E R f xs" and len: "clus_need (F_bpb F) (unat len) = length xs"
  shows "\<exists>F' f' E'. File_truncate D F f len = Some (True, f', F') \<and> file_ok good view F' E' R f' xs
    \<and> F_bpb F' = F_bpb F \<and> f_file_sz f' = len \<and> frees (F_bpb F) E' = frees (F_bpb F) E
    \<and> only_clus (F_bpb F) xs [] E E' R R"
proof -
  note fo = file_okD [OF ok]
  let ?E = "cut (length xs) xs E"
  obtain d f' where d: "File_truncate D F f len = Some (True, f', took (of_nat (length xs - length xs)) d F)"
      "fat_holds good view (F\<lparr>F_device := d\<rparr>) ?E R" "file_holds F ?E R f' (take (length xs) xs)"
      "f' = truncated (if length xs = 0 then 0 else f_fst_clus f) len f"
    using truncate_shrink_ok [OF fo(1,2), of len] len by auto
  have z: "?E x = 0 \<longleftrightarrow> E x = 0" for x
  proof -
    have "E (xs ! (length xs - 1)) \<noteq> 0" if "xs \<noteq> []"
    proof -
      have c: "chain (fat_size F) E (f_fst_clus f) xs" "0 \<notin> set xs"
        using fo(2) that by (auto simp: file_holds_def data_clus_def split: if_splits)
      show ?thesis using chain_nonzero [OF c, of "last xs"] that by (simp add: last_conv_nth)
    qed
    then show ?thesis using file_holds_facts(2) [OF fo(1,2)] by (auto simp: cut_apply KFat32EocMark_def)
  qed
  then have free: "free_clus ?E n = free_clus E n" for n by (simp add: free_clus_def free_from_def)
  have "avail_ok (F\<lparr>F_device := d\<rparr>) ?E" "reserved_ok ?E"
    unfolding avail_ok_def reserved_ok_def z free using ok by (simp_all add: file_ok_def avail_ok_def reserved_ok_def)
  then have "file_ok good view (F\<lparr>F_device := d\<rparr>) ?E R f' xs"
    using ok d(2-4) len by (simp add: file_ok_def)
  then show ?thesis
    using d(1,4) fo(8) by (intro exI [of _ "F\<lparr>F_device := d\<rparr>"] exI [of _ f'] exI [of _ ?E]) (simp add: took_0 frees_def free only_clus_def cut_other)
qed

text \<open>To at least the size the file has: with enough free clusters the file gets the ones it lacks.\<close>

lemma truncate_extend_ok:
  assumes ok: "file_ok good view F E R f xs" and len: "unat (f_file_sz f) \<le> unat len"
  defines "k \<equiv> clus_need (F_bpb F) (unat len) - clus_need (F_bpb F) (unat (f_file_sz f))"
  shows "frees (F_bpb F) E < k \<Longrightarrow> \<exists>F'. File_truncate D F f len = Some (False, f, F') \<and> file_ok good view F' E R f xs
      \<and> F_bpb F' = F_bpb F"
    and "k \<le> frees (F_bpb F) E \<Longrightarrow> \<exists>F' f' E' cs. File_truncate D F f len = Some (True, f', F')
      \<and> file_ok good view F' E' R f' (xs @ cs) \<and> F_bpb F' = F_bpb F \<and> f_file_sz f' = len
      \<and> frees (F_bpb F) E' = frees (F_bpb F) E - k \<and> only_clus (F_bpb F) xs cs E E' R R"
proof -
  note fo = file_okD [OF ok]
  have a: "avail_ok F E" "F_free_count F = 0xFFFFFFFF" "reserved_ok E"
    "\<forall>b. data_clus (F_bpb F) b \<longrightarrow> clus_secs (F_bpb F) b \<subseteq> dom R"
    using ok by (simp_all add: file_ok_def)
  have need: "length xs < clus_need (F_bpb F) (unat len)" if "0 < k" using that fo(9) by (simp add: k_def)
  note grow = truncate_grow_ok [OF fo(1,2) a need, unfolded fo(5), folded frees_def]
  have k: "clus_need (F_bpb F) (unat len) - length xs = k" using fo(9) by (simp add: k_def)
  show "\<exists>F'. File_truncate D F f len = Some (False, f, F') \<and> file_ok good view F' E R f xs \<and> F_bpb F' = F_bpb F"
    if few: "frees (F_bpb F) E < k"
  proof -
    obtain d where d: "File_truncate D F f len = Some (False, f, F\<lparr>F_device := d, F_avail_clus_cnt := Some (of_nat (frees (F_bpb F) E))\<rparr>)"
        "fat_holds good view (F\<lparr>F_device := d\<rparr>) E R"
      using grow(1) [unfolded k] few by force
    moreover have "file_ok good view (F\<lparr>F_device := d, F_avail_clus_cnt := Some (of_nat (frees (F_bpb F) E))\<rparr>) E R f xs"
      using ok d(2) by (simp add: file_ok_def fo(5) frees_def)
    ultimately show ?thesis by (intro exI) (rule conjI, assumption, simp)
  qed
  assume enough: "k \<le> frees (F_bpb F) E"
  show "\<exists>F' f' E' cs. File_truncate D F f len = Some (True, f', F')
      \<and> file_ok good view F' E' R f' (xs @ cs) \<and> F_bpb F' = F_bpb F \<and> f_file_sz f' = len
      \<and> frees (F_bpb F) E' = frees (F_bpb F) E - k \<and> only_clus (F_bpb F) xs cs E E' R R"
  proof (cases "k = 0")
    case True
    then have "clus_need (F_bpb F) (unat len) = length xs" using clus_need_mono [OF len, of "F_bpb F"] fo(9) by (simp add: k_def)
    from truncate_fit_ok [OF ok this] True show ?thesis by (metis append_Nil2 diff_zero)
  next
    case False
    then have pos: "0 < k" by simp
    let ?cs = "take k (free_clus E (cluster_count (F_bpb F)))"
    obtain d E' f' where d: "File_truncate D F f len
          = Some (True, f', F\<lparr>F_device := d, F_avail_clus_cnt := Some (of_nat (frees (F_bpb F) E'))\<rparr>)"
        "fat_holds good view (F\<lparr>F_device := d\<rparr>) E' R" "file_holds F E' R f' (xs @ ?cs)"
        "frees (F_bpb F) E' = frees (F_bpb F) E - k" "\<forall>x \<in> set ?cs. E x = 0 \<and> 2 \<le> unat x"
        "\<forall>n. n \<notin> set ?cs \<longrightarrow> n \<notin> set xs \<longrightarrow> E' n = E n"
        "f_file_sz f' = len" "\<not> f_is_dir f'"
      using grow(2) [OF pos] enough fo(8) unfolding k by (auto simp: frees_def)
    have "x \<notin> set ?cs \<and> x \<notin> set xs" if "x = 0 \<or> x = 1" for x
      using that d(5) fo(2) by (auto simp: file_holds_def data_clus_def)
    then have "reserved_ok E'" using d(6) a(3) by (simp add: reserved_ok_def)
    moreover have "length ?cs = k" using enough by (simp add: frees_def)
    then have "length (xs @ ?cs) = clus_need (F_bpb F) (unat len)" using need [OF pos] k by simp
    ultimately have "file_ok good view (F\<lparr>F_device := d, F_avail_clus_cnt := Some (of_nat (frees (F_bpb F) E'))\<rparr>) E' R f' (xs @ ?cs)"
      using d(2,3,7,8) a(2,4) by (simp add: file_ok_def fo(5) frees_def)
    moreover have "only_clus (F_bpb F) xs ?cs E E' R R" using d(5,6) by (simp add: only_clus_def)
    ultimately show ?thesis using d(1,4,7)
      by (intro exI [of _ "F\<lparr>F_device := d, F_avail_clus_cnt := Some (of_nat (frees (F_bpb F) E'))\<rparr>"] exI [of _ f']
          exI [of _ E'] exI [of _ ?cs]) simp
  qed
qed

section \<open>Writing\<close>

lemma write_inside_ok:
  fixes cnt off :: u32
  assumes ok: "file_ok good view F E R f xs" and buf: "unat cnt \<le> length buf"
    and off: "unat off + unat cnt < unat (f_file_sz f)"
  shows "\<exists>f' F' R'. File_write D now F f buf cnt off = Some (cnt, f', F') \<and> file_ok good view F' E R' f' xs
    \<and> F_bpb F' = F_bpb F \<and> f_file_sz f' = f_file_sz f \<and> only_clus (F_bpb F) xs [] E E R R'
    \<and> file_bytes R' (F_bpb F) f' xs = overwrite (file_bytes R (F_bpb F) f xs) (unat off) (take (unat cnt) buf)"
proof -
  note fo = file_okD [OF ok]
  let ?f = "setWrtTime (getCurDosTs now) (with_chain xs f)"
  obtain d R' where r: "File_write D now F f buf cnt off = Some (cnt, ?f, F\<lparr>F_device := d\<rparr>)"
      "fat_holds good view (F\<lparr>F_device := d\<rparr>) E R'"
      "file_content R' (F_bpb F) xs = overwrite (file_content R (F_bpb F) xs) (unat off) (take (unat cnt) buf)"
      "only_secs (set (file_secs (F_bpb F) xs)) R R'"
    using File_write_in_place_ok [OF fo(1-3) buf, of off] off unfolding fo(4) by blast
  have "file_ok good view (F\<lparr>F_device := d\<rparr>) E R' ?f xs"
    by (rule file_ok_stable [OF ok r(2)]) (use r(4) in \<open>simp_all add: only_secs_def setWrtTime_def with_chain_def\<close>)
  moreover have "take n (overwrite C i src) = overwrite (take n C) i src" if "i + length src \<le> n" "n \<le> length C" for n i src and C :: bytes
    using that by (intro nth_equalityI) (auto simp: nth_overwrite)
  then have "file_bytes R' (F_bpb F) ?f xs = overwrite (file_bytes R (F_bpb F) f xs) (unat off) (take (unat cnt) buf)"
    using off fo(6) length_content [OF fo(1,2)] buf by (simp add: file_bytes_def r(3) setWrtTime_def with_chain_def)
  ultimately show ?thesis using r(1,4) by (intro exI conjI) (assumption+, simp_all add: setWrtTime_def with_chain_def only_clus_def)
qed

text \<open>The bytes after a write at or past the end; the gap shows what its sectors held.\<close>

lemma overwrite_end:
  assumes "n \<le> length C" and "n \<le> i + length src" and "i + length src \<le> length C"
  shows "take (i + length src) (overwrite C i src) = overwrite (take n C @ take (i - n) (drop n C)) i src"
proof -
  have "take n C @ take (i - n) (drop n C) = take (max n i) C"
    by (cases "i \<le> n") (simp_all add: max_def flip: take_add)
  then show ?thesis using assms by (cases src) (auto simp: overwrite_def min_def max_def)
qed

lemma write_extend_ok:
  fixes cnt off :: u32
  assumes ok: "file_ok good view F E R f xs" and buf: "unat cnt \<le> length buf"
    and off: "unat off + unat cnt \<ge> unat (f_file_sz f)" "unat off + unat cnt < 2 ^ 32" and pos: "0 < unat cnt"
  defines "k \<equiv> clus_need (F_bpb F) (unat off + unat cnt) - clus_need (F_bpb F) (unat (f_file_sz f))"
  shows "frees (F_bpb F) E < k \<Longrightarrow> \<exists>F'. File_write D now F f buf cnt off = Some (0, f, F') \<and> file_ok good view F' E R f xs
      \<and> F_bpb F' = F_bpb F"
    and "k \<le> frees (F_bpb F) E \<Longrightarrow> \<exists>f' F' E' R' ys gap. File_write D now F f buf cnt off = Some (cnt, f', F')
      \<and> file_ok good view F' E' R' f' (xs @ ys) \<and> F_bpb F' = F_bpb F \<and> frees (F_bpb F) E' = frees (F_bpb F) E - k
      \<and> gap = take (unat off - unat (f_file_sz f)) (drop (unat (f_file_sz f)) (file_content R (F_bpb F) (xs @ ys)))
      \<and> length gap = unat off - unat (f_file_sz f) \<and> only_clus (F_bpb F) xs ys E E' R R'
      \<and> file_bytes R' (F_bpb F) f' (xs @ ys) = overwrite (file_bytes R (F_bpb F) f xs @ gap) (unat off) (take (unat cnt) buf)"
proof -
  note fo = file_okD [OF ok]
  have u: "unat (off + cnt) = unat off + unat cnt" using off(2) by (intro unat_plus) simp
  have ge: "f_file_sz f \<le> off + cnt" using off(1) by (simp add: word_le_nat_alt u)
  have sz: "file_sz D F f = Some (f_file_sz f, f, F)" using fo(8) by (simp add: file_sz_def)
  note bps = bps_512 [OF fo(1)]
  note tr = truncate_extend_ok [OF ok, of "off + cnt", unfolded u, OF off(1), folded k_def]
  show "\<exists>F'. File_write D now F f buf cnt off = Some (0, f, F') \<and> file_ok good view F' E R f xs \<and> F_bpb F' = F_bpb F"
    if few: "frees (F_bpb F) E < k"
  proof -
    obtain F' where "File_truncate D F f (off + cnt) = Some (False, f, F')" "file_ok good view F' E R f xs" "F_bpb F' = F_bpb F"
      using tr(1) [OF few] by blast
    then show ?thesis using ge by (intro exI [of _ F']) (simp add: File_write_def sz bps Let_def)
  qed
  assume enough: "k \<le> frees (F_bpb F) E"
  obtain F1 f1 E1 ys where t: "File_truncate D F f (off + cnt) = Some (True, f1, F1)" "file_ok good view F1 E1 R f1 (xs @ ys)"
      "F_bpb F1 = F_bpb F" "f_file_sz f1 = off + cnt" "frees (F_bpb F) E1 = frees (F_bpb F) E - k"
      "only_clus (F_bpb F) xs ys E E1 R R"
    using tr(2) [OF enough] by blast
  let ?C = "file_content R (F_bpb F) (xs @ ys)" and ?f = "setWrtTime (getCurDosTs now) (with_chain (xs @ ys) f1)"
    and ?n = "unat (f_file_sz f)"
  note fo1 = file_okD [OF t(2), unfolded t(3,4) u]
  have "unat off < 512 * (length (xs @ ys) * spc (F_bpb F))" using fo1(6) pos by linarith
  then have n: "unat off div 512 < length (xs @ ys) * spc (F_bpb F)" by (simp add: div_less_iff_less_mult mult.commute)
  obtain d2 d R' where w: "modify_sector D F1 f1 (off div 512) (off mod 512) (memcpy_in (unat (min cnt (512 - off mod 512))) buf)
      = Some (with_chain (xs @ ys) f1, F1\<lparr>F_device := d2\<rparr>)"
    "write_loop D 512 (F1\<lparr>F_device := d2\<rparr>) (with_chain (xs @ ys) f1) (off div 512 + 1) (cnt - min cnt (512 - off mod 512))
        (drop (unat (min cnt (512 - off mod 512))) buf) = Some (0, with_chain (xs @ ys) f1, F1\<lparr>F_device := d\<rparr>)"
    "fat_holds good view (F1\<lparr>F_device := d\<rparr>) E1 R'"
    "file_content R' (F_bpb F) (xs @ ys) = overwrite ?C (unat off) (take (unat cnt) buf)"
    "only_secs (set (file_secs (F_bpb F) (xs @ ys))) R R'"
    using write_body_ok [OF fo1(1,2) buf, of off, unfolded t(3), OF fo1(6) n] by blast
  have "file_ok good view (F1\<lparr>F_device := d\<rparr>) E1 R' ?f (xs @ ys)"
    by (rule file_ok_stable [OF t(2) w(3)]) (use w(5) in \<open>simp_all add: only_secs_def setWrtTime_def with_chain_def\<close>)
  moreover have len: "length ?C = 512 * (length (xs @ ys) * spc (F_bpb F))" using length_content [OF fo1(1,2)] t(3) by simp
  have "?n \<le> length ?C" "unat off + unat cnt \<le> length ?C" using off(1) fo1(6) len by linarith+
  then have "file_bytes R' (F_bpb F) ?f (xs @ ys)
      = overwrite (take ?n ?C @ take (unat off - ?n) (drop ?n ?C)) (unat off) (take (unat cnt) buf)"
    using overwrite_end [of ?n ?C "unat off" "take (unat cnt) buf"] buf off(1)
    by (simp add: file_bytes_def w(4) setWrtTime_def with_chain_def t(4) u)
  moreover have "take ?n ?C = file_bytes R (F_bpb F) f xs"
    using fo(6) length_content [OF fo(1,2)] by (simp add: file_bytes_def file_content_append)
  moreover have "length (take (unat off - ?n) (drop ?n ?C)) = unat off - ?n"
    using \<open>unat off + unat cnt \<le> length ?C\<close> by (simp add: diff_le_mono)
  moreover have "only_clus (F_bpb F) xs ys E E1 R R'" using t(6) w(5) by (simp add: only_clus_def)
  moreover have "File_write D now F f buf cnt off = Some (cnt, ?f, F1\<lparr>F_device := d\<rparr>)"
    using ge t(1) w(1,2) bps by (simp add: File_write_def sz Let_def)
  ultimately show "\<exists>f' F' E' R' ys gap. File_write D now F f buf cnt off = Some (cnt, f', F')
      \<and> file_ok good view F' E' R' f' (xs @ ys) \<and> F_bpb F' = F_bpb F \<and> frees (F_bpb F) E' = frees (F_bpb F) E - k
      \<and> gap = take (unat off - ?n) (drop ?n (file_content R (F_bpb F) (xs @ ys))) \<and> length gap = unat off - ?n
      \<and> only_clus (F_bpb F) xs ys E E' R R'
      \<and> file_bytes R' (F_bpb F) f' (xs @ ys) = overwrite (file_bytes R (F_bpb F) f xs @ gap) (unat off) (take (unat cnt) buf)"
    using t(3,5) by (intro exI [of _ ?f] exI [of _ "F1\<lparr>F_device := d\<rparr>"] exI [of _ E1] exI [of _ R'] exI [of _ ys]
        exI [of _ "take (unat off - ?n) (drop ?n ?C)"]) simp
qed

end

end
