(* ===== verification/FileProps.thy ===== *)
theory FileProps
  imports FileData
begin

text \<open>
  What the methods of \<open>File\<close> promise on a mounted image. The abstract specification of a regular
  file is a sequence of bytes next to the number of free clusters of the volume; histories of
  reads and writes refine it. Further: other files are left alone, what resizing does to the
  data, and the calls that do not come back.
\<close>

abbreviation disk_file :: "lfd cache_mgr FAT \<Rightarrow> (u32 \<Rightarrow> u32) \<Rightarrow> (u32 \<Rightarrow> bytes option) \<Rightarrow> fobj \<Rightarrow> u32 list \<Rightarrow> bool" where
  "disk_file \<equiv> file_ok disk_good disk_view"

section \<open>Files for the witnesses\<close>

definition demo_file :: fobj where
  "demo_file = \<lparr>f_is_dir = False, f_file_sz = 3000, f_parent_clus = 2,
     f_crt_time = \<lparr>ts2_tt = 0, ts2_ts = \<lparr>ts_time = 0, ts_date = 0\<rparr>\<rparr>, f_acc_date = 0, f_wrt_time = \<lparr>ts_time = 0, ts_date = 0\<rparr>,
     f_fst_entry_num = 0, f_fst_clus = 3, f_name = [], f_is_deleted = False, f_clus_chain = None\<rparr>"

lemma demo_file_sel [simp]: "f_file_sz demo_file = 3000" "f_is_dir demo_file = False" "f_fst_clus demo_file = 3"
  "f_clus_chain demo_file = None"
  by (simp_all add: demo_file_def)

definition demo_now :: timespec where
  "demo_now = \<lparr>tv_sec = 1000000000, tv_nsec = 0\<rparr>"

lemma demo_need: "clus_need demo_BPB n = (if n = 0 then 0 else (n - 1) div 1024 + 1)"
  by (simp add: clus_need_def demo_BPB_def)

lemma demo_data_clus: "b \<in> set [3, 4, 5] \<Longrightarrow> data_clus demo_BPB b"
  by (auto simp: data_clus_def demo_BPB_ok)

lemma demo_file_ok: "disk_file demo_FAT demo_E demo_R demo_file [3, 4, 5]"
proof -
  have "file_holds demo_FAT demo_E demo_R demo_file [3, 4, 5]"
    using demo_chain demo_data_clus demo_data_secs
    by (simp add: file_holds_def demo_count isValidCluster_def del: chain.simps)
  then show ?thesis
    using demo_holds demo_reserved by (simp add: file_ok_def demo_count demo_data_secs demo_need)
qed

definition demo_empty :: fobj where
  "demo_empty = demo_file\<lparr>f_file_sz := 0, f_fst_clus := 0, f_fst_entry_num := 1\<rparr>"

lemma demo_empty_ok: "disk_file demo_FAT demo_E demo_R demo_empty []"
  using demo_holds demo_reserved
  by (simp add: file_ok_def demo_count demo_data_secs demo_need demo_empty_def file_holds_def isValidCluster_def)

lemma demo_free_ok: "frees demo_BPB demo_E = 250"
  by (simp add: frees_def demo_free demo_BPB_ok)

text \<open>Outside the FATs the image is zero.\<close>

lemma demo_zero:
  assumes "disk_fat F E demo_R" and "file_holds F E demo_R f xs" and "F_bpb F = demo_BPB"
  shows "file_content demo_R demo_BPB xs = replicate (1024 * length xs) 0"
proof (rule replicate_eqI)
  show "length (file_content demo_R demo_BPB xs) = 1024 * length xs"
    using length_content [OF assms(1,2)] assms(3) by simp (simp add: demo_BPB_def)
  fix x assume "x \<in> set (file_content demo_R demo_BPB xs)"
  then obtain s where s: "s \<in> set (file_secs demo_BPB xs)" "x \<in> set (the (demo_R s))"
    by (auto simp: file_content_def sec_bytes_def)
  have dc: "\<forall>x \<in> set xs. data_clus demo_BPB x" using assms(2,3) by (simp add: file_holds_def)
  from distinct_file_secs(2) [OF demo_BPB_ok(1) file_holds_facts(2) [OF assms(1,2)] dc] s(1) dc obtain b where
    b: "s \<in> clus_secs demo_BPB b" "data_clus demo_BPB b" by auto
  then have "s \<in> dom demo_R" using demo_data_secs by blast
  moreover have "40 \<le> unat s"
    using b unat_FirstSectorOfCluster(1) [OF demo_BPB_ok(1), of b]
    by (simp add: clus_secs_def data_clus_def demo_BPB_ok)
  ultimately have "the (demo_R s) = map demo_byte [unat s * 512..<(unat s + 1) * 512]"
    by (auto simp: demo_R_def restrict_map_def image_view_def SECTOR_SIZE_def split: if_splits)
  then show "x = 0" using s(2) \<open>40 \<le> unat s\<close> by (auto simp: demo_byte_def)
qed

lemma demo_content: "file_content demo_R demo_BPB [3, 4, 5] = replicate 3072 0"
proof -
  have "1024 * length [3, 4, 5 :: u32] = 3072" by simp
  with demo_zero [OF file_okD(1,2) [OF demo_file_ok] demo_count(2)] show ?thesis by (simp only:)
qed

lemma demo_bytes: "file_bytes demo_R demo_BPB demo_file [3, 4, 5] = replicate 3000 0"
  by (simp add: file_bytes_def demo_content)

section \<open>A file is a sequence of bytes\<close>

datatype file_op = Read_op u32 u32 | Write_op bytes u32
datatype file_result = Read_bytes bytes | Written u32

definition run_file_op :: "timespec \<times> file_op \<Rightarrow> lfd cache_mgr FAT \<times> fobj \<Rightarrow>
    (file_result \<times> lfd cache_mgr FAT \<times> fobj) option" where
  "run_file_op p st = (case (p, st) of ((now, opn), (F, f)) \<Rightarrow>
     (case opn of
        Read_op cnt off \<Rightarrow> do { (bs, f', F') \<leftarrow> File_read disk_ops now F f cnt off; Some (Read_bytes bs, F', f') }
      | Write_op buf off \<Rightarrow>
          do { (n, f', F') \<leftarrow> File_write disk_ops now F f buf (of_nat (length buf)) off; Some (Written n, F', f') }))"

fun run_file_ops :: "(timespec \<times> file_op) list \<Rightarrow> lfd cache_mgr FAT \<times> fobj \<Rightarrow>
    (file_result list \<times> lfd cache_mgr FAT \<times> fobj) option" where
  "run_file_ops [] st = Some ([], st)"
| "run_file_ops (p # ps) st = do { (r, st1) \<leftarrow> run_file_op p st; (rs, st2) \<leftarrow> run_file_ops ps st1; Some (r # rs, st2) }"

text \<open>The specification: the state is the bytes of the file and the number of free clusters. A
  write takes the clusters the longer file needs, or fails and changes nothing. What a gap
  between the old end and the offset holds is left open.\<close>

definition clusters_missing :: "BPB \<Rightarrow> bytes \<Rightarrow> nat \<Rightarrow> nat" where
  "clusters_missing bpb data n = clus_need bpb (max (length data) n) - clus_need bpb (length data)"

inductive spec_step :: "BPB \<Rightarrow> bytes \<times> nat \<Rightarrow> file_op \<Rightarrow> file_result \<Rightarrow> bytes \<times> nat \<Rightarrow> bool" for bpb where
  reads: "spec_step bpb (data, free) (Read_op cnt off) (Read_bytes (take (unat cnt) (drop (unat off) data))) (data, free)"
| writes: "length gap = unat off - length data \<Longrightarrow> clusters_missing bpb data (unat off + length buf) \<le> free \<Longrightarrow>
    spec_step bpb (data, free) (Write_op buf off) (Written (of_nat (length buf)))
      (overwrite (data @ gap) (unat off) buf, free - clusters_missing bpb data (unat off + length buf))"
| full: "free < clusters_missing bpb data (unat off + length buf) \<Longrightarrow>
    spec_step bpb (data, free) (Write_op buf off) (Written 0) (data, free)"

inductive spec_run :: "BPB \<Rightarrow> bytes \<times> nat \<Rightarrow> file_op list \<Rightarrow> file_result list \<Rightarrow> bytes \<times> nat \<Rightarrow> bool" for bpb where
  Nil: "spec_run bpb s [] [] s"
| Cons: "spec_step bpb s opn r s' \<Longrightarrow> spec_run bpb s' ops rs s'' \<Longrightarrow> spec_run bpb s (opn # ops) (r # rs) s''"

inductive_cases spec_run_ConsE: "spec_run bpb s (opn # ops) rs s''"
inductive_cases spec_run_NilE: "spec_run bpb s [] rs s''"
inductive_cases spec_readE: "spec_step bpb s (Read_op cnt off) r s'"
inductive_cases spec_writeE: "spec_step bpb s (Write_op buf off) r s'"

text \<open>Writes are not empty and end within 4 GiB.\<close>

fun op_ok :: "file_op \<Rightarrow> bool" where
  "op_ok (Read_op cnt off) = True"
| "op_ok (Write_op buf off) = (buf \<noteq> [] \<and> unat off + length buf < 2 ^ 32)"

text \<open>One write, whichever way it goes.\<close>

lemma write_step:
  assumes ok: "disk_file F E R f xs" and buf: "buf \<noteq> []" "unat off + length buf < 2 ^ 32"
  shows "\<exists>f' F' E' R' ys r. File_write disk_ops now F f buf (of_nat (length buf)) off = Some (r, f', F')
    \<and> disk_file F' E' R' f' (xs @ ys) \<and> F_bpb F' = F_bpb F \<and> only_clus (F_bpb F) xs ys E E' R R'
    \<and> spec_step (F_bpb F) (file_bytes R (F_bpb F) f xs, frees (F_bpb F) E) (Write_op buf off) (Written r)
        (file_bytes R' (F_bpb F) f' (xs @ ys), frees (F_bpb F) E')"
proof -
  let ?c = "of_nat (length buf) :: u32" and ?data = "file_bytes R (F_bpb F) f xs"
  note fo = file_okD [OF ok]
  have c: "unat ?c = length buf" using buf(2) by (intro unat_of_nat_lt) simp
  have m: "clusters_missing (F_bpb F) ?data (unat off + length buf)
      = clus_need (F_bpb F) (max (unat (f_file_sz f)) (unat off + length buf)) - clus_need (F_bpb F) (unat (f_file_sz f))"
    by (simp add: clusters_missing_def fo(7))
  show ?thesis
  proof (cases "unat off + length buf < unat (f_file_sz f)")
    case True
    then obtain f' F' R' where w: "File_write disk_ops now F f buf ?c off = Some (?c, f', F')" "disk_file F' E R' f' xs"
        "F_bpb F' = F_bpb F" "only_clus (F_bpb F) xs [] E E R R'" "file_bytes R' (F_bpb F) f' xs = overwrite ?data (unat off) buf"
      using lfd.cached.write_inside_ok [OF ok, of ?c buf off now] c by auto
    have "spec_step (F_bpb F) (?data, frees (F_bpb F) E) (Write_op buf off) (Written ?c)
        (overwrite (?data @ []) (unat off) buf, frees (F_bpb F) E - clusters_missing (F_bpb F) ?data (unat off + length buf))"
      by (rule writes) (use True in \<open>simp_all add: fo(7) m max_def\<close>)
    then show ?thesis
      using w True by (intro exI [of _ f'] exI [of _ F'] exI [of _ E] exI [of _ R'] exI [of _ "[]"] exI [of _ ?c])
        (simp add: m max_def)
  next
    case False
    then have ge: "unat (f_file_sz f) \<le> unat off + unat ?c" using c by simp
    have pos: "unat off + unat ?c < 2 ^ 32" "0 < unat ?c" "unat ?c \<le> length buf" using buf c by simp_all
    note w = lfd.cached.write_extend_ok [OF ok pos(3) ge pos(1,2), of now, unfolded c]
    have m': "clusters_missing (F_bpb F) ?data (unat off + length buf)
        = clus_need (F_bpb F) (unat off + length buf) - clus_need (F_bpb F) (unat (f_file_sz f))"
      using False by (simp add: m max_def)
    show ?thesis
    proof (cases "frees (F_bpb F) E < clusters_missing (F_bpb F) ?data (unat off + length buf)")
      case True
      obtain F' where "File_write disk_ops now F f buf ?c off = Some (0, f, F')" "disk_file F' E R f xs" "F_bpb F' = F_bpb F"
        using w(1) [folded m', OF True] by blast
      moreover have "only_clus (F_bpb F) xs [] E E R R" by (simp add: only_clus_def)
      ultimately show ?thesis using full [OF True] by (metis append_Nil2)
    next
      case enough: False
      then have le: "clusters_missing (F_bpb F) ?data (unat off + length buf) \<le> frees (F_bpb F) E" by simp
      obtain f' F' E' R' ys gap where w2: "File_write disk_ops now F f buf ?c off = Some (?c, f', F')"
          "disk_file F' E' R' f' (xs @ ys)" "F_bpb F' = F_bpb F"
          "frees (F_bpb F) E' = frees (F_bpb F) E - clusters_missing (F_bpb F) ?data (unat off + length buf)"
          "length gap = unat off - unat (f_file_sz f)" "only_clus (F_bpb F) xs ys E E' R R'"
          "file_bytes R' (F_bpb F) f' (xs @ ys) = overwrite (?data @ gap) (unat off) buf"
        using w(2) [folded m', OF le, unfolded take_all [OF order_refl]] by blast
      have "length gap = unat off - length ?data" using w2(5) by (simp add: fo(7))
      from writes [OF this le] w2 show ?thesis by metis
    qed
  qed
qed

lemma read_step:
  assumes "disk_file F E R f xs"
  shows "\<exists>f' F'. File_read disk_ops now F f cnt off = Some (take (unat cnt) (drop (unat off) (file_bytes R (F_bpb F) f xs)), f', F')
    \<and> disk_file F' E R f' xs \<and> F_bpb F' = F_bpb F \<and> file_bytes R (F_bpb F) f' xs = file_bytes R (F_bpb F) f xs"
  using lfd.cached.read_bytes_ok [OF assms, of now cnt off] by (auto simp: file_bytes_def)

text \<open>C2: Reads and writes of a regular file behave as on a sequence of bytes with a supply of free
  clusters: for every history of reads and non-empty writes the methods return what the
  specification allows, a write that needs more clusters than are free returns 0 and changes
  nothing, and the file stays sound. No call fails to come back.\<close>

theorem file_history_refines_bytes:
  assumes "disk_file F E R f xs" and "\<forall>p \<in> set ps. op_ok (snd p)"
  shows "\<exists>rs F' f' E' R' ys. run_file_ops ps (F, f) = Some (rs, F', f') \<and> disk_file F' E' R' f' ys
    \<and> spec_run (F_bpb F) (file_bytes R (F_bpb F) f xs, frees (F_bpb F) E) (map snd ps) rs
        (file_bytes R' (F_bpb F) f' ys, frees (F_bpb F) E')"
  using assms
proof (induction ps arbitrary: F E R f xs)
  case Nil
  then show ?case
    by (intro exI [of _ "[]"] exI [of _ F] exI [of _ f] exI [of _ E] exI [of _ R] exI [of _ xs]) (simp add: spec_run.Nil)
next
  case (Cons p ps)
  let ?s = "(file_bytes R (F_bpb F) f xs, frees (F_bpb F) E)"
  obtain r F1 f1 E1 R1 xs1 where s: "run_file_op p (F, f) = Some (r, F1, f1)" "disk_file F1 E1 R1 f1 xs1" "F_bpb F1 = F_bpb F"
      "spec_step (F_bpb F) ?s (snd p) r (file_bytes R1 (F_bpb F) f1 xs1, frees (F_bpb F) E1)"
  proof (cases "snd p")
    case (Read_op cnt off)
    obtain f1 F1 where "File_read disk_ops (fst p) F f cnt off
          = Some (take (unat cnt) (drop (unat off) (file_bytes R (F_bpb F) f xs)), f1, F1)"
        "disk_file F1 E R f1 xs" "F_bpb F1 = F_bpb F" "file_bytes R (F_bpb F) f1 xs = file_bytes R (F_bpb F) f xs"
      using read_step [OF Cons.prems(1)] by blast
    with Read_op show ?thesis
      by (intro that [of "Read_bytes (take (unat cnt) (drop (unat off) (file_bytes R (F_bpb F) f xs)))" F1 f1 E R xs])
        (simp_all add: run_file_op_def case_prod_beta reads)
  next
    case (Write_op buf off)
    then have "buf \<noteq> []" "unat off + length buf < 2 ^ 32" using Cons.prems(2) by simp_all
    from write_step [OF Cons.prems(1) this, of "fst p"] obtain f1 F1 E1 R1 ys r where
      "File_write disk_ops (fst p) F f buf (of_nat (length buf)) off = Some (r, f1, F1)"
      "disk_file F1 E1 R1 f1 (xs @ ys)" "F_bpb F1 = F_bpb F"
      "spec_step (F_bpb F) ?s (Write_op buf off) (Written r) (file_bytes R1 (F_bpb F) f1 (xs @ ys), frees (F_bpb F) E1)"
      by blast
    with Write_op show ?thesis
      by (intro that [of "Written r" F1 f1 E1 R1 "xs @ ys"]) (simp_all add: run_file_op_def case_prod_beta)
  qed
  obtain rs F2 f2 E2 R2 ys where "run_file_ops ps (F1, f1) = Some (rs, F2, f2)" "disk_file F2 E2 R2 f2 ys"
      "spec_run (F_bpb F) (file_bytes R1 (F_bpb F) f1 xs1, frees (F_bpb F) E1) (map snd ps) rs
        (file_bytes R2 (F_bpb F) f2 ys, frees (F_bpb F) E2)"
    using Cons.IH [OF s(2)] Cons.prems(2) s(3) by auto
  then show ?case
    using s(1) spec_run.Cons [OF s(4)]
    by (intro exI [of _ "r # rs"] exI [of _ F2] exI [of _ f2] exI [of _ E2] exI [of _ R2] exI [of _ ys]) simp
qed

theorem file_history_refines_bytes_witness:
  "\<exists>gap F' f'. length gap = 96 \<and> run_file_ops [(demo_now, Write_op [7, 8, 9] 3096), (demo_now, Read_op 5 2998), (demo_now, Read_op 9 3096)] (demo_FAT, demo_file)
    = Some ([Written 3, Read_bytes ([0, 0] @ take 3 gap), Read_bytes [7, 8, 9]], F', f')"
proof -
  obtain rs F' f' E' R' ys where
    r: "run_file_ops [(demo_now, Write_op [7, 8, 9] 3096), (demo_now, Read_op 5 2998), (demo_now, Read_op 9 3096)] (demo_FAT, demo_file) = Some (rs, F', f')"
    and s: "spec_run demo_BPB (replicate 3000 0, 250) [Write_op [7, 8, 9] 3096, Read_op 5 2998, Read_op 9 3096] rs
        (file_bytes R' demo_BPB f' ys, frees demo_BPB E')"
    using file_history_refines_bytes [OF demo_file_ok,
        of "[(demo_now, Write_op [7, 8, 9] 3096), (demo_now, Read_op 5 2998), (demo_now, Read_op 9 3096)]"]
    by (auto simp: demo_count demo_bytes demo_free_ok)
  obtain D :: bytes where D: "D = replicate 3000 0" by simp
  then have len: "length D = 3000" "drop 2998 D = [0, 0]" by (simp_all add: numeral_2_eq_2)
  have m: "clusters_missing demo_BPB D 3099 = 1" by (simp add: clusters_missing_def demo_need len)
  have ow: "overwrite (D @ gap) 3096 [7, 8, 9] = D @ gap @ [7, 8, 9]" if "length gap = 96" for gap
    using that by (simp add: overwrite_def len)
  from s [folded D] obtain r1 r2 r3 s1 s2 where
    st: "spec_step demo_BPB (D, 250) (Write_op [7, 8, 9] 3096) r1 s1" "spec_step demo_BPB s1 (Read_op 5 2998) r2 s2"
      "spec_step demo_BPB s2 (Read_op 9 3096) r3 (file_bytes R' demo_BPB f' ys, frees demo_BPB E')" "rs = [r1, r2, r3]"
    by (elim spec_run_ConsE spec_run_NilE) blast
  from st(1) obtain gap where gap: "length gap = 96" "r1 = Written 3" "s1 = (D @ gap @ [7, 8, 9], 249)"
    by (rule spec_writeE) (auto simp: m ow len)
  from st(2) gap(3) have r2: "r2 = Read_bytes (take 5 (drop 2998 (D @ gap @ [7, 8, 9])))" "s2 = s1"
    by (auto elim!: spec_readE simp del: drop_append take_append append_assoc)
  from st(3) gap(3) r2(2) have "r3 = Read_bytes (take 9 (drop 3096 (D @ gap @ [7, 8, 9])))"
    by (auto elim!: spec_readE simp del: drop_append take_append append_assoc)
  then have "rs = [Written 3, Read_bytes ([0, 0] @ take 3 gap), Read_bytes [7, 8, 9]]"
    using gap(1) by (simp add: st(4) gap(2) r2(1) len)
  with r gap(1) show ?thesis by blast
qed

text \<open>C4: What a successful write stores is what a read of the same range returns, whether the range
  lies inside the file, overlaps its end or starts behind it.\<close>

theorem write_then_read:
  assumes "disk_file F E R f xs" and "buf \<noteq> []" and "unat off + length buf < 2 ^ 32"
    and "clusters_missing (F_bpb F) (file_bytes R (F_bpb F) f xs) (unat off + length buf) \<le> frees (F_bpb F) E"
  shows "\<exists>f1 F1 f2 F2. File_write disk_ops now F f buf (of_nat (length buf)) off = Some (of_nat (length buf), f1, F1)
    \<and> File_read disk_ops now' F1 f1 (of_nat (length buf)) off = Some (buf, f2, F2)"
proof -
  let ?data = "file_bytes R (F_bpb F) f xs" and ?c = "of_nat (length buf) :: u32"
  have c: "unat ?c = length buf" using assms(3) by (intro unat_of_nat_lt) simp
  obtain f1 F1 E1 R1 ys r where w: "File_write disk_ops now F f buf ?c off = Some (r, f1, F1)"
      "disk_file F1 E1 R1 f1 (xs @ ys)" "F_bpb F1 = F_bpb F"
      "spec_step (F_bpb F) (?data, frees (F_bpb F) E) (Write_op buf off) (Written r)
        (file_bytes R1 (F_bpb F) f1 (xs @ ys), frees (F_bpb F) E1)"
    using write_step [OF assms(1-3)] by blast
  from w(4) obtain gap where g: "r = ?c" "length gap = unat off - length ?data"
      "file_bytes R1 (F_bpb F) f1 (xs @ ys) = overwrite (?data @ gap) (unat off) buf"
    by (rule spec_writeE) (use assms(4) in auto)
  have "take (length buf) (drop (unat off) (file_bytes R1 (F_bpb F) f1 (xs @ ys))) = buf"
    unfolding g(3) by (rule overwrite_slice) (simp add: g(2))
  then show ?thesis using w(1) g(1) read_step [OF w(2), of now' ?c off] by (auto simp: c w(3))
qed

theorem write_then_read_witness:
  "\<exists>f1 F1 f2 F2. File_write disk_ops demo_now demo_FAT demo_file [7, 8, 9] 3 2999 = Some (3, f1, F1)
    \<and> File_read disk_ops demo_now F1 f1 3 2999 = Some ([7, 8, 9], f2, F2)"
proof -
  obtain D :: bytes where D: "D = replicate 3000 0" by simp
  then have "length D = 3000" by simp
  then have "clusters_missing demo_BPB D 3002 \<le> 250" by (simp add: clusters_missing_def demo_need)
  then show ?thesis
    using write_then_read [OF demo_file_ok, of "[7, 8, 9]" 2999 demo_now demo_now]
    by (simp add: demo_count demo_bytes demo_free_ok flip: D)
qed

section \<open>Other files\<close>

text \<open>C5: Writing to a file changes no other file: a file whose chain shares no cluster with it keeps
  its chain and its bytes, however the write goes.\<close>

theorem write_keeps_other_files:
  assumes "disk_file F E R f xs" and "disk_file F E R g zs" and "set xs \<inter> set zs = {}"
    and "buf \<noteq> []" and "unat off + length buf < 2 ^ 32"
  shows "\<exists>r f' F' E' R' ys. File_write disk_ops now F f buf (of_nat (length buf)) off = Some (r, f', F')
    \<and> disk_file F' E' R' f' ys \<and> disk_file F' E' R' g zs \<and> set ys \<inter> set zs = {}
    \<and> file_bytes R' (F_bpb F) g zs = file_bytes R (F_bpb F) g zs"
proof -
  obtain f' F' E' R' ys r where w: "File_write disk_ops now F f buf (of_nat (length buf)) off = Some (r, f', F')"
      "disk_file F' E' R' f' (xs @ ys)" "F_bpb F' = F_bpb F" "only_clus (F_bpb F) xs ys E E' R R'"
    using write_step [OF assms(1,4,5), of now] by blast
  have dis: "set (xs @ ys) \<inter> set zs = {}"
    using file_clus_used(1) [OF file_okD(2) [OF assms(2)]] w(4) assms(3) by (auto simp: only_clus_def)
  note kept = file_apart [OF file_okD(1,2) [OF assms(2)] file_okD(1,2) [OF w(2)] w(3,4) dis]
  have "disk_file F' E' R' g zs" using w(2,3) assms(2) kept(1) by (simp add: file_ok_def)
  moreover note kept(2)
  ultimately show ?thesis
    using w(1,2) dis by (intro exI [of _ r] exI [of _ f'] exI [of _ F'] exI [of _ E'] exI [of _ R'] exI [of _ "xs @ ys"])
      (simp add: file_bytes_def)
qed

theorem write_keeps_other_files_witness:
  "\<exists>r f' F' E' R' ys. File_write disk_ops demo_now demo_FAT demo_empty [7, 8, 9] 3 0 = Some (r, f', F')
    \<and> disk_file F' E' R' f' ys \<and> disk_file F' E' R' demo_file [3, 4, 5] \<and> set ys \<inter> {3, 4, 5} = {}
    \<and> file_bytes R' demo_BPB demo_file [3, 4, 5] = replicate 3000 0"
  using write_keeps_other_files [OF demo_empty_ok demo_file_ok, of "[7, 8, 9]" 0 demo_now]
  by (simp add: demo_count demo_bytes)

section \<open>Truncating\<close>

lemma file_holds_took: "file_holds (took k d F) E R f xs = file_holds F E R f xs"
  by (simp add: file_holds_def)

lemma truncate_shrinks:
  assumes "disk_file F E R f xs" and True: "clus_need (F_bpb F) (unat len) \<le> length xs"
  shows "\<exists>F' f' E' ys. File_truncate disk_ops F f len = Some (True, f', F') \<and> disk_fat F' E' R \<and> file_holds F' E' R f' ys
    \<and> f_file_sz f' = len \<and> length ys = clus_need (F_bpb F) (unat len)
    \<and> take (unat (min len (f_file_sz f))) (file_bytes R (F_bpb F) f' ys) = take (unat (min len (f_file_sz f))) (file_bytes R (F_bpb F) f xs)"
proof -
  note fo = file_okD [OF assms(1)]
  let ?k = "clus_need (F_bpb F) (unat len)"
  obtain d f' where t: "File_truncate disk_ops F f len = Some (True, f', took (of_nat (length xs - ?k)) d F)"
      "disk_fat (F\<lparr>F_device := d\<rparr>) (cut ?k xs E) R" "file_holds F (cut ?k xs E) R f' (take ?k xs)" "f_file_sz f' = len"
    using lfd.cached.truncate_shrink_ok [OF fo(1,2) True] fo(8) by auto
  have "take n (file_bytes R (F_bpb F) f' (take ?k xs)) = take n (file_bytes R (F_bpb F) f xs)"
    if "n = unat (min len (f_file_sz f))" for n
  proof -
    have "file_content R (F_bpb F) (take ?k xs) = take (512 * (?k * spc (F_bpb F))) (file_content R (F_bpb F) xs)"
    proof -
      have "length (file_content R (F_bpb F) (take ?k xs)) = 512 * (?k * spc (F_bpb F))"
        using length_content [OF t(2) , of f' "take ?k xs"] t(3) True by (simp add: min_def)
      then show ?thesis
        using file_content_append [of R "F_bpb F" "take ?k xs" "drop ?k xs"] by simp
    qed
    moreover have "n \<le> unat len" "n \<le> unat (f_file_sz f)" "unat len \<le> 512 * (?k * spc (F_bpb F))"
      using that clus_need_covers [OF file_holds_facts(4) [OF fo(1,2)]] by (simp_all add: min_def word_le_nat_alt)
    ultimately show ?thesis by (simp add: file_bytes_def t(4) min_def)
  qed
  with t True show ?thesis
    by (intro exI [of _ "took (of_nat (length xs - ?k)) d F"] exI [of _ f']
        exI [of _ "cut ?k xs E"] exI [of _ "take ?k xs"]) (simp add: fat_holds_took file_holds_took)
qed

text \<open>C6: \<open>File::truncate\<close> succeeds exactly when the clusters the new size needs are in the file or
  free. Then the file has the new size and just these clusters, and keeps the bytes both sizes
  share; otherwise nothing changes. The data sectors are not written.\<close>

theorem truncate_sets_the_size:
  assumes "disk_file F E R f xs"
  shows "\<exists>ok F' f' E' ys. File_truncate disk_ops F f len = Some (ok, f', F') \<and> disk_fat F' E' R \<and> file_holds F' E' R f' ys
    \<and> (ok \<longleftrightarrow> clus_need (F_bpb F) (unat len) \<le> length xs + frees (F_bpb F) E)
    \<and> (if ok then f_file_sz f' = len \<and> length ys = clus_need (F_bpb F) (unat len)
          \<and> take (unat (min len (f_file_sz f))) (file_bytes R (F_bpb F) f' ys)
              = take (unat (min len (f_file_sz f))) (file_bytes R (F_bpb F) f xs)
        else f' = f \<and> E' = E \<and> ys = xs)"
proof -
  note fo = file_okD [OF assms]
  let ?k = "clus_need (F_bpb F) (unat len)"
  show ?thesis
  proof (cases "?k \<le> length xs")
    case True
    from truncate_shrinks [OF assms True] obtain F' f' E' ys where "File_truncate disk_ops F f len = Some (True, f', F')"
      "disk_fat F' E' R" "file_holds F' E' R f' ys" "f_file_sz f' = len" "length ys = ?k"
      "take (unat (min len (f_file_sz f))) (file_bytes R (F_bpb F) f' ys) = take (unat (min len (f_file_sz f))) (file_bytes R (F_bpb F) f xs)"
      by blast
    with True show ?thesis by (intro exI [of _ True] exI [of _ F'] exI [of _ f'] exI [of _ E'] exI [of _ ys]) simp
  next
    case False
    then have le: "unat (f_file_sz f) \<le> unat len"
      using clus_need_mono [of "unat len" "unat (f_file_sz f)" "F_bpb F"] fo(9) by linarith
    have sz: "unat (min len (f_file_sz f)) = unat (f_file_sz f)" using le by (auto simp: min_def word_le_nat_alt)
    note ext = lfd.cached.truncate_extend_ok [OF assms le, folded fo(9)]
    show ?thesis
    proof (cases "frees (F_bpb F) E < ?k - length xs")
      case True
      from ext(1) [OF this] obtain F' where "File_truncate disk_ops F f len = Some (False, f, F')" "disk_file F' E R f xs" by blast
      with True file_okD(1,2) [OF this(2)] show ?thesis
        by (intro exI [of _ False] exI [of _ F'] exI [of _ f] exI [of _ E] exI [of _ xs]) simp
    next
      case enough: False
      then obtain F' f' E' cs where t: "File_truncate disk_ops F f len = Some (True, f', F')" "disk_file F' E' R f' (xs @ cs)"
          "F_bpb F' = F_bpb F" "f_file_sz f' = len"
        using ext(2) by auto
      have "take (unat (f_file_sz f)) (file_bytes R (F_bpb F) f' (xs @ cs)) = file_bytes R (F_bpb F) f xs"
        using le fo(6) length_content [OF fo(1,2)] by (simp add: file_bytes_def t(4) file_content_append min_def)
      moreover have "take (unat (f_file_sz f)) (file_bytes R (F_bpb F) f xs) = file_bytes R (F_bpb F) f xs"
        by (rule take_all) (simp add: fo(7))
      moreover have "length (xs @ cs) = ?k" using file_okD(9) [OF t(2)] t(3,4) by simp
      ultimately show ?thesis
        using t False enough file_okD(1,2) [OF t(2)]
        by (intro exI [of _ True] exI [of _ F'] exI [of _ f'] exI [of _ E'] exI [of _ "xs @ cs"]) (simp add: sz)
    qed
  qed
qed

theorem truncate_sets_the_size_witness:
  "\<exists>F' f' E' ys. File_truncate disk_ops demo_FAT demo_file 1500 = Some (True, f', F') \<and> disk_fat F' E' demo_R
    \<and> file_holds F' E' demo_R f' ys \<and> f_file_sz f' = 1500 \<and> length ys = 2"
proof -
  have "clus_need demo_BPB 1500 = 2" by (simp add: demo_need)
  with truncate_sets_the_size [OF demo_file_ok, of 1500] obtain ok F' f' E' ys where
    "File_truncate disk_ops demo_FAT demo_file 1500 = Some (ok, f', F')" "disk_fat F' E' demo_R" "file_holds F' E' demo_R f' ys"
    "ok = True" "f_file_sz f' = 1500" "length ys = 2"
    by (auto simp: demo_count)
  then show ?thesis by blast
qed

text \<open>C7: \<open>truncate\<close> does not clear what it cuts off: making a file shorter and longer again, within its
  clusters, brings the old bytes back, where a POSIX file would read as zeros.\<close>

theorem truncated_bytes_come_back:
  assumes "disk_file F E R f xs" and "len \<le> f_file_sz f"
    and "clus_need (F_bpb F) (unat len) = clus_need (F_bpb F) (unat (f_file_sz f))"
  shows "\<exists>f1 F1 f2 F2 E2. File_truncate disk_ops F f len = Some (True, f1, F1) \<and> f_file_sz f1 = len
    \<and> File_truncate disk_ops F1 f1 (f_file_sz f) = Some (True, f2, F2) \<and> disk_file F2 E2 R f2 xs \<and> F_bpb F2 = F_bpb F
    \<and> file_bytes R (F_bpb F) f2 xs = file_bytes R (F_bpb F) f xs"
proof -
  note fo = file_okD [OF assms(1)]
  obtain F1 f1 E1 where t1: "File_truncate disk_ops F f len = Some (True, f1, F1)" "disk_file F1 E1 R f1 xs"
      "F_bpb F1 = F_bpb F" "f_file_sz f1 = len"
    using lfd.cached.truncate_fit_ok [OF assms(1), of len] assms(3) fo(9) by auto
  obtain F2 f2 E2 where "File_truncate disk_ops F1 f1 (f_file_sz f) = Some (True, f2, F2)" "disk_file F2 E2 R f2 xs"
      "F_bpb F2 = F_bpb F" "f_file_sz f2 = f_file_sz f"
    using lfd.cached.truncate_fit_ok [OF t1(2), of "f_file_sz f"] t1(3) fo(9) by auto
  with t1 show ?thesis by (auto simp: file_bytes_def)
qed

theorem truncated_bytes_come_back_witness:
  "\<exists>f0 F0 f1 F1 f2 F2 f3 F3. File_write disk_ops demo_now demo_FAT demo_file [7] 1 2998 = Some (1, f0, F0)
    \<and> File_truncate disk_ops F0 f0 2100 = Some (True, f1, F1) \<and> File_truncate disk_ops F1 f1 3000 = Some (True, f2, F2)
    \<and> File_read disk_ops demo_now F2 f2 1 2998 = Some ([7], f3, F3)"
proof -
  obtain f0 F0 R0 where w: "File_write disk_ops demo_now demo_FAT demo_file [7] 1 2998 = Some (1, f0, F0)"
      "disk_file F0 demo_E R0 f0 [3, 4, 5]" "F_bpb F0 = demo_BPB" "f_file_sz f0 = 3000"
      "file_bytes R0 demo_BPB f0 [3, 4, 5] = overwrite (replicate 3000 0) 2998 [7]"
    using lfd.cached.write_inside_ok [OF demo_file_ok, of 1 "[7]" 2998 demo_now] by (auto simp: demo_count demo_bytes)
  have "clus_need demo_BPB 2100 = clus_need demo_BPB 3000" by (simp add: demo_need)
  then obtain f1 F1 f2 F2 E2 where t: "File_truncate disk_ops F0 f0 2100 = Some (True, f1, F1)"
      "File_truncate disk_ops F1 f1 3000 = Some (True, f2, F2)" "disk_file F2 E2 R0 f2 [3, 4, 5]" "F_bpb F2 = demo_BPB"
      "file_bytes R0 demo_BPB f2 [3, 4, 5] = overwrite (replicate 3000 0) 2998 [7]"
    using truncated_bytes_come_back [OF w(2), of 2100] by (auto simp: w(3,4,5))
  have "take 1 (drop 2998 (overwrite (replicate 3000 0) 2998 [7 :: u8])) = [7]"
    using overwrite_slice [of 2998 "replicate 3000 0" "[7 :: u8]"] by simp
  with read_step [OF t(3), of demo_now 1 2998] w(1) t(1,2) show ?thesis
    unfolding t(4,5) by auto
qed

text \<open>C8: Writing no bytes at the end of a file whose clusters are full, an empty file included, does
  not return: \<open>write\<close> takes the value of the missing sector behind the end.\<close>

theorem empty_write_at_end_aborts:
  assumes "disk_file F E R f xs" and "unat (f_file_sz f) = 512 * (length xs * unat (BPB_sec_per_clus (F_bpb F)))"
  shows "File_write disk_ops now F f buf 0 (f_file_sz f) = None"
proof -
  note fo = file_okD [OF assms(1)]
  obtain F' f' E' where t: "File_truncate disk_ops F f (f_file_sz f) = Some (True, f', F')" "disk_file F' E' R f' xs" "F_bpb F' = F_bpb F"
    using lfd.cached.truncate_fit_ok [OF assms(1), of "f_file_sz f"] fo(9) by auto
  have n: "f_file_sz f div 512 = of_nat (length xs * spc (F_bpb F))"
    unfolding word_split_512(1) assms(2) by simp
  have "modify_sector disk_ops F' f' (f_file_sz f div 512) off g = None" for off g
    using lfd.cached.sector_no_ok [OF file_okD(1,2) [OF t(2)] file_holds_facts(3) [OF fo(1,2)]]
    unfolding n modify_sector_def by (auto simp: t(3))
  then show ?thesis
    using t(1) lfd.cached.bps_512 [OF fo(1)] fo(8) by (simp add: File_write_def file_sz_def Let_def)
qed

theorem empty_write_at_end_aborts_witness: "File_write disk_ops demo_now demo_FAT demo_empty [] 0 0 = None"
  using empty_write_at_end_aborts [OF demo_empty_ok, of demo_now "[]"] by (simp add: demo_empty_def)

end
