(* ===== verification/FsDirectory.thy ===== *)
theory FsDirectory
  imports FsFile
begin

text \<open>
  The class \<open>Directory\<close> of \<^verbatim>\<open>library/fs.h\<close> and \<^verbatim>\<open>library/fs.cpp\<close>, as far as it works on the
  directory object and the disk: the directory entries are the 32-byte records of the file the
  directory is. What also concerns the lookup cache follows with the file system object.
  \<open>now\<close> is the clock, which an operation reads every time it reads or writes an entry. A loop over the
  entries ends at the end of the chain; it is a \<open>partial_function\<close>, and that it ends is proved.
\<close>

section \<open>Entries\<close>

definition readDirEntry ::
  "'d device_ops \<Rightarrow> timespec \<Rightarrow> 'd FAT \<Rightarrow> fobj \<Rightarrow> u32 \<Rightarrow> (LongDirEntry option \<times> fobj \<times> 'd FAT) option" where
  "readDirEntry D now F f n =
     do { (out, f', F') \<leftarrow> File_read D now F f KDirEntrySize (KDirEntrySize * n);
          Some (if length out = 32 then Some (decode_long out) else None, f', F') }"

definition writeDirEntry ::
  "'d device_ops \<Rightarrow> timespec \<Rightarrow> 'd FAT \<Rightarrow> fobj \<Rightarrow> u32 \<Rightarrow> LongDirEntry \<Rightarrow> (bool \<times> fobj \<times> 'd FAT) option" where
  "writeDirEntry D now F f n dir_entry =
     do { (wrt_sz, f', F') \<leftarrow> File_write D now F f (encode_long dir_entry) KDirEntrySize (KDirEntrySize * n);
          Some (wrt_sz = KDirEntrySize, f', F') }"

text \<open>\<open>LongDirEntry dir_entry{}\<close>.\<close>

definition zero_entry :: LongDirEntry where
  "zero_entry = decode_long (replicate 32 0)"

subsection \<open>Is anything left?\<close>

text \<open>The counter is an \<open>i64\<close>; the entry number it becomes is a \<open>u32\<close>.\<close>

partial_function (option) lst_loop ::
  "'d device_ops \<Rightarrow> timespec \<Rightarrow> 'd FAT \<Rightarrow> fobj \<Rightarrow> int \<Rightarrow> (bool \<times> fobj \<times> 'd FAT) option" where
  "lst_loop D now F f n =
     do { r \<leftarrow> readDirEntry D now F f (word_of_int n);
          (case r of
             (None, f', F') \<Rightarrow> Some (True, f', F')
           | (Some e, f', F') \<Rightarrow>
               if \<not> isEmptyDirEntry e then Some (False, f', F')
               else if isLstEmptyDirEntry e then Some (True, f', F')
               else lst_loop D now F' f' (n + 1)) }"

definition isLstNonEmptyEntry ::
  "'d device_ops \<Rightarrow> timespec \<Rightarrow> 'd FAT \<Rightarrow> fobj \<Rightarrow> int \<Rightarrow> (bool \<times> fobj \<times> 'd FAT) option" where
  "isLstNonEmptyEntry D now F f n = lst_loop D now F f (if n < 0 then 0 else n + 1)"

definition isEmpty :: "'d device_ops \<Rightarrow> timespec \<Rightarrow> 'd FAT \<Rightarrow> fobj \<Rightarrow> (bool \<times> fobj \<times> 'd FAT) option" where
  "isEmpty D now F f = isLstNonEmptyEntry D now F f (if ino f = KRootDirIno then -1 else 1)"

section \<open>Looking up a name\<close>

record DirEntryRange =
  range_start :: u32
  range_count :: u32

text \<open>The local variables of the loop: the entries seen of the current file, the long name read so
  far, and the check sum of the first of them.\<close>

record lookup_state =
  has_l_entry :: bool
  target_entry_start :: u32
  target_entry_cnt :: u32
  lk_chk_sum :: u8
  read_long_name :: bytes

definition lookup_reset :: "lookup_state \<Rightarrow> lookup_state" where
  "lookup_reset s = s\<lparr>has_l_entry := False, target_entry_cnt := 0, read_long_name := []\<rparr>"

text \<open>One entry: \<open>Inl\<close> ends the loop with the result, \<open>Inr\<close> goes on.\<close>

definition lookup_step ::
  "bytes \<Rightarrow> bytes \<Rightarrow> u32 \<Rightarrow> LongDirEntry \<Rightarrow> lookup_state \<Rightarrow> (DirEntryRange option + lookup_state) option" where
  "lookup_step utf16_name gbk_name cur_entry e s =
     (if isLstEmptyDirEntry e then Some (Inl None)
      else if isEmptyDirEntry e then Some (Inr (lookup_reset s))
      else let s1 = (if target_entry_cnt s = 0
                     then s\<lparr>target_entry_start := cur_entry, lk_chk_sum := chk_sum e\<rparr> else s);
               s2 = s1\<lparr>target_entry_cnt := target_entry_cnt s1 + 1\<rparr>
           in if \<not> isLongDirEntry e
              then do { read_short_name \<leftarrow> readShortEntryName (castLongDirEntryToShort e);
                        _ \<leftarrow> (if target_entry_cnt s2 > 1
                             then do { basis_name \<leftarrow> genBasisNameFromShort read_short_name;
                                       ensure (chkSum basis_name = lk_chk_sum s2) }
                             else Some ());
                        if has_l_entry s2 \<and> read_long_name s2 = utf16_name
                             \<or> \<not> has_l_entry s2 \<and> read_short_name = gbk_name
                        then Some (Inl (Some \<lparr>range_start = target_entry_start s2, range_count = target_entry_cnt s2\<rparr>))
                        else Some (Inr (lookup_reset s2)) }
              else do { ensure (isValidLongDirEntry e (lk_chk_sum s2));
                        Some (Inr (s2\<lparr>has_l_entry := True,
                          read_long_name := readLongEntryName e @ read_long_name s2\<rparr>)) })"

partial_function (option) lookup_loop ::
  "'d device_ops \<Rightarrow> timespec \<Rightarrow> bytes \<Rightarrow> bytes \<Rightarrow> 'd FAT \<Rightarrow> fobj \<Rightarrow> u32 \<Rightarrow> lookup_state \<Rightarrow>
    (DirEntryRange option \<times> fobj \<times> 'd FAT) option" where
  "lookup_loop D now utf16_name gbk_name F f cur_entry s =
     do { r \<leftarrow> readDirEntry D now F f cur_entry;
          (case r of
             (None, f', F') \<Rightarrow> Some (None, f', F')
           | (Some e, f', F') \<Rightarrow>
               do { r \<leftarrow> lookup_step utf16_name gbk_name cur_entry e s;
                    (case r of
                       Inl res \<Rightarrow> Some (res, f', F')
                     | Inr s' \<Rightarrow> lookup_loop D now utf16_name gbk_name F' f' (cur_entry + 1) s') }) }"

text \<open>\<open>target_entry_start\<close> and \<open>chk_sum\<close> are not initialised; they are set before they are read.\<close>

definition lookup_init :: lookup_state where
  "lookup_init = \<lparr>has_l_entry = False, target_entry_start = 0, target_entry_cnt = 0, lk_chk_sum = 0,
     read_long_name = []\<rparr>"

definition lookupFileInner ::
  "'d device_ops \<Rightarrow> conversions \<Rightarrow> timespec \<Rightarrow> 'd FAT \<Rightarrow> fobj \<Rightarrow> bytes \<Rightarrow>
    (DirEntryRange option \<times> fobj \<times> 'd FAT) option" where
  "lookupFileInner D C now F f nm =
     do { utf16_name \<leftarrow> utf8ToUtf16 C nm;
          gbk_name \<leftarrow> utf8ToGbk C (toUpper nm);
          lookup_loop D now utf16_name gbk_name F f 0 lookup_init }"

section \<open>Deleting entries\<close>

function erase_range ::
  "'d device_ops \<Rightarrow> timespec \<Rightarrow> u32 \<Rightarrow> 'd FAT \<Rightarrow> fobj \<Rightarrow> u32 \<Rightarrow> (fobj \<times> 'd FAT) option" where
  "erase_range D now e F f cur_no =
     (if cur_no < e
      then do { (_, f', F') \<leftarrow> writeDirEntry D now F f cur_no (setDirEntryEmpty zero_entry);
                erase_range D now e F' f' (cur_no + 1) }
      else Some (f, F))"
  by pat_completeness auto
termination
  by (relation "measure (\<lambda>(D, now, e, F, f, i). unat e - unat i)") (auto simp: word_less_nat_alt unat_plus1)

declare erase_range.simps [simp del]

text \<open>\<open>delFile\<close> up to the lookup cache; the result is where the entries were.\<close>

definition delFile_disk ::
  "'d device_ops \<Rightarrow> conversions \<Rightarrow> timespec \<Rightarrow> 'd FAT \<Rightarrow> fobj \<Rightarrow> bytes \<Rightarrow>
    (DirEntryRange option \<times> fobj \<times> 'd FAT) option" where
  "delFile_disk D C now F f nm =
     do { (result, f1, F1) \<leftarrow> lookupFileInner D C now F f nm;
          case result of
            None \<Rightarrow> Some (None, f1, F1)
          | Some rg \<Rightarrow>
              do { (f2, F2) \<leftarrow> erase_range D now (range_start rg + range_count rg) F1 f1 (range_start rg);
                   let short_dir_entry_no = range_start rg + range_count rg - 1;
                   (lst, f3, F3) \<leftarrow> isLstNonEmptyEntry D now F2 f2 (uint short_dir_entry_no);
                   if lst
                   then do { (_, f4, F4) \<leftarrow> writeDirEntry D now F3 f3 short_dir_entry_no (setDirEntryLstEmpty zero_entry);
                             (_, f5, F5) \<leftarrow> File_truncate D F4 f4 ((range_start rg + 1) * KDirEntrySize);
                             Some (Some rg, f5, F5) }
                   else Some (Some rg, f3, F3) } }"

section \<open>Creating entries\<close>

text \<open>The search for \<open>required\<close> empty entries in a row; the results are \<open>cur_entry\<close>,
  \<open>free_entry_start\<close> and \<open>free_entry_cnt\<close>.\<close>

partial_function (option) space_loop ::
  "'d device_ops \<Rightarrow> timespec \<Rightarrow> u32 \<Rightarrow> 'd FAT \<Rightarrow> fobj \<Rightarrow> u32 \<Rightarrow> u32 \<Rightarrow> u32 \<Rightarrow>
    (u32 \<times> u32 \<times> u32 \<times> fobj \<times> 'd FAT) option" where
  "space_loop D now required F f cur_entry free_entry_start free_entry_cnt =
     (if free_entry_cnt < required
      then do { r \<leftarrow> readDirEntry D now F f cur_entry;
                (case r of
                   (None, f', F') \<Rightarrow> Some (cur_entry, free_entry_start, free_entry_cnt, f', F')
                 | (Some e, f', F') \<Rightarrow>
                     if isEmptyDirEntry e
                     then space_loop D now required F' f' (cur_entry + 1)
                            (if free_entry_cnt = 0 then cur_entry else free_entry_start) (free_entry_cnt + 1)
                     else space_loop D now required F' f' (cur_entry + 1) free_entry_start 0) }
      else Some (cur_entry, free_entry_start, free_entry_cnt, f, F))"

definition wrap_left :: "u32 \<Rightarrow> nat" where
  "wrap_left i = (if i = 0 then 0 else 2 ^ 32 - unat i)"

lemma wrap_left_less:
  assumes "i \<noteq> 0"
  shows "wrap_left (i + 1) < wrap_left i"
proof -
  obtain K :: nat where K: "K = 2 ^ 32" by blast
  have "unat i < K" using unsigned_less [of i, where 'a = nat] unfolding K by simp
  moreover have "unat (i + 1) = Suc (unat i)" if "i + 1 \<noteq> 0" using unatSuc [of i] that by (simp add: add.commute)
  ultimately show ?thesis using assms unfolding wrap_left_def K [symmetric] by (auto intro: diff_less_mono2)
qed

text \<open>\<open>l_dir_ord\<close> starts at 1; were it to wrap around to 0, the loop would not end.\<close>

function write_long_entries ::
  "'d device_ops \<Rightarrow> timespec \<Rightarrow> u32 \<Rightarrow> u32 \<Rightarrow> u8 \<Rightarrow> bytes \<Rightarrow> 'd FAT \<Rightarrow> fobj \<Rightarrow> u32 \<Rightarrow> u32 \<Rightarrow> (fobj \<times> 'd FAT) option" where
  "write_long_entries D now start required crc utf16_name F f l_dir_ord off =
     (if l_dir_ord \<le> required - 1
      then do { ensure (l_dir_ord \<noteq> 0);
                let l_dir_entry = mkLongDirEntry (l_dir_ord = required - 1) (ucast l_dir_ord) crc utf16_name off;
                (_, f', F') \<leftarrow> writeDirEntry D now F f (start + required - l_dir_ord - 1) l_dir_entry;
                write_long_entries D now start required crc utf16_name F' f' (l_dir_ord + 1) (off + 26) }
      else Some (f, F))"
  by pat_completeness auto

termination
  by (relation "measure (\<lambda>(D, now, s, r, crc, nm, F, f, i, off). wrap_left i)") (auto intro: wrap_left_less)

declare write_long_entries.simps [simp del]

text \<open>\<open>crtFileInner\<close> up to the new object: the number of its first entry and its short entry.\<close>

definition required_entries :: "bytes \<Rightarrow> u32" where
  "required_entries utf16_name = ucast ((of_nat (length utf16_name) - 1 :: u64) div 26 + 1) + 1"

definition crtFile_disk ::
  "'d device_ops \<Rightarrow> conversions \<Rightarrow> timespec \<Rightarrow> 'd FAT \<Rightarrow> fobj \<Rightarrow> bytes \<Rightarrow> bool \<Rightarrow>
    ((u32 \<times> ShortDirEntry) option \<times> fobj \<times> 'd FAT) option" where
  "crtFile_disk D C now F f nm is_dir =
     do { utf16_name \<leftarrow> utf8ToUtf16 C nm;
          let required = required_entries utf16_name;
          (cur_entry, start0, free_cnt, f1, F1) \<leftarrow> space_loop D now required F f 0 0 0;
          (ok, start, f2, F2) \<leftarrow>
            (if free_cnt < required
             then do { (sz, f2, F2) \<leftarrow> file_sz D F1 f1;
                       (ok, f3, F3) \<leftarrow> File_truncate D F2 f2 (sz + (required - free_cnt) * KDirEntrySize);
                       Some (ok, if free_cnt = 0 then cur_entry else start0, f3, F3) }
             else Some (True, start0, f1, F1));
          if \<not> ok then Some (None, f2, F2)
          else do { basis_name \<leftarrow> genBasisNameFromLong (utf8ToGbk C) nm;
                    (f3, F3) \<leftarrow> write_long_entries D now start required (chkSum basis_name) utf16_name F2 f2 1 0;
                    let s_dir_entry = mkShortDirEntry (getCurDosTs2 now) basis_name is_dir;
                    (_, f4, F4) \<leftarrow> writeDirEntry D now F3 f3 (start + required - 1) (castShortDirEntryToLong s_dir_entry);
                    Some (Some (start, s_dir_entry), f4, F4) } }"

section \<open>Traversing\<close>

text \<open>\<open>lookupFileByIndex\<close> up to the lookup cache: the skip of empty entries, and the entries of one
  file. The long entries are collected in reverse order, as the code does with \<open>push_front\<close>.\<close>

partial_function (option) skip_empty ::
  "'d device_ops \<Rightarrow> timespec \<Rightarrow> 'd FAT \<Rightarrow> fobj \<Rightarrow> u64 \<Rightarrow> (LongDirEntry option \<times> u64 \<times> fobj \<times> 'd FAT) option" where
  "skip_empty D now F f entry_off =
     do { r \<leftarrow> readDirEntry D now F f (ucast entry_off);
          (case r of
             (None, f', F') \<Rightarrow> Some (None, entry_off, f', F')
           | (Some e, f', F') \<Rightarrow>
               if isEmptyDirEntry e then skip_empty D now F' f' (entry_off + 1)
               else Some (Some e, entry_off, f', F')) }"

partial_function (option) collect_entries ::
  "'d device_ops \<Rightarrow> timespec \<Rightarrow> 'd FAT \<Rightarrow> fobj \<Rightarrow> u64 \<Rightarrow> LongDirEntry list \<Rightarrow>
    (ShortDirEntry \<times> LongDirEntry list \<times> u64 \<times> fobj \<times> 'd FAT) option" where
  "collect_entries D now F f entry_off ls =
     do { r \<leftarrow> readDirEntry D now F f (ucast entry_off);
          (case r of
             (None, f', F') \<Rightarrow> None
           | (Some e, f', F') \<Rightarrow>
               do { ensure (\<not> isEmptyDirEntry e);
                    if \<not> isLongDirEntry e then Some (castLongDirEntryToShort e, ls, entry_off + 1, f', F')
                    else collect_entries D now F' f' (entry_off + 1) (e # ls) }) }"

definition next_entries ::
  "'d device_ops \<Rightarrow> timespec \<Rightarrow> 'd FAT \<Rightarrow> fobj \<Rightarrow> u64 \<Rightarrow>
    ((u32 \<times> ShortDirEntry \<times> LongDirEntry list) option \<times> u64 \<times> fobj \<times> 'd FAT) option" where
  "next_entries D now F f entry_off =
     do { (result, off1, f1, F1) \<leftarrow> skip_empty D now F f entry_off;
          case result of
            None \<Rightarrow> Some (None, off1, f1, F1)
          | Some e \<Rightarrow>
              if isLstEmptyDirEntry e then Some (None, off1, f1, F1)
              else do { (s, ls, off2, f2, F2) \<leftarrow> collect_entries D now F1 f1 off1 [];
                        Some (Some (ucast off1, s, ls), off2, f2, F2) } }"

text \<open>The name of the file from its entries.\<close>

fun long_names :: "u8 \<Rightarrow> LongDirEntry list \<Rightarrow> bytes option" where
  "long_names crc [] = Some []"
| "long_names crc (e # es) =
     do { ensure (isValidLongDirEntry e crc); r \<leftarrow> long_names crc es; Some (readLongEntryName e @ r) }"

definition entry_name :: "conversions \<Rightarrow> ShortDirEntry \<Rightarrow> LongDirEntry list \<Rightarrow> bytes option" where
  "entry_name C s ls =
     do { short_name \<leftarrow> readShortEntryName s;
          if ls \<noteq> []
          then do { basis_name \<leftarrow> genBasisNameFromShort short_name;
                    utf16_name \<leftarrow> long_names (chkSum basis_name) ls;
                    utf16ToUtf8 C utf16_name }
          else gbkToUtf8 C short_name }"

end
