(* ===== verification/DirListing.thy ===== *)
theory DirListing
  imports FileProps FsDirectory
begin

text \<open>
  A directory as a list of entries: \<open>readDirEntry\<close> reads the slots the clusters of the directory
  hold, and the loops of the class \<open>Directory\<close> that only read do what a recursion over the list of
  slots does. Behind it is the abstract directory, a list of files and deleted entries.
\<close>

section \<open>Slots\<close>

definition slots_of :: "bytes \<Rightarrow> LongDirEntry list" where
  "slots_of C = map (\<lambda>n. decode_long (take 32 (drop (32 * n) C))) [0..<length C div 32]"

definition dir_slots :: "(u32 \<Rightarrow> bytes option) \<Rightarrow> BPB \<Rightarrow> u32 list \<Rightarrow> LongDirEntry list" where
  "dir_slots R bpb xs = slots_of (file_content R bpb xs)"

lemma length_slots_of [simp]: "length (slots_of C) = length C div 32"
  by (simp add: slots_of_def)

lemma nth_slots_of: "n < length C div 32 \<Longrightarrow> slots_of C ! n = decode_long (take 32 (drop (32 * n) C))"
  by (simp add: slots_of_def)

text \<open>A sound directory; its size in bytes fits in a \<open>u32\<close>.\<close>

definition dir_ok :: "('d \<Rightarrow> bool) \<Rightarrow> ('d \<Rightarrow> u32 \<Rightarrow> bytes option) \<Rightarrow> 'd FAT \<Rightarrow> (u32 \<Rightarrow> u32) \<Rightarrow>
    (u32 \<Rightarrow> bytes option) \<Rightarrow> fobj \<Rightarrow> u32 list \<Rightarrow> bool" where
  "dir_ok good view F E R f xs \<longleftrightarrow> fat_holds good view F E R \<and> file_holds F E R f xs \<and> f_is_dir f
     \<and> 512 * (length xs * spc (F_bpb F)) < 2 ^ 32"

text \<open>The same object but for its date of access and the chain it has read.\<close>

definition same_obj :: "fobj \<Rightarrow> fobj \<Rightarrow> bool" where
  "same_obj f f' \<longleftrightarrow> f'\<lparr>f_acc_date := f_acc_date f, f_clus_chain := f_clus_chain f\<rparr> = f"

lemma same_obj_refl [simp]: "same_obj f f"
  by (simp add: same_obj_def)

lemma same_obj_trans: "same_obj f g \<Longrightarrow> same_obj g h \<Longrightarrow> same_obj f h"
  by (cases f; cases g; cases h) (simp add: same_obj_def)

lemma same_objD: "same_obj f f' \<Longrightarrow> f_fst_clus f' = f_fst_clus f" "same_obj f f' \<Longrightarrow> f_is_dir f' = f_is_dir f"
  "same_obj f f' \<Longrightarrow> ino f' = ino f"
  by (cases f; cases f'; simp add: same_obj_def ino_def)+

lemma same_obj_read: "same_file xs f f' \<Longrightarrow> same_obj f f'" "same_obj f (setAccTime t (with_chain xs f))"
  by (cases f; auto simp: same_obj_def same_file_def setAccTime_def with_chain_def)+

text \<open>What reading leaves: the same directory on the same volume.\<close>

definition dir_kept :: "('d \<Rightarrow> bool) \<Rightarrow> ('d \<Rightarrow> u32 \<Rightarrow> bytes option) \<Rightarrow> (u32 \<Rightarrow> u32) \<Rightarrow> (u32 \<Rightarrow> bytes option) \<Rightarrow>
    u32 list \<Rightarrow> 'd FAT \<Rightarrow> fobj \<Rightarrow> fobj \<Rightarrow> 'd FAT \<Rightarrow> bool" where
  "dir_kept good view E R xs F f f' F' \<longleftrightarrow>
     dir_ok good view F' E R f' xs \<and> same_obj f f' \<and> F' = F\<lparr>F_device := F_device F'\<rparr>"

lemma dir_kept_trans:
  "dir_kept good view E R xs F f f1 F1 \<Longrightarrow> dir_kept good view E R xs F1 f1 f2 F2 \<Longrightarrow> dir_kept good view E R xs F f f2 F2"
  by (cases F; cases F1; cases F2) (auto simp: dir_kept_def intro: same_obj_trans)

lemma dir_kept_bpb: "dir_kept good view E R xs F f f' F' \<Longrightarrow> F_bpb F' = F_bpb F"
  by (cases F; cases F') (simp add: dir_kept_def)

lemma dir_kept_ok: "dir_kept good view E R xs F f f' F' \<Longrightarrow> dir_ok good view F' E R f' xs"
  by (simp add: dir_kept_def)

lemma dir_slots_bound:
  assumes "dir_ok good view F E R f xs"
  shows "length (file_content R (F_bpb F) xs) = 32 * length (dir_slots R (F_bpb F) xs)"
    and "length (dir_slots R (F_bpb F) xs) < 2 ^ 27" and "byte_len F f xs = 32 * length (dir_slots R (F_bpb F) xs)"
    and "sized F f xs"
proof -
  have h: "fat_holds good view F E R" "file_holds F E R f xs" "f_is_dir f" "512 * (length xs * spc (F_bpb F)) < 2 ^ 32"
    using assms by (simp_all add: dir_ok_def)
  note len = length_content [OF h(1,2)]
  show "length (file_content R (F_bpb F) xs) = 32 * length (dir_slots R (F_bpb F) xs)"
    by (simp add: dir_slots_def len)
  then show "length (dir_slots R (F_bpb F) xs) < 2 ^ 27" "byte_len F f xs = 32 * length (dir_slots R (F_bpb F) xs)"
    using h(3,4) len by (simp_all add: byte_len_def)
  show "sized F f xs" using h(3,4) by (simp add: sized_def byte_len_def)
qed

lemma drop_ConsD:
  assumes "drop n xs = y # ys"
  shows "n < length xs" and "xs ! n = y" and "drop (Suc n) xs = ys"
proof -
  show n: "n < length xs" using assms by (rule contrapos_pp) simp
  show "xs ! n = y" "drop (Suc n) xs = ys" using Cons_nth_drop_Suc [OF n] assms by simp_all
qed

lemma slot_number: "(ucast (of_nat n :: u64) :: u32) = of_nat n"
  by transfer simp

text \<open>The slots before the end mark, and the search for a name on them.\<close>

definition before_end :: "LongDirEntry list \<Rightarrow> LongDirEntry list" where
  "before_end = takeWhile (\<lambda>e. \<not> isLstEmptyDirEntry e)"

lemma end_is_empty: "isLstEmptyDirEntry e \<Longrightarrow> isEmptyDirEntry e"
  by (simp add: isLstEmptyDirEntry_def isEmptyDirEntry_def)

lemma before_end_Nil [simp]: "before_end [] = []"
  by (simp add: before_end_def)

lemma before_end_Cons: "before_end (e # es) = (if isLstEmptyDirEntry e then [] else e # before_end es)"
  by (simp add: before_end_def)

fun scan_slots :: "bytes \<Rightarrow> bytes \<Rightarrow> nat \<Rightarrow> lookup_state \<Rightarrow> LongDirEntry list \<Rightarrow> DirEntryRange option option" where
  "scan_slots u g n s [] = Some None"
| "scan_slots u g n s (e # es) =
     do { r \<leftarrow> lookup_step u g (of_nat n) e s;
          (case r of Inl res \<Rightarrow> Some res | Inr s' \<Rightarrow> scan_slots u g (Suc n) s' es) }"

context block_device
begin

lemma readDirEntry_ok:
  fixes n :: u32
  assumes ok: "dir_ok good view F E R f xs" and n: "unat n \<le> length (dir_slots R (F_bpb F) xs)"
  shows "\<exists>f' F'. readDirEntry D now F f n = Some (if unat n < length (dir_slots R (F_bpb F) xs)
      then Some (dir_slots R (F_bpb F) xs ! unat n) else None, f', F') \<and> dir_kept good view E R xs F f f' F'"
proof -
  let ?C = "file_content R (F_bpb F) xs" and ?S = "dir_slots R (F_bpb F) xs"
  note b = dir_slots_bound [OF ok]
  have h: "fat_holds good view F E R" "file_holds F E R f xs" using ok by (simp_all add: dir_ok_def)
  have "32 * unat n < 2 ^ 32" using n b(2) by simp
  then have off: "unat (KDirEntrySize * n) = 32 * unat n"
    by (simp add: KDirEntrySize_def unat_word_ariths(2) take_bit_nat_eq_self)
  have cnt: "unat KDirEntrySize = 32" by (simp add: KDirEntrySize_def)
  define out where "out = take (min 32 (32 * length ?S - 32 * unat n)) (drop (32 * unat n) ?C)"
  obtain f' d where r: "File_read D now F f KDirEntrySize (KDirEntrySize * n) = Some (out, f', F\<lparr>F_device := d\<rparr>)"
      "if 32 * unat n < 32 * length ?S then f' = setAccTime (getCurDosTs now) (with_chain xs f) else same_file xs f f'"
      "fat_holds good view (F\<lparr>F_device := d\<rparr>) E R"
    using File_read_ok [OF h b(4), of now KDirEntrySize "KDirEntrySize * n"] unfolding off cnt b(3) out_def by blast
  have s: "same_obj f f'" using r(2) same_obj_read by (auto split: if_splits)
  have "file_holds F E R f' xs"
    using r(2) h(2) by (auto simp: same_file_def setAccTime_def file_holds_def split: if_splits)
  with r(3) ok s have k: "dir_kept good view E R xs F f f' (F\<lparr>F_device := d\<rparr>)"
    by (simp add: dir_kept_def dir_ok_def same_objD(2))
  have v: "if unat n < length ?S then length out = 32 \<and> decode_long out = ?S ! unat n else length out = 0"
    using b(1) by (auto simp: out_def dir_slots_def nth_slots_of min_def)
  show ?thesis using r(1) k v
    by (intro exI [of _ f'] exI [of _ "F\<lparr>F_device := d\<rparr>"]) (auto simp: readDirEntry_def split: if_splits)
qed

text \<open>With the slot as a number; the loops start from here.\<close>

lemma read_slot:
  assumes "dir_ok good view F E R f xs" and "dir_slots R (F_bpb F) xs = S" and "n \<le> length S"
  shows "\<exists>f' F'. readDirEntry D now F f (of_nat n) = Some (if n < length S then Some (S ! n) else None, f', F')
    \<and> dir_kept good view E R xs F f f' F' \<and> dir_slots R (F_bpb F') xs = S"
proof -
  have "unat (of_nat n :: u32) = n"
    using assms(3) dir_slots_bound(2) [OF assms(1)] unfolding assms(2) by (intro unat_of_nat_lt) simp
  then show ?thesis
    using readDirEntry_ok [OF assms(1), of "of_nat n" now] assms(3) dir_kept_bpb unfolding assms(2) by (metis assms(2))
qed

section \<open>The loops\<close>

lemma lst_loop_ok:
  assumes "dir_ok good view F E R f xs" and "dir_slots R (F_bpb F) xs = S" and "n \<le> length S"
  shows "\<exists>f' F'. lst_loop D now F f (int n) = Some (\<forall>e \<in> set (before_end (drop n S)). isEmptyDirEntry e, f', F')
    \<and> dir_kept good view E R xs F f f' F'"
  using assms
proof (induction "length S - n" arbitrary: n F f)
  case 0
  then have n: "n = length S" by simp
  from read_slot [OF 0(2-4), of now] show ?case by (subst lst_loop.simps) (auto simp: n)
next
  case (Suc m)
  then have n: "n < length S" "m = length S - Suc n" by simp_all
  obtain f1 F1 where r: "readDirEntry D now F f (of_nat n) = Some (Some (S ! n), f1, F1)"
      "dir_kept good view E R xs F f f1 F1" "dir_slots R (F_bpb F1) xs = S"
    using read_slot [OF Suc.prems, of now] n(1) by auto
  have d: "drop n S = S ! n # drop (Suc n) S" using n(1) by (simp add: Cons_nth_drop_Suc)
  obtain f2 F2 where l: "lst_loop D now F1 f1 (int (Suc n))
        = Some (\<forall>e \<in> set (before_end (drop (Suc n) S)). isEmptyDirEntry e, f2, F2)"
      "dir_kept good view E R xs F1 f1 f2 F2"
    using Suc.hyps(1) [OF n(2) dir_kept_ok [OF r(2)] r(3)] n(1) by auto
  show ?case
    using r(1,2) l(1) dir_kept_trans [OF r(2) l(2)] unfolding d
    by (subst lst_loop.simps) (auto simp: before_end_Cons end_is_empty add.commute)
qed

lemma lookup_loop_ok:
  assumes "dir_ok good view F E R f xs" and "dir_slots R (F_bpb F) xs = S" and "n \<le> length S"
    and "scan_slots u g n s (drop n S) = Some res"
  shows "\<exists>f' F'. lookup_loop D now u g F f (of_nat n) s = Some (res, f', F') \<and> dir_kept good view E R xs F f f' F'"
  using assms
proof (induction "length S - n" arbitrary: n F f s)
  case 0
  then have n: "n = length S" by simp
  from read_slot [OF 0(2-4), of now] 0(5) show ?case by (subst lookup_loop.simps) (auto simp: n)
next
  case (Suc m)
  then have n: "n < length S" "m = length S - Suc n" by simp_all
  obtain f1 F1 where r: "readDirEntry D now F f (of_nat n) = Some (Some (S ! n), f1, F1)"
      "dir_kept good view E R xs F f f1 F1" "dir_slots R (F_bpb F1) xs = S"
    using read_slot [OF Suc.prems(1-3), of now] n(1) by auto
  have d: "drop n S = S ! n # drop (Suc n) S" using n(1) by (simp add: Cons_nth_drop_Suc)
  from Suc.prems(4) d obtain r' where st: "lookup_step u g (of_nat n) (S ! n) s = Some r'"
      "(case r' of Inl res \<Rightarrow> Some res | Inr s' \<Rightarrow> scan_slots u g (Suc n) s' (drop (Suc n) S)) = Some res"
    by (auto simp: bind_eq_Some_conv)
  show ?case
  proof (cases r')
    case (Inl res')
    then show ?thesis using r(1,2) st by (subst lookup_loop.simps) simp
  next
    case (Inr s')
    obtain f2 F2 where l: "lookup_loop D now u g F1 f1 (of_nat (Suc n)) s' = Some (res, f2, F2)"
        "dir_kept good view E R xs F1 f1 f2 F2"
      using Suc.hyps(1) [OF n(2) dir_kept_ok [OF r(2)] r(3), of s'] n(1) st(2) Inr by force
    then show ?thesis
      using r(1) st(1) Inr dir_kept_trans [OF r(2) l(2)] by (subst lookup_loop.simps) (simp add: add.commute)
  qed
qed

text \<open>The numbers of slots are a \<open>u64\<close> here.\<close>

lemma skip_empty_ok:
  assumes "dir_ok good view F E R f xs" and "dir_slots R (F_bpb F) xs = S" and "n + k \<le> length S"
    and "\<forall>e \<in> set (take k (drop n S)). isEmptyDirEntry e" and "n + k < length S \<longrightarrow> \<not> isEmptyDirEntry (S ! (n + k))"
  shows "\<exists>f' F'. skip_empty D now F f (of_nat n)
      = Some (if n + k < length S then Some (S ! (n + k)) else None, of_nat (n + k), f', F')
    \<and> dir_kept good view E R xs F f f' F' \<and> dir_slots R (F_bpb F') xs = S"
  using assms
proof (induction k arbitrary: n F f)
  case 0
  from read_slot [OF 0(1,2), of n now] 0(3,5) show ?case
    by (subst skip_empty.simps) (auto simp: slot_number)
next
  case (Suc k)
  have n: "n < length S" using Suc.prems(3) by simp
  obtain f1 F1 where r: "readDirEntry D now F f (of_nat n) = Some (Some (S ! n), f1, F1)"
      "dir_kept good view E R xs F f f1 F1" "dir_slots R (F_bpb F1) xs = S"
    using read_slot [OF Suc.prems(1,2), of n now] n by auto
  have d: "take (Suc k) (drop n S) = S ! n # take k (drop (Suc n) S)" using n by (simp flip: Cons_nth_drop_Suc)
  obtain f2 F2 where l: "skip_empty D now F1 f1 (of_nat (Suc n))
        = Some (if Suc n + k < length S then Some (S ! (Suc n + k)) else None, of_nat (Suc n + k), f2, F2)"
      "dir_kept good view E R xs F1 f1 f2 F2" "dir_slots R (F_bpb F2) xs = S"
    using Suc.IH [OF dir_kept_ok [OF r(2)] r(3), of "Suc n"] Suc.prems(3-5) unfolding d by auto
  show ?case
    using r(1) l(1,3) dir_kept_trans [OF r(2) l(2)] Suc.prems(4) unfolding d
    by (subst skip_empty.simps) (simp add: slot_number add.commute)
qed

lemma collect_entries_ok:
  assumes "dir_ok good view F E R f xs" and "dir_slots R (F_bpb F) xs = S" and "drop n S = ls @ e # es"
    and "\<forall>l \<in> set ls. \<not> isEmptyDirEntry l \<and> isLongDirEntry l" and "\<not> isEmptyDirEntry e" and "\<not> isLongDirEntry e"
  shows "\<exists>f' F'. collect_entries D now F f (of_nat n) acc
      = Some (castLongDirEntryToShort e, rev ls @ acc, of_nat (n + Suc (length ls)), f', F')
    \<and> dir_kept good view E R xs F f f' F' \<and> dir_slots R (F_bpb F') xs = S"
  using assms
proof (induction ls arbitrary: n F f acc)
  case Nil
  then have "n < length S" "S ! n = e" using drop_ConsD [of n S e es] by simp_all
  with read_slot [OF Nil(1,2), of n now] Nil(5,6) show ?case
    by (subst collect_entries.simps) (auto simp: slot_number add.commute)
next
  case (Cons l ls)
  have n: "n < length S" "S ! n = l" "drop (Suc n) S = ls @ e # es"
    using drop_ConsD [of n S l "ls @ e # es"] Cons.prems(3) by simp_all
  obtain f1 F1 where r: "readDirEntry D now F f (of_nat n) = Some (Some l, f1, F1)"
      "dir_kept good view E R xs F f f1 F1" "dir_slots R (F_bpb F1) xs = S"
    using read_slot [OF Cons.prems(1,2), of n now] n by auto
  obtain f2 F2 where l: "collect_entries D now F1 f1 (of_nat (Suc n)) (l # acc)
        = Some (castLongDirEntryToShort e, rev ls @ l # acc, of_nat (Suc n + Suc (length ls)), f2, F2)"
      "dir_kept good view E R xs F1 f1 f2 F2" "dir_slots R (F_bpb F2) xs = S"
    using Cons.IH [OF dir_kept_ok [OF r(2)] r(3) n(3)] Cons.prems(4-6) by force
  show ?case
    using r(1) l(1,3) dir_kept_trans [OF r(2) l(2)] Cons.prems(4)
    by (subst collect_entries.simps) (simp add: slot_number add.commute)
qed

end

end
