(* ===== verification/DirItems.thy ===== *)
theory DirItems
  imports DirListing
begin

text \<open>
  The abstract directory: a list of files, each with its long entries and its short entry, and of
  deleted entries. What the search and the traversal do on the slots they occupy.
\<close>

section \<open>Files and deleted entries\<close>

datatype dir_item = Deleted LongDirEntry | Present "LongDirEntry list" LongDirEntry

fun item_slots :: "dir_item \<Rightarrow> LongDirEntry list" where
  "item_slots (Deleted e) = [e]"
| "item_slots (Present ls e) = ls @ [e]"

abbreviation items_slots :: "dir_item list \<Rightarrow> LongDirEntry list" where
  "items_slots items \<equiv> concat (map item_slots items)"

text \<open>The check sum the long entries of a file must hold.\<close>

definition file_sum :: "LongDirEntry \<Rightarrow> u8 option" where
  "file_sum e = do { nm \<leftarrow> readShortEntryName (castLongDirEntryToShort e); b \<leftarrow> genBasisNameFromShort nm; Some (chkSum b) }"

fun item_ok :: "dir_item \<Rightarrow> bool" where
  "item_ok (Deleted e) \<longleftrightarrow> isEmptyDirEntry e \<and> \<not> isLstEmptyDirEntry e"
| "item_ok (Present ls e) \<longleftrightarrow> \<not> isEmptyDirEntry e \<and> \<not> isLongDirEntry e
     \<and> readShortEntryName (castLongDirEntryToShort e) \<noteq> None
     \<and> (\<forall>l \<in> set ls. \<not> isEmptyDirEntry l \<and> isLongDirEntry l \<and> isValidLongDirEntry l (chk_sum l) \<and> file_sum e = Some (chk_sum l))"

text \<open>A file with long entries goes by their name, another by its short name.\<close>

definition long_name :: "LongDirEntry list \<Rightarrow> bytes" where
  "long_name ls = concat (map readLongEntryName (rev ls))"

definition has_name :: "bytes \<Rightarrow> bytes \<Rightarrow> LongDirEntry list \<Rightarrow> LongDirEntry \<Rightarrow> bool" where
  "has_name u g ls e \<longleftrightarrow>
     (if ls = [] then readShortEntryName (castLongDirEntryToShort e) = Some g else long_name ls = u)"

fun find_item :: "bytes \<Rightarrow> bytes \<Rightarrow> nat \<Rightarrow> dir_item list \<Rightarrow> DirEntryRange option" where
  "find_item u g n [] = None"
| "find_item u g n (Deleted e # items) = find_item u g (Suc n) items"
| "find_item u g n (Present ls e # items) =
     (if has_name u g ls e then Some \<lparr>range_start = of_nat n, range_count = of_nat (Suc (length ls))\<rparr>
      else find_item u g (n + Suc (length ls)) items)"

fun list_items :: "nat \<Rightarrow> dir_item list \<Rightarrow> (u32 \<times> ShortDirEntry \<times> LongDirEntry list \<times> u64) list" where
  "list_items n [] = []"
| "list_items n (Deleted e # items) = list_items (Suc n) items"
| "list_items n (Present ls e # items) =
     (of_nat n, castLongDirEntryToShort e, rev ls, of_nat (n + Suc (length ls))) # list_items (n + Suc (length ls)) items"

section \<open>The search\<close>

definition fresh :: "lookup_state \<Rightarrow> bool" where
  "fresh s \<longleftrightarrow> \<not> has_l_entry s \<and> target_entry_cnt s = 0 \<and> read_long_name s = []"

lemma fresh_reset [simp]: "fresh (lookup_reset s)" "fresh lookup_init"
  by (simp_all add: fresh_def lookup_reset_def lookup_init_def)

text \<open>The state after long entries that agree.\<close>

definition after_long :: "nat \<Rightarrow> u8 \<Rightarrow> LongDirEntry list \<Rightarrow> lookup_state \<Rightarrow> lookup_state" where
  "after_long n c ls s = \<lparr>has_l_entry = True, target_entry_start = of_nat n, target_entry_cnt = of_nat (length ls),
     lk_chk_sum = c, read_long_name = long_name ls\<rparr>"

lemma scan_long:
  assumes "ls \<noteq> []" and "fresh s" and "length ls < 2 ^ 32"
    and "\<forall>l \<in> set ls. \<not> isEmptyDirEntry l \<and> isValidLongDirEntry l c"
  shows "scan_slots u g n s (ls @ es) = scan_slots u g (n + length ls) (after_long n c ls s) es"
  using assms
proof (induction ls arbitrary: es rule: rev_nonempty_induct)
  case (single l)
  then show ?case
    by (cases s) (auto simp: lookup_step_def after_long_def fresh_def long_name_def isValidLongDirEntry_def dest: end_is_empty)
next
  case (snoc l ls)
  have "unat (of_nat (length ls) :: u32) = length ls" using snoc.prems(2) by (intro unat_of_nat_lt) simp
  then have z: "(of_nat (length ls) :: u32) \<noteq> 0" using snoc.hyps(1) by (auto simp: unat_eq_zero)
  have "scan_slots u g n s ((ls @ [l]) @ es) = scan_slots u g (n + length ls) (after_long n c ls s) (l # es)"
    using snoc by simp
  also have "\<dots> = scan_slots u g (n + length (ls @ [l])) (after_long n c (ls @ [l]) s) es"
    using snoc.prems(3) z
    by (auto simp: lookup_step_def after_long_def long_name_def isValidLongDirEntry_def add.commute dest: end_is_empty)
  finally show ?case .
qed

lemma scan_present:
  assumes "fresh s" and "length ls < 2 ^ 27" and "item_ok (Present ls e)"
  shows "\<exists>s'. fresh s' \<and> scan_slots u g n s (ls @ e # es)
    = (if has_name u g ls e then Some (Some \<lparr>range_start = of_nat n, range_count = of_nat (Suc (length ls))\<rparr>)
       else scan_slots u g (n + Suc (length ls)) s' es)"
proof (cases "ls = []")
  case True
  have fr: "\<not> has_l_entry s" "target_entry_cnt s = 0" using assms(1) by (simp_all add: fresh_def)
  show ?thesis
    using assms(3) True fr
    by (intro exI [of _ "lookup_reset (s\<lparr>target_entry_start := of_nat n, lk_chk_sum := chk_sum e, target_entry_cnt := 1\<rparr>)"])
      (auto simp: lookup_step_def has_name_def dest: end_is_empty)
next
  case False
  obtain c where c: "file_sum e = Some c" "\<forall>l \<in> set ls. \<not> isEmptyDirEntry l \<and> isValidLongDirEntry l c"
    using False assms(3) by (cases ls) auto
  have "unat (of_nat (Suc (length ls)) :: u32) = Suc (length ls)" using assms(2) by (intro unat_of_nat_lt) simp
  then have "unat (of_nat (length ls) + 1 :: u32) = Suc (length ls)" by (simp add: add.commute)
  then have one: "1 < (of_nat (length ls) + 1 :: u32)" "of_nat (length ls) \<noteq> (0 :: u32)"
    using False assms(2) by (auto simp: word_less_nat_alt)
  show ?thesis
    using scan_long [OF False assms(1) _ c(2), of u g n "e # es"] assms(2,3) c(1) False one
    by (intro exI [of _ "lookup_reset ((after_long n c ls s)\<lparr>target_entry_cnt := of_nat (length ls) + 1\<rparr>)"])
      (auto simp: lookup_step_def after_long_def has_name_def file_sum_def bind_eq_Some_conv add.commute dest: end_is_empty)
qed

lemma scan_items:
  assumes "fresh s" and "\<forall>it \<in> set items. item_ok it" and "length (items_slots items) < 2 ^ 27"
    and "tail = [] \<or> isLstEmptyDirEntry (hd tail)"
  shows "scan_slots u g n s (items_slots items @ tail) = Some (find_item u g n items)"
  using assms
proof (induction items arbitrary: n s)
  case Nil
  then show ?case by (cases tail) (auto simp: lookup_step_def)
next
  case (Cons it items)
  show ?case
  proof (cases it)
    case (Deleted e)
    then show ?thesis using Cons by (simp add: lookup_step_def)
  next
    case (Present ls e)
    obtain s' where "fresh s'" "scan_slots u g n s (ls @ e # items_slots items @ tail)
        = (if has_name u g ls e then Some (Some \<lparr>range_start = of_nat n, range_count = of_nat (Suc (length ls))\<rparr>)
           else scan_slots u g (n + Suc (length ls)) s' (items_slots items @ tail))"
      using scan_present [of s ls e u g n "items_slots items @ tail"] Cons.prems Present by auto
    then show ?thesis using Cons Present by simp
  qed
qed

section \<open>The traversal\<close>

lemma split_deleted:
  obtains ds rest where "items = map Deleted ds @ rest" "rest = [] \<or> (\<exists>ls e items'. rest = Present ls e # items')"
proof (induction items arbitrary: thesis)
  case (Cons it items)
  show ?case
  proof (cases it)
    case (Deleted e)
    obtain ds rest where "items = map Deleted ds @ rest" "rest = [] \<or> (\<exists>ls e items'. rest = Present ls e # items')"
      using Cons.IH by blast
    with Deleted show ?thesis by (intro Cons.prems [of "e # ds" rest]) simp_all
  next
    case (Present ls e)
    then show ?thesis using Cons.prems [of "[]" "it # items"] by simp
  qed
qed simp

lemma items_deleted [simp]: "concat (map (item_slots \<circ> Deleted) ds) = ds"
  by (induction ds) simp_all

lemma list_deleted: "list_items n (map Deleted ds @ rest) = list_items (n + length ds) rest"
  by (induction ds arbitrary: n) simp_all

text \<open>The client of \<open>lookupFileByIndex\<close>: one file after the other.\<close>

partial_function (option) walk :: "'d device_ops \<Rightarrow> timespec \<Rightarrow> 'd FAT \<Rightarrow> fobj \<Rightarrow> u64 \<Rightarrow>
    ((u32 \<times> ShortDirEntry \<times> LongDirEntry list \<times> u64) list \<times> fobj \<times> 'd FAT) option" where
  "walk D now F f off =
     do { r \<leftarrow> next_entries D now F f off;
          (case r of
             (None, off', f', F') \<Rightarrow> Some ([], f', F')
           | (Some (start, e, ls), off', f', F') \<Rightarrow>
               do { r' \<leftarrow> walk D now F' f' off';
                    (case r' of (rest, f'', F'') \<Rightarrow> Some ((start, e, ls, off') # rest, f'', F'')) }) }"

context block_device
begin

lemma next_present:
  assumes "dir_ok good view F E R f xs" and "dir_slots R (F_bpb F) xs = S" and "drop n S = ds @ ls @ e # es"
    and "\<forall>d \<in> set ds. isEmptyDirEntry d" and "\<not> isEmptyDirEntry e" and "\<not> isLongDirEntry e"
    and "\<forall>l \<in> set ls. \<not> isEmptyDirEntry l \<and> isLongDirEntry l"
  shows "\<exists>f' F'. next_entries D now F f (of_nat n) = Some (Some (of_nat (n + length ds), castLongDirEntryToShort e, rev ls),
      of_nat (n + length ds + Suc (length ls)), f', F')
    \<and> dir_kept good view E R xs F f f' F' \<and> dir_slots R (F_bpb F') xs = S"
proof -
  let ?k = "length ds"
  have d: "drop (n + ?k) S = ls @ e # es" using arg_cong [OF assms(3), of "drop ?k"] by (simp add: add.commute)
  then have "n + ?k < length S" by (rule_tac ccontr) simp
  moreover from this d have "S ! (n + ?k) = hd (ls @ [e])" by (cases ls) (simp_all add: drop_ConsD(2))
  moreover have "\<not> isEmptyDirEntry (hd (ls @ [e]))" using assms(5,7) by (cases ls) simp_all
  ultimately obtain f1 F1 where s: "skip_empty D now F f (of_nat n) = Some (Some (hd (ls @ [e])), of_nat (n + ?k), f1, F1)"
      "dir_kept good view E R xs F f f1 F1" "dir_slots R (F_bpb F1) xs = S"
    using skip_empty_ok [OF assms(1,2), of n ?k now] assms(3,4) by auto
  from collect_entries_ok [OF dir_kept_ok [OF s(2)] s(3) d assms(7,5,6), of now "[]"] obtain f2 F2 where
    c: "collect_entries D now F1 f1 (of_nat (n + ?k)) [] = Some (castLongDirEntryToShort e, rev ls,
        of_nat (n + ?k + Suc (length ls)), f2, F2)" "dir_kept good view E R xs F1 f1 f2 F2" "dir_slots R (F_bpb F2) xs = S" by auto
  have "\<not> isLstEmptyDirEntry (hd (ls @ [e]))" using \<open>\<not> isEmptyDirEntry (hd (ls @ [e]))\<close> end_is_empty by blast
  then show ?thesis using s(1) c(1,3) dir_kept_trans [OF s(2) c(2)]
    by (intro exI [of _ f2] exI [of _ F2]) (simp add: next_entries_def slot_number del: of_nat_add)
qed

lemma next_none:
  assumes "dir_ok good view F E R f xs" and "dir_slots R (F_bpb F) xs = S" and "n \<le> length S"
    and "\<forall>d \<in> set (drop n S). isEmptyDirEntry d"
  shows "\<exists>f' F'. next_entries D now F f (of_nat n) = Some (None, of_nat (length S), f', F') \<and> dir_kept good view E R xs F f f' F'"
  using skip_empty_ok [OF assms(1,2), of n "length S - n" now] assms(3,4) by (force simp: next_entries_def)

lemma walk_ok:
  assumes "dir_ok good view F E R f xs" and "dir_slots R (F_bpb F) xs = S" and "n \<le> length S"
    and "drop n S = items_slots items @ tail" and "\<forall>it \<in> set items. item_ok it" and "\<forall>e \<in> set tail. isEmptyDirEntry e"
  shows "\<exists>f' F'. walk D now F f (of_nat n) = Some (list_items n items, f', F') \<and> dir_kept good view E R xs F f f' F'"
  using assms
proof (induction "length items" arbitrary: n F f items rule: less_induct)
  case less
  obtain ds rest where sp: "items = map Deleted ds @ rest" "rest = [] \<or> (\<exists>ls e items'. rest = Present ls e # items')"
    by (rule split_deleted)
  have ds: "\<forall>d \<in> set ds. isEmptyDirEntry d" using less.prems(5) by (simp add: sp(1) ball_Un)
  from sp(2) show ?case
  proof
    assume rest: "rest = []"
    have "\<forall>d \<in> set (drop n S). isEmptyDirEntry d" using ds less.prems(4,6) by (auto simp: sp(1) rest)
    from next_none [OF less.prems(1-3) this, of now] obtain f1 F1 where
      "next_entries D now F f (of_nat n) = Some (None, of_nat (length S), f1, F1)" "dir_kept good view E R xs F f f1 F1" by blast
    then show ?thesis using list_deleted [of n ds "[]"] by (subst walk.simps) (simp add: sp(1) rest)
  next
    assume "\<exists>ls e items'. rest = Present ls e # items'"
    then obtain ls e items' where rest: "rest = Present ls e # items'" by blast
    let ?m = "n + length ds + Suc (length ls)"
    have d: "drop n S = ds @ ls @ e # items_slots items' @ tail" using less.prems(4) by (simp add: sp(1) rest)
    have it: "item_ok (Present ls e)" "\<forall>it \<in> set items'. item_ok it" using less.prems(5) by (auto simp: sp(1) rest)
    obtain f1 F1 where r: "next_entries D now F f (of_nat n)
          = Some (Some (of_nat (n + length ds), castLongDirEntryToShort e, rev ls), of_nat ?m, f1, F1)"
        "dir_kept good view E R xs F f f1 F1" "dir_slots R (F_bpb F1) xs = S"
      using next_present [OF less.prems(1,2) d ds, of now] it(1) by auto
    have d2: "drop ?m S = items_slots items' @ tail"
      using arg_cong [OF d, of "drop (length ds + Suc (length ls))"] by (simp add: ac_simps)
    have "length (drop n S) \<ge> length ds + Suc (length ls)" unfolding d by simp
    then have m: "?m \<le> length S" using less.prems(3) by simp
    obtain f2 F2 where w: "walk D now F1 f1 (of_nat ?m) = Some (list_items ?m items', f2, F2)"
        "dir_kept good view E R xs F1 f1 f2 F2"
      using less.hyps [of items' F1 f1 ?m, OF _ dir_kept_ok [OF r(2)] r(3) m d2 it(2) less.prems(6)] by (auto simp: sp(1) rest)
    have "list_items n items = (of_nat (n + length ds), castLongDirEntryToShort e, rev ls, of_nat ?m) # list_items ?m items'"
      by (simp add: sp(1) rest list_deleted)
    then show ?thesis using r(1) w(1) dir_kept_trans [OF r(2) w(2)] by (subst walk.simps) simp
  qed
qed

lemma lookup_items_ok:
  assumes "dir_ok good view F E R f xs" and "dir_slots R (F_bpb F) xs = items_slots items @ tail"
    and "\<forall>it \<in> set items. item_ok it" and "tail = [] \<or> isLstEmptyDirEntry (hd tail)"
    and "utf8ToUtf16 C nm = Some u" and "utf8ToGbk C (toUpper nm) = Some g"
  shows "\<exists>f' F'. lookupFileInner D C now F f nm = Some (find_item u g 0 items, f', F') \<and> dir_kept good view E R xs F f f' F'"
proof -
  have "length (items_slots items) < 2 ^ 27" using dir_slots_bound(2) [OF assms(1)] unfolding assms(2) by simp
  from scan_items [OF fresh_reset(2) assms(3) this assms(4), of u g 0]
  have "scan_slots u g 0 lookup_init (drop 0 (items_slots items @ tail)) = Some (find_item u g 0 items)" by simp
  from lookup_loop_ok [OF assms(1,2) _ this, of now] show ?thesis
    by (simp add: lookupFileInner_def assms(5,6))
qed

lemma isEmpty_ok:
  assumes "dir_ok good view F E R f xs" and "dir_slots R (F_bpb F) xs = S" and "m = (if ino f = KRootDirIno then 0 else 2)"
    and "m \<le> length S"
  shows "\<exists>f' F'. isEmpty D now F f = Some (\<forall>e \<in> set (before_end (drop m S)). isEmptyDirEntry e, f', F')
    \<and> dir_kept good view E R xs F f f' F'"
  using lst_loop_ok [OF assms(1,2,4), of now] assms(3) by (auto simp: isEmpty_def isLstNonEmptyEntry_def split: if_splits)

end

end
