(* ===== verification/DirWrite.thy ===== *)
theory DirWrite
  imports DirItems
begin

text \<open>
  Writing to a directory: \<open>writeDirEntry\<close> changes one slot, and \<open>truncate\<close> cuts slots off.
\<close>

lemma slots_overwrite:
  assumes "length C = 32 * m" and "n < m" and "wf_long e"
  shows "slots_of (overwrite C (32 * n) (encode_long e)) = (slots_of C)[n := e]"
proof (rule nth_equalityI)
  let ?b = "encode_long e"
  have b: "length ?b = 32" using assms(3) by (rule length_encode)
  have l: "length (overwrite C (32 * n) ?b) = 32 * m" using assms(1,2) b by (simp add: overwrite_def)
  then show "length (slots_of (overwrite C (32 * n) ?b)) = length ((slots_of C)[n := e])" using assms(1) by simp
  fix i assume "i < length (slots_of (overwrite C (32 * n) ?b))"
  then have i: "i < m" using l by simp
  have "take 32 (drop (32 * i) (overwrite C (32 * n) ?b)) = (if i = n then ?b else take 32 (drop (32 * i) C))"
  proof (rule nth_equalityI)
    show "length (take 32 (drop (32 * i) (overwrite C (32 * n) ?b))) = length (if i = n then ?b else take 32 (drop (32 * i) C))"
      using i l assms(1) b by simp
    fix j assume "j < length (take 32 (drop (32 * i) (overwrite C (32 * n) ?b)))"
    then have j: "j < 32" "32 * i + j < 32 * m" using l by auto
    have "i \<noteq> n \<Longrightarrow> 32 * i + j < 32 * n \<or> 32 * n + 32 \<le> 32 * i + j" using j(1) by (cases "i < n") simp_all
    then show "take 32 (drop (32 * i) (overwrite C (32 * n) ?b)) ! j = (if i = n then ?b else take 32 (drop (32 * i) C)) ! j"
      using j i l assms(1,2) b by (auto simp: nth_overwrite)
  qed
  then show "slots_of (overwrite C (32 * n) ?b) ! i = (slots_of C)[n := e] ! i"
    using i l assms(1,2) by (simp add: nth_slots_of encode_decode_long [OF assms(3)] nth_list_update)
qed

lemma slots_prefix:
  assumes "length C = 32 * m"
  shows "slots_of C = take m (slots_of (C @ C'))"
  using assms by (intro nth_equalityI) (simp_all add: nth_slots_of)

text \<open>What a change to a directory leaves: a sound directory, made of the same clusters or fewer,
  and everything outside these clusters as it was.\<close>

definition dir_next :: "('d \<Rightarrow> bool) \<Rightarrow> ('d \<Rightarrow> u32 \<Rightarrow> bytes option) \<Rightarrow> 'd FAT \<Rightarrow> (u32 \<Rightarrow> u32) \<Rightarrow> (u32 \<Rightarrow> bytes option) \<Rightarrow>
    fobj \<Rightarrow> u32 list \<Rightarrow> 'd FAT \<Rightarrow> (u32 \<Rightarrow> u32) \<Rightarrow> (u32 \<Rightarrow> bytes option) \<Rightarrow> fobj \<Rightarrow> u32 list \<Rightarrow> bool" where
  "dir_next good view F E R f xs F' E' R' f' ys \<longleftrightarrow>
     dir_ok good view F' E' R' f' ys \<and> F_bpb F' = F_bpb F \<and> ino f' = ino f \<and> set ys \<subseteq> set xs \<and> only_clus (F_bpb F) xs [] E E' R R'"

lemma set_file_secs_mono: "set ys \<subseteq> set xs \<Longrightarrow> set (file_secs bpb ys) \<subseteq> set (file_secs bpb xs)"
  by (auto simp: file_secs_def)

lemma only_secs_mono: "only_secs S R R' \<Longrightarrow> S \<subseteq> T \<Longrightarrow> only_secs T R R'"
  by (auto simp: only_secs_def)

lemma dir_next_refl: "dir_ok good view F E R f xs \<Longrightarrow> dir_next good view F E R f xs F E R f xs"
  by (simp add: dir_next_def only_clus_def)

lemma dir_next_trans:
  assumes "dir_next good view F E R f xs F1 E1 R1 f1 ys" and "dir_next good view F1 E1 R1 f1 ys F2 E2 R2 f2 zs"
  shows "dir_next good view F E R f xs F2 E2 R2 f2 zs"
proof -
  have "only_secs (set (file_secs (F_bpb F) xs)) R R2"
  proof (rule only_secs_trans)
    have sub: "set (file_secs (F_bpb F) ys) \<subseteq> set (file_secs (F_bpb F) xs)"
      using assms(1) by (intro set_file_secs_mono) (simp add: dir_next_def)
    show "only_secs (set (file_secs (F_bpb F) xs)) R R1" using assms(1) by (simp add: dir_next_def only_clus_def)
    show "only_secs (set (file_secs (F_bpb F) xs)) R1 R2"
      using assms only_secs_mono [OF _ sub] by (simp add: dir_next_def only_clus_def)
  qed
  moreover have "E2 n = E n" if "n \<notin> set xs" for n
    using assms that by (auto simp: dir_next_def only_clus_def)
  moreover have "set zs \<subseteq> set xs" using assms by (auto simp: dir_next_def)
  ultimately show ?thesis using assms by (simp add: dir_next_def only_clus_def)
qed

lemma dir_kept_next:
  "dir_kept good view E R xs F f f' F' \<Longrightarrow> dir_next good view F E R f xs F' E R f' xs"
  using dir_kept_bpb [of good view E R xs F f f' F'] by (simp add: dir_next_def dir_kept_def only_clus_def same_objD)

text \<open>What writing leaves: also the counters of the FAT object as they were.\<close>

definition dir_wrote :: "('d \<Rightarrow> bool) \<Rightarrow> ('d \<Rightarrow> u32 \<Rightarrow> bytes option) \<Rightarrow> 'd FAT \<Rightarrow> (u32 \<Rightarrow> u32) \<Rightarrow> (u32 \<Rightarrow> bytes option) \<Rightarrow>
    fobj \<Rightarrow> u32 list \<Rightarrow> 'd FAT \<Rightarrow> (u32 \<Rightarrow> u32) \<Rightarrow> (u32 \<Rightarrow> bytes option) \<Rightarrow> fobj \<Rightarrow> bool" where
  "dir_wrote good view F E R f xs F' E' R' f' \<longleftrightarrow>
     dir_next good view F E R f xs F' E' R' f' xs \<and> F' = F\<lparr>F_device := F_device F'\<rparr>
     \<and> f'\<lparr>f_acc_date := f_acc_date f, f_clus_chain := f_clus_chain f, f_wrt_time := f_wrt_time f\<rparr> = f"

lemma dir_wrote_next: "dir_wrote good view F E R f xs F' E' R' f' \<Longrightarrow> dir_next good view F E R f xs F' E' R' f' xs"
  by (simp add: dir_wrote_def)

lemma dir_wrote_refl: "dir_ok good view F E R f xs \<Longrightarrow> dir_wrote good view F E R f xs F E R f"
  by (simp add: dir_wrote_def dir_next_refl)

lemma dir_wrote_trans:
  assumes "dir_wrote good view F E R f xs F1 E1 R1 f1" and "dir_wrote good view F1 E1 R1 f1 xs F2 E2 R2 f2"
  shows "dir_wrote good view F E R f xs F2 E2 R2 f2"
proof -
  have "F2 = F\<lparr>F_device := F_device F2\<rparr>" using assms by (cases F; cases F1; cases F2) (simp add: dir_wrote_def)
  moreover have "f2\<lparr>f_acc_date := f_acc_date f, f_clus_chain := f_clus_chain f, f_wrt_time := f_wrt_time f\<rparr> = f"
    using assms by (cases f; cases f1; cases f2) (simp add: dir_wrote_def)
  ultimately show ?thesis using assms dir_next_trans unfolding dir_wrote_def by blast
qed

context block_device
begin

text \<open>A write that reaches the end of the directory first truncates it to the size it has.\<close>

lemma write_at_end_ok:
  fixes cnt off :: u32
  assumes ok: "dir_ok good view F E R f xs" and buf: "unat cnt \<le> length buf" and pos: "0 < unat cnt"
    and off: "unat off + unat cnt = byte_len F f xs"
  shows "\<exists>F' f' E' R'. File_write D now F f buf cnt off = Some (cnt, f', F') \<and> dir_wrote good view F E R f xs F' E' R' f'
    \<and> file_content R' (F_bpb F) xs = overwrite (file_content R (F_bpb F) xs) (unat off) (take (unat cnt) buf)"
proof -
  note b = dir_slots_bound [OF ok]
  have h: "fat_holds good view F E R" "file_holds F E R f xs" "f_is_dir f" "512 * (length xs * spc (F_bpb F)) < 2 ^ 32"
    using ok by (simp_all add: dir_ok_def)
  have len: "byte_len F f xs = 512 * (length xs * spc (F_bpb F))" using h(3) by (simp add: byte_len_def)
  obtain f1 d1 where r1: "file_sz D F f = Some (of_nat (byte_len F f xs), f1, F\<lparr>F_device := d1\<rparr>)" "same_file xs f f1"
      "fat_holds good view (F\<lparr>F_device := d1\<rparr>) E R" using file_sz_ok [OF h(1,2)] by blast
  note sf1 = same_file_facts [OF r1(2)]
  let ?F1 = "F\<lparr>F_device := d1\<rparr>" and ?E = "cut (length xs) xs E"
  have u: "unat (off + cnt) = byte_len F f xs" using off h(4) len by (subst unat_plus) simp_all
  have s: "0 < spc (F_bpb F)" by (rule file_holds_facts(4) [OF h(1,2)])
  have x: "0 < length xs" using off pos len by (cases xs) simp_all
  define m where "m = 512 * spc (F_bpb F)"
  have m: "0 < m" "512 * (length xs * spc (F_bpb F)) = m * length xs" using s by (simp_all add: m_def)
  have "(m * length xs - 1) div m = length xs - 1" using m(1) x by (cases xs) (simp_all add: div_nat_eqI)
  then have need: "clus_need (F_bpb F) (unat (off + cnt)) = length xs"
    using x m s unfolding u len m(2) clus_need_def m_def [symmetric] by auto
  have h1: "file_holds ?F1 E R f1 xs" using sf1(3) h(2) by simp
  obtain d2 where t: "File_truncate D ?F1 f1 (off + cnt) = Some (True, truncated (f_fst_clus f) (off + cnt) f1, F\<lparr>F_device := d2\<rparr>)"
      "fat_holds good view (F\<lparr>F_device := d2\<rparr>) ?E R" "file_holds F ?E R (truncated (f_fst_clus f) (off + cnt) f1) xs"
    using truncate_shrink_ok [OF r1(3) h1, of "off + cnt"] need x r1(2)
    by (auto simp: took_0 same_file_def split: if_splits)
  let ?f = "truncated (f_fst_clus f) (off + cnt) f1"
  have o: "unat off div 512 < length xs * spc (F_bpb F)" using off pos len by (simp add: div_less_iff_less_mult)
  obtain d3 d R' where w: "modify_sector D (F\<lparr>F_device := d2\<rparr>) ?f (off div 512) (off mod 512) (memcpy_in (unat (min cnt (512 - off mod 512))) buf)
      = Some (with_chain xs ?f, F\<lparr>F_device := d3\<rparr>)"
    "write_loop D 512 (F\<lparr>F_device := d3\<rparr>) (with_chain xs ?f) (off div 512 + 1) (cnt - min cnt (512 - off mod 512))
        (drop (unat (min cnt (512 - off mod 512))) buf) = Some (0, with_chain xs ?f, F\<lparr>F_device := d\<rparr>)"
    "fat_holds good view (F\<lparr>F_device := d\<rparr>) ?E R'"
    "file_content R' (F_bpb F) xs = overwrite (file_content R (F_bpb F) xs) (unat off) (take (unat cnt) buf)"
    "only_secs (set (file_secs (F_bpb F) xs)) R R'"
    using write_body_ok [OF t(2) _ buf, of ?f xs off] t(3) off len o by auto
  let ?g = "setWrtTime (getCurDosTs now) (with_chain xs ?f)"
  have "File_write D now F f buf cnt off = Some (cnt, ?g, F\<lparr>F_device := d\<rparr>)"
    using r1(1) t(1) w(1,2) bps_512 [OF h(1)] by (simp add: File_write_def Let_def flip: u)
  moreover have "file_holds F ?E R' (with_chain xs ?f) xs" using file_holds_only_secs [OF t(3) w(5)] by (simp add: file_holds_def split: if_splits)
  then have "dir_ok good view (F\<lparr>F_device := d\<rparr>) ?E R' ?g xs"
    using w(3) h(3,4) sf1(2) by (simp add: dir_ok_def file_holds_def setWrtTime_def split: if_splits)
  moreover have "ino ?g = ino f"
    using r1(2) by (auto simp: ino_def setWrtTime_def with_chain_def truncated_def same_file_def Let_def)
  moreover have "?g\<lparr>f_acc_date := f_acc_date f, f_clus_chain := f_clus_chain f, f_wrt_time := f_wrt_time f\<rparr> = f"
    using r1(2) h(3) by (cases f; cases f1) (auto simp: setWrtTime_def with_chain_def truncated_def same_file_def Let_def)
  ultimately show ?thesis using w(4,5)
    by (intro exI [of _ "F\<lparr>F_device := d\<rparr>"] exI [of _ ?g] exI [of _ ?E] exI [of _ R']) (simp add: dir_wrote_def dir_next_def only_clus_def cut_other)
qed

lemma writeDirEntry_wrote:
  assumes ok: "dir_ok good view F E R f xs" and S: "dir_slots R (F_bpb F) xs = S" and n: "n < length S" and e: "wf_long e"
  shows "\<exists>F' f' E' R'. writeDirEntry D now F f (of_nat n) e = Some (True, f', F') \<and> dir_wrote good view F E R f xs F' E' R' f'
    \<and> dir_slots R' (F_bpb F') xs = S[n := e]"
proof -
  let ?C = "file_content R (F_bpb F) xs" and ?off = "KDirEntrySize * of_nat n :: u32"
  note b = dir_slots_bound [OF ok, unfolded S]
  have h: "fat_holds good view F E R" "file_holds F E R f xs" using ok by (simp_all add: dir_ok_def)
  have "n < 2 ^ LENGTH(32)" using n b(2) by simp
  then have "unat (of_nat n :: u32) = n" by (rule unat_of_nat_lt)
  then have off: "unat ?off = 32 * n" "unat KDirEntrySize = 32"
    using n b(2) by (simp_all add: KDirEntrySize_def unat_word_ariths(2) take_bit_nat_eq_self)
  have l: "length (encode_long e) = 32" using e by simp
  have "\<exists>F' f' E' R'. File_write D now F f (encode_long e) KDirEntrySize ?off = Some (KDirEntrySize, f', F')
    \<and> dir_wrote good view F E R f xs F' E' R' f' \<and> file_content R' (F_bpb F) xs = overwrite ?C (32 * n) (encode_long e)"
  proof (cases "Suc n = length S")
    case True
    then have "unat ?off + unat KDirEntrySize = byte_len F f xs" using b(3) off by simp
    then show ?thesis using write_at_end_ok [OF ok, of KDirEntrySize "encode_long e" ?off] l off by auto
  next
    case False
    then have "unat ?off + unat KDirEntrySize < byte_len F f xs" using b(3) off n by simp
    from File_write_in_place_ok [OF h b(4) _ this, of "encode_long e" now] l off obtain d R' where
      w: "File_write D now F f (encode_long e) KDirEntrySize ?off
        = Some (KDirEntrySize, setWrtTime (getCurDosTs now) (with_chain xs f), F\<lparr>F_device := d\<rparr>)"
        "fat_holds good view (F\<lparr>F_device := d\<rparr>) E R'" "file_content R' (F_bpb F) xs = overwrite ?C (32 * n) (encode_long e)"
        "only_secs (set (file_secs (F_bpb F) xs)) R R'" by auto
    have "dir_ok good view (F\<lparr>F_device := d\<rparr>) E R' (setWrtTime (getCurDosTs now) (with_chain xs f)) xs"
      using ok w(2) file_holds_only_secs [OF h(2) w(4)] by (simp add: dir_ok_def file_holds_def setWrtTime_def)
    then show ?thesis using w
      by (intro exI [of _ "F\<lparr>F_device := d\<rparr>"] exI [of _ "setWrtTime (getCurDosTs now) (with_chain xs f)"] exI [of _ E] exI [of _ R'])
        (simp add: dir_wrote_def dir_next_def only_clus_def ino_def setWrtTime_def with_chain_def)
  qed
  then obtain F' f' E' R' where w: "File_write D now F f (encode_long e) KDirEntrySize ?off = Some (KDirEntrySize, f', F')"
      "dir_wrote good view F E R f xs F' E' R' f'" "file_content R' (F_bpb F) xs = overwrite ?C (32 * n) (encode_long e)" by blast
  have "dir_slots R' (F_bpb F) xs = S[n := e]"
    using slots_overwrite [OF b(1) n e] S by (simp add: dir_slots_def w(3))
  moreover have "F_bpb F' = F_bpb F" using w(2) by (simp add: dir_wrote_def dir_next_def)
  ultimately show ?thesis using w(1,2) by (auto simp: writeDirEntry_def)
qed

lemma writeDirEntry_ok:
  assumes "dir_ok good view F E R f xs" and "dir_slots R (F_bpb F) xs = S" and "n < length S" and "wf_long e"
  shows "\<exists>F' f' E' R'. writeDirEntry D now F f (of_nat n) e = Some (True, f', F') \<and> dir_next good view F E R f xs F' E' R' f' xs
    \<and> dir_slots R' (F_bpb F') xs = S[n := e]"
  using writeDirEntry_wrote [OF assms, of now] dir_wrote_next by blast

text \<open>Truncating to a smaller size keeps the first slots.\<close>

lemma truncate_dir_ok:
  assumes ok: "dir_ok good view F E R f xs" and S: "dir_slots R (F_bpb F) xs = S" and len: "unat len \<le> 32 * length S"
  shows "\<exists>F' f' E' k. File_truncate D F f len = Some (True, f', F')
    \<and> dir_next good view F E R f xs F' E' R f' (take k xs) \<and> (\<exists>m. dir_slots R (F_bpb F') (take k xs) = take m S \<and> unat len \<le> 32 * m)"
proof -
  note b = dir_slots_bound [OF ok, unfolded S]
  have h: "fat_holds good view F E R" "file_holds F E R f xs" "f_is_dir f" "512 * (length xs * spc (F_bpb F)) < 2 ^ 32"
    using ok by (simp_all add: dir_ok_def)
  let ?k = "clus_need (F_bpb F) (unat len)"
  have cap: "32 * length S = 512 * (length xs * spc (F_bpb F))" using length_content [OF h(1,2)] b(1) by simp
  have k: "?k \<le> length xs"
    using len cap by (intro clus_need_least [OF file_holds_facts(4) [OF h(1,2)]]) simp
  obtain d where t: "File_truncate D F f len
        = Some (True, truncated (if ?k = 0 then 0 else f_fst_clus f) len f, took (of_nat (length xs - ?k)) d F)"
      "fat_holds good view (F\<lparr>F_device := d\<rparr>) (cut ?k xs E) R"
      "file_holds F (cut ?k xs E) R (truncated (if ?k = 0 then 0 else f_fst_clus f) len f) (take ?k xs)"
    using truncate_shrink_ok [OF h(1,2) k] by blast
  let ?F = "took (of_nat (length xs - ?k)) d F" and ?f = "truncated (if ?k = 0 then 0 else f_fst_clus f) len f"
  have g: "fat_holds good view ?F (cut ?k xs E) R" "file_holds ?F (cut ?k xs E) R ?f (take ?k xs)"
    using t(2,3) by (simp_all add: took_def file_holds_def split: if_splits)
  have "512 * (length (take ?k xs) * spc (F_bpb F)) \<le> 512 * (length xs * spc (F_bpb F))"
    by (intro mult_le_mono2 mult_le_mono1) simp
  then have "512 * (length (take ?k xs) * spc (F_bpb F)) < 2 ^ 32" using h(4) by (rule order_le_less_trans)
  then have "dir_ok good view ?F (cut ?k xs E) R ?f (take ?k xs)"
    using g h(3) unfolding dir_ok_def took_sel truncated_sel by blast
  moreover have "ino ?f = ino f" by (simp add: ino_def truncated_def Let_def)
  ultimately have nx: "dir_next good view F E R f xs ?F (cut ?k xs E) R ?f (take ?k xs)"
    using set_take_subset [of ?k xs] by (simp add: dir_next_def only_clus_def cut_other)
  let ?m = "16 * (length (take ?k xs) * spc (F_bpb F))"
  have "length (file_content R (F_bpb F) (take ?k xs)) = 32 * ?m" using length_content [OF g] by simp
  from slots_prefix [OF this, of "file_content R (F_bpb F) (drop ?k xs)"]
  have "dir_slots R (F_bpb F) (take ?k xs) = take ?m S"
    using S by (simp add: dir_slots_def flip: file_content_append)
  moreover have "unat len \<le> 32 * ?m"
    using clus_need_covers [OF file_holds_facts(4) [OF h(1,2)], of "unat len"] k by (simp add: min_def)
  ultimately show ?thesis using t(1) nx
    by (intro exI [of _ ?F] exI [of _ ?f] exI [of _ "cut ?k xs E"] exI [of _ ?k]) auto
qed

text \<open>The loop of \<open>delFile\<close>.\<close>

lemma erase_range_ok:
  assumes "dir_ok good view F E R f xs" and "dir_slots R (F_bpb F) xs = S" and "n + k \<le> length S"
  shows "\<exists>F' f' E' R'. erase_range D now (of_nat (n + k)) F f (of_nat n) = Some (f', F')
    \<and> dir_next good view F E R f xs F' E' R' f' xs
    \<and> dir_slots R' (F_bpb F') xs = take n S @ replicate k (setDirEntryEmpty zero_entry) @ drop (n + k) S"
  using assms
proof (induction k arbitrary: n F E R f S)
  case 0
  then show ?case using dir_next_refl [OF 0(1)]
    by (intro exI [of _ F] exI [of _ f] exI [of _ E] exI [of _ R]) (simp add: erase_range.simps)
next
  case (Suc k)
  let ?e = "setDirEntryEmpty zero_entry"
  have n: "n < length S" using Suc.prems(3) by simp
  have wf: "wf_long ?e" by (simp add: wf_long_def setDirEntryEmpty_def zero_entry_def decode_long_def field_def)
  obtain F1 f1 E1 R1 where w: "writeDirEntry D now F f (of_nat n) ?e = Some (True, f1, F1)"
      "dir_next good view F E R f xs F1 E1 R1 f1 xs" "dir_slots R1 (F_bpb F1) xs = S[n := ?e]"
    using writeDirEntry_ok [OF Suc.prems(1,2) n wf] by blast
  have ok1: "dir_ok good view F1 E1 R1 f1 xs" using w(2) by (simp add: dir_next_def)
  have "Suc n + k \<le> length (S[n := ?e])" using Suc.prems(3) by simp
  from Suc.IH [OF ok1 w(3) this] obtain F2 f2 E2 R2 where
    i: "erase_range D now (of_nat (Suc n + k)) F1 f1 (of_nat (Suc n)) = Some (f2, F2)"
      "dir_next good view F1 E1 R1 f1 xs F2 E2 R2 f2 xs"
      "dir_slots R2 (F_bpb F2) xs = take (Suc n) (S[n := ?e]) @ replicate k ?e @ drop (Suc n + k) (S[n := ?e])" by blast
  have b: "n < 2 ^ LENGTH(32)" "n + Suc k < 2 ^ LENGTH(32)"
    using Suc.prems(3) dir_slots_bound(2) [OF Suc.prems(1), unfolded Suc.prems(2)] by simp_all
  have "(of_nat n :: u32) < of_nat (n + Suc k)"
    unfolding word_less_nat_alt unat_of_nat_lt [OF b(1)] unat_of_nat_lt [OF b(2)] by simp
  moreover have "take (Suc n) (S[n := ?e]) @ replicate k ?e @ drop (Suc n + k) (S[n := ?e])
      = take n S @ replicate (Suc k) ?e @ drop (n + Suc k) S"
    using n by (simp add: take_Suc_conv_app_nth)
  ultimately show ?case
    using w(1) i dir_next_trans [OF w(2) i(2)] by (subst erase_range.simps) (auto simp: add.commute)
qed

end

end
