(* ===== verification/EntrySync.thy ===== *)
theory EntrySync
  imports DirWrite
begin

text \<open>
  The walk from the first entry of a file to its short entry in the clusters of the parent, as
  \<open>File::sync\<close> and \<open>FAT32fs::getFileByIno\<close> do it: not through \<open>File::read\<close> but sector by sector.
\<close>

section \<open>Where a slot lies\<close>

definition clus_ix :: "BPB \<Rightarrow> nat \<Rightarrow> u32" where
  "clus_ix bpb n = of_nat (n div 16 div spc bpb)"

definition sec_ix :: "BPB \<Rightarrow> nat \<Rightarrow> u32" where
  "sec_ix bpb n = of_nat (n div 16 mod spc bpb)"

definition off_ix :: "nat \<Rightarrow> u32" where
  "off_ix n = of_nat (32 * (n mod 16))"

definition slot_sec :: "BPB \<Rightarrow> u32 list \<Rightarrow> nat \<Rightarrow> u32" where
  "slot_sec bpb xs n = file_secs bpb xs ! (n div 16)"

lemma unat_off_ix: "unat (off_ix n) = 32 * (n mod 16)"
proof -
  have "32 * (n mod 16) < 2 ^ LENGTH(32)" using mod_less_divisor [of 16 n] by simp
  then show ?thesis unfolding off_ix_def by (rule unat_of_nat_lt)
qed

lemma unat_small: "k < 256 \<Longrightarrow> unat (of_nat k :: u32) = k"
  by (intro unat_of_nat_lt) simp

lemma spc_bound: "spc bpb < 256"
  using unsigned_less [of "BPB_sec_per_clus bpb", where 'a = nat] by simp

lemma Suc_div_mod:
  assumes "0 < (k :: nat)"
  shows "Suc m mod k = (if Suc (m mod k) = k then 0 else Suc (m mod k))" "Suc m div k = (if Suc (m mod k) = k then Suc (m div k) else m div k)"
  using assms by (simp_all add: mod_Suc div_Suc)

lemma entry_sec_slot:
  assumes "0 < spc bpb" and "n div 16 < length xs * spc bpb" and "length xs < 2 ^ 32"
  shows "entry_sec bpb xs (clus_ix bpb n) (sec_ix bpb n) = Some (slot_sec bpb xs n)"
proof -
  have c: "n div 16 div spc bpb < length xs" using assms(1,2) by (simp add: div_less_iff_less_mult)
  then have "unat (clus_ix bpb n) = n div 16 div spc bpb" unfolding clus_ix_def using assms(3) by (intro unat_of_nat_lt) simp
  then show ?thesis using c nth_file_secs [OF assms(2)] by (simp add: entry_sec_def sec_ix_def slot_sec_def)
qed

text \<open>One step leads to the next slot, and says whether there is one.\<close>

lemma iterClusChainEntry_slot:
  assumes "BPB_bytes_per_sec bpb = 512" and "0 < spc bpb" and "n div 16 < length xs * spc bpb" and "length xs < 2 ^ 32 - 1"
  shows "iterClusChainEntry xs (clus_ix bpb n) (sec_ix bpb n) (off_ix n) bpb
    = Some (Suc n < 16 * (length xs * spc bpb), clus_ix bpb (Suc n), sec_ix bpb (Suc n), off_ix (Suc n))"
proof -
  let ?m = "n div 16"
  have j: "Suc n mod 16 = (if Suc (n mod 16) = 16 then 0 else Suc (n mod 16))" "Suc n div 16 = (if Suc (n mod 16) = 16 then Suc ?m else ?m)"
    by (simp_all add: mod_Suc div_Suc)
  have o: "unat (off_ix n) = 32 * (n mod 16)" "off_ix n + 32 = of_nat (32 * Suc (n mod 16))"
    by (rule unat_off_ix) (simp add: off_ix_def)
  have lt: "off_ix n < 512" using mod_less_divisor [of 16 n] by (simp add: word_less_nat_alt o(1))
  have u: "unat (of_nat (32 * Suc (n mod 16)) :: u32) = 32 * Suc (n mod 16)"
    using mod_less_divisor [of 16 n] by (intro unat_of_nat_lt) simp
  then have e: "(of_nat (32 * Suc (n mod 16)) = (512 :: u32)) \<longleftrightarrow> Suc (n mod 16) = 16"
    using u word_unat_eq_iff [of "of_nat (32 * Suc (n mod 16)) :: u32" 512] by simp
  have "?m mod spc bpb < spc bpb" using assms(2) by simp
  then have s: "unat (of_nat (?m mod spc bpb) + 1 :: u32) = Suc (?m mod spc bpb)" "?m mod spc bpb < 256"
    using spc_bound [of bpb] unat_small [of "Suc (?m mod spc bpb)"] by (simp_all add: add.commute)
  have b: "unat (ucast (BPB_sec_per_clus bpb) :: u32) = spc bpb" by (rule unat_ucast_up) simp
  have c: "?m div spc bpb < length xs" using assms(2,3) by (simp add: div_less_iff_less_mult)
  then have "Suc (?m div spc bpb) < 2 ^ LENGTH(32)" using assms(4) by simp
  then have "unat (of_nat (Suc (?m div spc bpb)) :: u32) = Suc (?m div spc bpb)" by (rule unat_of_nat_lt)
  moreover have "clus_ix bpb n + 1 = of_nat (Suc (?m div spc bpb))" by (simp add: clus_ix_def)
  ultimately have cu: "unat (clus_ix bpb n + 1) = Suc (?m div spc bpb)" by (simp only:)
  have w: "(sec_ix bpb n + 1 = ucast (BPB_sec_per_clus bpb)) \<longleftrightarrow> Suc (?m mod spc bpb) = spc bpb"
    by (simp add: sec_ix_def word_unat_eq_iff s(1) b)
  show ?thesis
  proof (cases "Suc (n mod 16) = 16")
    case False
    then have "Suc n div 16 = ?m" "off_ix n + 32 = off_ix (Suc n)" by (simp_all add: j(1,2) o(2) off_ix_def)
    moreover have "Suc n < 16 * (length xs * spc bpb)" using assms(3) calculation(1) by (metis div_less_iff_less_mult mult.commute zero_less_numeral)
    ultimately show ?thesis using lt e o(2) False assms(1) by (simp add: iterClusChainEntry_def clus_ix_def sec_ix_def)
  next
    case True
    then have m: "Suc n div 16 = Suc ?m" and off: "off_ix (Suc n) = 0" by (simp_all add: j(1,2) off_ix_def)
    have d: "Suc n = 16 * Suc ?m" using True by presburger
    have f: "Suc n < 16 * (length xs * spc bpb) \<longleftrightarrow> Suc ?m < length xs * spc bpb" unfolding d by (rule mult_less_cancel1 [THEN trans]) simp
    show ?thesis
    proof (cases "Suc (?m mod spc bpb) = spc bpb")
      case True2: True
      have q: "Suc ?m mod spc bpb = 0" "Suc ?m div spc bpb = Suc (?m div spc bpb)" using Suc_div_mod [OF assms(2), of ?m] True2 by simp_all
      then have "Suc ?m < length xs * spc bpb \<longleftrightarrow> Suc (?m div spc bpb) < length xs"
        using assms(2) by (metis div_less_iff_less_mult)
      moreover have "clus_ix bpb (Suc n) = clus_ix bpb n + 1" "sec_ix bpb (Suc n) = 0" by (simp_all add: clus_ix_def sec_ix_def m q)
      ultimately show ?thesis using lt e o(2) True assms(1) w True2 cu f off by (simp add: iterClusChainEntry_def)
    next
      case False
      have q: "Suc ?m mod spc bpb = Suc (?m mod spc bpb)" "Suc ?m div spc bpb = ?m div spc bpb" using Suc_div_mod [OF assms(2), of ?m] False by simp_all
      then have "Suc ?m < length xs * spc bpb" using c assms(2) by (metis div_less_iff_less_mult)
      moreover have "clus_ix bpb (Suc n) = clus_ix bpb n" "sec_ix bpb (Suc n) = sec_ix bpb n + 1" by (simp_all add: clus_ix_def sec_ix_def m q)
      ultimately show ?thesis using lt e o(2) True assms(1) w False f off by (simp add: iterClusChainEntry_def)
    qed
  qed
qed

text \<open>The walk starts right if the file begins in the first cluster.\<close>

lemma entry_pos_slot:
  assumes "BPB_bytes_per_sec bpb = 512" and "n < 2 ^ 27"
  shows "entry_pos bpb (of_nat n) = Some (of_nat (n div 16), off_ix n)"
    and "entry_pos32 bpb (of_nat n) = Some (of_nat (n div 16), off_ix n)"
    and "n div 16 < spc bpb \<Longrightarrow> clus_ix bpb n = 0 \<and> sec_ix bpb n = of_nat (n div 16)"
proof -
  have m: "of_nat n * KDirEntrySize = (of_nat (32 * n) :: u32)" by (simp add: KDirEntrySize_def)
  have u: "unat (of_nat (32 * n) :: u32) = 32 * n" "unat (of_nat n :: u32) = n" using assms(2) by (intro unat_of_nat_lt, simp)+
  then have d: "of_nat (32 * n) div (512 :: u32) = of_nat (n div 16)" "of_nat (32 * n) mod (512 :: u32) = off_ix n"
    using word_split_512 [of "of_nat (32 * n)"] unat_off_ix [of n] div_mult_mult1 [of 32 n 16] mult_mod_right [of 32 n 16]
    by (simp_all add: word_unat_eq_iff)
  then show "entry_pos32 bpb (of_nat n) = Some (of_nat (n div 16), off_ix n)" using assms(1) m by (simp add: entry_pos32_def Let_def)
  have "unat ((ucast (of_nat n :: u32) :: u64) * 32) = 32 * n" using assms(2) u(2) by (subst unat_mult_lem [THEN iffD1]) (simp_all add: unat_ucast_up)
  then have "unat ((ucast (of_nat n :: u32) :: u64) * 32 div 512) = n div 16" "unat ((ucast (of_nat n :: u32) :: u64) * 32 mod 512) = 32 * (n mod 16)"
    using div_mult_mult1 [of 32 n 16] mult_mod_right [of 32 n 16] by (simp_all add: unat_div unat_mod)
  moreover have "ucast w = (of_nat (unat w) :: u32)" for w :: u64 by simp
  ultimately have "ucast ((ucast (of_nat n :: u32) :: u64) * 32 div 512) = (of_nat (n div 16) :: u32)"
    "ucast ((ucast (of_nat n :: u32) :: u64) * 32 mod 512) = off_ix n" by (simp_all only: off_ix_def)
  then show "entry_pos bpb (of_nat n) = Some (of_nat (n div 16), off_ix n)" using assms(1) by (simp add: entry_pos_def Let_def)
qed (simp add: clus_ix_def sec_ix_def)

section \<open>The bytes of a slot\<close>

lemma decode_take:
  assumes "32 \<le> length p"
  shows "decode_long (take 32 p) = decode_long p" and "decode_short (take 32 p) = decode_short p"
    and "decode_short p = castLongDirEntryToShort (decode_long p)"
proof -
  show l: "decode_long (take 32 p) = decode_long p" and s: "decode_short (take 32 p) = decode_short p"
    using assms by (simp_all add: decode_long_def decode_short_def field_def get16_def get32_def drop_take min_def)
  have "encode_long (decode_long (take 32 p)) = take 32 p" using assms by (intro decode_encode_long) simp
  then show "decode_short p = castLongDirEntryToShort (decode_long p)"
    unfolding castLongDirEntryToShort_def l [symmetric] by (simp add: s)
qed

text \<open>A directory entry as bytes is the end of the block from its place on.\<close>

lemma slot_block:
  assumes ok: "dir_ok good view F E R g xs" and S: "dir_slots R (F_bpb F) xs = S" and n: "n < length S"
  shows "n div 16 < length xs * spc (F_bpb F)" and "length (blocks R (F_bpb F) xs ! (n div 16)) = 512"
    and "R (slot_sec (F_bpb F) xs n) = Some (blocks R (F_bpb F) xs ! (n div 16))"
    and "decode_long (drop (32 * (n mod 16)) (blocks R (F_bpb F) xs ! (n div 16))) = S ! n"
proof -
  have h: "fat_holds good view F E R" "file_holds F E R g xs" using ok by (simp_all add: dir_ok_def)
  have len: "length S = 16 * (length xs * spc (F_bpb F))"
    using dir_slots_bound(1) [OF ok, unfolded S] length_content [OF h] by simp
  show b: "n div 16 < length xs * spc (F_bpb F)" using n len by (simp add: div_less_iff_less_mult mult.commute)
  show "R (slot_sec (F_bpb F) xs n) = Some (blocks R (F_bpb F) xs ! (n div 16))"
    unfolding slot_sec_def by (rule blocks_length(2) [OF h b])
  show l: "length (blocks R (F_bpb F) xs ! (n div 16)) = 512" using blocks_length(1) [OF h] b by simp
  have o: "32 * (n mod 16) + 32 \<le> 512" using mod_less_divisor [of 16 n] by linarith
  have "32 * n = 512 * (n div 16) + 32 * (n mod 16)" using mult_div_mod_eq [of 16 n] by linarith
  then have "drop (32 * n) (file_content R (F_bpb F) xs) = drop (32 * (n mod 16)) (blocks R (F_bpb F) xs ! (n div 16))
      @ concat (drop (Suc (n div 16)) (blocks R (F_bpb F) xs))"
    using drop_into_block [OF blocks_length(1) [OF h], of "n div 16" "32 * (n mod 16)"] b o by (simp add: file_content_def)
  then have "take 32 (drop (32 * n) (file_content R (F_bpb F) xs)) = take 32 (drop (32 * (n mod 16)) (blocks R (F_bpb F) xs ! (n div 16)))"
    using l o by simp
  moreover have "S ! n = decode_long (take 32 (drop (32 * n) (file_content R (F_bpb F) xs)))"
    unfolding S [symmetric] dir_slots_def using n dir_slots_bound(1) [OF ok, unfolded S] by (simp add: nth_slots_of)
  ultimately show "decode_long (drop (32 * (n mod 16)) (blocks R (F_bpb F) xs ! (n div 16))) = S ! n"
    using l o by (simp add: decode_take(1))
qed

context block_device
begin

lemma slot_load_ok:
  assumes ok: "dir_ok good view F E R g xs" and S: "dir_slots R (F_bpb F) xs = S" and n: "n < length S"
  shows "\<exists>p d. dev_load D (F_device F) (slot_sec (F_bpb F) xs n) (off_ix n) = Some (p, d) \<and> 32 \<le> length p
    \<and> decode_long p = S ! n \<and> dir_ok good view (F\<lparr>F_device := d\<rparr>) E R g xs"
proof -
  note b = slot_block [OF assms]
  have o: "32 * (n mod 16) + 32 \<le> 512" using mod_less_divisor [of 16 n] by linarith
  have h: "fat_holds good view F E R" using ok by (simp add: dir_ok_def)
  have "unat (off_ix n) < SECTOR_SIZE" unfolding unat_off_ix using o by (simp add: SECTOR_SIZE_def)
  from data_load_ok [OF h b(3) this] obtain d where
    "dev_load D (F_device F) (slot_sec (F_bpb F) xs n) (off_ix n) = Some (drop (32 * (n mod 16)) (blocks R (F_bpb F) xs ! (n div 16)), d)"
    "fat_holds good view (F\<lparr>F_device := d\<rparr>) E R" unfolding unat_off_ix by blast
  then show ?thesis using b(2,4) o ok by (auto simp: dir_ok_def)
qed

lemma slot_store_ok:
  assumes ok: "dir_ok good view F E R g xs" and S: "dir_slots R (F_bpb F) xs = S" and n: "n < length S" and e: "wf_long e"
    and gm: "\<And>p. 32 \<le> length p \<Longrightarrow> decode_long p = S ! n \<Longrightarrow> gm p = Some (encode_long e @ drop 32 p)"
  shows "\<exists>d R'. dev_modify D (F_device F) (slot_sec (F_bpb F) xs n) (off_ix n) gm = Some d
    \<and> dir_ok good view (F\<lparr>F_device := d\<rparr>) E R' g xs \<and> dir_slots R' (F_bpb F) xs = S[n := e]
    \<and> only_secs (set (file_secs (F_bpb F) xs)) R R'"
proof -
  note b = slot_block [OF ok S n]
  let ?b = "blocks R (F_bpb F) xs ! (n div 16)" and ?o = "32 * (n mod 16)"
  have o: "?o + 32 \<le> 512" using mod_less_divisor [of 16 n] by linarith
  have h: "fat_holds good view F E R" "file_holds F E R g xs" using ok by (simp_all add: dir_ok_def)
  have u: "unat (off_ix n) < SECTOR_SIZE" unfolding unat_off_ix using o by (simp add: SECTOR_SIZE_def)
  have p: "32 \<le> length (drop ?o ?b)" using b(2) o by simp
  have l: "length (encode_long e) = 32" using e by simp
  have "length (encode_long e @ drop 32 (drop ?o ?b)) = SECTOR_SIZE - unat (off_ix n)"
    unfolding unat_off_ix using b(2) o l by (simp add: SECTOR_SIZE_def)
  moreover have "gm (drop (unat (off_ix n)) ?b) = Some (encode_long e @ drop 32 (drop ?o ?b))"
    unfolding unat_off_ix by (rule gm [OF p b(4)])
  ultimately obtain d where
    d: "dev_modify D (F_device F) (slot_sec (F_bpb F) xs n) (off_ix n) gm = Some d"
      "fat_holds good view (F\<lparr>F_device := d\<rparr>) E (R(slot_sec (F_bpb F) xs n \<mapsto> take ?o ?b @ encode_long e @ drop 32 (drop ?o ?b)))"
    using data_modify_ok [where f = gm, OF h(1) b(3) u] unfolding unat_off_ix by blast
  have w: "take ?o ?b @ encode_long e @ drop 32 (drop ?o ?b) = overwrite ?b ?o (encode_long e)"
    using l by (simp add: overwrite_def add.commute)
  let ?R = "R(slot_sec (F_bpb F) xs n \<mapsto> overwrite ?b ?o (encode_long e))"
  have "blocks ?R (F_bpb F) xs = (blocks R (F_bpb F) xs)[n div 16 := overwrite ?b ?o (encode_long e)]"
    unfolding slot_sec_def using file_holds_facts(5) [OF h] b(1) by (intro sec_bytes_upd) simp_all
  moreover have "32 * n = 512 * (n div 16) + ?o" using mult_div_mod_eq [of 16 n] by linarith
  ultimately have "file_content ?R (F_bpb F) xs = overwrite (file_content R (F_bpb F) xs) (32 * n) (encode_long e)"
    using overwrite_block [OF blocks_length(1) [OF h], of "n div 16" ?o "encode_long e"] b(1) o l by (simp add: file_content_def)
  then have "dir_slots ?R (F_bpb F) xs = S[n := e]"
    using slots_overwrite [OF dir_slots_bound(1) [OF ok, unfolded S] n e] S by (simp add: dir_slots_def)
  moreover have "only_secs (set (file_secs (F_bpb F) xs)) R ?R"
    using file_holds_facts(6) [OF h, of "slot_sec (F_bpb F) xs n"] b(1) by (intro only_secs_upd) (simp_all add: slot_sec_def)
  moreover have "dir_ok good view (F\<lparr>F_device := d\<rparr>) E ?R g xs"
    using ok d(2) [unfolded w] file_holds_only_secs [OF h(2) calculation(2)] by (simp add: dir_ok_def)
  ultimately show ?thesis using d(1) by blast
qed

section \<open>The walks\<close>

lemma slot_step:
  assumes ok: "dir_ok good view F E R g xs" and S: "dir_slots R (F_bpb F) xs = S" and n: "n < length S"
  shows "entry_sec (F_bpb F) xs (clus_ix (F_bpb F) n) (sec_ix (F_bpb F) n) = Some (slot_sec (F_bpb F) xs n)"
    and "iterClusChainEntry xs (clus_ix (F_bpb F) n) (sec_ix (F_bpb F) n) (off_ix n) (F_bpb F)
      = Some (Suc n < length S, clus_ix (F_bpb F) (Suc n), sec_ix (F_bpb F) (Suc n), off_ix (Suc n))"
proof -
  have h: "fat_holds good view F E R" "file_holds F E R g xs" using ok by (simp_all add: dir_ok_def)
  have len: "length S = 16 * (length xs * spc (F_bpb F))"
    using dir_slots_bound(1) [OF ok, unfolded S] length_content [OF h] by simp
  note f = file_holds_facts [OF h]
  have "length xs \<le> length xs * spc (F_bpb F)" using f(4) by simp
  moreover have "length xs * spc (F_bpb F) < 2 ^ 23" using ok by (simp add: dir_ok_def)
  ultimately have "length xs < 2 ^ 23" by (rule order_le_less_trans)
  then have x: "length xs < 2 ^ 32 - 1" "length xs < 2 ^ 32" by simp_all
  note b = slot_block(1) [OF assms]
  show "entry_sec (F_bpb F) xs (clus_ix (F_bpb F) n) (sec_ix (F_bpb F) n) = Some (slot_sec (F_bpb F) xs n)"
    by (rule entry_sec_slot [OF f(4) b x(2)])
  show "iterClusChainEntry xs (clus_ix (F_bpb F) n) (sec_ix (F_bpb F) n) (off_ix n) (F_bpb F)
      = Some (Suc n < length S, clus_ix (F_bpb F) (Suc n), sec_ix (F_bpb F) (Suc n), off_ix (Suc n))"
    unfolding len by (rule iterClusChainEntry_slot [OF geometryD(1) [OF f(1)] f(4) b x(1)])
qed

lemma find_short_ok:
  assumes "dir_ok good view F E R g xs" and "dir_slots R (F_bpb F) xs = S" and "drop n S = ls @ e # rest"
    and "\<forall>l \<in> set ls. isLongDirEntry l" and "\<not> isLongDirEntry e"
  shows "\<exists>d. find_short D F xs (clus_ix (F_bpb F) n) (sec_ix (F_bpb F) n) (off_ix n)
      = Some (slot_sec (F_bpb F) xs (n + length ls), off_ix (n + length ls), F\<lparr>F_device := d\<rparr>)
    \<and> dir_ok good view (F\<lparr>F_device := d\<rparr>) E R g xs"
  using assms
proof (induction ls arbitrary: n F)
  case Nil
  then have n: "n < length S" "S ! n = e" using drop_ConsD [of n S e rest] by simp_all
  obtain p d where "dev_load D (F_device F) (slot_sec (F_bpb F) xs n) (off_ix n) = Some (p, d)" "32 \<le> length p"
      "decode_long p = e" "dir_ok good view (F\<lparr>F_device := d\<rparr>) E R g xs"
    using slot_load_ok [OF Nil.prems(1,2) n(1)] n(2) by blast
  then show ?case using slot_step(1) [OF Nil.prems(1,2) n(1)] Nil.prems(5)
    by (intro exI [of _ d]) (subst find_short.simps, simp)
next
  case (Cons l ls)
  then have n: "n < length S" "S ! n = l" "drop (Suc n) S = ls @ e # rest" using drop_ConsD [of n S l "ls @ e # rest"] by simp_all
  obtain p d where r: "dev_load D (F_device F) (slot_sec (F_bpb F) xs n) (off_ix n) = Some (p, d)" "32 \<le> length p"
      "decode_long p = l" "dir_ok good view (F\<lparr>F_device := d\<rparr>) E R g xs"
    using slot_load_ok [OF Cons.prems(1,2) n(1)] n(2) by blast
  have "Suc n < length S" using n(3) by (rule_tac ccontr) simp
  moreover obtain d2 where "find_short D (F\<lparr>F_device := d\<rparr>) xs (clus_ix (F_bpb F) (Suc n)) (sec_ix (F_bpb F) (Suc n)) (off_ix (Suc n))
      = Some (slot_sec (F_bpb F) xs (Suc n + length ls), off_ix (Suc n + length ls), F\<lparr>F_device := d2\<rparr>)"
      "dir_ok good view (F\<lparr>F_device := d2\<rparr>) E R g xs"
    using Cons.IH [OF r(4) _ n(3)] Cons.prems(2,4,5) by auto
  ultimately show ?case using slot_step [OF Cons.prems(1,2) n(1)] r Cons.prems(4)
    by (intro exI [of _ d2]) (subst find_short.simps, simp)
qed

lemma ino_loop_ok:
  assumes "dir_ok good view F E R g xs" and "dir_slots R (F_bpb F) xs = S" and "drop n S = ls @ e # rest"
    and "\<forall>l \<in> set ls. \<not> isEmptyDirEntry l \<and> isValidLongDirEntry l c" and "\<not> isEmptyDirEntry e" and "\<not> isLongDirEntry e"
    and "crc \<in> {None, Some c}"
  shows "\<exists>d. ino_loop D F xs (clus_ix (F_bpb F) n) (sec_ix (F_bpb F) n) (off_ix n) nm crc
      = Some (Inr (castLongDirEntryToShort e, long_name ls @ nm, if ls = [] then crc else Some c), F\<lparr>F_device := d\<rparr>)
    \<and> dir_ok good view (F\<lparr>F_device := d\<rparr>) E R g xs"
  using assms
proof (induction ls arbitrary: n F nm crc)
  case Nil
  then have n: "n < length S" "S ! n = e" using drop_ConsD [of n S e rest] by simp_all
  obtain p d where "dev_load D (F_device F) (slot_sec (F_bpb F) xs n) (off_ix n) = Some (p, d)" "32 \<le> length p"
      "decode_long p = e" "dir_ok good view (F\<lparr>F_device := d\<rparr>) E R g xs"
    using slot_load_ok [OF Nil.prems(1,2) n(1)] n(2) by blast
  then show ?case using slot_step(1) [OF Nil.prems(1,2) n(1)] Nil.prems(5,6)
    by (intro exI [of _ d]) (subst ino_loop.simps, simp add: Let_def long_name_def decode_take(3))
next
  case (Cons l ls)
  then have n: "n < length S" "S ! n = l" "drop (Suc n) S = ls @ e # rest" using drop_ConsD [of n S l "ls @ e # rest"] by simp_all
  obtain p d where r: "dev_load D (F_device F) (slot_sec (F_bpb F) xs n) (off_ix n) = Some (p, d)" "32 \<le> length p"
      "decode_long p = l" "dir_ok good view (F\<lparr>F_device := d\<rparr>) E R g xs"
    using slot_load_ok [OF Cons.prems(1,2) n(1)] n(2) by blast
  have "Suc n < length S" using n(3) by (rule_tac ccontr) simp
  moreover obtain d2 where "ino_loop D (F\<lparr>F_device := d\<rparr>) xs (clus_ix (F_bpb F) (Suc n)) (sec_ix (F_bpb F) (Suc n)) (off_ix (Suc n))
        (readLongEntryName l @ nm) (Some c)
      = Some (Inr (castLongDirEntryToShort e, long_name ls @ readLongEntryName l @ nm, Some c), F\<lparr>F_device := d2\<rparr>)"
      "dir_ok good view (F\<lparr>F_device := d2\<rparr>) E R g xs"
    using Cons.IH [OF r(4) _ n(3), of "Some c" "readLongEntryName l @ nm"] Cons.prems(2,4-6) by auto
  moreover have "isLongDirEntry l" "chk_sum l = c" using Cons.prems(4) by (simp_all add: isValidLongDirEntry_def)
  ultimately show ?case using slot_step [OF Cons.prems(1,2) n(1)] r Cons.prems(4,7)
    by (intro exI [of _ d2]) (subst ino_loop.simps, auto simp: Let_def long_name_def)
qed

end

section \<open>Synchronising and reading back\<close>

text \<open>The entries of an object in its parent \<open>g\<close>: it begins in slot \<open>n\<close>, in the first cluster.\<close>

definition lies_at :: "fobj \<Rightarrow> fobj \<Rightarrow> BPB \<Rightarrow> nat \<Rightarrow> bool" where
  "lies_at f g bpb n \<longleftrightarrow> f_parent_clus f = f_fst_clus g \<and> f_fst_entry_num f = of_nat n \<and> n < 16 * spc bpb"

definition synced :: "fobj \<Rightarrow> bool \<Rightarrow> LongDirEntry \<Rightarrow> LongDirEntry" where
  "synced f dir e = castShortDirEntryToLong (meta_into f dir (castLongDirEntryToShort e))"

lemma store_meta_entry:
  assumes "32 \<le> length p"
  shows "store_meta f dir p = Some (encode_long (synced f dir (decode_long p)) @ drop 32 p)"
    and "wf_short (meta_into f dir (castLongDirEntryToShort (decode_long p)))"
proof -
  have s: "castLongDirEntryToShort (decode_long p) = decode_short (take 32 p)" using assms by (simp add: decode_take)
  have w: "wf_short (decode_short (take 32 p))" using assms by (intro wf_decode(1)) simp
  then show wf: "wf_short (meta_into f dir (castLongDirEntryToShort (decode_long p)))"
    unfolding s by (simp add: wf_short_def meta_into_def setFstClusNo_def Let_def)
  then have "length (encode_short (meta_into f dir (castLongDirEntryToShort (decode_long p)))) = 32" by simp
  then show "store_meta f dir p = Some (encode_long (synced f dir (decode_long p)) @ drop 32 p)"
    using assms by (simp add: store_meta_def synced_def castShortDirEntryToLong_def decode_encode_long decode_take(3))
qed

lemma slot_wf: "dir_slots R bpb xs = S \<Longrightarrow> n < length S \<Longrightarrow> \<exists>p. length p = 32 \<and> S ! n = decode_long p"
  unfolding dir_slots_def by (auto simp: slots_of_def intro!: exI [of _ "take 32 (drop (32 * n) (file_content R bpb xs))"])

lemma synced_facts:
  assumes "dir_slots R bpb xs = S" and "n < length S"
  shows "wf_long (synced f dir (S ! n))" and "castLongDirEntryToShort (synced f dir (S ! n)) = meta_into f dir (castLongDirEntryToShort (S ! n))"
    and "le_ord (synced f dir (S ! n)) = le_ord (S ! n)" and "le_attr (synced f dir (S ! n)) = le_attr (S ! n)"
proof -
  obtain p where p: "length p = 32" "S ! n = decode_long p" using slot_wf [OF assms] by blast
  have wf: "wf_short (meta_into f dir (castLongDirEntryToShort (S ! n)))" using store_meta_entry(2) [of p] p by simp
  show "wf_long (synced f dir (S ! n))" using wf by (simp add: synced_def castShortDirEntryToLong_def wf_decode)
  show "castLongDirEntryToShort (synced f dir (S ! n)) = meta_into f dir (castLongDirEntryToShort (S ! n))"
    unfolding synced_def by (rule cast_round_trip(1) [OF wf])
  have l: "length (se_name (castLongDirEntryToShort (S ! n))) = 11" using wf by (simp add: wf_short_def meta_into_def setFstClusNo_def Let_def split: if_splits)
  have s: "castLongDirEntryToShort (S ! n) = decode_short p" using p decode_take(3) [of p] by simp
  have p0: "p \<noteq> []" using p(1) by auto
  show "le_ord (synced f dir (S ! n)) = le_ord (S ! n)" "le_attr (synced f dir (S ! n)) = le_attr (S ! n)"
    using p l p0 unfolding synced_def s
    by (simp_all add: castShortDirEntryToLong_def decode_long_def encode_short_def nth_append meta_into_def setFstClusNo_def Let_def decode_short_def field_def)
qed

context block_device
begin

lemma parent_chain_ok:
  assumes ok: "dir_ok good view F E R g xs" and "xs \<noteq> []"
  shows "\<exists>d. readClusChains D F (f_fst_clus g) = Some (xs, F\<lparr>F_device := d\<rparr>) \<and> dir_ok good view (F\<lparr>F_device := d\<rparr>) E R g xs"
proof -
  have h: "fat_holds good view F E R" "file_holds F E R g xs" using ok by (simp_all add: dir_ok_def)
  then have "isValidCluster (f_fst_clus g)" "chain (fat_size F) E (f_fst_clus g) xs"
    using assms(2) by (auto simp: file_holds_def split: if_splits)
  from readClusChains_ok [OF h(1) this] ok show ?thesis by (auto simp: dir_ok_def)
qed

lemma slots_chain: "dir_ok good view F E R g xs \<Longrightarrow> n < length (dir_slots R (F_bpb F) xs) \<Longrightarrow> xs \<noteq> []"
  by (auto simp: dir_slots_def file_content_def file_secs_def sec_bytes_def slots_of_def)

text \<open>\<open>sync\<close> changes the short entry of the object, and nothing else.\<close>

lemma sync_meta_entry_ok:
  assumes ok: "dir_ok good view F E R g xs" and S: "dir_slots R (F_bpb F) xs = S" and d: "drop n S = ls @ e # rest"
    and ls: "\<forall>l \<in> set ls. isLongDirEntry l" and e: "\<not> isLongDirEntry e" and at: "lies_at f g (F_bpb F) n"
  shows "\<exists>d' R'. sync_meta_entry D F f dir = Some (F\<lparr>F_device := d'\<rparr>) \<and> dir_ok good view (F\<lparr>F_device := d'\<rparr>) E R' g xs
    \<and> dir_slots R' (F_bpb F) xs = S[n + length ls := synced f dir e] \<and> only_secs (set (file_secs (F_bpb F) xs)) R R'"
proof -
  let ?m = "n + length ls"
  have m: "?m < length S" "S ! ?m = e"
  proof -
    have "drop ?m S = drop (length ls) (drop n S)" by (simp add: add.commute)
    then have dm: "drop ?m S = e # rest" by (simp add: d)
    show "?m < length S" "S ! ?m = e" using drop_ConsD(1,2) [OF dm] by simp_all
  qed
  then have n: "n < length S" by simp
  have h: "fat_holds good view F E R" "file_holds F E R g xs" using ok by (simp_all add: dir_ok_def)
  obtain d1 where c: "readClusChains D F (f_parent_clus f) = Some (xs, F\<lparr>F_device := d1\<rparr>)" "dir_ok good view (F\<lparr>F_device := d1\<rparr>) E R g xs"
    using parent_chain_ok [OF ok slots_chain [OF ok]] n S at by (auto simp: lies_at_def)
  note bps = geometryD(1) [OF file_holds_facts(1) [OF h]]
  have n27: "n < 2 ^ 27" using n dir_slots_bound(2) [OF ok, unfolded S] by simp
  have pos: "entry_pos (F_bpb F) (f_fst_entry_num f) = Some (sec_ix (F_bpb F) n, off_ix n)" "clus_ix (F_bpb F) n = 0"
    using entry_pos_slot [OF bps n27] at by (auto simp: lies_at_def div_less_iff_less_mult mult.commute)
  obtain d2 where w: "find_short D (F\<lparr>F_device := d1\<rparr>) xs 0 (sec_ix (F_bpb F) n) (off_ix n)
      = Some (slot_sec (F_bpb F) xs ?m, off_ix ?m, F\<lparr>F_device := d2\<rparr>)" "dir_ok good view (F\<lparr>F_device := d2\<rparr>) E R g xs"
    using find_short_ok [OF c(2) _ d ls e] S pos(2) by auto
  have S2: "dir_slots R (F_bpb (F\<lparr>F_device := d2\<rparr>)) xs = S" using S by simp
  have "store_meta f dir p = Some (encode_long (synced f dir e) @ drop 32 p)" if "32 \<le> length p" "decode_long p = S ! ?m" for p
    using store_meta_entry(1) [OF that(1), of f dir] that(2) m(2) by simp
  from slot_store_ok [OF w(2) S2 m(1) _ this] synced_facts(1) [OF S m(1), of f dir] m(2) obtain d3 R' where
    "dev_modify D d2 (slot_sec (F_bpb F) xs ?m) (off_ix ?m) (store_meta f dir) = Some d3"
    "dir_ok good view (F\<lparr>F_device := d3\<rparr>) E R' g xs" "dir_slots R' (F_bpb F) xs = S[?m := synced f dir e]"
    "only_secs (set (file_secs (F_bpb F) xs)) R R'" by auto
  then show ?thesis using c(1) pos(1) w(1) by (intro exI [of _ d3] exI [of _ R']) (simp add: sync_meta_entry_def)
qed

end

end
