(* ===== verification/FileSync.thy ===== *)
theory FileSync
  imports FileData
begin

text \<open>
  \<open>File::sync\<close>: the loop over the sectors of the file ends, and what the device shows stays the same.
\<close>

context block_device
begin

lemma sync_data_ok:
  assumes "fat_holds good view F E R" and "file_holds F E R f xs" and "n \<le> length xs * spc (F_bpb F)"
  shows "\<exists>d. sync_data D F f (of_nat n) = Some (with_chain xs f, F\<lparr>F_device := d\<rparr>)
    \<and> fat_holds good view (F\<lparr>F_device := d\<rparr>) E R"
  using assms
proof (induction "length xs * spc (F_bpb F) - n" arbitrary: n F f)
  case 0
  then have n: "n = length xs * spc (F_bpb F)" by simp
  have "n < 2 ^ 32" using file_holds_facts(3) [OF 0(2,3)] n by simp
  from has_sector_ok [OF 0(2,3) this] n show ?case by (subst sync_data.simps) auto
next
  case (Suc m)
  have n: "n < length xs * spc (F_bpb F)" "m = length xs * spc (F_bpb F) - Suc n" using Suc.hyps(2) by simp_all
  have "n < 2 ^ 32" using file_holds_facts(3) [OF Suc.prems(1,2)] n(1) by simp
  from has_sector_ok [OF Suc.prems(1,2) this] n(1) obtain d1 where
    h: "has_sector D F f (of_nat n) = Some (True, with_chain xs f, F\<lparr>F_device := d1\<rparr>)"
      "fat_holds good view (F\<lparr>F_device := d1\<rparr>) E R" by auto
  have f1: "file_holds (F\<lparr>F_device := d1\<rparr>) E R (with_chain xs f) xs" using Suc.prems(2) by simp
  from sync_sector_no_ok [OF h(2) f1, of n] n(1) obtain d2 where
    s: "sync_sector_no D (F\<lparr>F_device := d1\<rparr>) (with_chain xs f) (of_nat n) = Some (with_chain xs f, F\<lparr>F_device := d2\<rparr>)"
      "fat_holds good view (F\<lparr>F_device := d2\<rparr>) E R" by auto
  have "file_holds (F\<lparr>F_device := d2\<rparr>) E R (with_chain xs f) xs" using Suc.prems(2) by simp
  from Suc.hyps(1) [of "F\<lparr>F_device := d2\<rparr>" "Suc n", OF _ s(2) this] n obtain d3 where
    "sync_data D (F\<lparr>F_device := d2\<rparr>) (with_chain xs f) (of_nat (Suc n)) = Some (with_chain xs f, F\<lparr>F_device := d3\<rparr>)"
    "fat_holds good view (F\<lparr>F_device := d3\<rparr>) E R" by auto
  then show ?case
    by (intro exI [of _ d3], subst sync_data.simps) (simp add: h(1) s(1) add.commute)
qed

text \<open>Without the entry of the parent: a directory without one, or \<open>sync(false)\<close>.\<close>

lemma File_sync_data_ok:
  assumes "fat_holds good view F E R" and "file_holds F E R f xs" and "ino f = KRootDirIno \<or> \<not> meta" and "\<not> f_is_deleted f"
  shows "\<exists>d. File_sync D F f dir meta = Some (with_chain xs f, F\<lparr>F_device := d\<rparr>) \<and> fat_holds good view (F\<lparr>F_device := d\<rparr>) E R"
  using sync_data_ok [OF assms(1,2), of 0] assms(3,4) by (auto simp: File_sync_def)

end

end
