(* ===== verification/EntryReload.thy ===== *)
theory EntryReload
  imports EntrySync FileSync
begin

text \<open>
  \<open>FAT32fs::getFileByIno\<close> makes the object from its entries again, and what \<open>sync\<close> does to an entry
  that does not lie in the first cluster of the parent.
\<close>

section \<open>The object behind an inode number\<close>

lemma ino_parts:
  "(ucast (drop_bit 32 (ino f)) :: u32) = f_parent_clus f" "(ucast (ino f AND 0xffffffff) :: u32) = f_fst_entry_num f"
proof -
  have m: "(0xffffffff :: u64) = mask 32" by (simp add: mask_eq_exp_minus_1)
  show "(ucast (drop_bit 32 (ino f)) :: u32) = f_parent_clus f"
    unfolding ino_def by (intro bit_word_eqI) (auto simp: bit_simps dest: bit_imp_le_length)
  show "(ucast (ino f AND 0xffffffff) :: u32) = f_fst_entry_num f"
    unfolding ino_def m by (intro bit_word_eqI) (auto simp: bit_simps)
qed

definition stored_name :: "conversions \<Rightarrow> LongDirEntry list \<Rightarrow> LongDirEntry \<Rightarrow> bytes option" where
  "stored_name C ls e =
     (if ls = [] then do { s \<leftarrow> readShortEntryName (castLongDirEntryToShort e); gbkToUtf8 C s }
      else utf16ToUtf8 C (long_name ls))"

text \<open>A file keeps its place in the listing when its short entry is synchronised.\<close>

lemma meta_into_facts:
  "se_name (meta_into f dir s) = se_name s" "se_attr (meta_into f dir s) = se_attr s" "crt_ts2 (meta_into f dir s) = f_crt_time f"
  "lst_acc_date (meta_into f dir s) = f_acc_date f" "wrt_ts (meta_into f dir s) = f_wrt_time f"
  "readEntryClusNo (meta_into f dir s) = f_fst_clus f" "se_file_sz (meta_into f dir s) = (if dir then se_file_sz s else f_file_sz f)"
  by (simp_all add: meta_into_def Let_def readEntryClusNo_set) (simp_all add: setFstClusNo_def)

lemma synced_item:
  assumes "dir_slots R bpb xs = S" and "m < length S" and "item_ok (Present ls (S ! m))"
  shows "item_ok (Present ls (synced f dir (S ! m)))" and "stored_name C ls (synced f dir (S ! m)) = stored_name C ls (S ! m)"
proof -
  note s = synced_facts [OF assms(1,2), of f dir]
  have r: "readShortEntryName (castLongDirEntryToShort (synced f dir (S ! m))) = readShortEntryName (castLongDirEntryToShort (S ! m))"
    by (simp add: readShortEntryName_def parseEntryType_def s(2) meta_into_facts)
  show "item_ok (Present ls (synced f dir (S ! m)))"
    using assms(3) by (simp add: r file_sum_def isEmptyDirEntry_def isLongDirEntry_def s(3,4))
  show "stored_name C ls (synced f dir (S ! m)) = stored_name C ls (S ! m)" by (simp add: stored_name_def r)
qed

context block_device
begin

lemma fromIno_ok:
  assumes ok: "dir_ok good view F E R g xs" and S: "dir_slots R (F_bpb F) xs = S" and d: "drop n S = ls @ e # rest"
    and it: "item_ok (Present ls e)" and at: "lies_at f g (F_bpb F) n" and nm: "stored_name C ls e = Some nm"
  shows "\<exists>d'. fromIno D C F (ino f) = Some (Some (File_new (isDirectory (castLongDirEntryToShort e)) (f_parent_clus f)
      (f_fst_entry_num f) nm (castLongDirEntryToShort e)), F\<lparr>F_device := d'\<rparr>) \<and> dir_ok good view (F\<lparr>F_device := d'\<rparr>) E R g xs"
proof -
  have h: "fat_holds good view F E R" "file_holds F E R g xs" using ok by (simp_all add: dir_ok_def)
  have n: "n < length S" using d by (rule_tac ccontr) simp
  obtain d1 where c: "readClusChains D F (f_parent_clus f) = Some (xs, F\<lparr>F_device := d1\<rparr>)" "dir_ok good view (F\<lparr>F_device := d1\<rparr>) E R g xs"
    using parent_chain_ok [OF ok slots_chain [OF ok]] n S at by (auto simp: lies_at_def)
  have xs: "xs \<noteq> []" using slots_chain [OF ok] n S by simp
  note bps = geometryD(1) [OF file_holds_facts(1) [OF h]]
  have n27: "n < 2 ^ 27" using n dir_slots_bound(2) [OF ok, unfolded S] by simp
  have pos: "entry_pos32 (F_bpb F) (f_fst_entry_num f) = Some (sec_ix (F_bpb F) n, off_ix n)" "clus_ix (F_bpb F) n = 0"
    using entry_pos_slot [OF bps n27] at by (auto simp: lies_at_def div_less_iff_less_mult mult.commute)
  obtain k where k: "\<forall>l \<in> set ls. \<not> isEmptyDirEntry l \<and> isValidLongDirEntry l k" "ls \<noteq> [] \<longrightarrow> file_sum e = Some k"
    using it that [of "chk_sum (hd ls)"] by (cases ls) auto
  obtain d2 where w: "ino_loop D (F\<lparr>F_device := d1\<rparr>) xs 0 (sec_ix (F_bpb F) n) (off_ix n) [] None
      = Some (Inr (castLongDirEntryToShort e, long_name ls, if ls = [] then None else Some k), F\<lparr>F_device := d2\<rparr>)"
      "dir_ok good view (F\<lparr>F_device := d2\<rparr>) E R g xs"
    using ino_loop_ok [OF c(2) _ d k(1), of None "[]"] S it pos(2) by auto
  have "\<exists>s. readShortEntryName (castLongDirEntryToShort e) = Some s
      \<and> (if ls = [] then gbkToUtf8 C s = Some nm else (\<exists>b. genBasisNameFromShort s = Some b \<and> chkSum b = k) \<and> utf16ToUtf8 C (long_name ls) = Some nm)"
    using it k(2) nm by (auto simp: stored_name_def file_sum_def bind_eq_Some_conv split: if_splits)
  then show ?thesis using c(1) w pos xs
    by (intro exI [of _ d2]) (auto simp: fromIno_def ino_parts Let_def)
qed

lemma File_sync_ok:
  assumes ok: "dir_ok good view F E R g xs" and S: "dir_slots R (F_bpb F) xs = S" and d: "drop n S = ls @ e # rest"
    and it: "item_ok (Present ls e)" and at: "lies_at f g (F_bpb F) n" and f: "file_holds F E R f ys" "\<not> f_is_deleted f" "ino f \<noteq> KRootDirIno"
  shows "\<exists>d' R'. File_sync D F f dir True = Some (with_chain ys f, F\<lparr>F_device := d'\<rparr>) \<and> dir_ok good view (F\<lparr>F_device := d'\<rparr>) E R' g xs
    \<and> dir_slots R' (F_bpb F) xs = S[n + length ls := synced f dir e] \<and> only_secs (set (file_secs (F_bpb F) xs)) R R'"
proof -
  have l: "\<forall>l \<in> set ls. isLongDirEntry l" "\<not> isLongDirEntry e" using it by simp_all
  obtain d1 R' where m: "sync_meta_entry D F f dir = Some (F\<lparr>F_device := d1\<rparr>)" "dir_ok good view (F\<lparr>F_device := d1\<rparr>) E R' g xs"
      "dir_slots R' (F_bpb F) xs = S[n + length ls := synced f dir e]" "only_secs (set (file_secs (F_bpb F) xs)) R R'"
    using sync_meta_entry_ok [OF ok S d l at] by blast
  have h: "fat_holds good view (F\<lparr>F_device := d1\<rparr>) E R'" "file_holds (F\<lparr>F_device := d1\<rparr>) E R' f ys"
    using m(2) file_holds_only_secs [OF f(1) m(4)] by (simp_all add: dir_ok_def)
  from sync_data_ok [OF h, of 0] obtain d2 where
    "sync_data D (F\<lparr>F_device := d1\<rparr>) f 0 = Some (with_chain ys f, F\<lparr>F_device := d2\<rparr>)" "fat_holds good view (F\<lparr>F_device := d2\<rparr>) E R'" by auto
  then show ?thesis using m f(2,3) by (intro exI [of _ d2] exI [of _ R']) (simp add: File_sync_def dir_ok_def)
qed

text \<open>Both together.\<close>

lemma sync_reload_ok:
  assumes ok: "dir_ok good view F E R g xs" and S: "dir_slots R (F_bpb F) xs = S" and d: "drop n S = ls @ e # rest"
    and it: "item_ok (Present ls e)" and at: "lies_at f g (F_bpb F) n" and f: "file_holds F E R f ys" "\<not> f_is_deleted f" "ino f \<noteq> KRootDirIno"
    and nm: "stored_name C ls e = Some nm"
  shows "\<exists>F' R' f2 F2. File_sync D F f dir True = Some (with_chain ys f, F') \<and> F_bpb F' = F_bpb F \<and> dir_ok good view F' E R' g xs
    \<and> dir_slots R' (F_bpb F) xs = S[n + length ls := synced f dir e] \<and> only_secs (set (file_secs (F_bpb F) xs)) R R'
    \<and> fromIno D C F' (ino f) = Some (Some f2, F2) \<and> dir_ok good view F2 E R' g xs
    \<and> f2 = f\<lparr>f_is_dir := isDirectory (castLongDirEntryToShort e), f_name := nm, f_clus_chain := None,
         f_file_sz := (if dir then se_file_sz (castLongDirEntryToShort e) else f_file_sz f)\<rparr>"
proof -
  let ?m = "n + length ls"
  obtain d1 R' where m: "File_sync D F f dir True = Some (with_chain ys f, F\<lparr>F_device := d1\<rparr>)" "dir_ok good view (F\<lparr>F_device := d1\<rparr>) E R' g xs"
      "dir_slots R' (F_bpb F) xs = S[?m := synced f dir e]" "only_secs (set (file_secs (F_bpb F) xs)) R R'"
    using File_sync_ok [OF ok S d it at f] by blast
  have "drop ?m S = drop (length ls) (drop n S)" by (simp add: add.commute)
  then have "drop ?m S = e # rest" by (simp add: d)
  from drop_ConsD [OF this] have e: "?m < length S" "S ! ?m = e" by simp_all
  note s = synced_item [OF S e(1), where ls = ls and f = f and dir = dir, unfolded e(2)] and r = synced_facts(2) [OF S e(1), of f dir, unfolded e(2)]
  have "drop n (S[?m := synced f dir e]) = (drop n S)[length ls := synced f dir e]" by (simp add: drop_update_swap)
  then have d': "drop n (S[?m := synced f dir e]) = ls @ synced f dir e # rest" by (simp add: d)
  have bpb: "F_bpb (F\<lparr>F_device := d1\<rparr>) = F_bpb F" by simp
  have "lies_at f g (F_bpb (F\<lparr>F_device := d1\<rparr>)) n" "stored_name C ls (synced f dir e) = Some nm" using at nm s(2) [OF it, where C = C] by simp_all
  from fromIno_ok [OF m(2) m(3) [folded bpb] d' s(1) [OF it] this]
  obtain d2 where "fromIno D C (F\<lparr>F_device := d1\<rparr>) (ino f) = Some (Some (File_new (isDirectory (meta_into f dir (castLongDirEntryToShort e)))
      (f_parent_clus f) (f_fst_entry_num f) nm (meta_into f dir (castLongDirEntryToShort e))), F\<lparr>F_device := d2\<rparr>)"
      "dir_ok good view (F\<lparr>F_device := d2\<rparr>) E R' g xs" unfolding r by auto
  then show ?thesis using m f(2)
    by (intro exI [of _ "F\<lparr>F_device := d1\<rparr>"] exI [of _ R'] exI [of _ "F\<lparr>F_device := d2\<rparr>"] exI conjI) (auto simp: File_new_def meta_into_facts isDirectory_def)
qed

end

section \<open>An entry behind the first cluster\<close>

text \<open>The sector is counted from the first cluster of the parent on, so it lies in the cluster that
  many numbers further on, whatever that belongs to.\<close>

lemma far_sector:
  assumes "0 < spc bpb"
  shows "getFirstSectorOfCluster bpb c + of_nat m
    = getFirstSectorOfCluster bpb (c + of_nat (m div spc bpb)) + of_nat (m mod spc bpb)"
proof -
  have s: "ucast (BPB_sec_per_clus bpb) = (of_nat (spc bpb) :: u32)" by (simp add: word_unat_eq_iff unat_of_nat_lt unat_ucast_up)
  have "(of_nat m :: u32) = of_nat (m div spc bpb * spc bpb + m mod spc bpb)" by simp
  then show ?thesis unfolding getFirstSectorOfCluster_def s by (simp only: of_nat_add of_nat_mult) (simp add: algebra_simps)
qed

definition far_clus :: "BPB \<Rightarrow> u32 list \<Rightarrow> nat \<Rightarrow> u32" where
  "far_clus bpb xs n = xs ! 0 + of_nat (n div 16 div spc bpb)"

definition far_sec :: "BPB \<Rightarrow> u32 list \<Rightarrow> nat \<Rightarrow> u32" where
  "far_sec bpb xs n = getFirstSectorOfCluster bpb (far_clus bpb xs n) + of_nat (n div 16 mod spc bpb)"

definition meta_at :: "fobj \<Rightarrow> bool \<Rightarrow> nat \<Rightarrow> bytes \<Rightarrow> bytes" where
  "meta_at f dir off b = take off b @ encode_short (meta_into f dir (decode_short (drop off b))) @ drop (off + 32) b"

lemma far_sec_clus:
  assumes "geometry_ok bpb" and "data_clus bpb (far_clus bpb xs n)"
  shows "far_sec bpb xs n \<in> clus_secs bpb (far_clus bpb xs n)"
proof -
  have "n div 16 mod spc bpb < spc bpb" using geometryD(2) [OF assms(1)] by simp
  then have "far_sec bpb xs n \<in> set (clus_sec_list bpb (far_clus bpb xs n))" by (auto simp: far_sec_def clus_sec_list_def)
  then show ?thesis using set_clus_sec_list(1) [OF assms] by simp
qed

lemma sec_elsewhere:
  assumes "geometry_ok bpb" and "distinct xs" and "\<forall>x \<in> set xs. data_clus bpb x" and "data_clus bpb c" and "c \<notin> set xs"
    and "s \<in> clus_secs bpb c"
  shows "s \<notin> set (file_secs bpb xs)"
proof
  assume "s \<in> set (file_secs bpb xs)"
  then obtain x where "x \<in> set xs" "s \<in> clus_secs bpb x" using distinct_file_secs(2) [OF assms(1-3)] by auto
  then show False using clus_secs_disjoint [OF assms(1,4), of x] assms(3,5,6) by auto
qed

lemma slots_elsewhere:
  assumes "s \<notin> set (file_secs bpb xs)"
  shows "dir_slots (R(s \<mapsto> bs)) bpb xs = dir_slots R bpb xs"
  unfolding dir_slots_def using assms by (intro arg_cong [of _ _ slots_of] content_dom_eq) auto

text \<open>It is the entry of the file itself just when the cluster of the directory with the entry has that number.\<close>

lemma far_sec_slot:
  assumes ok: "dir_ok good view F E R g xs" and n: "n < length (dir_slots R (F_bpb F) xs)" and c: "data_clus (F_bpb F) (far_clus (F_bpb F) xs n)"
  shows "far_sec (F_bpb F) xs n = slot_sec (F_bpb F) xs n \<longleftrightarrow> far_clus (F_bpb F) xs n = xs ! (n div 16 div spc (F_bpb F))"
proof -
  have h: "fat_holds good view F E R" "file_holds F E R g xs" using ok by (simp_all add: dir_ok_def)
  note geo = file_holds_facts(1) [OF h] and b = slot_block(1) [OF ok refl n]
  let ?q = "n div 16 div spc (F_bpb F)"
  have q: "?q < length xs" using b geometryD(2) [OF geo] by (simp add: div_less_iff_less_mult)
  then have dc: "data_clus (F_bpb F) (xs ! ?q)" using h(2) by (simp add: file_holds_def)
  have s: "slot_sec (F_bpb F) xs n = getFirstSectorOfCluster (F_bpb F) (xs ! ?q) + of_nat (n div 16 mod spc (F_bpb F))"
    unfolding slot_sec_def by (rule nth_file_secs [OF b])
  then have "slot_sec (F_bpb F) xs n \<in> set (clus_sec_list (F_bpb F) (xs ! ?q))"
    using geometryD(2) [OF geo] by (auto simp: clus_sec_list_def)
  then have "slot_sec (F_bpb F) xs n \<in> clus_secs (F_bpb F) (xs ! ?q)" using set_clus_sec_list(1) [OF geo dc] by simp
  then have "far_clus (F_bpb F) xs n = xs ! ?q" if "far_sec (F_bpb F) xs n = slot_sec (F_bpb F) xs n"
    using that far_sec_clus [OF geo c] clus_secs_disjoint [OF geo c dc] by auto
  moreover have "far_sec (F_bpb F) xs n = slot_sec (F_bpb F) xs n" if "far_clus (F_bpb F) xs n = xs ! ?q"
    using that s by (simp add: far_sec_def)
  ultimately show ?thesis by blast
qed

lemma slot_kept:
  assumes ok: "dir_ok good view F E R g xs" and n: "n < length (dir_slots R (F_bpb F) xs)"
    and h: "fat_holds good view (F\<lparr>F_device := d\<rparr>) E (R(s \<mapsto> bs))" and s: "R s \<noteq> None" "s \<noteq> slot_sec (F_bpb F) xs n"
  shows "dir_slots (R(s \<mapsto> bs)) (F_bpb F) xs ! n = dir_slots R (F_bpb F) xs ! n"
proof -
  have dom: "dom (R(s \<mapsto> bs)) = dom R" using s(1) by auto
  have ok2: "dir_ok good view (F\<lparr>F_device := d\<rparr>) E (R(s \<mapsto> bs)) g xs"
    using ok h dom by (simp add: dir_ok_def file_holds_def)
  have "length (dir_slots (R(s \<mapsto> bs)) (F_bpb F) xs) = length (dir_slots R (F_bpb F) xs)"
    using dir_slots_bound(1) [OF ok] dir_slots_bound(1) [OF ok2] ok ok2
      length_content [of good view F E R g xs] length_content [OF h, of g xs] by (simp add: dir_ok_def)
  then have n2: "n < length (dir_slots (R(s \<mapsto> bs)) (F_bpb (F\<lparr>F_device := d\<rparr>)) xs)" using n by simp
  note a = slot_block(3,4) [OF ok refl n] and b = slot_block(3,4) [OF ok2 refl n2]
  show ?thesis using a b s(2) by simp
qed

context block_device
begin

lemma sync_meta_far:
  assumes ok: "dir_ok good view F E R g xs" and n: "n < length (dir_slots R (F_bpb F) xs)"
    and at: "f_parent_clus f = f_fst_clus g" "f_fst_entry_num f = of_nat n"
    and b: "R (far_sec (F_bpb F) xs n) = Some b" and e: "\<not> isLongDirEntry (decode_long (drop (32 * (n mod 16)) b))"
  shows "\<exists>d. sync_meta_entry D F f dir = Some (F\<lparr>F_device := d\<rparr>)
    \<and> fat_holds good view (F\<lparr>F_device := d\<rparr>) E (R(far_sec (F_bpb F) xs n \<mapsto> meta_at f dir (32 * (n mod 16)) b))"
proof -
  let ?s = "far_sec (F_bpb F) xs n" and ?o = "32 * (n mod 16)"
  have h: "fat_holds good view F E R" "file_holds F E R g xs" using ok by (simp_all add: dir_ok_def)
  note geo = file_holds_facts(1) [OF h]
  have xs: "xs \<noteq> []" by (rule slots_chain [OF ok n])
  obtain d1 where c: "readClusChains D F (f_parent_clus f) = Some (xs, F\<lparr>F_device := d1\<rparr>)" "dir_ok good view (F\<lparr>F_device := d1\<rparr>) E R g xs"
    using parent_chain_ok [OF ok xs] at(1) by auto
  have h1: "fat_holds good view (F\<lparr>F_device := d1\<rparr>) E R" using c(2) by (simp add: dir_ok_def)
  have "n < 2 ^ 27" using n dir_slots_bound(2) [OF ok] by simp
  from entry_pos_slot(1) [OF geometryD(1) [OF geo] this] have pos: "entry_pos (F_bpb F) (f_fst_entry_num f) = Some (of_nat (n div 16), off_ix n)"
    using at(2) by simp
  have sec: "entry_sec (F_bpb F) xs 0 (of_nat (n div 16)) = Some ?s"
    using xs far_sector [OF geometryD(2) [OF geo]] by (simp add: entry_sec_def far_sec_def far_clus_def)
  have o: "?o + 32 \<le> 512" using mod_less_divisor [of 16 n] by linarith
  have u: "unat (off_ix n) < SECTOR_SIZE" unfolding unat_off_ix using o by (simp add: SECTOR_SIZE_def)
  have bl: "length b = 512" using h(1) b by (auto simp: fat_holds_def fat_ok_def restrict_map_def SECTOR_SIZE_def split: if_splits)
  obtain d2 where l: "dev_load D d1 ?s (off_ix n) = Some (drop ?o b, d2)" "fat_holds good view (F\<lparr>F_device := d2\<rparr>) E R"
    using data_load_ok [OF h1 b u] unfolding unat_off_ix by auto
  have p: "32 \<le> length (drop ?o b)" using bl o by simp
  have "find_short D (F\<lparr>F_device := d1\<rparr>) xs 0 (of_nat (n div 16)) (off_ix n) = Some (?s, off_ix n, F\<lparr>F_device := d2\<rparr>)"
    using sec l(1) e p by (subst find_short.simps) simp
  moreover have st: "store_meta f dir (drop ?o b) = Some (encode_short (meta_into f dir (decode_short (drop ?o b))) @ drop 32 (drop ?o b))"
    using p by (simp add: store_meta_def)
  have "length (encode_short (meta_into f dir (decode_short (drop ?o b)))) = 32"
    using store_meta_entry(2) [OF p, of f dir] decode_take(3) [OF p] by simp
  then have len: "length (encode_short (meta_into f dir (decode_short (drop ?o b))) @ drop 32 (drop ?o b)) = SECTOR_SIZE - unat (off_ix n)"
    unfolding unat_off_ix using bl o by (simp add: SECTOR_SIZE_def)
  obtain d3 where "dev_modify D d2 ?s (off_ix n) (store_meta f dir) = Some d3"
      "fat_holds good view (F\<lparr>F_device := d3\<rparr>) E (R(?s \<mapsto> meta_at f dir ?o b))"
    using data_modify_ok [where f = "store_meta f dir", OF l(2) b u _ len] st unfolding unat_off_ix meta_at_def
    by (auto simp: add.commute)
  ultimately show ?thesis using c(1) pos by (intro exI [of _ d3]) (simp add: sync_meta_entry_def)
qed

end

end
