(* ===== verification/DirDelete.thy ===== *)
theory DirDelete
  imports DirWrite
begin

text \<open>
  \<open>Directory::delFile\<close>: the slots of the file are marked as deleted, and when nothing is left behind
  them the end mark moves forward and the directory shrinks.
\<close>

text \<open>The slots of a sound directory: its items, then the end mark and only free slots.\<close>

definition dir_items :: "LongDirEntry list \<Rightarrow> dir_item list \<Rightarrow> bool" where
  "dir_items S items \<longleftrightarrow> (\<forall>it \<in> set items. item_ok it)
     \<and> (\<exists>tail. S = items_slots items @ tail \<and> (tail = [] \<or> isLstEmptyDirEntry (hd tail)) \<and> (\<forall>e \<in> set tail. isEmptyDirEntry e))"

lemma list_items_append: "list_items n (xs @ ys) = list_items n xs @ list_items (n + length (items_slots xs)) ys"
proof (induction xs arbitrary: n)
  case (Cons x xs)
  then show ?case by (cases x) (simp_all add: add.assoc)
qed simp

lemma list_items_erased [simp]: "list_items n (replicate k (Deleted e)) = []"
  by (induction k arbitrary: n) simp_all

lemma list_items_start: "x \<in> set (list_items n items) \<Longrightarrow> \<exists>i. fst x = of_nat i \<and> n \<le> i \<and> i < n + length (items_slots items)"
proof (induction items arbitrary: n)
  case (Cons it items)
  show ?case
  proof (cases it)
    case (Deleted e)
    then show ?thesis using Cons.prems Cons.IH [of "Suc n"] by auto
  next
    case (Present ls e)
    show ?thesis
    proof (cases "x \<in> set (list_items (n + Suc (length ls)) items)")
      case True
      from Cons.IH [OF this] Present show ?thesis by auto
    next
      case False
      then show ?thesis using Cons.prems Present by (intro exI [of _ n]) simp
    qed
  qed
qed simp

text \<open>The search splits the items at the first file with the name.\<close>

lemma find_item_split:
  "find_item u g n items = Some rg \<Longrightarrow> \<exists>its1 ls e its2. items = its1 @ Present ls e # its2
    \<and> rg = \<lparr>range_start = of_nat (n + length (items_slots its1)), range_count = of_nat (Suc (length ls))\<rparr>"
proof (induction items arbitrary: n)
  case (Cons it items)
  have more: ?case if f: "find_item u g (n + length (item_slots it)) items = Some rg"
  proof -
    obtain its1 ls e its2 where i: "items = its1 @ Present ls e # its2"
        "rg = \<lparr>range_start = of_nat (n + length (item_slots it) + length (items_slots its1)), range_count = of_nat (Suc (length ls))\<rparr>"
      using Cons.IH [OF f] by blast
    then show ?thesis by (intro exI [of _ "it # its1"] exI [of _ ls] exI [of _ e] exI [of _ its2]) (simp add: add.assoc)
  qed
  show ?case
  proof (cases it)
    case (Deleted e)
    then show ?thesis using Cons.prems more by simp
  next
    case (Present ls e)
    show ?thesis
    proof (cases "has_name u g ls e")
      case True
      then show ?thesis using Cons.prems Present by (intro exI [of _ "[]"] exI [of _ ls] exI [of _ e] exI [of _ items]) simp
    qed (use Cons.prems Present more in simp)
  qed
qed simp

lemma item_not_end: "item_ok it \<Longrightarrow> e \<in> set (item_slots it) \<Longrightarrow> \<not> isLstEmptyDirEntry e"
  by (cases it) (auto dest: end_is_empty)

lemma before_end_items:
  assumes "\<forall>it \<in> set items. item_ok it" and "tail = [] \<or> isLstEmptyDirEntry (hd tail)"
  shows "before_end (items_slots items @ tail) = items_slots items"
proof -
  have "before_end tail = []" using assms(2) by (cases tail) (auto simp: before_end_Cons)
  moreover have "\<not> isLstEmptyDirEntry e" if "e \<in> set (items_slots items)" for e using assms(1) item_not_end that by auto
  then have "before_end (items_slots items @ tail) = items_slots items @ before_end tail"
    unfolding before_end_def by (rule takeWhile_append2)
  ultimately show ?thesis by simp
qed

lemma only_deleted:
  assumes "\<forall>it \<in> set items. item_ok it"
  shows "(\<forall>e \<in> set (items_slots items). isEmptyDirEntry e) \<longleftrightarrow> list_items n items = []"
  using assms
proof (induction items arbitrary: n)
  case (Cons it items)
  then show ?case by (cases it) simp_all
qed simp

abbreviation erased :: LongDirEntry where
  "erased \<equiv> setDirEntryEmpty zero_entry"

abbreviation end_mark :: LongDirEntry where
  "end_mark \<equiv> setDirEntryLstEmpty zero_entry"

lemma marks: "isEmptyDirEntry erased" "\<not> isLstEmptyDirEntry erased" "isLstEmptyDirEntry end_mark" "wf_long end_mark"
  by (simp_all add: isEmptyDirEntry_def isLstEmptyDirEntry_def setDirEntryEmpty_def setDirEntryLstEmpty_def wf_long_def
      zero_entry_def decode_long_def field_def)

text \<open>The items after the deletion, in both cases, and what they list.\<close>

lemma deleted_inside:
  assumes "dir_items (items_slots (its1 @ Present ls e # its2) @ tail) (its1 @ Present ls e # its2)"
    and "\<forall>t \<in> set tail. isEmptyDirEntry t" and "tail = [] \<or> isLstEmptyDirEntry (hd tail)"
  shows "dir_items (items_slots its1 @ replicate (Suc (length ls)) erased @ items_slots its2 @ tail)
      (its1 @ map Deleted (replicate (Suc (length ls)) erased) @ its2)"
  using assms marks by (auto simp: dir_items_def ball_Un intro!: exI [of _ tail])

lemma deleted_at_end:
  assumes its: "\<forall>it \<in> set its1. item_ok it" and rest: "\<forall>t \<in> set rest. isEmptyDirEntry t" and m: "length (items_slots its1) < m"
  shows "\<exists>j. dir_items (take m (items_slots its1 @ replicate k erased @ end_mark # rest)) (its1 @ map Deleted (replicate j erased))"
proof -
  let ?m = "m - length (items_slots its1)"
  have t: "take m (items_slots its1 @ replicate k erased @ end_mark # rest)
      = items_slots its1 @ take ?m (replicate k erased @ end_mark # rest)" using m by simp
  have "dir_items (take m (items_slots its1 @ replicate k erased @ end_mark # rest)) (its1 @ map Deleted (replicate (min ?m k) erased))"
    unfolding t dir_items_def
  proof (intro conjI exI)
    show "\<forall>it \<in> set (its1 @ map Deleted (replicate (min ?m k) erased)). item_ok it" using its marks(1,2) by auto
    show "items_slots its1 @ take ?m (replicate k erased @ end_mark # rest)
        = items_slots (its1 @ map Deleted (replicate (min ?m k) erased)) @ take (?m - k) (end_mark # rest)"
      by (simp add: min.commute)
    show "take (?m - k) (end_mark # rest) = [] \<or> isLstEmptyDirEntry (hd (take (?m - k) (end_mark # rest)))"
      using marks(3) by (cases "?m - k") simp_all
    show "\<forall>e \<in> set (take (?m - k) (end_mark # rest)). isEmptyDirEntry e"
      using rest end_is_empty [OF marks(3)] set_take_subset [of "?m - k" "end_mark # rest"] by fastforce
  qed
  then show ?thesis by blast
qed

lemma list_without:
  assumes "length (items_slots (its1 @ Present ls e # its2)) < 2 ^ 27"
  shows "filter (\<lambda>x. fst x \<noteq> of_nat (length (items_slots its1))) (list_items 0 (its1 @ Present ls e # its2))
    = list_items 0 its1 @ list_items (length (items_slots its1) + Suc (length ls)) its2"
proof -
  let ?N = "length (items_slots its1)"
  have inj: "(of_nat i :: u32) \<noteq> of_nat ?N" if "i \<noteq> ?N" "i < 2 ^ 27" for i
  proof
    have b: "i < 2 ^ LENGTH(32)" "?N < 2 ^ LENGTH(32)" using that(2) assms by simp_all
    assume "(of_nat i :: u32) = of_nat ?N"
    then have "unat (of_nat i :: u32) = unat (of_nat ?N :: u32)" by simp
    with that(1) show False unfolding unat_of_nat_lt [OF b(1)] unat_of_nat_lt [OF b(2)] by simp
  qed
  have "filter (\<lambda>x. fst x \<noteq> of_nat ?N) (list_items 0 its1) = list_items 0 its1"
  proof (rule filter_True, rule ballI)
    fix x assume "x \<in> set (list_items 0 its1)"
    then obtain i where "fst x = of_nat i" "i < ?N" using list_items_start by fastforce
    then show "fst x \<noteq> of_nat ?N" using inj [of i] assms by simp
  qed
  moreover have "filter (\<lambda>x. fst x \<noteq> of_nat ?N) (list_items (?N + Suc (length ls)) its2) = list_items (?N + Suc (length ls)) its2"
  proof (rule filter_True, rule ballI)
    fix x assume "x \<in> set (list_items (?N + Suc (length ls)) its2)"
    then obtain i where "fst x = of_nat i" "?N < i" "i < ?N + Suc (length ls) + length (items_slots its2)"
      using list_items_start by fastforce
    then show "fst x \<noteq> of_nat ?N" using inj [of i] assms by simp
  qed
  ultimately show ?thesis by (simp add: list_items_append)
qed

context block_device
begin

text \<open>The slots of a file are erased, and the rest of the directory is looked at.\<close>

lemma erase_item_ok:
  assumes ok: "dir_ok good view F E R f xs"
    and S: "dir_slots R (F_bpb F) xs = items_slots its1 @ (ls @ [e]) @ items_slots its2 @ tail"
    and its2: "\<forall>it \<in> set its2. item_ok it" and tail: "tail = [] \<or> isLstEmptyDirEntry (hd tail)"
  defines "N \<equiv> length (items_slots its1)" and "K \<equiv> Suc (length ls)"
  shows "\<exists>F1 f1 F' f' E' R'. erase_range D now (of_nat N + of_nat K) F f (of_nat N) = Some (f1, F1)
    \<and> isLstNonEmptyEntry D now F1 f1 (uint (of_nat N + of_nat K - 1 :: u32)) = Some (list_items (N + K) its2 = [], f', F')
    \<and> dir_next good view F E R f xs F' E' R' f' xs
    \<and> dir_slots R' (F_bpb F') xs = items_slots its1 @ replicate K erased @ items_slots its2 @ tail"
proof -
  let ?S = "items_slots its1 @ (ls @ [e]) @ items_slots its2 @ tail"
    and ?S2 = "items_slots its1 @ replicate K erased @ items_slots its2 @ tail"
  have NK: "N + K \<le> length ?S" "0 < K" by (simp_all add: N_def K_def)
  obtain F1 f1 E1 R1 where r1: "erase_range D now (of_nat (N + K)) F f (of_nat N) = Some (f1, F1)"
      "dir_next good view F E R f xs F1 E1 R1 f1 xs" "dir_slots R1 (F_bpb F1) xs = ?S2"
    using erase_range_ok [OF ok S NK(1), of now] by (auto simp: N_def K_def)
  have ok1: "dir_ok good view F1 E1 R1 f1 xs" using r1(2) by (simp add: dir_next_def)
  obtain b f2 F2 where r2: "lst_loop D now F1 f1 (int (N + K)) = Some (b, f2, F2)" "dir_kept good view E1 R1 xs F1 f1 f2 F2"
      "b \<longleftrightarrow> (\<forall>e \<in> set (before_end (drop (N + K) ?S2)). isEmptyDirEntry e)"
    using lst_loop_ok [OF ok1 r1(3), of "N + K" now] by (auto simp: N_def)
  have "drop (N + K) ?S2 = items_slots its2 @ tail" by (simp add: N_def)
  then have b: "b \<longleftrightarrow> list_items (N + K) its2 = []"
    using r2(3) before_end_items [OF its2 tail] only_deleted [OF its2] by simp
  have w: "N + K - 1 < 2 ^ LENGTH(32)" using NK dir_slots_bound(2) [OF ok, unfolded S] by simp
  have "(of_nat (N + K) - 1 :: u32) = of_nat (N + K - 1)" using NK(2) by (cases K) simp_all
  moreover have "uint (of_nat (N + K - 1) :: u32) = int (N + K - 1)"
    using unat_of_nat_lt [OF w] by (simp only: uint_nat)
  ultimately have "isLstNonEmptyEntry D now F1 f1 (uint (of_nat (N + K) - 1 :: u32)) = Some (b, f2, F2)"
    using r2(1) NK(2) unfolding isLstNonEmptyEntry_def by (simp add: of_nat_diff)
  moreover have "dir_slots R1 (F_bpb F2) xs = ?S2" using r1(3) dir_kept_bpb [OF r2(2)] by simp
  moreover have "dir_next good view F E R f xs F2 E1 R1 f2 xs" by (rule dir_next_trans [OF r1(2) dir_kept_next [OF r2(2)]])
  ultimately show ?thesis using r1(1) b by (intro exI [of _ F1] exI [of _ f1] exI [of _ F2] exI [of _ f2] exI [of _ E1] exI [of _ R1]) simp
qed

text \<open>Nothing is left behind it: the end mark, and the directory cut behind its first slot.\<close>

lemma end_here_ok:
  assumes ok: "dir_ok good view F E R f xs"
    and S: "dir_slots R (F_bpb F) xs = items_slots its1 @ replicate (Suc k) erased @ rest"
    and its1: "\<forall>it \<in> set its1. item_ok it" and rest: "\<forall>t \<in> set rest. isEmptyDirEntry t"
  defines "N \<equiv> length (items_slots its1)"
  shows "\<exists>F1 f1 F' f' E' R' ys j. writeDirEntry D now F f (of_nat N + of_nat (Suc k) - 1) end_mark = Some (True, f1, F1)
    \<and> File_truncate D F1 f1 ((of_nat N + 1) * KDirEntrySize) = Some (True, f', F')
    \<and> dir_next good view F E R f xs F' E' R' f' ys
    \<and> dir_items (dir_slots R' (F_bpb F') ys) (its1 @ map Deleted (replicate j erased))
    \<and> (\<exists>i. ys = take i xs) \<and> N < length (dir_slots R' (F_bpb F') ys) \<and> dir_slots R' (F_bpb F') ys ! N \<in> {erased, end_mark}"
proof -
  let ?S = "items_slots its1 @ replicate (Suc k) erased @ rest"
  have lt: "N + k < length ?S" by (simp add: N_def)
  from writeDirEntry_ok [OF ok S lt marks(4)] obtain F1 f1 E1 R1 where
    w: "writeDirEntry D now F f (of_nat (N + k)) end_mark = Some (True, f1, F1)"
      "dir_next good view F E R f xs F1 E1 R1 f1 xs" "dir_slots R1 (F_bpb F1) xs = ?S[N + k := end_mark]" by blast
  have S1: "?S[N + k := end_mark] = items_slots its1 @ replicate k erased @ end_mark # rest"
    by (simp add: N_def list_update_append replicate_append_same [symmetric] del: replicate_append_same)
  have ok1: "dir_ok good view F1 E1 R1 f1 xs" using w(2) by (simp add: dir_next_def)
  let ?len = "(of_nat N + 1) * KDirEntrySize :: u32"
  have "32 * Suc N < 2 ^ LENGTH(32)" using lt dir_slots_bound(2) [OF ok, unfolded S] by simp
  moreover have "?len = of_nat (32 * Suc N)" by (simp add: KDirEntrySize_def algebra_simps)
  ultimately have len: "unat ?len = 32 * Suc N" by (simp only: unat_of_nat_lt)
  have "unat ?len \<le> 32 * length (?S[N + k := end_mark])" unfolding len by (simp add: N_def)
  from truncate_dir_ok [OF ok1 w(3) this] obtain F2 f2 E2 i m where
    t: "File_truncate D F1 f1 ?len = Some (True, f2, F2)" "dir_next good view F1 E1 R1 f1 xs F2 E2 R1 f2 (take i xs)"
      "dir_slots R1 (F_bpb F2) (take i xs) = take m (?S[N + k := end_mark])" "unat ?len \<le> 32 * m" by blast
  have m: "length (items_slots its1) < m" using t(4) unfolding len by (simp add: N_def)
  then have at: "N < length (dir_slots R1 (F_bpb F2) (take i xs))" "dir_slots R1 (F_bpb F2) (take i xs) ! N \<in> {erased, end_mark}"
    unfolding t(3) S1 N_def by (cases k; simp add: nth_append)+
  from deleted_at_end [OF its1 rest m, of k] obtain j where
    "dir_items (dir_slots R1 (F_bpb F2) (take i xs)) (its1 @ map Deleted (replicate j erased))" unfolding t(3) S1 by blast
  moreover have "(of_nat N + of_nat (Suc k) - 1 :: u32) = of_nat (N + k)" by simp
  ultimately show ?thesis using w(1) t(1) at dir_next_trans [OF w(2) t(2)] by metis
qed

text \<open>What is left where the file began is a deleted entry or the end mark.\<close>

lemma delFile_disk_ok:
  assumes ok: "dir_ok good view F E R f xs" and its: "dir_items (dir_slots R (F_bpb F) xs) items"
    and conv: "utf8ToUtf16 C nm = Some u" "utf8ToGbk C (toUpper nm) = Some g"
    and found: "find_item u g 0 items = Some rg"
  shows "\<exists>F' f' E' R' ys items'. delFile_disk D C now F f nm = Some (Some rg, f', F')
    \<and> dir_next good view F E R f xs F' E' R' f' ys \<and> dir_items (dir_slots R' (F_bpb F') ys) items'
    \<and> list_items 0 items' = filter (\<lambda>x. fst x \<noteq> range_start rg) (list_items 0 items) \<and> (\<exists>i. ys = take i xs)
    \<and> (\<exists>n < length (dir_slots R' (F_bpb F') ys). range_start rg = of_nat n \<and> dir_slots R' (F_bpb F') ys ! n \<in> {erased, end_mark})"
proof -
  obtain tail where t: "dir_slots R (F_bpb F) xs = items_slots items @ tail" "\<forall>it \<in> set items. item_ok it"
      "tail = [] \<or> isLstEmptyDirEntry (hd tail)" "\<forall>e \<in> set tail. isEmptyDirEntry e"
    using its unfolding dir_items_def by blast
  obtain its1 ls e its2 where sp: "items = its1 @ Present ls e # its2"
      "rg = \<lparr>range_start = of_nat (length (items_slots its1)), range_count = of_nat (Suc (length ls))\<rparr>"
    using find_item_split [OF found] by auto
  define N K where "N = length (items_slots its1)" and "K = Suc (length ls)"
  have rg: "rg = \<lparr>range_start = of_nat N, range_count = of_nat K\<rparr>" by (simp add: sp(2) N_def K_def)
  have iok: "\<forall>it \<in> set its1. item_ok it" "\<forall>it \<in> set its2. item_ok it" using t(2) by (simp_all add: sp(1))
  have without: "filter (\<lambda>x. fst x \<noteq> range_start rg) (list_items 0 items) = list_items 0 its1 @ list_items (N + K) its2"
    using list_without [of its1 ls e its2] dir_slots_bound(2) [OF ok, unfolded t(1)] by (simp add: sp(1) rg N_def K_def)
  obtain f1 F1 where r1: "lookupFileInner D C now F f nm = Some (Some rg, f1, F1)" "dir_kept good view E R xs F f f1 F1"
    using lookup_items_ok [OF ok t(1-3) conv, of now] found by auto
  have S1: "dir_slots R (F_bpb F1) xs = items_slots its1 @ (ls @ [e]) @ items_slots its2 @ tail"
    using t(1) dir_kept_bpb [OF r1(2)] by (simp add: sp(1))
  from erase_item_ok [OF dir_kept_ok [OF r1(2)] S1 iok(2) t(3), folded N_def K_def] obtain F2 f2 F3 f3 E3 R3 where
    r2: "erase_range D now (of_nat N + of_nat K) F1 f1 (of_nat N) = Some (f2, F2)"
      "isLstNonEmptyEntry D now F2 f2 (uint (of_nat N + of_nat K - 1 :: u32)) = Some (list_items (N + K) its2 = [], f3, F3)"
      "dir_next good view F1 E R f1 xs F3 E3 R3 f3 xs"
      "dir_slots R3 (F_bpb F3) xs = items_slots its1 @ replicate K erased @ items_slots its2 @ tail" by blast
  have n3: "dir_next good view F E R f xs F3 E3 R3 f3 xs" by (rule dir_next_trans [OF dir_kept_next [OF r1(2)] r2(3)])
  show ?thesis
  proof (cases "list_items (N + K) its2 = []")
    case False
    have "delFile_disk D C now F f nm = Some (Some rg, f3, F3)"
      using r1(1) r2(1,2) False by (simp add: delFile_disk_def rg Let_def)
    moreover have "dir_items (dir_slots R3 (F_bpb F3) xs) (its1 @ map Deleted (replicate K erased) @ its2)"
      using deleted_inside [of its1 ls e its2 tail] its t unfolding r2(4) by (simp add: sp(1) K_def)
    moreover have "list_items 0 (its1 @ map Deleted (replicate K erased) @ its2) = list_items 0 its1 @ list_items (N + K) its2"
      by (simp add: list_items_append N_def)
    moreover have "N < length (dir_slots R3 (F_bpb F3) xs)" "dir_slots R3 (F_bpb F3) xs ! N \<in> {erased, end_mark}"
      unfolding r2(4) by (simp_all add: N_def K_def nth_append)
    moreover have "range_start rg = of_nat N" "xs = take (length xs) xs" by (simp_all add: rg)
    ultimately show ?thesis using n3 without by metis
  next
    case True
    have rest: "\<forall>t \<in> set (items_slots its2 @ tail). isEmptyDirEntry t"
      using True only_deleted [OF iok(2), of "N + K"] t(4) by auto
    have ok3: "dir_ok good view F3 E3 R3 f3 xs" using r2(3) by (simp add: dir_next_def)
    from end_here_ok [OF ok3 r2(4) [unfolded K_def] iok(1) rest, folded N_def K_def] obtain F4 f4 F5 f5 E5 R5 ys j where
      r3: "writeDirEntry D now F3 f3 (of_nat N + of_nat K - 1) end_mark = Some (True, f4, F4)"
        "File_truncate D F4 f4 ((of_nat N + 1) * KDirEntrySize) = Some (True, f5, F5)"
        "dir_next good view F3 E3 R3 f3 xs F5 E5 R5 f5 ys"
        "dir_items (dir_slots R5 (F_bpb F5) ys) (its1 @ map Deleted (replicate j erased))"
        "\<exists>i. ys = take i xs" "N < length (dir_slots R5 (F_bpb F5) ys)" "dir_slots R5 (F_bpb F5) ys ! N \<in> {erased, end_mark}" by blast
    have "delFile_disk D C now F f nm = Some (Some rg, f5, F5)"
      using r1(1) r2(1,2) True r3(1,2) by (simp add: delFile_disk_def rg Let_def)
    moreover have "list_items 0 (its1 @ map Deleted (replicate j erased)) = list_items 0 its1 @ list_items (N + K) its2"
      using True by (simp add: list_items_append)
    moreover have "range_start rg = of_nat N" by (simp add: rg)
    ultimately show ?thesis using without r3(4-7) dir_next_trans [OF n3 r3(3)] by metis
  qed
qed

end

end
