(* ===== verification/DirCreate.thy ===== *)
theory DirCreate
  imports DirDelete
begin

text \<open>
  \<open>Directory::crtFileInner\<close>: the search for free slots, the growth of the directory, the entries
  written, and what the new slots mean for the list of files.
\<close>

section \<open>Runs of free slots\<close>

text \<open>The \<open>cnt\<close> slots before \<open>cur\<close> are free, and no more.\<close>

definition free_run :: "LongDirEntry list \<Rightarrow> nat \<Rightarrow> nat \<Rightarrow> bool" where
  "free_run S cur cnt \<longleftrightarrow> cnt \<le> cur \<and> cur \<le> length S \<and> (\<forall>i. cur - cnt \<le> i \<and> i < cur \<longrightarrow> isEmptyDirEntry (S ! i))
     \<and> (cur - cnt = 0 \<or> \<not> isEmptyDirEntry (S ! (cur - cnt - 1)))"

lemma free_run_start [simp]: "free_run S 0 0"
  by (simp add: free_run_def)

lemma free_run_step:
  assumes "free_run S cur cnt" and "cur < length S"
  shows "isEmptyDirEntry (S ! cur) \<Longrightarrow> free_run S (Suc cur) (Suc cnt)"
    and "\<not> isEmptyDirEntry (S ! cur) \<Longrightarrow> free_run S (Suc cur) 0"
  using assms by (auto simp: free_run_def less_Suc_eq)

text \<open>A place in front of which there is no free slot is where an item begins.\<close>

lemma boundary:
  assumes "\<forall>it \<in> set items. item_ok it" and "a \<le> length (items_slots items)"
    and "a < length (items_slots items) \<longrightarrow> isEmptyDirEntry (items_slots items ! a)"
  shows "\<exists>its1 its2. items = its1 @ its2 \<and> length (items_slots its1) = a"
  using assms
proof (induction items arbitrary: a)
  case (Cons it items)
  show ?case
  proof (cases "a < length (item_slots it)")
    case True
    have "a = 0"
    proof (cases it)
      case (Present ls e)
      then have "(ls @ [e]) ! a \<in> set (ls @ [e])" using True by (intro nth_mem) simp
      moreover have "isEmptyDirEntry ((ls @ [e]) ! a)" using Cons.prems(3) True Present by (simp add: nth_append split: if_splits)
      ultimately show ?thesis using Cons.prems(1) Present by auto
    qed (use True in simp)
    then show ?thesis by (intro exI [of _ "[]"] exI [of _ "it # items"]) simp
  next
    case False
    then have "\<exists>its1 its2. items = its1 @ its2 \<and> length (items_slots its1) = a - length (item_slots it)"
      using Cons.prems by (intro Cons.IH) (auto simp: nth_append)
    then obtain its1 its2 where "items = its1 @ its2" "length (items_slots its1) = a - length (item_slots it)" by blast
    then show ?thesis using False by (intro exI [of _ "it # its1"] exI [of _ its2]) simp
  qed
qed simp

text \<open>Free slots are deleted entries up to an end mark.\<close>

lemma free_items:
  assumes "\<forall>e \<in> set T. isEmptyDirEntry e"
  shows "\<exists>ds. dir_items T (map Deleted ds)"
proof -
  let ?ds = "takeWhile (\<lambda>e. \<not> isLstEmptyDirEntry e) T" and ?tl = "dropWhile (\<lambda>e. \<not> isLstEmptyDirEntry e) T"
  have "\<forall>d \<in> set ?ds. isEmptyDirEntry d \<and> \<not> isLstEmptyDirEntry d" using assms by (auto dest: set_takeWhileD)
  moreover have "?tl = [] \<or> isLstEmptyDirEntry (hd ?tl)" using hd_dropWhile [of "\<lambda>e. \<not> isLstEmptyDirEntry e" T] by auto
  moreover have "\<forall>e \<in> set ?tl. isEmptyDirEntry e" using assms by (auto dest: set_dropWhileD)
  ultimately have "dir_items T (map Deleted ?ds)"
    unfolding dir_items_def by (intro conjI exI [of _ ?tl]) auto
  then show ?thesis by blast
qed

lemma dir_items_append:
  assumes "\<forall>it \<in> set its1. item_ok it" and "dir_items T its2"
  shows "dir_items (items_slots its1 @ T) (its1 @ its2)"
  using assms by (auto simp: dir_items_def)

text \<open>What is left behind a range of free slots at the front, and nothing listed is lost.\<close>

lemma drop_free:
  assumes "dir_items S items" and "k \<le> length S" and "\<forall>i < k. isEmptyDirEntry (S ! i)"
  shows "\<exists>items'. dir_items (drop k S) items' \<and> list_items n items = list_items (n + k) items'"
proof -
  obtain ds rest where sp: "items = map Deleted ds @ rest" "rest = [] \<or> (\<exists>ls e items'. rest = Present ls e # items')"
    by (rule split_deleted)
  obtain tail where t: "S = items_slots items @ tail" "\<forall>it \<in> set items. item_ok it"
      "tail = [] \<or> isLstEmptyDirEntry (hd tail)" "\<forall>e \<in> set tail. isEmptyDirEntry e"
    using assms(1) unfolding dir_items_def by blast
  show ?thesis
  proof (cases "k \<le> length ds")
    case True
    have "dir_items (drop k S) (map Deleted (drop k ds) @ rest)"
      using t True unfolding dir_items_def
      by (intro conjI exI [of _ tail]) (auto simp: sp(1) dest: in_set_dropD)
    moreover have "list_items n items = list_items (n + k) (map Deleted (drop k ds) @ rest)"
      using True by (simp add: sp(1) list_deleted)
    ultimately show ?thesis by blast
  next
    case False
    have "rest = []"
    proof (rule ccontr)
      assume "rest \<noteq> []"
      with sp(2) obtain ls e items' where r: "rest = Present ls e # items'" by blast
      have "S ! length ds = hd (ls @ [e])" by (cases ls) (simp_all add: t(1) sp(1) r nth_append)
      moreover have "\<not> isEmptyDirEntry (hd (ls @ [e]))" using t(2) by (cases ls) (auto simp: sp(1) r)
      ultimately show False using assms(3) [rule_format, of "length ds"] False by simp
    qed
    then have S: "S = ds @ tail" "list_items n items = []" using list_deleted [of n ds "[]"] by (simp_all add: t(1) sp(1))
    have "\<forall>e \<in> set (drop k S). isEmptyDirEntry e" using t(4) False by (auto simp: S dest: in_set_dropD)
    from free_items [OF this] obtain ds' where "dir_items (drop k S) (map Deleted ds')" by blast
    moreover have "list_items (n + k) (map Deleted ds') = []" using list_deleted [of "n + k" ds' "[]"] by simp
    ultimately show ?thesis using S(2) by metis
  qed
qed

text \<open>A file put into free slots.\<close>

lemma insert_item:
  assumes "dir_items S items" and "a + Suc (length ls) \<le> length S" and "\<forall>i. a \<le> i \<and> i < a + Suc (length ls) \<longrightarrow> isEmptyDirEntry (S ! i)"
    and "a = 0 \<or> \<not> isEmptyDirEntry (S ! (a - 1))" and "item_ok (Present ls e)"
  shows "\<exists>items' l1 l2. dir_items (take a S @ ls @ e # drop (a + Suc (length ls)) S) items' \<and> list_items 0 items = l1 @ l2
    \<and> list_items 0 items' = l1 @ (of_nat a, castLongDirEntryToShort e, rev ls, of_nat (a + Suc (length ls))) # l2"
proof -
  let ?k = "Suc (length ls)"
  obtain tail where t: "S = items_slots items @ tail" "\<forall>it \<in> set items. item_ok it"
      "tail = [] \<or> isLstEmptyDirEntry (hd tail)" "\<forall>e \<in> set tail. isEmptyDirEntry e"
    using assms(1) unfolding dir_items_def by blast
  have a: "a \<le> length (items_slots items)"
  proof (rule ccontr)
    assume "\<not> a \<le> length (items_slots items)"
    then have "S ! (a - 1) \<in> set tail" "0 < a" using assms(2) by (auto simp: t(1) nth_append)
    then show False using assms(4) t(4) by simp
  qed
  have "a < length (items_slots items) \<longrightarrow> isEmptyDirEntry (items_slots items ! a)"
    using assms(3) by (auto simp: t(1) nth_append dest: spec [of _ a])
  from boundary [OF t(2) a this] obtain its1 its2 where sp: "items = its1 @ its2" "length (items_slots its1) = a" by blast
  have S: "S = items_slots its1 @ items_slots its2 @ tail" by (simp add: t(1) sp(1))
  have rest: "dir_items (items_slots its2 @ tail) its2" using t by (auto simp: dir_items_def sp(1))
  have "\<forall>i < ?k. isEmptyDirEntry ((items_slots its2 @ tail) ! i)"
  proof (intro allI impI)
    fix i assume "i < ?k"
    then have "isEmptyDirEntry (S ! (a + i))" using assms(3) by simp
    then show "isEmptyDirEntry ((items_slots its2 @ tail) ! i)" by (simp only: S nth_append_length_plus flip: sp(2))
  qed
  moreover have "?k \<le> length (items_slots its2 @ tail)" using assms(2) by (simp add: S sp(2))
  ultimately obtain its3 where d: "dir_items (drop ?k (items_slots its2 @ tail)) its3" "list_items a its2 = list_items (a + ?k) its3"
    using drop_free [OF rest] by blast
  have "dir_items (items_slots (its1 @ [Present ls e]) @ drop ?k (items_slots its2 @ tail)) ((its1 @ [Present ls e]) @ its3)"
    using t(2) assms(5) by (intro dir_items_append d(1)) (auto simp: sp(1))
  moreover have "take a S = items_slots its1" "drop (a + ?k) S = drop ?k (items_slots its2 @ tail)"
    by (simp_all only: S flip: sp(2)) simp_all
  then have "items_slots (its1 @ [Present ls e]) @ drop ?k (items_slots its2 @ tail) = take a S @ ls @ e # drop (a + ?k) S" by simp
  ultimately have "dir_items (take a S @ ls @ e # drop (a + ?k) S) (its1 @ Present ls e # its3)" by simp
  moreover have "list_items 0 items = list_items 0 its1 @ list_items (a + ?k) its3"
    by (simp add: sp list_items_append d(2))
  moreover have "list_items 0 (its1 @ Present ls e # its3)
      = list_items 0 its1 @ (of_nat a, castLongDirEntryToShort e, rev ls, of_nat (a + ?k)) # list_items (a + ?k) its3"
    by (simp add: list_items_append sp(2))
  ultimately show ?thesis by blast
qed

section \<open>The search for space\<close>

context block_device
begin

lemma space_loop_ok:
  assumes "dir_ok good view F E R f xs" and "dir_slots R (F_bpb F) xs = S" and "free_run S cur cnt" and "cnt \<le> K" and "K < 2 ^ 32"
    and "cnt \<noteq> 0 \<longrightarrow> start = of_nat (cur - cnt)"
  shows "\<exists>cur' start' cnt' f' F'. space_loop D now (of_nat K) F f (of_nat cur) start (of_nat cnt)
      = Some (of_nat cur', start', of_nat cnt', f', F')
    \<and> dir_kept good view E R xs F f f' F' \<and> free_run S cur' cnt' \<and> cnt' \<le> K \<and> (cnt' = K \<or> cur' = length S)
    \<and> (cnt' \<noteq> 0 \<longrightarrow> start' = of_nat (cur' - cnt'))"
  using assms
proof (induction "length S - cur" arbitrary: cur cnt start F f)
  case 0
  have c: "cur = length S" using 0(1,4) by (simp add: free_run_def)
  have lt: "(of_nat cnt :: u32) < of_nat K \<longleftrightarrow> cnt < K" using 0(5,6) by (simp add: word_less_nat_alt unat_of_nat_lt)
  show ?case
  proof (cases "cnt < K")
    case True
    from read_slot [OF 0(2,3), of cur now] obtain f1 F1 where "readDirEntry D now F f (of_nat cur) = Some (None, f1, F1)"
      "dir_kept good view E R xs F f f1 F1" by (auto simp: c)
    then show ?thesis using 0 True lt c
      by (intro exI [of _ cur] exI [of _ start] exI [of _ cnt] exI [of _ f1] exI [of _ F1]) (subst space_loop.simps, simp)
  next
    case False
    then show ?thesis using 0 lt
      by (intro exI [of _ cur] exI [of _ start] exI [of _ cnt] exI [of _ f] exI [of _ F]) (subst space_loop.simps, simp add: dir_kept_def)
  qed
next
  case (Suc m)
  have lt: "(of_nat cnt :: u32) < of_nat K \<longleftrightarrow> cnt < K" using Suc.prems(4,5) by (simp add: word_less_nat_alt unat_of_nat_lt)
  show ?case
  proof (cases "cnt < K")
    case True
    have n: "cur < length S" "m = length S - Suc cur" using Suc.hyps(2) by simp_all
    obtain f1 F1 where r: "readDirEntry D now F f (of_nat cur) = Some (Some (S ! cur), f1, F1)"
        "dir_kept good view E R xs F f f1 F1" "dir_slots R (F_bpb F1) xs = S"
      using read_slot [OF Suc.prems(1,2), of cur now] n(1) by auto
    note step = free_run_step [OF Suc.prems(3) n(1)] and IH = Suc.hyps(1) [OF n(2) dir_kept_ok [OF r(2)] r(3)]
    have "unat (of_nat cnt :: u32) = cnt" using Suc.prems(4,5) by (intro unat_of_nat_lt) simp
    then have c0: "(of_nat cnt = (0 :: u32)) \<longleftrightarrow> cnt = 0" by auto
    define st where "st = (if isEmptyDirEntry (S ! cur) \<and> cnt = 0 then of_nat cur else start)"
    define ct where "ct = (if isEmptyDirEntry (S ! cur) then Suc cnt else 0)"
    have "free_run S (Suc cur) ct" "ct \<le> K" "ct \<noteq> 0 \<longrightarrow> st = of_nat (Suc cur - ct)"
      using step Suc.prems(6) True by (auto simp: ct_def st_def)
    from IH [OF this(1,2) Suc.prems(5) this(3)] obtain cur' start' cnt' f2 F2 where
      l: "space_loop D now (of_nat K) F1 f1 (of_nat (Suc cur)) st (of_nat ct) = Some (of_nat cur', start', of_nat cnt', f2, F2)"
        "dir_kept good view E R xs F1 f1 f2 F2" "free_run S cur' cnt'" "cnt' \<le> K" "cnt' = K \<or> cur' = length S"
        "cnt' \<noteq> 0 \<longrightarrow> start' = of_nat (cur' - cnt')" by blast
    have "space_loop D now (of_nat K) F f (of_nat cur) start (of_nat cnt) = space_loop D now (of_nat K) F1 f1 (of_nat (Suc cur)) st (of_nat ct)"
      using r(1) True lt c0 by (subst space_loop.simps) (auto simp: st_def ct_def add.commute)
    then show ?thesis using l dir_kept_trans [OF r(2) l(2)] by (intro exI [of _ cur'] exI) (auto intro!: exI)
  next
    case False
    then show ?thesis using Suc.prems lt
      by (intro exI [of _ cur] exI [of _ start] exI [of _ cnt] exI [of _ f] exI [of _ F]) (subst space_loop.simps, simp add: dir_kept_def)
  qed
qed

end

section \<open>Growing a directory\<close>

text \<open>A volume on which \<open>allocClus\<close> works.\<close>

definition vol_ok :: "'d FAT \<Rightarrow> (u32 \<Rightarrow> u32) \<Rightarrow> (u32 \<Rightarrow> bytes option) \<Rightarrow> bool" where
  "vol_ok F E R \<longleftrightarrow> avail_ok F E \<and> F_free_count F = 0xFFFFFFFF \<and> reserved_ok E
     \<and> (\<forall>b. data_clus (F_bpb F) b \<longrightarrow> clus_secs (F_bpb F) b \<subseteq> dom R)"

lemma vol_ok_device [simp]: "vol_ok (F\<lparr>F_device := d\<rparr>) E R = vol_ok F E R" for F E R d
  by (simp add: vol_ok_def avail_ok_def)

lemma only_secs_dom: "only_secs S R R' \<Longrightarrow> dom R' = dom R"
  by (simp add: only_secs_def)

lemma reserved_kept:
  assumes "\<forall>n. n \<notin> set ys \<longrightarrow> E' n = E n" and "\<forall>x \<in> set ys. data_clus bpb x"
  shows "reserved_ok E' \<longleftrightarrow> reserved_ok E"
proof -
  have "0 \<notin> set ys" "1 \<notin> set ys" using assms(2) by (auto simp: data_clus_def)
  then show ?thesis using assms(1) by (simp add: reserved_ok_def)
qed

lemma vol_ok_wrote:
  assumes ok: "dir_ok good view F E R f xs" and w: "dir_wrote good view F E R f xs F' E' R' f'" and v: "vol_ok F E R"
  shows "vol_ok F' E' R'"
proof -
  have h: "file_holds F E R f xs" "file_holds F' E' R' f' xs" using ok w by (simp_all add: dir_wrote_def dir_next_def dir_ok_def)
  have e: "\<forall>n. n \<notin> set xs \<longrightarrow> E' n = E n" using w by (simp add: dir_wrote_def dir_next_def only_clus_def)
  have "E' n = 0 \<longleftrightarrow> E n = 0" for n using file_clus_used(1) [OF h(1)] file_clus_used(1) [OF h(2)] e by (cases "n \<in> set xs") auto
  then have "free_clus E' = free_clus E" by (simp add: free_clus_def free_from_def fun_eq_iff)
  moreover have "reserved_ok E' = reserved_ok E" by (rule reserved_kept [OF e]) (use file_clus_used(2) [OF h(1)] in blast)
  moreover have "dom R' = dom R" by (rule only_secs_dom [of "set (file_secs (F_bpb F) xs)"]) (use w in \<open>simp add: dir_wrote_def dir_next_def only_clus_def\<close>)
  moreover have "F' = F\<lparr>F_device := F_device F'\<rparr>" using w by (simp add: dir_wrote_def)
  then have "F_avail_clus_cnt F' = F_avail_clus_cnt F" "F_cnt_of_clus F' = F_cnt_of_clus F" "F_free_count F' = F_free_count F" "F_bpb F' = F_bpb F"
    by (cases F; cases F'; simp)+
  ultimately show ?thesis using v by (simp add: vol_ok_def avail_ok_def)
qed

lemma vol_ok_kept: "dir_kept good view E R xs F f f' F' \<Longrightarrow> vol_ok F' E R = vol_ok F E R"
  using vol_ok_device [where F = F and E = E and R = R and d = "F_device F'"] unfolding dir_kept_def by metis

lemma clus_need_upper:
  assumes "0 < spc bpb"
  shows "512 * (clus_need bpb len * spc bpb) < len + 512 * spc bpb"
proof (cases "len = 0")
  case False
  define X where "X = 512 * spc bpb"
  have "(len - 1) div X * X \<le> len - 1" by (rule div_times_less_eq_dividend)
  then have "(len - 1) div X * X < len" using False by linarith
  then have "((len - 1) div X + 1) * X < len + X" by (simp add: algebra_simps)
  moreover have "512 * (clus_need bpb len * spc bpb) = ((len - 1) div X + 1) * X"
    using False by (simp add: clus_need_def X_def)
  ultimately show ?thesis by (simp add: X_def)
qed (use assms in \<open>simp add: clus_need_def\<close>)

text \<open>New clusters of a directory are cleared.\<close>

lemma only_secs_zero: "Z \<subseteq> S \<Longrightarrow> Z \<subseteq> dom R \<Longrightarrow> only_secs S R (zero_secs Z R)"
  by (auto simp: only_secs_def zero_secs_def split: if_splits)

lemma content_cleared:
  assumes "geometry_ok bpb" and "distinct (xs @ cs)" and "\<forall>x \<in> set (xs @ cs). data_clus bpb x"
  shows "file_content (zero_secs (\<Union>c \<in> set cs. clus_secs bpb c) R) bpb (xs @ cs)
    = file_content R bpb xs @ replicate (512 * (length cs * spc bpb)) 0"
proof -
  let ?Z = "\<Union>c \<in> set cs. clus_secs bpb c"
  have "file_content (zero_secs ?Z R) bpb xs = file_content R bpb xs"
  proof (rule content_dom_eq)
    fix s assume "s \<in> set (file_secs bpb xs)"
    moreover have "clus_secs bpb x \<inter> clus_secs bpb c = {}" if "x \<in> set xs" "c \<in> set cs" for x c
      using clus_secs_disjoint [OF assms(1), of x c] assms(2,3) that by auto
    ultimately have "s \<notin> ?Z" using distinct_file_secs(2) [OF assms(1), of xs] assms(2,3) by auto
    then show "zero_secs ?Z R s = R s" by (simp add: zero_secs_def)
  qed
  moreover have "sec_bytes (zero_secs ?Z R) (file_secs bpb cs) = replicate (length cs * spc bpb) (replicate 512 0)"
    using distinct_file_secs(2) [OF assms(1), of cs] assms(2,3)
    by (intro replicate_eqI) (auto simp: sec_bytes_def zero_secs_def SECTOR_SIZE_def)
  then have "file_content (zero_secs ?Z R) bpb cs = concat (replicate (length cs * spc bpb) (replicate 512 0))"
    by (simp only: file_content_def)
  moreover have "concat (replicate n (replicate 512 0)) = replicate (512 * n) (0 :: u8)" for n
    by (induction n) (simp_all add: replicate_add)
  ultimately show ?thesis by (simp add: file_content_append)
qed

lemma slots_append_zero:
  assumes "length C = 32 * m"
  shows "slots_of (C @ replicate (32 * k) 0) = slots_of C @ replicate k zero_entry"
proof (rule nth_equalityI)
  fix i assume "i < length (slots_of (C @ replicate (32 * k) 0))"
  then have i: "i < m + k" using assms by simp
  show "slots_of (C @ replicate (32 * k) 0) ! i = (slots_of C @ replicate k zero_entry) ! i"
  proof (cases "i < m")
    case False
    then have "take 32 (drop (32 * i) (C @ replicate (32 * k) 0)) = replicate 32 (0 :: u8)"
      using i assms by (intro replicate_eqI) (auto dest!: in_set_takeD in_set_dropD)
    then show ?thesis using i False assms by (simp add: nth_slots_of nth_append zero_entry_def)
  qed (use i assms in \<open>simp add: nth_slots_of nth_append\<close>)
qed (use assms in simp)

text \<open>What a change to a directory leaves that may take the clusters \<open>cs\<close>.\<close>

definition dir_more :: "('d \<Rightarrow> bool) \<Rightarrow> ('d \<Rightarrow> u32 \<Rightarrow> bytes option) \<Rightarrow> 'd FAT \<Rightarrow> (u32 \<Rightarrow> u32) \<Rightarrow> (u32 \<Rightarrow> bytes option) \<Rightarrow>
    fobj \<Rightarrow> u32 list \<Rightarrow> u32 list \<Rightarrow> 'd FAT \<Rightarrow> (u32 \<Rightarrow> u32) \<Rightarrow> (u32 \<Rightarrow> bytes option) \<Rightarrow> fobj \<Rightarrow> bool" where
  "dir_more good view F E R f xs cs F' E' R' f' \<longleftrightarrow>
     dir_ok good view F' E' R' f' (xs @ cs) \<and> F_bpb F' = F_bpb F \<and> ino f' = ino f \<and> only_clus (F_bpb F) xs cs E E' R R'"

lemma dir_more_next:
  assumes "dir_more good view F E R f xs cs F1 E1 R1 f1" and "dir_next good view F1 E1 R1 f1 (xs @ cs) F2 E2 R2 f2 (xs @ cs)"
  shows "dir_more good view F E R f xs cs F2 E2 R2 f2"
  using assms by (auto simp: dir_more_def dir_next_def only_clus_def intro: only_secs_trans)

lemma dir_more_refl: "dir_next good view F E R f xs F1 E1 R1 f1 xs \<Longrightarrow> dir_more good view F E R f xs [] F1 E1 R1 f1"
  by (simp add: dir_more_def dir_next_def)

context block_device
begin

lemma grow_dir_need:
  assumes ok: "dir_ok good view F E R f xs" and len: "32 * length (dir_slots R (F_bpb F) xs) < unat len"
  shows "length xs < clus_need (F_bpb F) (unat len)"
proof -
  note b = dir_slots_bound [OF ok]
  have h: "fat_holds good view F E R" "file_holds F E R f xs" using ok by (simp_all add: dir_ok_def)
  have "512 * (length xs * spc (F_bpb F)) < 512 * (clus_need (F_bpb F) (unat len) * spc (F_bpb F))"
    using len b(1) length_content [OF h] clus_need_covers [OF file_holds_facts(4) [OF h], of "unat len"] by linarith
  then show ?thesis by simp
qed

lemma grow_dir_fails:
  fixes len :: u32
  assumes ok: "dir_ok good view F E R f xs" and S: "dir_slots R (F_bpb F) xs = S" and vol: "vol_ok F E R"
    and len: "32 * length S < unat len" and few: "length (free_clus E (unat (F_cnt_of_clus F))) < clus_need (F_bpb F) (unat len) - length xs"
  shows "\<exists>F'. File_truncate D F f len = Some (False, f, F') \<and> dir_ok good view F' E R f xs \<and> F_bpb F' = F_bpb F
        \<and> 512 * (frees (F_bpb F) E * spc (F_bpb F)) < unat len - 32 * length S"
proof -
  note b = dir_slots_bound [OF ok, unfolded S]
  have h: "fat_holds good view F E R" "file_holds F E R f xs" "f_is_dir f" using ok by (simp_all add: dir_ok_def)
  have a: "avail_ok F E" "F_free_count F = 0xFFFFFFFF" "reserved_ok E"
    "\<forall>b. data_clus (F_bpb F) b \<longrightarrow> clus_secs (F_bpb F) b \<subseteq> dom R" using vol by (simp_all add: vol_ok_def)
  note s = file_holds_facts(4) [OF h(1,2)] and geo = file_holds_facts(1) [OF h(1,2)]
  let ?k = "clus_need (F_bpb F) (unat len)" and ?fl = "free_clus E (unat (F_cnt_of_clus F))"
  have need: "length xs < ?k" by (rule grow_dir_need [OF ok]) (use len S in simp)
  note grow = truncate_grow_ok [OF h(1,2) a need]
  from grow(1) [OF few] obtain d where d: "File_truncate D F f len
      = Some (False, f, F\<lparr>F_device := d, F_avail_clus_cnt := Some (of_nat (length ?fl))\<rparr>)"
    "fat_holds good view (F\<lparr>F_device := d\<rparr>) E R" by blast
  then have "dir_ok good view (F\<lparr>F_device := d, F_avail_clus_cnt := Some (of_nat (length ?fl))\<rparr>) E R f xs"
    using ok by (simp add: dir_ok_def)
  moreover have "length ?fl = frees (F_bpb F) E" using h(1) by (simp add: frees_def fat_holds_def)
  then have "Suc (frees (F_bpb F) E) * (512 * spc (F_bpb F)) \<le> (?k - length xs) * (512 * spc (F_bpb F))"
    using few by (intro mult_le_mono1) simp
  then have "512 * (frees (F_bpb F) E * spc (F_bpb F)) + 512 * spc (F_bpb F)
      \<le> 512 * (?k * spc (F_bpb F)) - 512 * (length xs * spc (F_bpb F))"
    by (simp add: diff_mult_distrib algebra_simps)
  then have "512 * (frees (F_bpb F) E * spc (F_bpb F)) < unat len - 32 * length S"
    using clus_need_upper [OF s, of "unat len"] b(1) length_content [OF h(1,2)] len(1) by linarith
  ultimately show ?thesis using d(1) by auto
qed

lemma grow_dir_grows:
  fixes len :: u32
  assumes ok: "dir_ok good view F E R f xs" and S: "dir_slots R (F_bpb F) xs = S" and vol: "vol_ok F E R"
    and len: "32 * length S < unat len" "unat len + 512 * spc (F_bpb F) \<le> 2 ^ 32"
    and enough: "\<not> length (free_clus E (unat (F_cnt_of_clus F))) < clus_need (F_bpb F) (unat len) - length xs"
  shows "\<exists>F' f' E' R' cs m. File_truncate D F f len = Some (True, f', F') \<and> dir_more good view F E R f xs cs F' E' R' f'
        \<and> dir_slots R' (F_bpb F') (xs @ cs) = S @ replicate m zero_entry \<and> unat len \<le> 32 * (length S + m)
        \<and> vol_ok F' E' R' \<and> 512 * (length cs * spc (F_bpb F)) < unat len - 32 * length S + 512 * spc (F_bpb F)"
proof -
  note b = dir_slots_bound [OF ok, unfolded S]
  have h: "fat_holds good view F E R" "file_holds F E R f xs" "f_is_dir f" using ok by (simp_all add: dir_ok_def)
  have a: "avail_ok F E" "F_free_count F = 0xFFFFFFFF" "reserved_ok E"
    "\<forall>b. data_clus (F_bpb F) b \<longrightarrow> clus_secs (F_bpb F) b \<subseteq> dom R" using vol by (simp_all add: vol_ok_def)
  note s = file_holds_facts(4) [OF h(1,2)] and geo = file_holds_facts(1) [OF h(1,2)]
  let ?k = "clus_need (F_bpb F) (unat len)" and ?fl = "free_clus E (unat (F_cnt_of_clus F))"
  have need: "length xs < ?k" by (rule grow_dir_need [OF ok]) (use len S in simp)
  note grow = truncate_grow_ok [OF h(1,2) a need]
  define cs where "cs = take (?k - length xs) ?fl"
  let ?R = "zero_secs (\<Union>b \<in> set cs. clus_secs (F_bpb F) b) R" and ?f = "truncated (if xs = [] then hd cs else f_fst_clus f) len f"
  obtain d E' where d: "File_truncate D F f len
        = Some (True, ?f, F\<lparr>F_device := d, F_avail_clus_cnt := Some (of_nat (length (free_clus E' (unat (F_cnt_of_clus F)))))\<rparr>)"
      "fat_holds good view (F\<lparr>F_device := d\<rparr>) E' ?R" "file_holds F E' ?R ?f (xs @ cs)"
      "\<forall>x \<in> set cs. E x = 0 \<and> 2 \<le> unat x" "\<forall>n. n \<notin> set cs \<longrightarrow> n \<notin> set xs \<longrightarrow> E' n = E n"
    using grow(2) [folded cs_def] enough h(3) by (force simp: not_less)
  let ?F = "F\<lparr>F_device := d, F_avail_clus_cnt := Some (of_nat (length (free_clus E' (unat (F_cnt_of_clus F)))))\<rparr>"
  have l: "length (xs @ cs) = ?k" using enough need by (simp add: cs_def)
  have g: "fat_holds good view ?F E' ?R" "file_holds ?F E' ?R ?f (xs @ cs)" using d(2,3) by simp_all
  have "512 * (length (xs @ cs) * spc (F_bpb F)) < 2 ^ 32" using clus_need_upper [OF s, of "unat len"] len(2) unfolding l by linarith
  then have ok': "dir_ok good view ?F E' ?R ?f (xs @ cs)" using g h(3) unfolding dir_ok_def by simp
  have dc: "\<forall>x \<in> set (xs @ cs). data_clus (F_bpb F) x" using d(3) by (simp add: file_holds_def)
  have dist: "distinct (xs @ cs)" using file_holds_facts(2) [OF g] .
  have "(\<Union>b \<in> set cs. clus_secs (F_bpb F) b) \<subseteq> set (file_secs (F_bpb F) (xs @ cs))"
    unfolding distinct_file_secs(2) [OF geo dist dc] set_append by (rule UN_mono) simp_all
  moreover have "(\<Union>b \<in> set cs. clus_secs (F_bpb F) b) \<subseteq> dom R" using a(4) dc by (simp add: UN_subset_iff)
  ultimately have secs: "only_secs (set (file_secs (F_bpb F) (xs @ cs))) R ?R" by (rule only_secs_zero)
  then have "only_clus (F_bpb F) xs cs E E' R ?R" using d(4,5) by (simp add: only_clus_def)
  moreover have "ino ?f = ino f" by (simp add: ino_def truncated_def Let_def)
  ultimately have more: "dir_more good view F E R f xs cs ?F E' ?R ?f" using ok' by (simp add: dir_more_def)
  let ?m = "16 * (length cs * spc (F_bpb F))"
  have m: "512 * (length cs * spc (F_bpb F)) = 32 * ?m" by simp
  have "dir_slots ?R (F_bpb F) (xs @ cs) = S @ replicate ?m zero_entry"
    unfolding dir_slots_def content_cleared [OF geo dist dc] m slots_append_zero [OF b(1)] by (simp only: S flip: dir_slots_def)
  moreover have bF: "F_bpb ?F = F_bpb F" by simp
  ultimately have "dir_slots ?R (F_bpb ?F) (xs @ cs) = S @ replicate ?m zero_entry" by (simp only: bF)
  moreover have "32 * (length S + ?m) = 512 * (?k * spc (F_bpb F))"
    using b(1) length_content [OF h(1,2)] unfolding l [symmetric] by (simp add: algebra_simps)
  then have "unat len \<le> 32 * (length S + ?m)" using clus_need_covers [OF s, of "unat len"] by simp
  moreover have "reserved_ok E'" using a(3) reserved_kept [of "xs @ cs" E' E, OF _ dc] d(5) by simp
  then have "vol_ok ?F E' ?R" using a(2,4) only_secs_dom [OF secs] by (simp add: vol_ok_def avail_ok_def)
  moreover have "512 * (length cs * spc (F_bpb F)) < unat len - 32 * length S + 512 * spc (F_bpb F)"
    using clus_need_upper [OF s, of "unat len"] b(1) length_content [OF h(1,2)] len(1) unfolding l [symmetric]
    by (simp add: algebra_simps)
  ultimately show ?thesis using d(1) more by blast
qed

lemma grow_dir_ok:
  fixes len :: u32
  assumes ok: "dir_ok good view F E R f xs" and S: "dir_slots R (F_bpb F) xs = S" and vol: "vol_ok F E R"
    and len: "32 * length S < unat len" "unat len + 512 * spc (F_bpb F) \<le> 2 ^ 32"
  shows "(\<exists>F'. File_truncate D F f len = Some (False, f, F') \<and> dir_ok good view F' E R f xs \<and> F_bpb F' = F_bpb F
        \<and> 512 * (frees (F_bpb F) E * spc (F_bpb F)) < unat len - 32 * length S)
    \<or> (\<exists>F' f' E' R' cs m. File_truncate D F f len = Some (True, f', F') \<and> dir_more good view F E R f xs cs F' E' R' f'
        \<and> dir_slots R' (F_bpb F') (xs @ cs) = S @ replicate m zero_entry \<and> unat len \<le> 32 * (length S + m)
        \<and> vol_ok F' E' R' \<and> 512 * (length cs * spc (F_bpb F)) < unat len - 32 * length S + 512 * spc (F_bpb F))"
  using grow_dir_fails [OF ok S vol len(1)] grow_dir_grows [OF ok S vol len] by blast

end

end
