(* ===== verification/DirMake.thy ===== *)
theory DirMake
  imports DirCreate
begin

text \<open>
  The entries \<open>crtFileInner\<close> writes, and the whole operation on the directory.
\<close>

section \<open>The long entries\<close>

definition long_entry :: "nat \<Rightarrow> u8 \<Rightarrow> bytes \<Rightarrow> nat \<Rightarrow> LongDirEntry" where
  "long_entry n crc u i = mkLongDirEntry (Suc i = n) (of_nat (Suc i)) crc u (of_nat (26 * i))"

definition new_long :: "nat \<Rightarrow> u8 \<Rightarrow> bytes \<Rightarrow> LongDirEntry list" where
  "new_long n crc u = map (long_entry n crc u) (rev [0..<n])"

lemma length_new_long [simp]: "length (new_long n crc u) = n"
  by (simp add: new_long_def)

lemma wf_long_entry: "wf_long (long_entry n crc u i)"
  by (simp add: long_entry_def wf_long_def mkLongDirEntry_def length_name_units Let_def del: name_units.simps)

text \<open>They are valid, none looks like a free slot, and together they hold the name.\<close>

lemma long_entry_ok:
  assumes "i < n" and "n < 64"
  shows "isValidLongDirEntry (long_entry n crc u i) crc" and "\<not> isEmptyDirEntry (long_entry n crc u i)"
proof -
  show "isValidLongDirEntry (long_entry n crc u i) crc"
    by (simp add: long_entry_def isValidLongDirEntry_def isLongDirEntry_def mkLongDirEntry_def Let_def attr_values)
  have "\<forall>k \<in> set [1..<64]. (of_nat k :: u8) \<noteq> 0 \<and> of_nat k \<noteq> (0xE5 :: u8)
      \<and> 0x40 OR of_nat k \<noteq> (0 :: u8) \<and> 0x40 OR of_nat k \<noteq> (0xE5 :: u8)" by code_simp
  moreover have "Suc i \<in> set [1..<64]" using assms by simp
  ultimately show "\<not> isEmptyDirEntry (long_entry n crc u i)"
    by (auto simp: isEmptyDirEntry_def long_entry_def mkLongDirEntry_def KLastLongEntry_def Let_def simp del: of_nat_Suc set_upt)
qed

lemma long_name_new:
  assumes "units_ok u" and "u \<noteq> []" and "length u < 2 ^ 30" and "n = (length u - 1) div 26 + 1"
  shows "long_name (new_long n crc u) = u"
proof -
  have n: "26 * n < length u + 26" "length u \<le> 26 * n" using assms(2,4) by (cases u; simp; linarith)+
  have "long_name (new_long n crc u) = concat (map (\<lambda>i. readLongEntryName (long_entry n crc u i)) [0..<n])"
    by (simp add: long_name_def new_long_def o_def flip: rev_map)
  also have "\<dots> = u"
    using long_entries_name [OF assms(1,3) n, of "\<lambda>i. Suc i = n" "\<lambda>i. of_nat (Suc i)" crc] by (simp add: long_entry_def)
  finally show ?thesis .
qed

text \<open>The number of entries, for a name that is not empty.\<close>

lemma required_entries_nat:
  assumes "u \<noteq> []" and "length u \<le> 1000"
  shows "required_entries u = of_nat (Suc ((length u - 1) div 26 + 1))"
proof -
  define m where "m = length u - 1"
  have "(of_nat (length u) - 1 :: u64) = of_nat m" using assms(1) by (cases u) (simp_all add: m_def)
  moreover have m: "m < 1000" using assms by (cases u) (simp_all add: m_def)
  then have "unat (of_nat m :: u64) = m" by (intro unat_of_nat_lt) simp
  then have "(of_nat m :: u64) div 26 = of_nat (m div 26)" by (simp add: word_unat_eq_iff unat_div) (subst unat_of_nat_lt, use m in \<open>simp_all\<close>)
  ultimately have "required_entries u = ucast (of_nat (m div 26 + 1) :: u64) + 1"
    by (simp add: required_entries_def add.commute)
  then show ?thesis by (simp only: slot_number) (simp add: m_def)
qed

context block_device
begin

lemma write_long_ok:
  assumes "dir_ok good view F E R f xs" and "dir_slots R (F_bpb F) xs = S" and "a + n < length S" and "i \<le> n"
  shows "\<exists>F' f' E' R'. write_long_entries D now (of_nat a) (of_nat (Suc n)) crc u F f (of_nat (Suc i)) (of_nat (26 * i)) = Some (f', F')
    \<and> dir_wrote good view F E R f xs F' E' R' f'
    \<and> dir_slots R' (F_bpb F') xs = take a S @ map (long_entry n crc u) (rev [i..<n]) @ drop (a + (n - i)) S"
  using assms
proof (induction "n - i" arbitrary: i F f E R S)
  case 0
  then have i: "i = n" by simp
  have "n < 2 ^ 27" using 0(4) dir_slots_bound(2) [OF 0(2), unfolded 0(3)] by simp
  then have "\<not> (of_nat (Suc n) :: u32) \<le> of_nat (Suc n) - 1"
    by (simp add: word_le_nat_alt unat_of_nat_lt flip: of_nat_Suc) (simp add: unat_of_nat_lt)
  then show ?case using dir_wrote_refl [OF 0(2)] 0(3)
    by (intro exI [of _ F] exI [of _ f] exI [of _ E] exI [of _ R]) (simp add: write_long_entries.simps i)
next
  case (Suc m)
  have i: "i < n" "m = n - Suc i" using Suc.hyps(2) by simp_all
  let ?e = "long_entry n crc u i" and ?p = "a + (n - Suc i)"
  have b: "a + n < 2 ^ 27" using Suc.prems(3) dir_slots_bound(2) [OF Suc.prems(1), unfolded Suc.prems(2)] by simp
  have p: "?p < length S" using Suc.prems(3) i(1) by simp
  obtain F1 f1 E1 R1 where w: "writeDirEntry D now F f (of_nat ?p) ?e = Some (True, f1, F1)"
      "dir_wrote good view F E R f xs F1 E1 R1 f1" "dir_slots R1 (F_bpb F1) xs = S[?p := ?e]"
    using writeDirEntry_wrote [OF Suc.prems(1,2) p wf_long_entry] by blast
  have ok1: "dir_ok good view F1 E1 R1 f1 xs" using w(2) by (simp add: dir_wrote_def dir_next_def)
  have len: "a + n < length (S[?p := ?e])" using Suc.prems(3) by simp
  from Suc.hyps(1) [OF i(2) ok1 w(3) len] i(1) obtain F2 f2 E2 R2 where
    l: "write_long_entries D now (of_nat a) (of_nat (Suc n)) crc u F1 f1 (of_nat (Suc (Suc i))) (of_nat (26 * Suc i)) = Some (f2, F2)"
      "dir_wrote good view F1 E1 R1 f1 xs F2 E2 R2 f2"
      "dir_slots R2 (F_bpb F2) xs = take a (S[?p := ?e]) @ map (long_entry n crc u) (rev [Suc i..<n]) @ drop ?p (S[?p := ?e])"
    by auto
  have sp: "a + (n - i) = Suc ?p" using i(1) by simp
  have "take a (S[?p := ?e]) = take a S" "drop ?p (S[?p := ?e]) = ?e # drop (a + (n - i)) S"
    unfolding sp using p by (simp_all flip: Cons_nth_drop_Suc)
  moreover have "rev [i..<n] = rev [Suc i..<n] @ [i]" using i(1) by (simp add: upt_conv_Cons)
  ultimately have S2: "dir_slots R2 (F_bpb F2) xs = take a S @ map (long_entry n crc u) (rev [i..<n]) @ drop (a + (n - i)) S"
    using l(3) by simp
  have q: "(of_nat a + of_nat (Suc n) - of_nat (Suc i) - 1 :: u32) = of_nat ?p" using i(1) by (simp add: of_nat_diff)
  have r: "(of_nat (Suc n) - 1 :: u32) = of_nat n" by simp
  have u: "unat (of_nat (Suc i) :: u32) = Suc i" "unat (of_nat n :: u32) = n" using b i(1) by (intro unat_of_nat_lt, simp)+
  have c: "(of_nat (Suc i) :: u32) \<le> of_nat n" "(of_nat (Suc i) :: u32) \<noteq> 0" "(of_nat (Suc i) = (of_nat n :: u32)) \<longleftrightarrow> Suc i = n"
    using i(1) u by (auto simp: word_le_nat_alt word_unat_eq_iff simp del: of_nat_Suc)
  have "(ucast (of_nat (Suc i) :: u32) :: u8) = of_nat (Suc i)" by transfer simp
  then have "write_long_entries D now (of_nat a) (of_nat (Suc n)) crc u F f (of_nat (Suc i)) (of_nat (26 * i)) = Some (f2, F2)"
    using w(1) l(1) c by (subst write_long_entries.simps) (simp only: q r, simp add: long_entry_def algebra_simps)
  then show ?case using S2 dir_wrote_trans [OF w(2) l(2)] by blast
qed

end

section \<open>The whole operation\<close>

lemma wf_new_short:
  assumes "genBasisNameFromLong to_gbk nm = Some b"
  shows "wf_short (mkShortDirEntry t b is_dir)" and "\<not> isLongDirEntry (castShortDirEntryToLong (mkShortDirEntry t b is_dir))"
proof -
  have "length (primary b) = 9" "length (extension b) = 4"
    using assms long_primary_keeps(1) long_extension_keeps(1)
    by (auto simp: genBasisNameFromLong_def Let_def empty_basis split: bind_splits)
  then show wf: "wf_short (mkShortDirEntry t b is_dir)" by (simp add: wf_short_def mkShortDirEntry_def setFstClusNo_def)
  have l: "length (se_name (mkShortDirEntry t b is_dir)) = 11" using wf by (simp add: wf_short_def)
  have "le_attr (castShortDirEntryToLong (mkShortDirEntry t b is_dir)) = (if is_dir then KAttrDirectory else 0)"
    using l by (simp add: castShortDirEntryToLong_def decode_long_def encode_short_def nth_append)
      (simp add: mkShortDirEntry_def setFstClusNo_def)
  then show "\<not> isLongDirEntry (castShortDirEntryToLong (mkShortDirEntry t b is_dir))"
    by (simp add: isLongDirEntry_def attr_values KAttrDirectory_def)
qed

lemma file_sum_name:
  assumes "file_sum e = Some c" and "length (encode_long e) = 32"
  shows "readShortEntryName (castLongDirEntryToShort e) \<noteq> None" and "\<not> isEmptyDirEntry e"
proof -
  obtain nm where nm: "readShortEntryName (castLongDirEntryToShort e) = Some nm" using assms(1) by (auto simp: file_sum_def bind_eq_Some_conv)
  then show "readShortEntryName (castLongDirEntryToShort e) \<noteq> None" by simp
  have "se_name (castLongDirEntryToShort e) ! 0 = le_ord e"
    by (simp add: castLongDirEntryToShort_def decode_short_def encode_long_def field_def)
  then show "\<not> isEmptyDirEntry e"
    using nm by (auto simp: readShortEntryName_def parseEntryType_def isEmptyDirEntry_def Let_def split: if_splits)
qed

lemma new_item_ok:
  assumes "n < 64" and "genBasisNameFromLong to_gbk nm = Some b"
    and "file_sum (castShortDirEntryToLong (mkShortDirEntry t b is_dir)) = Some (chkSum b)"
  shows "item_ok (Present (new_long n (chkSum b) u) (castShortDirEntryToLong (mkShortDirEntry t b is_dir)))"
proof -
  let ?e = "castShortDirEntryToLong (mkShortDirEntry t b is_dir)"
  have w: "wf_long ?e" using wf_new_short(1) [OF assms(2)] by (simp add: castShortDirEntryToLong_def wf_decode)
  have "\<not> isEmptyDirEntry l \<and> isValidLongDirEntry l (chkSum b)" if "l \<in> set (new_long n (chkSum b) u)" for l
    using that long_entry_ok [OF _ assms(1)] by (auto simp: new_long_def)
  then show ?thesis
    using file_sum_name [OF assms(3)] w wf_new_short(2) [OF assms(2)] assms(3) by (auto simp: isValidLongDirEntry_def)
qed

lemma dir_items_zero: "dir_items S items \<Longrightarrow> dir_items (S @ replicate m zero_entry) items"
proof -
  assume "dir_items S items"
  then obtain tail where t: "\<forall>it \<in> set items. item_ok it" "S = items_slots items @ tail" "tail = [] \<or> isLstEmptyDirEntry (hd tail)"
    "\<forall>e \<in> set tail. isEmptyDirEntry e" unfolding dir_items_def by blast
  have z: "isLstEmptyDirEntry zero_entry" by code_simp
  have "S @ replicate m zero_entry = items_slots items @ (tail @ replicate m zero_entry)" by (simp add: t(2))
  moreover have "tail @ replicate m zero_entry = [] \<or> isLstEmptyDirEntry (hd (tail @ replicate m zero_entry))"
    using t(3) z by (cases tail; cases m) auto
  moreover have "\<forall>e \<in> set (tail @ replicate m zero_entry). isEmptyDirEntry e" using t(4) end_is_empty [OF z] by auto
  ultimately show ?thesis using t(1) unfolding dir_items_def by blast
qed

text \<open>A place of \<open>k\<close> free slots with no free slot in front, and a file put there, behind cleared
  slots if the directory has grown.\<close>

definition free_at :: "LongDirEntry list \<Rightarrow> nat \<Rightarrow> nat \<Rightarrow> bool" where
  "free_at S a k \<longleftrightarrow> a + k \<le> length S \<and> (\<forall>i. a \<le> i \<and> i < a + k \<longrightarrow> isEmptyDirEntry (S ! i))
     \<and> (a = 0 \<or> \<not> isEmptyDirEntry (S ! (a - 1)))"

definition placed :: "LongDirEntry list \<Rightarrow> nat \<Rightarrow> LongDirEntry list \<Rightarrow> LongDirEntry \<Rightarrow> LongDirEntry list \<Rightarrow> bool" where
  "placed S a ls e S' \<longleftrightarrow> (\<exists>m S0. S0 = S @ replicate m zero_entry \<and> free_at S0 a (Suc (length ls))
     \<and> S' = take a S0 @ ls @ e # drop (a + Suc (length ls)) S0)"

text \<open>A new file with the name \<open>u\<close> and the basis name \<open>b\<close> in slot \<open>a\<close>.\<close>

definition listed_file :: "nat \<Rightarrow> nat \<Rightarrow> bytes \<Rightarrow> BasisName \<Rightarrow> ShortDirEntry \<Rightarrow> u32 \<times> ShortDirEntry \<times> LongDirEntry list \<times> u64" where
  "listed_file a n u b e = (of_nat a, e, rev (new_long n (chkSum b) u), of_nat (a + Suc n))"

definition file_added :: "dir_item list \<Rightarrow> dir_item list \<Rightarrow> u32 \<times> ShortDirEntry \<times> LongDirEntry list \<times> u64 \<Rightarrow> bool" where
  "file_added items items' x \<longleftrightarrow> (\<exists>l1 l2. list_items 0 items = l1 @ l2 \<and> list_items 0 items' = l1 @ x # l2)"

text \<open>What that does to the list of files, and to the slots in front.\<close>

lemma placed_item:
  assumes "dir_items S items" and "placed S a (new_long n (chkSum b) u) (castShortDirEntryToLong s) S'"
    and "item_ok (Present (new_long n (chkSum b) u) (castShortDirEntryToLong s))" and "wf_short s"
  shows "\<exists>items'. dir_items S' items' \<and> file_added items items' (listed_file a n u b s)"
proof -
  obtain m S0 where S0: "S0 = S @ replicate m zero_entry" "free_at S0 a (Suc (length (new_long n (chkSum b) u)))"
      "S' = take a S0 @ new_long n (chkSum b) u @ castShortDirEntryToLong s # drop (a + Suc (length (new_long n (chkSum b) u))) S0"
    using assms(2) unfolding placed_def by blast
  have "dir_items S0 items" unfolding S0(1) by (rule dir_items_zero [OF assms(1)])
  from insert_item [OF this _ _ _ assms(3), of a] S0(2)
  show ?thesis unfolding S0(3) free_at_def file_added_def listed_file_def cast_round_trip(1) [OF assms(4)] by auto
qed

lemma placed_behind:
  assumes "dir_items S items" and "placed S a ls e S'"
  shows "\<exists>its1 its2 rest. items = its1 @ its2 \<and> length (items_slots its1) = a \<and> S' = items_slots its1 @ ls @ e # rest"
proof -
  obtain m S0 where S0: "S0 = S @ replicate m zero_entry" "free_at S0 a (Suc (length ls))"
      "S' = take a S0 @ ls @ e # drop (a + Suc (length ls)) S0"
    using assms(2) unfolding placed_def by blast
  have "dir_items S0 items" unfolding S0(1) by (rule dir_items_zero [OF assms(1)])
  then obtain tail where t: "S0 = items_slots items @ tail" "\<forall>it \<in> set items. item_ok it" "\<forall>e \<in> set tail. isEmptyDirEntry e"
    unfolding dir_items_def by blast
  have a: "a \<le> length (items_slots items)"
  proof (rule ccontr)
    assume "\<not> a \<le> length (items_slots items)"
    then have "S0 ! (a - 1) \<in> set tail" "0 < a" using S0(2) by (auto simp: t(1) nth_append free_at_def)
    then show False using S0(2) t(3) by (simp add: free_at_def)
  qed
  have "a < length (items_slots items) \<longrightarrow> isEmptyDirEntry (items_slots items ! a)"
    using S0(2) by (auto simp: t(1) nth_append free_at_def dest: spec [of _ a])
  from boundary [OF t(2) a this] obtain its1 its2 where sp: "items = its1 @ its2" "length (items_slots its1) = a" by blast
  moreover have "take a S0 = items_slots its1" by (simp add: t(1) sp(1) flip: sp(2))
  ultimately show ?thesis using S0(3) by blast
qed

text \<open>Where the search ends, and what is there after the directory has grown if it must.\<close>

lemma run_at_end:
  assumes "free_run S cur cnt" and "cur = length S" and "K - cnt \<le> m" and "cnt \<le> K"
  shows "free_at (S @ replicate m zero_entry) (cur - cnt) K"
proof -
  have z: "isEmptyDirEntry zero_entry" by code_simp
  have l: "cur - cnt + K \<le> length (S @ replicate m zero_entry)" using assms by (simp add: free_run_def)
  moreover have "\<forall>i. cur - cnt \<le> i \<and> i < cur - cnt + K \<longrightarrow> isEmptyDirEntry ((S @ replicate m zero_entry) ! i)"
    using assms l z by (auto simp: free_run_def nth_append)
  moreover have "cur - cnt = 0 \<or> \<not> isEmptyDirEntry ((S @ replicate m zero_entry) ! (cur - cnt - 1))"
    using assms by (auto simp: free_run_def nth_append)
  ultimately show ?thesis by (simp add: free_at_def)
qed

text \<open>The last \<open>k\<close> slots are free.\<close>

definition free_tail :: "LongDirEntry list \<Rightarrow> nat \<Rightarrow> bool" where
  "free_tail S k \<longleftrightarrow> k \<le> length S \<and> (\<forall>i. length S - k \<le> i \<and> i < length S \<longrightarrow> isEmptyDirEntry (S ! i))"

lemma free_run_tail: "free_run S (length S) cnt \<Longrightarrow> cnt < k \<Longrightarrow> \<not> free_tail S k"
  by (auto simp: free_run_def free_tail_def dest!: spec [of _ "length S - cnt - 1"])

context block_device
begin

lemma fill_ok:
  assumes ok: "dir_ok good view F E R f xs" and S: "dir_slots R (F_bpb F) xs = S @ replicate m zero_entry"
    and free: "free_at (S @ replicate m zero_entry) a (Suc n)" and b: "genBasisNameFromLong to_gbk nm = Some b"
  shows "\<exists>f1 F1 F' f' E' R'. write_long_entries D now (of_nat a) (of_nat (Suc n)) (chkSum b) u F f 1 0 = Some (f1, F1)
    \<and> writeDirEntry D now F1 f1 (of_nat a + of_nat (Suc n) - 1) (castShortDirEntryToLong (mkShortDirEntry t b is_dir)) = Some (True, f', F')
    \<and> dir_wrote good view F E R f xs F' E' R' f'
    \<and> placed S a (new_long n (chkSum b) u) (castShortDirEntryToLong (mkShortDirEntry t b is_dir)) (dir_slots R' (F_bpb F') xs)"
proof -
  let ?ls = "new_long n (chkSum b) u" and ?e = "castShortDirEntryToLong (mkShortDirEntry t b is_dir)"
  define S0 where "S0 = S @ replicate m zero_entry"
  note S = S [folded S0_def] and free = free [folded S0_def]
  have wf: "wf_long ?e" using wf_new_short(1) [OF b] by (simp add: castShortDirEntryToLong_def wf_decode)
  have fit: "a + n < length S0" using free by (simp add: free_at_def)
  from write_long_ok [OF ok S this, of 0 now "chkSum b" u] obtain F1 f1 E1 R1 where
    w1: "write_long_entries D now (of_nat a) (of_nat (Suc n)) (chkSum b) u F f 1 0 = Some (f1, F1)"
      "dir_wrote good view F E R f xs F1 E1 R1 f1" "dir_slots R1 (F_bpb F1) xs = take a S0 @ ?ls @ drop (a + n) S0"
    by (auto simp: new_long_def)
  have ok1: "dir_ok good view F1 E1 R1 f1 xs" using w1(2) by (simp add: dir_wrote_def dir_next_def)
  have "a + n < length (take a S0 @ ?ls @ drop (a + n) S0)" using fit by simp
  from writeDirEntry_wrote [OF ok1 w1(3) this wf] obtain F2 f2 E2 R2 where
    w2: "writeDirEntry D now F1 f1 (of_nat (a + n)) ?e = Some (True, f2, F2)" "dir_wrote good view F1 E1 R1 f1 xs F2 E2 R2 f2"
      "dir_slots R2 (F_bpb F2) xs = (take a S0 @ ?ls @ drop (a + n) S0)[a + n := ?e]" by blast
  have "(take a S0 @ ?ls @ drop (a + n) S0)[a + n := ?e] = take a S0 @ ?ls @ ?e # drop (a + Suc n) S0"
    using fit by (simp add: list_update_append min_def flip: Cons_nth_drop_Suc)
  then have "placed S a ?ls ?e (dir_slots R2 (F_bpb F2) xs)" using w2(3) free S0_def unfolding placed_def by auto
  moreover have "(of_nat a + of_nat (Suc n) - 1 :: u32) = of_nat (a + n)" by simp
  ultimately show ?thesis using w1(1) w2(1) dir_wrote_trans [OF w1(2) w2(2)] by metis
qed

lemma dir_ok_sized:
  assumes "dir_ok good view F E R f xs"
  shows "\<exists>f' d. file_sz D F f = Some (of_nat (32 * length (dir_slots R (F_bpb F) xs)), f', F\<lparr>F_device := d\<rparr>)
    \<and> dir_kept good view E R xs F f f' (F\<lparr>F_device := d\<rparr>)"
proof -
  have h: "fat_holds good view F E R" "file_holds F E R f xs" using assms by (simp_all add: dir_ok_def)
  obtain f' d where r: "file_sz D F f = Some (of_nat (byte_len F f xs), f', F\<lparr>F_device := d\<rparr>)" "same_file xs f f'"
      "fat_holds good view (F\<lparr>F_device := d\<rparr>) E R" using file_sz_ok [OF h] by blast
  have "dir_kept good view E R xs F f f' (F\<lparr>F_device := d\<rparr>)"
    using r(3) assms same_file_facts(2) [OF r(2)] same_file_facts(3) [OF r(2) h(2)] same_obj_read(1) [OF r(2)]
    by (simp add: dir_kept_def dir_ok_def)
  then show ?thesis using r(1) dir_slots_bound(3) [OF assms] by auto
qed

text \<open>The two cases of the search: enough free slots are found, or the directory must grow.\<close>

lemma crtFile_fits:
  assumes ok: "dir_ok good view F E R f xs" and u: "utf8ToUtf16 C nm = Some u" "required_entries u = of_nat (Suc n)" "n < 64" and b: "genBasisNameFromLong (utf8ToGbk C) nm = Some b"
    and sl: "space_loop D now (of_nat (Suc n)) F f 0 0 0 = Some (of_nat cur, of_nat a, of_nat (Suc n), f1, F1)"
    and kept: "dir_kept good view E R xs F f f1 F1" and run: "free_run (dir_slots R (F_bpb F) xs) cur (Suc n)" and a: "a = cur - Suc n"
  shows "\<exists>F' f' E' R'. crtFile_disk D C now F f nm is_dir
          = Some (Some (of_nat a, mkShortDirEntry (getCurDosTs2 now) b is_dir), f', F')
    \<and> dir_more good view F E R f xs [] F' E' R' f' \<and> placed (dir_slots R (F_bpb F) xs) a (new_long n (chkSum b) u)
        (castShortDirEntryToLong (mkShortDirEntry (getCurDosTs2 now) b is_dir)) (dir_slots R' (F_bpb F') (xs @ []))
    \<and> (vol_ok F E R \<longrightarrow> vol_ok F' E' R')"
proof -
  let ?S = "dir_slots R (F_bpb F) xs" and ?K = "Suc n"
  have ok1: "dir_ok good view F1 E R f1 xs" and S1: "dir_slots R (F_bpb F1) xs = ?S"
    using dir_kept_ok [OF kept] dir_kept_bpb [OF kept] by simp_all
  have "dir_slots R (F_bpb F1) xs = ?S @ replicate 0 zero_entry" "free_at (?S @ replicate 0 zero_entry) a ?K"
    using run S1 by (auto simp: free_run_def free_at_def a)
  from fill_ok [OF ok1 this b, of now u] obtain f2 F2 F' f' E' R' where
    w: "write_long_entries D now (of_nat a) (of_nat ?K) (chkSum b) u F1 f1 1 0 = Some (f2, F2)"
      "writeDirEntry D now F2 f2 (of_nat a + of_nat ?K - 1) (castShortDirEntryToLong (mkShortDirEntry (getCurDosTs2 now) b is_dir)) = Some (True, f', F')"
      "dir_wrote good view F1 E R f1 xs F' E' R' f'" "placed ?S a (new_long n (chkSum b) u)
        (castShortDirEntryToLong (mkShortDirEntry (getCurDosTs2 now) b is_dir)) (dir_slots R' (F_bpb F') xs)" by blast
  have "crtFile_disk D C now F f nm is_dir = Some (Some (of_nat a, mkShortDirEntry (getCurDosTs2 now) b is_dir), f', F')"
    using u(1,2) sl b w(1,2) by (simp add: crtFile_disk_def Let_def del: of_nat_Suc)
  moreover have "dir_more good view F E R f xs [] F' E' R' f'"
    by (rule dir_more_refl [OF dir_next_trans [OF dir_kept_next [OF kept] dir_wrote_next [OF w(3)]]])
  moreover have "vol_ok F E R \<longrightarrow> vol_ok F' E' R'" using vol_ok_wrote [OF ok1 w(3)] vol_ok_kept [OF kept] by simp
  ultimately show ?thesis using w(4) unfolding append_Nil2 by blast
qed

lemma crtFile_grows:
  assumes ok: "dir_ok good view F E R f xs" and vol: "vol_ok F E R"
    and u: "utf8ToUtf16 C nm = Some u" "required_entries u = of_nat (Suc n)" "n < 64" and b: "genBasisNameFromLong (utf8ToGbk C) nm = Some b"
    and room: "32 * (length (dir_slots R (F_bpb F) xs) + Suc n) + 512 * spc (F_bpb F) \<le> 2 ^ 32"
    and sl: "space_loop D now (of_nat (Suc n)) F f 0 0 0 = Some (of_nat cur, st, of_nat cnt, f1, F1)"
    and kept: "dir_kept good view E R xs F f f1 F1" and run: "free_run (dir_slots R (F_bpb F) xs) cur cnt"
    and cnt: "cnt < Suc n" "cur = length (dir_slots R (F_bpb F) xs)" and st: "cnt \<noteq> 0 \<longrightarrow> st = of_nat (cur - cnt)"
  shows "(\<exists>f' F'. crtFile_disk D C now F f nm is_dir = Some (None, f', F') \<and> dir_ok good view F' E R f' xs
        \<and> 16 * (frees (F_bpb F) E * spc (F_bpb F)) < Suc n)
    \<or> (\<exists>F' f' E' R' cs. crtFile_disk D C now F f nm is_dir
          = Some (Some (of_nat (cur - cnt), mkShortDirEntry (getCurDosTs2 now) b is_dir), f', F')
        \<and> dir_more good view F E R f xs cs F' E' R' f' \<and> placed (dir_slots R (F_bpb F) xs) (cur - cnt) (new_long n (chkSum b) u)
            (castShortDirEntryToLong (mkShortDirEntry (getCurDosTs2 now) b is_dir)) (dir_slots R' (F_bpb F') (xs @ cs))
        \<and> vol_ok F' E' R' \<and> 16 * (length cs * spc (F_bpb F)) < Suc n + 16 * spc (F_bpb F))"
proof -
  let ?S = "dir_slots R (F_bpb F) xs" and ?K = "Suc n"
  have "unat (of_nat cnt :: u32) = cnt" "unat (of_nat ?K :: u32) = ?K" using cnt(1) u(3) by (intro unat_of_nat_lt, simp)+
  then have lt: "(of_nat cnt :: u32) < of_nat ?K" and zero: "(of_nat cnt = (0 :: u32)) \<longleftrightarrow> cnt = 0"
    using cnt(1) by (auto simp: word_less_nat_alt simp del: of_nat_Suc)
  have "dir_ok good view F1 E R f1 xs" "dir_slots R (F_bpb F1) xs = ?S" using dir_kept_ok [OF kept] dir_kept_bpb [OF kept] by simp_all
  from dir_ok_sized [OF this(1), unfolded this(2)] obtain f2 d where
    sz: "file_sz D F1 f1 = Some (of_nat (32 * length ?S), f2, F1\<lparr>F_device := d\<rparr>)"
      "dir_kept good view E R xs F1 f1 f2 (F1\<lparr>F_device := d\<rparr>)" by blast
  let ?F2 = "F1\<lparr>F_device := d\<rparr>" and ?len = "of_nat (32 * length ?S) + (of_nat ?K - of_nat cnt) * KDirEntrySize :: u32"
  have k2: "dir_kept good view E R xs F f f2 ?F2" by (rule dir_kept_trans [OF kept sz(2)])
  have ok2: "dir_ok good view ?F2 E R f2 xs" "dir_slots R (F_bpb ?F2) xs = ?S" "vol_ok ?F2 E R" "F_bpb ?F2 = F_bpb F"
    using dir_kept_ok [OF k2] dir_kept_bpb [OF k2] vol_ok_kept [OF k2] vol by simp_all
  have "?len = of_nat (32 * (length ?S + (?K - cnt)))" using cnt(1) by (simp add: KDirEntrySize_def of_nat_diff algebra_simps)
  moreover have "32 * (length ?S + (?K - cnt)) < 2 ^ LENGTH(32)" using room file_holds_facts(4) [of good view F E R f xs] ok
    by (simp add: dir_ok_def)
  ultimately have len: "unat ?len = 32 * (length ?S + (?K - cnt))" by (simp only: unat_of_nat_lt)
  have "32 * length ?S < unat ?len" "unat ?len + 512 * spc (F_bpb ?F2) \<le> 2 ^ 32" using cnt(1) room unfolding len ok2(4) by simp_all
  from grow_dir_ok [OF ok2(1-3) this, unfolded len ok2(4)] show ?thesis
  proof (elim disjE exE conjE)
    fix F3
    assume t: "File_truncate D ?F2 f2 ?len = Some (False, f2, F3)" "dir_ok good view F3 E R f2 xs"
      and few: "512 * (frees (F_bpb F) E * spc (F_bpb F)) < 32 * (length ?S + (?K - cnt)) - 32 * length ?S"
    have "crtFile_disk D C now F f nm is_dir = Some (None, f2, F3)"
      using u(1,2) sl lt sz(1) t(1) by (simp add: crtFile_disk_def Let_def del: of_nat_Suc)
    moreover have "16 * (frees (F_bpb F) E * spc (F_bpb F)) < ?K" using few by simp
    ultimately show ?thesis using t(2) by blast
  next
    fix F3 f3 E3 R3 cs m
    assume t: "File_truncate D ?F2 f2 ?len = Some (True, f3, F3)" and more: "dir_more good view ?F2 E R f2 xs cs F3 E3 R3 f3"
      and S3: "dir_slots R3 (F_bpb F3) (xs @ cs) = ?S @ replicate m zero_entry" and m: "32 * (length ?S + (?K - cnt)) \<le> 32 * (length ?S + m)"
      and v3: "vol_ok F3 E3 R3" and few: "512 * (length cs * spc (F_bpb F)) < 32 * (length ?S + (?K - cnt)) - 32 * length ?S + 512 * spc (F_bpb F)"
    have ok3: "dir_ok good view F3 E3 R3 f3 (xs @ cs)" using more by (simp add: dir_more_def)
    have m': "?K - cnt \<le> m" and c: "cnt \<le> ?K" using m cnt(1) by simp_all
    from fill_ok [OF ok3 S3 run_at_end [OF run cnt(2) m' c] b, of now u] obtain f4 F4 F' f' E' R' where
      w: "write_long_entries D now (of_nat (cur - cnt)) (of_nat ?K) (chkSum b) u F3 f3 1 0 = Some (f4, F4)"
        "writeDirEntry D now F4 f4 (of_nat (cur - cnt) + of_nat ?K - 1) (castShortDirEntryToLong (mkShortDirEntry (getCurDosTs2 now) b is_dir)) = Some (True, f', F')"
        "dir_wrote good view F3 E3 R3 f3 (xs @ cs) F' E' R' f'" "placed ?S (cur - cnt) (new_long n (chkSum b) u)
          (castShortDirEntryToLong (mkShortDirEntry (getCurDosTs2 now) b is_dir)) (dir_slots R' (F_bpb F') (xs @ cs))" by blast
    have "(if of_nat cnt = (0 :: u32) then of_nat cur else st) = of_nat (cur - cnt)" using st zero by simp
    then have "crtFile_disk D C now F f nm is_dir = Some (Some (of_nat (cur - cnt), mkShortDirEntry (getCurDosTs2 now) b is_dir), f', F')"
      using u(1,2) sl lt sz(1) t(1) b w(1,2) by (simp add: crtFile_disk_def Let_def del: of_nat_Suc)
    moreover have "dir_more good view F E R f xs cs F' E' R' f'"
      using dir_more_next [OF more dir_wrote_next [OF w(3)]] k2 ok2(4) by (simp add: dir_more_def dir_kept_def same_objD)
    moreover have "vol_ok F' E' R'" by (rule vol_ok_wrote [OF ok3 w(3) v3])
    moreover have "16 * (length cs * spc (F_bpb F)) < ?K + 16 * spc (F_bpb F)" using few by simp
    ultimately show ?thesis using w(4) by blast
  qed
qed

lemma crtFile_disk_ok:
  assumes ok: "dir_ok good view F E R f xs" and vol: "vol_ok F E R"
    and u: "utf8ToUtf16 C nm = Some u" "u \<noteq> []" "length u \<le> 510" and b: "genBasisNameFromLong (utf8ToGbk C) nm = Some b"
    and room: "32 * (length (dir_slots R (F_bpb F) xs) + Suc n) + 512 * spc (F_bpb F) \<le> 2 ^ 32"
    and n: "n = (length u - 1) div 26 + 1"
  shows "(\<exists>f' F'. crtFile_disk D C now F f nm is_dir = Some (None, f', F') \<and> dir_ok good view F' E R f' xs
        \<and> 16 * (frees (F_bpb F) E * spc (F_bpb F)) < Suc n)
    \<or> (\<exists>a F' f' E' R' cs. crtFile_disk D C now F f nm is_dir
          = Some (Some (of_nat a, mkShortDirEntry (getCurDosTs2 now) b is_dir), f', F')
        \<and> dir_more good view F E R f xs cs F' E' R' f' \<and> placed (dir_slots R (F_bpb F) xs) a (new_long n (chkSum b) u)
            (castShortDirEntryToLong (mkShortDirEntry (getCurDosTs2 now) b is_dir)) (dir_slots R' (F_bpb F') (xs @ cs))
        \<and> vol_ok F' E' R' \<and> 16 * (length cs * spc (F_bpb F)) < Suc n + 16 * spc (F_bpb F)
        \<and> (free_tail (dir_slots R (F_bpb F) xs) (Suc n) \<longrightarrow> cs = []))"
proof -
  let ?S = "dir_slots R (F_bpb F) xs" and ?K = "Suc n"
  have nb: "n < 64" using u(3) by (simp add: n)
  have req: "required_entries u = of_nat ?K" using required_entries_nat [OF u(2)] u(3) by (simp add: n)
  have K32: "?K < 2 ^ 32" and z0: "(0 :: nat) \<noteq> 0 \<longrightarrow> (0 :: u32) = of_nat (0 - 0)" using nb by simp_all
  obtain cur st cnt f1 F1 where sl: "space_loop D now (of_nat ?K) F f 0 0 0 = Some (of_nat cur, st, of_nat cnt, f1, F1)"
      "dir_kept good view E R xs F f f1 F1" "free_run ?S cur cnt" "cnt \<le> ?K" "cnt = ?K \<or> cur = length ?S"
      "cnt \<noteq> 0 \<longrightarrow> st = of_nat (cur - cnt)"
    using space_loop_ok [OF ok refl free_run_start le0 K32 z0, of now, unfolded semiring_1_class.of_nat_0] by blast
  show ?thesis
  proof (cases "cnt < ?K")
    case False
    then have K: "cnt = ?K" and st: "st = of_nat (cur - ?K)" using sl(4,6) by simp_all
    show ?thesis
      using crtFile_fits [OF ok u(1) req nb b sl(1) [unfolded K st] sl(2) sl(3) [unfolded K] refl] vol
      by (intro disjI2) fastforce
  next
    case True
    then have "\<not> free_tail ?S ?K" using sl(3,5) free_run_tail [of ?S cnt ?K] by auto
    then show ?thesis
      using crtFile_grows [OF ok vol u(1) req nb b room sl(1-3) True _ sl(6)] sl(5) True by blast
  qed
qed

end

end
