(* ===== verification/NewFile.thy ===== *)
theory NewFile
  imports DirMake
begin

text \<open>
  Names of new files: the basis name made from a name without blanks, and the file in the listing of
  its directory.
\<close>

section \<open>The basis name of a plain name\<close>

lemma long_primary_loop:
  assumes "j \<le> 8" and "j \<le> length g" and "\<forall>k<j. g ! k \<noteq> 0x2E" and "j = 8 \<or> j = length g \<or> g ! j = 0x2E"
  shows "i \<le> j \<Longrightarrow> j \<le> length prim \<Longrightarrow>
    long_primary g i prim = take i prim @ map basis_chr (drop i (take j g)) @ drop j prim"
proof (induction "j - i" arbitrary: i prim)
  case 0
  then show ?case using assms by (subst long_primary.simps) auto
next
  case (Suc n)
  then have ij: "i < j" by simp
  have "long_primary g i prim = long_primary g (Suc i) (prim[i := basis_chr (g ! i)])"
    using ij assms by (subst long_primary.simps) auto
  also have "\<dots> = take (Suc i) (prim[i := basis_chr (g ! i)]) @ map basis_chr (drop (Suc i) (take j g)) @ drop j (prim[i := basis_chr (g ! i)])"
    using Suc.hyps(2) ij Suc.prems by (intro Suc.hyps(1)) auto
  also have "take (Suc i) (prim[i := basis_chr (g ! i)]) = take i prim @ [basis_chr (g ! i)]"
    using ij Suc.prems by (simp add: take_Suc_conv_app_nth)
  finally show ?case using ij assms(2) Cons_nth_drop_Suc [of i "take j g"] by (simp flip: list.map(2))
qed

lemma long_extension_loop:
  "k \<le> 3 \<Longrightarrow> 3 \<le> length ext \<Longrightarrow> long_extension g i k ext =
     take k ext @ map basis_chr (take (3 - k) (drop i g)) @ drop (k + length (take (3 - k) (drop i g))) ext"
proof (induction "3 - k" arbitrary: i k ext)
  case 0
  then show ?case by (subst long_extension.simps) auto
next
  case (Suc n)
  show ?case
  proof (cases "i < length g")
    case True
    have k: "k < 3" "3 - k = Suc (3 - Suc k)" using Suc.hyps(2) by simp_all
    have "long_extension g i k ext = long_extension g (Suc i) (Suc k) (ext[k := basis_chr (g ! i)])"
      using True k by (subst long_extension.simps) auto
    also have "\<dots> = take (Suc k) (ext[k := basis_chr (g ! i)]) @ map basis_chr (take (3 - Suc k) (drop (Suc i) g))
        @ drop (Suc k + length (take (3 - Suc k) (drop (Suc i) g))) (ext[k := basis_chr (g ! i)])"
      using Suc.hyps(2) Suc.prems by (intro Suc.hyps(1)) auto
    also have "take (Suc k) (ext[k := basis_chr (g ! i)]) = take k ext @ [basis_chr (g ! i)]"
      using k Suc.prems by (simp add: take_Suc_conv_app_nth)
    finally show ?thesis using True by (simp add: k(2) del: diff_Suc_Suc flip: Cons_nth_drop_Suc)
  qed (use Suc.prems in \<open>simp add: long_extension.simps\<close>)
qed

lemma basis_chr_facts: "basis_chr c \<noteq> 0x2E" "basis_chr c \<noteq> 0" "basis_chr c = 0x20 \<longleftrightarrow> c = 0x20"
  "basis_chr c = 5 \<longleftrightarrow> c = 5" "basis_chr c = 0xE5 \<longleftrightarrow> c = 0xE5"
  by (auto simp: basis_chr_def isInvalidShortEntryChr_def KInvalidShortEntryBytes_def)

text \<open>The parts of the basis name: what is in front of the first dot, and what is behind the last.\<close>

definition basis_primary :: "bytes \<Rightarrow> bytes" where
  "basis_primary g = map basis_chr (take 8 (takeWhile (\<lambda>c. c \<noteq> 0x2E) g))"

definition basis_extension :: "bytes \<Rightarrow> bytes" where
  "basis_extension g = map basis_chr (take 3 (drop (last_dot g (length g) + 1) g))"

definition padded_basis :: "bytes \<Rightarrow> bytes \<Rightarrow> BasisName" where
  "padded_basis p x = \<lparr>primary = p @ replicate (8 - length p) 0x20 @ [0], extension = x @ replicate (3 - length x) 0x20 @ [0]\<rparr>"

lemma genBasisNameFromLong_parts:
  assumes "to_gbk (strip (strip (toUpper nm) 0x20) 0x2E) = Some g"
  shows "genBasisNameFromLong to_gbk nm = Some (padded_basis (basis_primary g) (basis_extension g))"
proof -
  let ?w = "takeWhile (\<lambda>c. c \<noteq> 0x2E) g"
  define j where "j = min 8 (length ?w)"
  have le: "length ?w \<le> length g" by (rule length_takeWhile_le)
  have tk: "take j g = take 8 ?w"
    by (metis j_def min.commute take_all_iff take_take takeWhile_eq_take order_refl)
  have "\<forall>k<j. g ! k \<noteq> 0x2E" by (metis (mono_tags, lifting) j_def min_less_iff_conj nth_mem set_takeWhileD takeWhile_nth)
  moreover have "j = 8 \<or> j = length g \<or> g ! j = 0x2E"
    using le nth_length_takeWhile [of "\<lambda>c. c \<noteq> 0x2E" g] unfolding j_def by (cases "length ?w = length g") (auto simp: min_def)
  ultimately have "long_primary g 0 (replicate 8 0x20 @ [0]) = basis_primary g @ drop j (replicate 8 0x20 @ [0])"
    using long_primary_loop [of j g 0 "replicate 8 0x20 @ [0]"] le unfolding tk basis_primary_def by (simp add: j_def)
  moreover have "length (basis_primary g) = j" by (simp add: basis_primary_def j_def)
  moreover have "long_extension g (last_dot g (length g) + 1) 0 (replicate 3 0x20 @ [0])
      = basis_extension g @ drop (length (basis_extension g)) (replicate 3 0x20 @ [0])"
    by (subst long_extension_loop) (simp_all add: basis_extension_def)
  moreover have "length (basis_extension g) \<le> 3" by (simp add: basis_extension_def)
  ultimately show ?thesis
    using assms by (simp add: genBasisNameFromLong_def Let_def empty_basis padded_basis_def j_def drop_replicate)
qed

text \<open>A name that keeps its check sum: no blanks, and a first byte without a meaning of its own.\<close>

definition plain_name :: "bytes \<Rightarrow> bool" where
  "plain_name g \<longleftrightarrow> g \<noteq> [] \<and> 0x20 \<notin> set g \<and> hd g \<notin> {0x05, 0x2E, 0xE5}"

lemma plain_parts: "plain_name g \<Longrightarrow> short_parts_ok (basis_primary g) (basis_extension g)"
proof -
  assume g: "plain_name g"
  have x: "set (basis_extension g) \<subseteq> basis_chr ` set g" by (auto simp: basis_extension_def dest!: in_set_takeD in_set_dropD)
  have p: "set (basis_primary g) \<subseteq> basis_chr ` set g" by (auto simp: basis_primary_def dest!: in_set_takeD set_takeWhileD)
  have "basis_primary g \<noteq> [] \<and> hd (basis_primary g) = basis_chr (hd g)" using g by (cases g) (auto simp: plain_name_def basis_primary_def)
  moreover have "length (basis_primary g) \<le> 8" "length (basis_extension g) \<le> 3" by (simp_all add: basis_primary_def basis_extension_def)
  moreover have "0x20 \<notin> basis_chr ` set g" "0x2E \<notin> basis_chr ` set g" using g basis_chr_facts by (auto simp: plain_name_def)
  ultimately show ?thesis using g p x basis_chr_facts by (auto simp: short_parts_ok_def plain_name_def)
qed

lemma padded_file_sum:
  assumes "short_parts_ok p x"
  shows "file_sum (castShortDirEntryToLong (mkShortDirEntry t (padded_basis p x) is_dir)) = Some (chkSum (padded_basis p x))"
proof -
  let ?s = "mkShortDirEntry t (padded_basis p x) is_dir"
  have n: "se_name ?s = padded_name p x"
    using assms by (simp add: mkShortDirEntry_def setFstClusNo_def padded_name_def padded_basis_def short_parts_ok_def)
  then have "wf_short ?s" using assms by (simp add: wf_short_def padded_name_def short_parts_ok_def)
  then have "castLongDirEntryToShort (castShortDirEntryToLong ?s) = ?s" by (rule cast_round_trip(1))
  then show ?thesis
    using readShortEntryName_padded [OF assms n] genBasisNameFromShort_cut [of p x] assms
    by (simp add: file_sum_def short_parts_ok_def padded_basis_def)
qed

section \<open>The search in the listing\<close>

text \<open>What the search by name compares, on a file of the listing.\<close>

definition goes_by :: "bytes \<Rightarrow> bytes \<Rightarrow> u32 \<times> ShortDirEntry \<times> LongDirEntry list \<times> u64 \<Rightarrow> bool" where
  "goes_by u g = (\<lambda>(_, s, ls, _). if ls = [] then readShortEntryName s = Some g else concat (map readLongEntryName ls) = u)"

definition file_range :: "u32 \<times> ShortDirEntry \<times> LongDirEntry list \<times> u64 \<Rightarrow> DirEntryRange" where
  "file_range = (\<lambda>(n, _, ls, _). \<lparr>range_start = n, range_count = of_nat (Suc (length ls))\<rparr>)"

lemma find_item_list: "find_item u g n items = map_option file_range (find (goes_by u g) (list_items n items))"
  by (induction u g n items rule: find_item.induct) (auto simp: goes_by_def file_range_def has_name_def long_name_def)

lemma find_added:
  "P x \<Longrightarrow> find P (l1 @ l2) = None \<Longrightarrow> find P (l1 @ x # l2) = Some x"
  "\<not> P x \<Longrightarrow> find P (l1 @ x # l2) = find P (l1 @ l2)"
  by (induction l1) auto

lemma find_item_added:
  assumes "file_added items items' x"
  shows "goes_by u g x \<Longrightarrow> find_item u g 0 items = None \<Longrightarrow> find_item u g 0 items' = Some (file_range x)"
    and "\<not> goes_by u g x \<Longrightarrow> find_item u g 0 items' = find_item u g 0 items"
  using assms find_added [of "goes_by u g" x] unfolding file_added_def find_item_list by (elim exE conjE; simp)+

lemma goes_by_new:
  assumes "units_ok u" and "u \<noteq> []" and "length u \<le> 510" and "n = (length u - 1) div 26 + 1"
  shows "goes_by v g (listed_file a n u b e) \<longleftrightarrow> v = u"
proof -
  have "long_name (new_long n (chkSum b) u) = u" using assms by (intro long_name_new) simp_all
  moreover have "new_long n (chkSum b) u \<noteq> []" using assms(4) by (metis Suc_eq_plus1 length_0_conv length_new_long nat.distinct(1))
  ultimately show ?thesis by (auto simp: goes_by_def listed_file_def long_name_def)
qed

text \<open>The places of the files differ.\<close>

lemma list_items_places:
  "length (items_slots items) + n < 2 ^ 32 \<Longrightarrow> distinct (map fst (list_items n items))"
proof (induction n items rule: list_items.induct)
  case (3 n ls e items)
  have "of_nat n \<noteq> fst y" if y: "y \<in> set (list_items (n + Suc (length ls)) items)" for y
  proof -
    obtain i where i: "fst y = of_nat i" "n < i" "i < n + Suc (length ls) + length (items_slots items)"
      using list_items_start [OF y] by auto
    then have "unat (of_nat i :: u32) = i" "unat (of_nat n :: u32) = n" using 3(2) by (intro unat_of_nat_lt, simp)+
    then show ?thesis using i(1,2) by auto
  qed
  then show ?case using 3 by auto
qed simp_all

lemma added_then_removed:
  assumes "file_added items items' x" and "length (items_slots items') < 2 ^ 32"
  shows "filter (\<lambda>y. fst y \<noteq> fst x) (list_items 0 items') = list_items 0 items"
proof -
  obtain l1 l2 where l: "list_items 0 items = l1 @ l2" "list_items 0 items' = l1 @ x # l2" using assms(1) by (auto simp: file_added_def)
  have "distinct (map fst (l1 @ x # l2))" using list_items_places [of items' 0] assms(2) unfolding l(2) by simp
  then have "filter (\<lambda>y. fst y \<noteq> fst x) (l1 @ x # l2) = l1 @ l2" by (auto simp: image_iff) (metis (mono_tags, lifting) filter_True)
  then show ?thesis using l by simp
qed

end
