(* ===== verification/BadName.thy ===== *)
theory BadName
  imports NewFile
begin

text \<open>
  A file whose long entries do not agree with its short entry, and the names that make one: a blank in
  the 8.3 name ends its part when it is read back, so the check sum of what is read can be another.
\<close>

section \<open>The search aborts\<close>

lemma scan_split:
  assumes "fresh s" and "\<forall>it \<in> set items. item_ok it" and "length (items_slots items) < 2 ^ 27" and "find_item u g n items = None"
  shows "\<exists>s'. fresh s' \<and> scan_slots u g n s (items_slots items @ es) = scan_slots u g (n + length (items_slots items)) s' es"
  using assms
proof (induction items arbitrary: n s)
  case (Cons it items)
  have more: ?case if "fresh s1" "find_item u g (n + length (item_slots it)) items = None"
    "scan_slots u g n s (items_slots (it # items) @ es) = scan_slots u g (n + length (item_slots it)) s1 (items_slots items @ es)" for s1
    using Cons.IH [OF that(1) _ _ that(2)] Cons.prems(2,3) that(3) by (simp add: add.assoc)
  show ?case
  proof (cases it)
    case (Deleted e)
    then show ?thesis using Cons.prems by (intro more [of "lookup_reset s"]) (simp_all add: lookup_step_def)
  next
    case (Present ls e)
    have "find_item u g (n + Suc (length ls)) items = None" "\<not> has_name u g ls e" "length ls < 2 ^ 27"
      using Cons.prems(3,4) Present by (simp_all split: if_splits)
    moreover obtain s' where "fresh s'" "scan_slots u g n s (ls @ e # items_slots items @ es) = (if has_name u g ls e
        then Some (Some \<lparr>range_start = of_nat n, range_count = of_nat (Suc (length ls))\<rparr>)
        else scan_slots u g (n + Suc (length ls)) s' (items_slots items @ es))"
      using scan_present [of s ls e u g n "items_slots items @ es"] Cons.prems(1,2) Present calculation(3) by auto
    ultimately show ?thesis using Present by (intro more [of s']) simp_all
  qed
qed auto

lemma scan_bad:
  assumes "fresh s" and "ls \<noteq> []" and "length ls < 2 ^ 27" and "\<forall>l \<in> set ls. \<not> isEmptyDirEntry l \<and> isValidLongDirEntry l c"
    and "\<not> isEmptyDirEntry e" and "\<not> isLongDirEntry e" and "file_sum e \<noteq> Some c"
  shows "scan_slots u g n s (ls @ e # es) = None"
proof -
  have "unat (of_nat (Suc (length ls)) :: u32) = Suc (length ls)" "unat (of_nat (length ls) :: u32) = length ls"
    using assms(3) by (intro unat_of_nat_lt, simp)+
  then have k: "(of_nat (length ls) :: u32) \<noteq> 0" "1 < (of_nat (length ls) + 1 :: u32)"
    using assms(2) by (auto simp: word_less_nat_alt unat_eq_zero add.commute)
  have "scan_slots u g n s (ls @ e # es) = scan_slots u g (n + length ls) (after_long n c ls s) (e # es)"
    using assms(3) by (intro scan_long [OF assms(2,1) _ assms(4)]) simp
  also have "\<dots> = None"
    using assms(5-7) k by (auto simp: lookup_step_def after_long_def file_sum_def add.commute dest: end_is_empty split: bind_splits)
  finally show ?thesis .
qed

context block_device
begin

lemma lookup_loop_none:
  assumes "dir_ok good view F E R f xs" and "dir_slots R (F_bpb F) xs = S" and "n \<le> length S"
    and "scan_slots u g n s (drop n S) = None"
  shows "lookup_loop D now u g F f (of_nat n) s = None"
  using assms
proof (induction "length S - n" arbitrary: n F f s)
  case (Suc m)
  then have n: "n < length S" "m = length S - Suc n" by simp_all
  obtain f1 F1 where r: "readDirEntry D now F f (of_nat n) = Some (Some (S ! n), f1, F1)"
      "dir_kept good view E R xs F f f1 F1" "dir_slots R (F_bpb F1) xs = S"
    using read_slot [OF Suc.prems(1-3), of now] n(1) by auto
  have d: "drop n S = S ! n # drop (Suc n) S" using n(1) by (simp add: Cons_nth_drop_Suc)
  have l: "lookup_loop D now u g F1 f1 (of_nat (Suc n)) s' = None" if "scan_slots u g (Suc n) s' (drop (Suc n) S) = None" for s'
    using Suc.hyps(1) [OF n(2) dir_kept_ok [OF r(2)] r(3) _ that] n(1) by simp
  show ?case
    using Suc.prems(4) r(1) l by (subst lookup_loop.simps) (auto simp: d add.commute split: bind_splits sum.splits)
qed simp

text \<open>Every search that comes to such a file ends in the assertion.\<close>

lemma lookup_aborts:
  assumes "dir_ok good view F E R f xs" and "dir_slots R (F_bpb F) xs = items_slots items @ ls @ e # rest"
    and "\<forall>it \<in> set items. item_ok it" and "utf8ToUtf16 C nm = Some u" and "utf8ToGbk C (toUpper nm) = Some g"
    and "find_item u g 0 items = None" and "ls \<noteq> []" and "\<forall>l \<in> set ls. \<not> isEmptyDirEntry l \<and> isValidLongDirEntry l c"
    and "\<not> isEmptyDirEntry e" and "\<not> isLongDirEntry e" and "file_sum e \<noteq> Some c"
  shows "lookupFileInner D C now F f nm = None"
proof -
  have len: "length (items_slots items @ ls @ e # rest) < 2 ^ 27" using dir_slots_bound(2) [OF assms(1)] unfolding assms(2) .
  then have "length (items_slots items) < 2 ^ 27" "length ls < 2 ^ 27" by simp_all
  from scan_split [OF fresh_reset(2) assms(3) this(1) assms(6)] scan_bad [OF _ assms(7) this(2) assms(8-11)]
  have "scan_slots u g 0 lookup_init (drop 0 (items_slots items @ ls @ e # rest)) = None" by (metis drop0)
  from lookup_loop_none [OF assms(1,2) _ this, of now] show ?thesis by (simp add: lookupFileInner_def assms(4,5))
qed

end

section \<open>Names with a blank\<close>

text \<open>What is read back of the two parts of the name: each up to its first blank.\<close>

definition cut_basis :: "bytes \<Rightarrow> BasisName" where
  "cut_basis w = padded_basis (takeWhile (\<lambda>c. c \<noteq> 0x20) (basis_primary w)) (takeWhile (\<lambda>c. c \<noteq> 0x20) (basis_extension w))"

lemma read_primary_cut:
  "i = 0 \<longrightarrow> p = [] \<or> hd p \<noteq> 0x05 \<Longrightarrow> read_primary i (p @ replicate k 0x20) = takeWhile (\<lambda>c. c \<noteq> 0x20) p"
proof (induction p arbitrary: i)
  case Nil
  then show ?case by (cases k) auto
qed auto

lemma read_extension_cut:
  "8 \<le> i \<Longrightarrow> read_extension i (x @ replicate k 0x20)
    = (if i = 8 \<and> takeWhile (\<lambda>c. c \<noteq> 0x20) x \<noteq> [] then [0x2E] else []) @ takeWhile (\<lambda>c. c \<noteq> 0x20) x"
proof (induction x arbitrary: i)
  case Nil
  then show ?case by (cases k) auto
qed auto

lemma cut_file_sum:
  assumes "w \<noteq> []" and "hd w \<notin> {0x05, 0x20, 0x2E, 0xE5}"
  shows "file_sum (castShortDirEntryToLong (mkShortDirEntry t (padded_basis (basis_primary w) (basis_extension w)) is_dir)) = Some (chkSum (cut_basis w))"
proof -
  let ?p = "basis_primary w" and ?x = "basis_extension w" and ?cut = "takeWhile (\<lambda>c. c \<noteq> (0x20 :: u8))"
  let ?s = "mkShortDirEntry t (padded_basis ?p ?x) is_dir"
  have len: "length ?p \<le> 8" "length ?x \<le> 3" by (simp_all add: basis_primary_def basis_extension_def)
  have p: "?p \<noteq> []" "hd ?p \<notin> {0x00, 0x05, 0xE5}" using assms basis_chr_facts by (cases w; auto simp: basis_primary_def)+
  have dot: "0x2E \<notin> set (?cut ?p)" using basis_chr_facts(1) by (fastforce simp: basis_primary_def dest: set_takeWhileD)
  have n: "se_name ?s = padded_name ?p ?x" using len by (simp add: mkShortDirEntry_def setFstClusNo_def padded_name_def padded_basis_def)
  then have wf: "wf_short ?s" using len by (simp add: wf_short_def padded_name_def)
  have "take 8 (se_name ?s) = ?p @ replicate (8 - length ?p) 0x20" "take 3 (drop 8 (se_name ?s)) = ?x @ replicate (3 - length ?x) 0x20"
    using len by (simp_all add: n padded_name_def)
  moreover have "parseEntryType ?s = KExist" using p n by (cases ?p) (auto simp: parseEntryType_def padded_name_def)
  ultimately have "readShortEntryName ?s = Some (?cut ?p @ (if ?cut ?x = [] then [] else 0x2E # ?cut ?x))"
    using read_primary_cut [of 0 ?p] read_extension_cut [of 8 ?x] p by (simp add: readShortEntryName_def)
  moreover have "length (?cut ?p) \<le> 8" "length (?cut ?x) \<le> 3" using len by (metis length_takeWhile_le order_trans)+
  ultimately show ?thesis
    using genBasisNameFromShort_cut [OF _ _ dot, of "?cut ?x"] unfolding file_sum_def cast_round_trip(1) [OF wf] by (simp add: cut_basis_def padded_basis_def)
qed

end
