(* ===== verification/FileSystem.thy ===== *)
theory FileSystem
  imports FsDirectory
begin

text \<open>
  The class \<open>FAT32fs\<close> of \<^verbatim>\<open>library/fs.h\<close> and \<^verbatim>\<open>library/fs.cpp\<close> with its cache of file
  objects, and the operations of \<open>File\<close> and \<open>Directory\<close> that use the cache.

  File objects live behind \<open>shared_ptr\<close>s: \<open>fs_objs\<close> holds the objects by address, \<open>fs_refs\<close> counts
  the pointers to each. The object dies with its last pointer, and its destructor writes it back.
  A function that returns a \<open>shared_ptr\<close> returns the address and one pointer the caller owns.
\<close>

section \<open>State\<close>

record 'd FAT32fs =
  fs_fat :: "'d FAT"
  fs_objs :: "nat \<Rightarrow> fobj option"
  fs_refs :: "nat \<Rightarrow> nat"
  fs_next :: nat
  cached_lookup_files :: "(u64, nat) lru"

definition FAT32fs_new :: "'d FAT \<Rightarrow> 'd FAT32fs" where
  "FAT32fs_new fat = \<lparr>fs_fat = fat, fs_objs = (\<lambda>_. None), fs_refs = (\<lambda>_. 0), fs_next = 0,
     cached_lookup_files = lru_new 20\<rparr>"

subsection \<open>Shared pointers\<close>

definition make_shared :: "fobj \<Rightarrow> 'd FAT32fs \<Rightarrow> nat \<times> 'd FAT32fs" where
  "make_shared f st = (fs_next st, st\<lparr>fs_objs := (fs_objs st)(fs_next st := Some f),
     fs_refs := (fs_refs st)(fs_next st := 1), fs_next := Suc (fs_next st)\<rparr>)"

definition share :: "nat \<Rightarrow> 'd FAT32fs \<Rightarrow> 'd FAT32fs" where
  "share a st = st\<lparr>fs_refs := (fs_refs st)(a := Suc (fs_refs st a))\<rparr>"

definition unshare :: "'d device_ops \<Rightarrow> nat \<Rightarrow> 'd FAT32fs \<Rightarrow> 'd FAT32fs option" where
  "unshare D a st =
     (if fs_refs st a = 1
      then do { f \<leftarrow> fs_objs st a;
                F \<leftarrow> File_destroy D (fs_fat st) f;
                Some (st\<lparr>fs_fat := F, fs_objs := (fs_objs st)(a := None), fs_refs := (fs_refs st)(a := 0)\<rparr>) }
      else Some (st\<lparr>fs_refs := (fs_refs st)(a := fs_refs st a - 1)\<rparr>))"

fun unshare_all :: "'d device_ops \<Rightarrow> nat list \<Rightarrow> 'd FAT32fs \<Rightarrow> 'd FAT32fs option" where
  "unshare_all D [] st = Some st"
| "unshare_all D (a # as) st = do { st' \<leftarrow> unshare D a st; unshare_all D as st' }"

text \<open>A method of the object at an address.\<close>

definition on_file :: "nat \<Rightarrow> ('d FAT \<Rightarrow> fobj \<Rightarrow> ('r \<times> fobj \<times> 'd FAT) option) \<Rightarrow> 'd FAT32fs \<Rightarrow>
    ('r \<times> 'd FAT32fs) option" where
  "on_file a m st =
     do { f \<leftarrow> fs_objs st a;
          (r, f', F') \<leftarrow> m (fs_fat st) f;
          Some (r, st\<lparr>fs_fat := F', fs_objs := (fs_objs st)(a := Some f')\<rparr>) }"

section \<open>The file system object\<close>

text \<open>\<open>from\<close>: \<open>Inl\<close> is \<open>exit(1)\<close> on an invalid boot sector.\<close>

definition invalidate_info :: "bytes \<Rightarrow> bytes option" where
  "invalidate_info p =
     do { ensure (512 \<le> length p); Some (put32 (put32 p 488 0xFFFFFFFF) 492 0xFFFFFFFF) }"

definition FAT32fs_from :: "'d device_ops \<Rightarrow> 'd \<Rightarrow> (unit + 'd FAT32fs) option" where
  "FAT32fs_from D d =
     do { (p, d1) \<leftarrow> dev_load D d 0 0;
          bpb \<leftarrow> decode_BPB p;
          valid \<leftarrow> isValidFat32BPB bpb;
          if \<not> valid then Some (Inl ())
          else do { (q, d2) \<leftarrow> dev_load D d1 (ucast (BPB_fs_info bpb)) 0;
                    fs_info \<leftarrow> decode_FSInfo q;
                    _ \<leftarrow> assertFSInfo fs_info;
                    d3 \<leftarrow> dev_modify D d2 (ucast (BPB_fs_info bpb)) 0 invalidate_info;
                    fat \<leftarrow> FAT_new bpb (free_count fs_info) d3;
                    Some (Inr (FAT32fs_new fat)) } }"

text \<open>\<open>name\<close> up to the terminating zero byte.\<close>

definition isValidName :: "bytes \<Rightarrow> bool" where
  "isValidName nm \<longleftrightarrow> \<not> list_ex isInvalidLongEntryChr nm"

definition mkRootDir :: "u32 \<Rightarrow> fobj" where
  "mkRootDir fst_clus =
     File_new True 0 0 [0x2F] (setFstClusNo (decode_short (replicate 32 0)) fst_clus)"

definition getRootDir :: "'d FAT32fs \<Rightarrow> nat \<times> 'd FAT32fs" where
  "getRootDir st = make_shared (mkRootDir (BPB_root_clus (F_bpb (fs_fat st)))) st"

text \<open>A pointer moves into the cache; what the cache drops loses one.\<close>

definition cache_put :: "'d device_ops \<Rightarrow> u64 \<Rightarrow> nat \<Rightarrow> 'd FAT32fs \<Rightarrow> 'd FAT32fs option" where
  "cache_put D n a st =
     (let (c, dead) = lru_put (cached_lookup_files st) n a
      in unshare_all D dead (share a st\<lparr>cached_lookup_files := c\<rparr>))"

definition addFileToCache :: "'d device_ops \<Rightarrow> nat \<Rightarrow> 'd FAT32fs \<Rightarrow> 'd FAT32fs option" where
  "addFileToCache D a st = do { f \<leftarrow> fs_objs st a; cache_put D (ino f) a st }"

definition rmFileFromCacheByIno :: "'d device_ops \<Rightarrow> u64 \<Rightarrow> 'd FAT32fs \<Rightarrow> 'd FAT32fs option" where
  "rmFileFromCacheByIno D n st =
     (let (r, c) = lru_remove (cached_lookup_files st) n; st' = st\<lparr>cached_lookup_files := c\<rparr>
      in case r of None \<Rightarrow> Some st' | Some a \<Rightarrow> unshare D a st')"

definition getFileByIno ::
  "'d device_ops \<Rightarrow> conversions \<Rightarrow> u64 \<Rightarrow> 'd FAT32fs \<Rightarrow> (nat option \<times> 'd FAT32fs) option" where
  "getFileByIno D C n st =
     (let (cache_result, c) = lru_get (cached_lookup_files st) n; st = st\<lparr>cached_lookup_files := c\<rparr>
      in case cache_result of
           Some a \<Rightarrow> Some (Some a, share a st)
         | None \<Rightarrow>
             if n = KRootDirIno then (let (a, st') = getRootDir st in Some (Some a, st'))
             else do { (result, F') \<leftarrow> fromIno D C (fs_fat st) n;
                       let st1 = st\<lparr>fs_fat := F'\<rparr>;
                       case result of
                         None \<Rightarrow> Some (None, st1)
                       | Some f \<Rightarrow>
                           (let (a, st2) = make_shared f st1
                            in do { st3 \<leftarrow> cache_put D n a st2; Some (Some a, st3) }) })"

definition getDirByIno ::
  "'d device_ops \<Rightarrow> conversions \<Rightarrow> u64 \<Rightarrow> 'd FAT32fs \<Rightarrow> (nat option \<times> 'd FAT32fs) option" where
  "getDirByIno D C n st =
     do { (result, st1) \<leftarrow> getFileByIno D C n st;
          case result of
            None \<Rightarrow> Some (None, st1)
          | Some a \<Rightarrow>
              do { f \<leftarrow> fs_objs st1 a;
                   if isDir f then Some (Some a, st1)
                   else do { st2 \<leftarrow> unshare D a st1; Some (None, st2) } } }"

text \<open>The iteration looks at the cached files in the order of the list.\<close>

fun find_name :: "(nat \<Rightarrow> fobj option) \<Rightarrow> bytes \<Rightarrow> (u64 \<times> nat) list \<Rightarrow> nat option option" where
  "find_name objs nm [] = Some None"
| "find_name objs nm ((_, a) # xs) =
     do { f \<leftarrow> objs a; if f_name f = nm then Some (Some a) else find_name objs nm xs }"

definition getFileByName :: "bytes \<Rightarrow> 'd FAT32fs \<Rightarrow> (nat option \<times> 'd FAT32fs) option" where
  "getFileByName nm st =
     do { r \<leftarrow> find_name (fs_objs st) nm (lru_items (cached_lookup_files st));
          case r of None \<Rightarrow> Some (None, st) | Some a \<Rightarrow> Some (Some a, share a st) }"

definition closeFile :: "u64 \<Rightarrow> 'd FAT32fs \<Rightarrow> 'd FAT32fs" where
  "closeFile n st = st"

definition flush :: "'d device_ops \<Rightarrow> 'd FAT32fs \<Rightarrow> 'd FAT32fs option" where
  "flush D st =
     (let (c, dead) = lru_clear (cached_lookup_files st)
      in do { st1 \<leftarrow> unshare_all D dead (st\<lparr>cached_lookup_files := c\<rparr>);
              d \<leftarrow> d_clear D (F_device (fs_fat st1));
              Some (st1\<lparr>fs_fat := (fs_fat st1)\<lparr>F_device := d\<rparr>\<rparr>) })"

section \<open>Operations of files and directories that use the cache\<close>

definition selfDestruct :: "'d device_ops \<Rightarrow> nat \<Rightarrow> 'd FAT32fs \<Rightarrow> 'd FAT32fs option" where
  "selfDestruct D a st =
     do { f \<leftarrow> fs_objs st a;
          if f_is_deleted f \<or> ino f = KRootDirIno then Some st
          else do { F' \<leftarrow> selfDestruct_disk D (fs_fat st) f;
                    st1 \<leftarrow> rmFileFromCacheByIno D (ino f) (st\<lparr>fs_fat := F'\<rparr>);
                    f' \<leftarrow> fs_objs st1 a;
                    Some (st1\<lparr>fs_objs := (fs_objs st1)(a := Some (f'\<lparr>f_is_deleted := True\<rparr>))\<rparr>) } }"

definition entry_ino :: "fobj \<Rightarrow> u32 \<Rightarrow> u64" where
  "entry_ino dir n = push_bit 32 (ucast (f_fst_clus dir)) OR ucast n"

definition add_new_file :: "'d device_ops \<Rightarrow> fobj \<Rightarrow> 'd FAT32fs \<Rightarrow> (nat \<times> 'd FAT32fs) option" where
  "add_new_file D f st =
     (let (a, st1) = make_shared f st in do { st2 \<leftarrow> addFileToCache D a st1; Some (a, st2) })"

definition lookupFile ::
  "'d device_ops \<Rightarrow> conversions \<Rightarrow> timespec \<Rightarrow> nat \<Rightarrow> bytes \<Rightarrow> 'd FAT32fs \<Rightarrow> (nat option \<times> 'd FAT32fs) option" where
  "lookupFile D C now dir nm st =
     do { (lookup_result, st1) \<leftarrow> on_file dir (\<lambda>F f. lookupFileInner D C now F f nm) st;
          case lookup_result of
            None \<Rightarrow> Some (None, st1)
          | Some rg \<Rightarrow>
              do { this \<leftarrow> fs_objs st1 dir;
                   (cached_result, st2) \<leftarrow> getFileByIno D C (entry_ino this (range_start rg)) st1;
                   case cached_result of
                     Some a \<Rightarrow> Some (Some a, st2)
                   | None \<Rightarrow>
                       do { (r, st3) \<leftarrow> on_file dir
                              (\<lambda>F f. readDirEntry D now F f (range_start rg + range_count rg - 1)) st2;
                            lst_dir_entry \<leftarrow> r;
                            let s_dir_entry = castLongDirEntryToShort lst_dir_entry;
                            this \<leftarrow> fs_objs st3 dir;
                            (a, st4) \<leftarrow> add_new_file D (File_new (isDirectory s_dir_entry) (f_fst_clus this)
                                          (range_start rg) nm s_dir_entry) st3;
                            Some (Some a, st4) } } }"

definition lookupFileByIndex ::
  "'d device_ops \<Rightarrow> conversions \<Rightarrow> timespec \<Rightarrow> nat \<Rightarrow> u64 \<Rightarrow> 'd FAT32fs \<Rightarrow>
    (nat option \<times> u64 \<times> 'd FAT32fs) option" where
  "lookupFileByIndex D C now dir entry_off st =
     do { ((r, off'), st1) \<leftarrow> on_file dir
            (\<lambda>F f. do { (r, off', f', F') \<leftarrow> next_entries D now F f entry_off; Some ((r, off'), f', F') }) st;
          case r of
            None \<Rightarrow> Some (None, off', st1)
          | Some (entry_start, s_dir_entry, l_dir_entries) \<Rightarrow>
              do { this \<leftarrow> fs_objs st1 dir;
                   (cached_result, st2) \<leftarrow> getFileByIno D C (entry_ino this entry_start) st1;
                   case cached_result of
                     Some a \<Rightarrow> Some (Some a, off', st2)
                   | None \<Rightarrow>
                       do { nm \<leftarrow> entry_name C s_dir_entry l_dir_entries;
                            (a, st3) \<leftarrow> add_new_file D (File_new (isDirectory s_dir_entry) (f_fst_clus this)
                                          entry_start nm s_dir_entry) st2;
                            Some (Some a, off', st3) } } }"

definition crtFileInner ::
  "'d device_ops \<Rightarrow> conversions \<Rightarrow> timespec \<Rightarrow> nat \<Rightarrow> bytes \<Rightarrow> bool \<Rightarrow> 'd FAT32fs \<Rightarrow>
    (nat option \<times> 'd FAT32fs) option" where
  "crtFileInner D C now dir nm is_dir st =
     do { (r, st1) \<leftarrow> on_file dir (\<lambda>F f. crtFile_disk D C now F f nm is_dir) st;
          case r of
            None \<Rightarrow> Some (None, st1)
          | Some (free_entry_start, s_dir_entry) \<Rightarrow>
              do { this \<leftarrow> fs_objs st1 dir;
                   (a, st2) \<leftarrow> add_new_file D (File_new is_dir (f_fst_clus this) free_entry_start nm s_dir_entry) st1;
                   Some (Some a, st2) } }"

definition crtFile ::
  "'d device_ops \<Rightarrow> conversions \<Rightarrow> timespec \<Rightarrow> nat \<Rightarrow> bytes \<Rightarrow> 'd FAT32fs \<Rightarrow> (nat option \<times> 'd FAT32fs) option" where
  "crtFile D C now dir nm st = crtFileInner D C now dir nm False st"

definition delFile ::
  "'d device_ops \<Rightarrow> conversions \<Rightarrow> timespec \<Rightarrow> nat \<Rightarrow> bytes \<Rightarrow> 'd FAT32fs \<Rightarrow> (bool \<times> 'd FAT32fs) option" where
  "delFile D C now dir nm st =
     do { (r, st1) \<leftarrow> on_file dir (\<lambda>F f. delFile_disk D C now F f nm) st;
          case r of
            None \<Rightarrow> Some (False, st1)
          | Some rg \<Rightarrow>
              do { this \<leftarrow> fs_objs st1 dir;
                   st2 \<leftarrow> rmFileFromCacheByIno D (entry_ino this (range_start rg)) st1;
                   Some (True, st2) } }"

definition crtDir ::
  "'d device_ops \<Rightarrow> conversions \<Rightarrow> timespec \<Rightarrow> nat \<Rightarrow> bytes \<Rightarrow> 'd FAT32fs \<Rightarrow> (nat option \<times> 'd FAT32fs) option" where
  "crtDir D C now dir nm st =
     do { (result, st1) \<leftarrow> crtFileInner D C now dir nm True st;
          case result of
            None \<Rightarrow> Some (None, st1)
          | Some dir_obj \<Rightarrow>
              do { (ok, st2) \<leftarrow> on_file dir_obj (\<lambda>F f. File_truncate D F f (bytesPerClus (F_bpb F))) st1;
                   if \<not> ok
                   then do { (deleted, st3) \<leftarrow> delFile D C now dir nm st2;
                             ensure deleted;
                             st4 \<leftarrow> unshare D dir_obj st3;
                             Some (None, st4) }
                   else do { this \<leftarrow> fs_objs st2 dir;
                             child \<leftarrow> fs_objs st2 dir_obj;
                             let dot_entry = mkDotShortDirEntry (getCurDosTs2 now) (f_crt_time this) (f_fst_clus child);
                             let dot_dot_entry = mkDotDotShortDirEntry (getCurDosTs2 now) (f_crt_time this) (f_fst_clus this);
                             (w0, st3) \<leftarrow> on_file dir_obj
                                (\<lambda>F f. writeDirEntry D now F f 0 (castShortDirEntryToLong dot_entry)) st2;
                             ensure w0;
                             (w1, st4) \<leftarrow> on_file dir_obj
                                (\<lambda>F f. writeDirEntry D now F f 1 (castShortDirEntryToLong dot_dot_entry)) st3;
                             ensure w1;
                             Some (Some dir_obj, st4) } } }"

end
