(* ===== verification/Fuse.thy ===== *)
theory Fuse
  imports FileSystem
begin

text \<open>
  The FUSE handlers of \<^verbatim>\<open>programs/fat32_fuse.cpp\<close>. A handler is a function of the arguments and
  the file system (the global \<open>filesystem\<close>) to the reply it sends and the new state; every handler
  replies exactly once. \<open>env\<close> holds what is not in the repository: the character conversions
  (iconv), \<open>mktime\<close>, and the layout of one directory record (\<open>fuse_add_direntry\<close> and
  \<open>fuse_add_direntry_plus\<close> of libfuse, which store a record when it fits and return the
  space it takes).
\<close>

section \<open>Replies\<close>

datatype errno = Success | ENOENT | EPERM | EINVAL | EFBIG | EISDIR | ENOTDIR | ENOTEMPTY | EEXIST

record stat =
  st_ino :: u64
  st_mode :: u32
  st_size :: u32
  st_atim :: timespec
  st_mtim :: timespec
  st_ctim :: timespec

record statvfs =
  f_bsize :: u32
  f_blocks :: u32
  f_bfree :: u32
  f_bavail :: u32
  f_namemax :: u32

datatype reply =
    Reply_err errno
  | Reply_entry stat u64
  | Reply_create stat u64
  | Reply_attr stat nat
  | Reply_open
  | Reply_buf bytes
  | Reply_write u32
  | Reply_statfs statvfs

record env =
  conv :: conversions
  mktime :: "tm \<Rightarrow> int"
  direntry :: "bytes \<Rightarrow> stat \<Rightarrow> u64 \<Rightarrow> bytes"
  direntry_plus :: "bytes \<Rightarrow> stat \<Rightarrow> u64 \<Rightarrow> u64 \<Rightarrow> bytes"

section \<open>Helpers\<close>

definition node_ino :: "u64 \<Rightarrow> u64" where
  "node_ino n = (if n = 1 then 0 else n)"

definition getExistDir :: "'d device_ops \<Rightarrow> env \<Rightarrow> u64 \<Rightarrow> 'd FAT32fs \<Rightarrow> (nat \<times> 'd FAT32fs) option" where
  "getExistDir D en n st = do { (result, st') \<leftarrow> getDirByIno D (conv en) (node_ino n) st; a \<leftarrow> result; Some (a, st') }"

definition getExistFile :: "'d device_ops \<Rightarrow> env \<Rightarrow> u64 \<Rightarrow> 'd FAT32fs \<Rightarrow> (nat \<times> 'd FAT32fs) option" where
  "getExistFile D en n st = do { (result, st') \<leftarrow> getFileByIno D (conv en) (node_ino n) st; a \<leftarrow> result; Some (a, st') }"

definition S_IFMT :: u32 where "S_IFMT = 0xF000"
definition S_IFSOCK :: u32 where "S_IFSOCK = 0xC000"
definition S_IFLNK :: u32 where "S_IFLNK = 0xA000"
definition S_IFREG :: u32 where "S_IFREG = 0x8000"
definition S_IFBLK :: u32 where "S_IFBLK = 0x6000"
definition S_IFDIR :: u32 where "S_IFDIR = 0x4000"
definition S_IFCHR :: u32 where "S_IFCHR = 0x2000"
definition S_IFIFO :: u32 where "S_IFIFO = 0x1000"

definition isFileType :: "u32 \<Rightarrow> u32 \<Rightarrow> bool" where
  "isFileType mode flag \<longleftrightarrow> mode AND S_IFMT = flag"

definition isIllegalFat32FileType :: "u32 \<Rightarrow> bool" where
  "isIllegalFat32FileType mode \<longleftrightarrow> isFileType mode S_IFSOCK \<or> isFileType mode S_IFLNK
     \<or> isFileType mode S_IFBLK \<or> isFileType mode S_IFDIR \<or> isFileType mode S_IFCHR \<or> isFileType mode S_IFIFO"

definition readFileStat :: "'d device_ops \<Rightarrow> env \<Rightarrow> nat \<Rightarrow> 'd FAT32fs \<Rightarrow> (stat \<times> 'd FAT32fs) option" where
  "readFileStat D en a st =
     do { (sz, st') \<leftarrow> on_file a (file_sz D) st;
          f \<leftarrow> fs_objs st' a;
          atim \<leftarrow> dos2UnixTs (mktime en) (accTime f);
          mtim \<leftarrow> dos2UnixTs (mktime en) (wrtTime f);
          ctim \<leftarrow> dos2UnixTs_2 (mktime en) (crtTime f);
          Some (\<lparr>st_ino = ino f, st_mode = (if isDir f then 0x1ED OR S_IFDIR else 0x1ED OR S_IFREG), st_size = sz,
                 st_atim = atim, st_mtim = mtim, st_ctim = ctim\<rparr>, st') }"

definition getStatfs :: "'d device_ops \<Rightarrow> 'd FAT32fs \<Rightarrow> (statvfs \<times> 'd FAT32fs) option" where
  "getStatfs D st =
     do { (bfree, F1) \<leftarrow> availClusCnt D (fs_fat st);
          (bavail, F2) \<leftarrow> availClusCnt D F1;
          Some (\<lparr>f_bsize = bytesPerClus (F_bpb (fs_fat st)), f_blocks = totalClusCnt (fs_fat st),
                 f_bfree = bfree, f_bavail = bavail, f_namemax = 64\<rparr>, st\<lparr>fs_fat := F2\<rparr>) }"

section \<open>Handlers\<close>

definition fat32_lookup ::
  "'d device_ops \<Rightarrow> env \<Rightarrow> timespec \<Rightarrow> u64 \<Rightarrow> bytes \<Rightarrow> 'd FAT32fs \<Rightarrow> (reply \<times> 'd FAT32fs) option" where
  "fat32_lookup D en now parent nm st =
     do { (parent_dir, st1) \<leftarrow> getExistDir D en parent st;
          (result, st2) \<leftarrow> lookupFile D (conv en) now parent_dir nm st1;
          case result of
            Some a \<Rightarrow>
              do { (attr, st3) \<leftarrow> readFileStat D en a st2;
                   f \<leftarrow> fs_objs st3 a;
                   st4 \<leftarrow> unshare_all D [a, parent_dir] st3;
                   Some (Reply_entry attr (ino f), st4) }
          | None \<Rightarrow> do { st3 \<leftarrow> unshare D parent_dir st2; Some (Reply_err ENOENT, st3) } }"

definition fat32_getattr ::
  "'d device_ops \<Rightarrow> env \<Rightarrow> u64 \<Rightarrow> 'd FAT32fs \<Rightarrow> (reply \<times> 'd FAT32fs) option" where
  "fat32_getattr D en n st =
     do { (a, st1) \<leftarrow> getExistFile D en n st;
          (attr, st2) \<leftarrow> readFileStat D en a st1;
          st3 \<leftarrow> unshare D a st2;
          Some (Reply_attr attr 1, st3) }"

text \<open>The bits of \<open>valid\<close> in \<^verbatim>\<open>fuse_lowlevel.h\<close>, and the fields of \<open>attr\<close> the handler reads;
  the new size is cut to the \<open>u32\<close> of \<open>truncate\<close>.\<close>

record setattr_req =
  set_uid_gid :: bool
  set_size :: "u64 option"
  set_ctime :: "timespec option"
  set_atime :: "timespec option"
  set_atime_now :: bool
  set_mtime :: "timespec option"
  set_mtime_now :: bool

definition set_times :: "timespec \<Rightarrow> setattr_req \<Rightarrow> fobj \<Rightarrow> fobj" where
  "set_times now r f =
     (let f = (case set_ctime r of None \<Rightarrow> f | Some ts \<Rightarrow> setCrtTime (unix2DosTs_2 ts) f);
          f = (case set_atime r of None \<Rightarrow> f
               | Some ts \<Rightarrow> setAccTime (if set_atime_now r then getCurDosTs now else unix2DosTs ts) f)
      in (case set_mtime r of None \<Rightarrow> f
          | Some ts \<Rightarrow> setWrtTime (if set_mtime_now r then getCurDosTs now else unix2DosTs ts) f))"

definition fat32_setattr ::
  "'d device_ops \<Rightarrow> env \<Rightarrow> timespec \<Rightarrow> u64 \<Rightarrow> setattr_req \<Rightarrow> 'd FAT32fs \<Rightarrow> (reply \<times> 'd FAT32fs) option" where
  "fat32_setattr D en now n r st =
     (if set_uid_gid r then Some (Reply_err EPERM, st)
      else do { (a, st1) \<leftarrow> getExistFile D en n st;
                (ok, st2) \<leftarrow> (case set_size r of
                   None \<Rightarrow> Some (True, st1)
                 | Some len \<Rightarrow> on_file a (\<lambda>F f. File_truncate D F f (ucast len)) st1);
                if \<not> ok then do { st3 \<leftarrow> unshare D a st2; Some (Reply_err EFBIG, st3) }
                else do { (_, st3) \<leftarrow> on_file a (\<lambda>F f. Some ((), set_times now r f, F)) st2;
                          (attr, st4) \<leftarrow> readFileStat D en a st3;
                          st5 \<leftarrow> unshare D a st4;
                          Some (Reply_attr attr 0, st5) } })"

definition fat32_mknod :: "'d FAT32fs \<Rightarrow> (reply \<times> 'd FAT32fs) option" where
  "fat32_mknod st = Some (Reply_err EPERM, st)"

definition fat32_symlink :: "'d FAT32fs \<Rightarrow> (reply \<times> 'd FAT32fs) option" where
  "fat32_symlink st = Some (Reply_err EPERM, st)"

definition fat32_link :: "'d FAT32fs \<Rightarrow> (reply \<times> 'd FAT32fs) option" where
  "fat32_link st = Some (Reply_err EPERM, st)"

definition fat32_mkdir ::
  "'d device_ops \<Rightarrow> env \<Rightarrow> timespec \<Rightarrow> u64 \<Rightarrow> bytes \<Rightarrow> 'd FAT32fs \<Rightarrow> (reply \<times> 'd FAT32fs) option" where
  "fat32_mkdir D en now parent nm st =
     (if \<not> isValidName nm then Some (Reply_err EINVAL, st)
      else do { (parent_dir, st1) \<leftarrow> getExistDir D en parent st;
                (result, st2) \<leftarrow> crtDir D (conv en) now parent_dir nm st1;
                case result of
                  None \<Rightarrow> do { st3 \<leftarrow> unshare D parent_dir st2; Some (Reply_err EFBIG, st3) }
                | Some child \<Rightarrow>
                    do { (attr, st3) \<leftarrow> readFileStat D en child st2;
                         f \<leftarrow> fs_objs st3 child;
                         st4 \<leftarrow> unshare_all D [child, parent_dir] st3;
                         Some (Reply_entry attr (ino f), st4) } })"

definition fat32_create ::
  "'d device_ops \<Rightarrow> env \<Rightarrow> timespec \<Rightarrow> u64 \<Rightarrow> bytes \<Rightarrow> u32 \<Rightarrow> 'd FAT32fs \<Rightarrow> (reply \<times> 'd FAT32fs) option" where
  "fat32_create D en now parent nm mode st =
     (if \<not> isValidName nm then Some (Reply_err EINVAL, st)
      else if isIllegalFat32FileType mode then Some (Reply_err EPERM, st)
      else do { (parent_dir, st1) \<leftarrow> getExistDir D en parent st;
                (r, st2) \<leftarrow> lookupFile D (conv en) now parent_dir nm st1;
                case r of
                  Some a \<Rightarrow> do { st3 \<leftarrow> unshare_all D [a, parent_dir] st2; Some (Reply_err EEXIST, st3) }
                | None \<Rightarrow>
                    do { (result, st3) \<leftarrow> crtFile D (conv en) now parent_dir nm st2;
                         case result of
                           None \<Rightarrow> do { st4 \<leftarrow> unshare D parent_dir st3; Some (Reply_err EFBIG, st4) }
                         | Some child \<Rightarrow>
                             do { (attr, st4) \<leftarrow> readFileStat D en child st3;
                                  f \<leftarrow> fs_objs st4 child;
                                  st5 \<leftarrow> unshare_all D [child, parent_dir] st4;
                                  Some (Reply_create attr (ino f), st5) } } })"

definition fat32_unlink ::
  "'d device_ops \<Rightarrow> env \<Rightarrow> timespec \<Rightarrow> u64 \<Rightarrow> bytes \<Rightarrow> 'd FAT32fs \<Rightarrow> (reply \<times> 'd FAT32fs) option" where
  "fat32_unlink D en now parent nm st =
     do { (parent_dir, st1) \<leftarrow> getExistDir D en parent st;
          (child_result, st2) \<leftarrow> lookupFile D (conv en) now parent_dir nm st1;
          case child_result of
            None \<Rightarrow> do { st3 \<leftarrow> unshare D parent_dir st2; Some (Reply_err ENOENT, st3) }
          | Some child \<Rightarrow>
              do { f \<leftarrow> fs_objs st2 child;
                   if isDir f
                   then do { st3 \<leftarrow> unshare_all D [child, parent_dir] st2; Some (Reply_err EISDIR, st3) }
                   else do { (deleted, st3) \<leftarrow> delFile D (conv en) now parent_dir nm st2;
                             ensure deleted;
                             st4 \<leftarrow> selfDestruct D child st3;
                             st5 \<leftarrow> unshare_all D [child, parent_dir] st4;
                             Some (Reply_err Success, st5) } } }"

definition fat32_rmdir ::
  "'d device_ops \<Rightarrow> env \<Rightarrow> timespec \<Rightarrow> u64 \<Rightarrow> bytes \<Rightarrow> 'd FAT32fs \<Rightarrow> (reply \<times> 'd FAT32fs) option" where
  "fat32_rmdir D en now parent nm st =
     do { (parent_dir, st1) \<leftarrow> getExistDir D en parent st;
          (child_result, st2) \<leftarrow> lookupFile D (conv en) now parent_dir nm st1;
          case child_result of
            None \<Rightarrow> do { st3 \<leftarrow> unshare D parent_dir st2; Some (Reply_err ENOENT, st3) }
          | Some child \<Rightarrow>
              do { f \<leftarrow> fs_objs st2 child;
                   if \<not> isDir f
                   then do { st3 \<leftarrow> unshare_all D [child, parent_dir] st2; Some (Reply_err ENOTDIR, st3) }
                   else do { (empty, st3) \<leftarrow> on_file child (isEmpty D now) st2;
                             if \<not> empty
                             then do { st4 \<leftarrow> unshare_all D [child, parent_dir] st3; Some (Reply_err ENOTEMPTY, st4) }
                             else do { (deleted, st4) \<leftarrow> delFile D (conv en) now parent_dir nm st3;
                                       ensure deleted;
                                       st5 \<leftarrow> selfDestruct D child st4;
                                       st6 \<leftarrow> unshare_all D [child, parent_dir] st5;
                                       Some (Reply_err Success, st6) } } } }"

text \<open>\<open>new_file->exchangeMetaData(old_file)\<close> on the objects at two addresses. With the same object
  on both sides the assignments change nothing but the cached chain.\<close>

definition exchange_at :: "'d device_ops \<Rightarrow> nat \<Rightarrow> nat \<Rightarrow> 'd FAT32fs \<Rightarrow> 'd FAT32fs option" where
  "exchange_at D a b st =
     do { f \<leftarrow> fs_objs st a;
          g \<leftarrow> fs_objs st b;
          if a = b
          then do { let h = f\<lparr>f_clus_chain := None\<rparr>;
                    (h1, F1) \<leftarrow> File_sync D (fs_fat st) h (isDir h) True;
                    (h2, F2) \<leftarrow> File_sync D F1 h1 (isDir h1) True;
                    Some (st\<lparr>fs_fat := F2, fs_objs := (fs_objs st)(a := Some h2)\<rparr>) }
          else do { (f', g', F') \<leftarrow> exchangeMetaData D (fs_fat st) f g;
                    Some (st\<lparr>fs_fat := F', fs_objs := (fs_objs st)(a := Some f', b := Some g')\<rparr>) } }"

definition fat32_rename ::
  "'d device_ops \<Rightarrow> env \<Rightarrow> timespec \<Rightarrow> u64 \<Rightarrow> bytes \<Rightarrow> u64 \<Rightarrow> bytes \<Rightarrow> u32 \<Rightarrow> 'd FAT32fs \<Rightarrow>
    (reply \<times> 'd FAT32fs) option" where
  "fat32_rename D en now parent nm newparent newname flags st =
     (if flags \<noteq> 0 then Some (Reply_err EINVAL, st)
      else do { (old_parent, st1) \<leftarrow> getExistDir D en parent st;
                (new_parent, st2) \<leftarrow> getExistDir D en newparent st1;
                (old_result, st3) \<leftarrow> lookupFile D (conv en) now old_parent nm st2;
                case old_result of
                  None \<Rightarrow> do { st4 \<leftarrow> unshare_all D [new_parent, old_parent] st3; Some (Reply_err ENOENT, st4) }
                | Some old_file \<Rightarrow>
                    do { (new_result, st4) \<leftarrow> lookupFile D (conv en) now new_parent newname st3;
                         f \<leftarrow> fs_objs st4 old_file;
                         case new_result of
                           Some new_file \<Rightarrow>
                             do { g \<leftarrow> fs_objs st4 new_file;
                                  ensure (isDir f = isDir g);
                                  (empty, st5) \<leftarrow> (if isDir f then on_file new_file (isEmpty D now) st4
                                                    else Some (True, st4));
                                  if \<not> empty
                                  then do { st6 \<leftarrow> unshare_all D [new_file, old_file, new_parent, old_parent] st5;
                                            Some (Reply_err ENOTEMPTY, st6) }
                                  else do { st6 \<leftarrow> exchange_at D new_file old_file st5;
                                            st7 \<leftarrow> selfDestruct D old_file st6;
                                            st8 \<leftarrow> unshare_all D [new_file, old_file, new_parent, old_parent] st7;
                                            Some (Reply_err Success, st8) } }
                         | None \<Rightarrow>
                             if \<not> isValidName newname
                             then do { st5 \<leftarrow> unshare_all D [old_file, new_parent, old_parent] st4;
                                       Some (Reply_err EINVAL, st5) }
                             else do { (result, st5) \<leftarrow>
                                         (if isDir f then crtDir D (conv en) now new_parent newname st4
                                          else crtFile D (conv en) now new_parent newname st4);
                                       case result of
                                         None \<Rightarrow>
                                           do { st6 \<leftarrow> unshare_all D [old_file, new_parent, old_parent] st5;
                                                Some (Reply_err EFBIG, st6) }
                                       | Some new_file \<Rightarrow>
                                           do { st6 \<leftarrow> exchange_at D new_file old_file st5;
                                                st7 \<leftarrow> selfDestruct D old_file st6;
                                                st8 \<leftarrow> unshare_all D [new_file, old_file, new_parent, old_parent] st7;
                                                Some (Reply_err Success, st8) } } } })"

definition fat32_open :: "'d FAT32fs \<Rightarrow> (reply \<times> 'd FAT32fs) option" where
  "fat32_open st = Some (Reply_open, st)"

text \<open>\<open>size_t\<close> and \<open>off_t\<close> are 64 bits wide; the calls cut them to \<open>u32\<close>.\<close>

definition fat32_read ::
  "'d device_ops \<Rightarrow> env \<Rightarrow> timespec \<Rightarrow> u64 \<Rightarrow> u64 \<Rightarrow> u64 \<Rightarrow> 'd FAT32fs \<Rightarrow> (reply \<times> 'd FAT32fs) option" where
  "fat32_read D en now n sz offset st =
     (if sz \<ge> 4294967295 then Some (Reply_err EINVAL, st)
      else do { (a, st1) \<leftarrow> getExistFile D en n st;
                (out, st2) \<leftarrow> on_file a (\<lambda>F f. File_read D now F f (ucast sz) (ucast offset)) st1;
                st3 \<leftarrow> unshare D a st2;
                Some (Reply_buf out, st3) })"

definition fat32_write ::
  "'d device_ops \<Rightarrow> env \<Rightarrow> timespec \<Rightarrow> u64 \<Rightarrow> bytes \<Rightarrow> u64 \<Rightarrow> u64 \<Rightarrow> 'd FAT32fs \<Rightarrow> (reply \<times> 'd FAT32fs) option" where
  "fat32_write D en now n buf sz off st =
     do { (a, st1) \<leftarrow> getExistFile D en n st;
          (cnt, st2) \<leftarrow> on_file a (\<lambda>F f. File_write D now F f buf (ucast sz) (ucast off)) st1;
          st3 \<leftarrow> unshare D a st2;
          Some (Reply_write cnt, st3) }"

text \<open>\<open>int datasync\<close> becomes the \<open>bool sync_meta\<close>.\<close>

definition fat32_fsync ::
  "'d device_ops \<Rightarrow> env \<Rightarrow> u64 \<Rightarrow> bool \<Rightarrow> 'd FAT32fs \<Rightarrow> (reply \<times> 'd FAT32fs) option" where
  "fat32_fsync D en n datasync st =
     do { (a, st1) \<leftarrow> getExistFile D en n st;
          (_, st2) \<leftarrow> on_file a (\<lambda>F f. do { (f', F') \<leftarrow> File_sync D F f (isDir f) datasync; Some ((), f', F') }) st1;
          st3 \<leftarrow> unshare D a st2;
          Some (Reply_err Success, st3) }"

definition fat32_opendir :: "'d device_ops \<Rightarrow> env \<Rightarrow> u64 \<Rightarrow> 'd FAT32fs \<Rightarrow> (reply \<times> 'd FAT32fs) option" where
  "fat32_opendir D en n st =
     do { (a, st1) \<leftarrow> getExistFile D en n st;
          f \<leftarrow> fs_objs st1 a;
          st2 \<leftarrow> unshare D a st1;
          Some (if isDir f then Reply_open else Reply_err ENOTDIR, st2) }"

definition fat32_fsyncdir ::
  "'d device_ops \<Rightarrow> env \<Rightarrow> u64 \<Rightarrow> bool \<Rightarrow> 'd FAT32fs \<Rightarrow> (reply \<times> 'd FAT32fs) option" where
  "fat32_fsyncdir D en n datasync st =
     do { (a, st1) \<leftarrow> getExistFile D en n st;
          f \<leftarrow> fs_objs st1 a;
          if \<not> isDir f then do { st2 \<leftarrow> unshare D a st1; Some (Reply_err ENOTDIR, st2) }
          else do { (_, st2) \<leftarrow> on_file a (\<lambda>F f. do { (f', F') \<leftarrow> File_sync D F f (isDir f) datasync; Some ((), f', F') }) st1;
                    st3 \<leftarrow> unshare D a st2;
                    Some (Reply_err Success, st3) } }"

definition fat32_statfs :: "'d device_ops \<Rightarrow> 'd FAT32fs \<Rightarrow> (reply \<times> 'd FAT32fs) option" where
  "fat32_statfs D st = do { (s, st') \<leftarrow> getStatfs D st; Some (Reply_statfs s, st') }"

text \<open>\<open>rem\<close> is the room left in the buffer.\<close>

partial_function (option) readdir_loop ::
  "'d device_ops \<Rightarrow> env \<Rightarrow> timespec \<Rightarrow> bool \<Rightarrow> nat \<Rightarrow> u64 \<Rightarrow> u32 \<Rightarrow> bytes \<Rightarrow> 'd FAT32fs \<Rightarrow>
    (bytes \<times> 'd FAT32fs) option" where
  "readdir_loop D en now is_plus dir off rem buf st =
     do { (ret, off', st1) \<leftarrow> lookupFileByIndex D (conv en) now dir off st;
          case ret of
            None \<Rightarrow> Some (buf, st1)
          | Some a \<Rightarrow>
              do { (state, st2) \<leftarrow> readFileStat D en a st1;
                   f \<leftarrow> fs_objs st2 a;
                   let ent = (if is_plus then direntry_plus en (f_name f) state (ino f) off'
                              else direntry en (f_name f) state off');
                   st3 \<leftarrow> unshare D a st2;
                   if length ent > unat rem then Some (buf, st3)
                   else readdir_loop D en now is_plus dir off' (rem - of_nat (length ent)) (buf @ ent) st3 } }"

definition fat32_do_readdir ::
  "'d device_ops \<Rightarrow> env \<Rightarrow> timespec \<Rightarrow> u64 \<Rightarrow> u64 \<Rightarrow> u64 \<Rightarrow> bool \<Rightarrow> 'd FAT32fs \<Rightarrow> (reply \<times> 'd FAT32fs) option" where
  "fat32_do_readdir D en now n sz offset is_plus st =
     do { (a, st1) \<leftarrow> getExistFile D en n st;
          f \<leftarrow> fs_objs st1 a;
          if \<not> isDir f then do { st2 \<leftarrow> unshare D a st1; Some (Reply_err ENOTDIR, st2) }
          else do { (buf, st2) \<leftarrow> readdir_loop D en now is_plus a offset (ucast sz) [] st1;
                    st3 \<leftarrow> unshare D a st2;
                    Some (Reply_buf buf, st3) } }"

end
