(* ===== verification/Session.thy ===== *)
theory Session
  imports Fuse
begin

text \<open>
  The requests the kernel sends: the table of handlers \<open>fat32_ll_oper\<close> of
  \<^verbatim>\<open>programs/fat32_fuse.cpp\<close>, and the part of \<open>main\<close> between mounting and tear-down: mount
  the volume, serve requests until the session ends, flush. \<open>fuse_session_loop\<close> calls one handler at a time.
\<close>

datatype request =
    Lookup_req u64 bytes
  | Getattr_req u64
  | Setattr_req u64 setattr_req
  | Mknod_req
  | Mkdir_req u64 bytes
  | Unlink_req u64 bytes
  | Rmdir_req u64 bytes
  | Symlink_req
  | Rename_req u64 bytes u64 bytes u32
  | Link_req
  | Open_req
  | Read_req u64 u64 u64
  | Write_req u64 bytes u64 u64
  | Fsync_req u64 bool
  | Opendir_req u64
  | Readdir_req u64 u64 u64
  | Fsyncdir_req u64 bool
  | Statfs_req
  | Create_req u64 bytes u32
  | Readdirplus_req u64 u64 u64

fun serve :: "'d device_ops \<Rightarrow> env \<Rightarrow> timespec \<Rightarrow> request \<Rightarrow> 'd FAT32fs \<Rightarrow> (reply \<times> 'd FAT32fs) option" where
  "serve D en now (Lookup_req parent nm) st = fat32_lookup D en now parent nm st"
| "serve D en now (Getattr_req n) st = fat32_getattr D en n st"
| "serve D en now (Setattr_req n r) st = fat32_setattr D en now n r st"
| "serve D en now Mknod_req st = fat32_mknod st"
| "serve D en now (Mkdir_req parent nm) st = fat32_mkdir D en now parent nm st"
| "serve D en now (Unlink_req parent nm) st = fat32_unlink D en now parent nm st"
| "serve D en now (Rmdir_req parent nm) st = fat32_rmdir D en now parent nm st"
| "serve D en now Symlink_req st = fat32_symlink st"
| "serve D en now (Rename_req p nm p' nm' flags) st = fat32_rename D en now p nm p' nm' flags st"
| "serve D en now Link_req st = fat32_link st"
| "serve D en now Open_req st = fat32_open st"
| "serve D en now (Read_req n sz off) st = fat32_read D en now n sz off st"
| "serve D en now (Write_req n buf sz off) st = fat32_write D en now n buf sz off st"
| "serve D en now (Fsync_req n datasync) st = fat32_fsync D en n datasync st"
| "serve D en now (Opendir_req n) st = fat32_opendir D en n st"
| "serve D en now (Readdir_req n sz off) st = fat32_do_readdir D en now n sz off False st"
| "serve D en now (Fsyncdir_req n datasync) st = fat32_fsyncdir D en n datasync st"
| "serve D en now Statfs_req st = fat32_statfs D st"
| "serve D en now (Create_req parent nm mode) st = fat32_create D en now parent nm mode st"
| "serve D en now (Readdirplus_req n sz off) st = fat32_do_readdir D en now n sz off True st"

fun serve_all :: "'d device_ops \<Rightarrow> env \<Rightarrow> (timespec \<times> request) list \<Rightarrow> 'd FAT32fs \<Rightarrow>
    (reply list \<times> 'd FAT32fs) option" where
  "serve_all D en [] st = Some ([], st)"
| "serve_all D en ((now, req) # reqs) st =
     do { (r, st1) \<leftarrow> serve D en now req st; (rs, st2) \<leftarrow> serve_all D en reqs st1; Some (r # rs, st2) }"

text \<open>\<open>Inl\<close> is \<open>exit(1)\<close> on an invalid boot sector.\<close>

definition session :: "'d device_ops \<Rightarrow> env \<Rightarrow> 'd \<Rightarrow> (timespec \<times> request) list \<Rightarrow>
    (unit + reply list \<times> 'd FAT32fs) option" where
  "session D en d reqs =
     do { r \<leftarrow> FAT32fs_from D d;
          (case r of
             Inl u \<Rightarrow> Some (Inl u)
           | Inr st \<Rightarrow> do { (rs, st1) \<leftarrow> serve_all D en reqs st; st2 \<leftarrow> flush D st1; Some (Inr (rs, st2)) }) }"

end
