(* ===== verification/FsRefs.thy ===== *)
theory FsRefs
  imports Session "HOL-Library.Multiset"
begin

text \<open>
  The objects of the file system and the pointers to them. \<open>fs_wf st own\<close>: the reference counts are
  the pointers in the cache and those a running operation owns, an object is alive exactly while it
  is pointed to, and the cache leads from an inode number to the object with that number. Every
  operation keeps it, every handler gives back the pointers it takes.
\<close>

section \<open>What holds of a result\<close>

text \<open>\<open>post m Q\<close>: if the call comes back, its result satisfies \<open>Q\<close>. The rules of the calls are stated
  so that they work backwards from any \<open>Q\<close>.\<close>

definition post :: "'a option \<Rightarrow> ('a \<Rightarrow> bool) \<Rightarrow> bool" where
  "post m Q \<longleftrightarrow> (\<forall>x. m = Some x \<longrightarrow> Q x)"

named_theorems wp \<comment> \<open>rules of the calls, for \<open>intro!\<close>\<close>
named_theorems fs_wp \<comment> \<open>rules of the calls on the file system, for \<open>elim!\<close>: the first premise is about the state\<close>

lemma post_simps [simp]: "post None Q" "post (Some x) Q \<longleftrightarrow> Q x" "post (ensure b) P \<longleftrightarrow> (b \<longrightarrow> P ())"
  "post (m \<bind> g) R \<longleftrightarrow> post m (\<lambda>x. post (g x) R)"
  by (auto simp: post_def ensure_def bind_eq_Some_conv)

lemma postI: "(\<And>x. m = Some x \<Longrightarrow> Q x) \<Longrightarrow> post m Q"
  by (simp add: post_def)

lemma postD: "post m Q \<Longrightarrow> m = Some x \<Longrightarrow> Q x"
  by (simp add: post_def)

lemma post_any: "(\<And>x. Q x) \<Longrightarrow> post m Q"
  by (simp add: post_def)

lemma post_mono: "post m P \<Longrightarrow> (\<And>x. P x \<Longrightarrow> Q x) \<Longrightarrow> post m Q"
  by (simp add: post_def)

lemma post_splits:
  "post (if b then m else m') Q \<longleftrightarrow> (b \<longrightarrow> post m Q) \<and> (\<not> b \<longrightarrow> post m' Q)"
  "post (case r of None \<Rightarrow> m | Some x \<Rightarrow> g x) Q \<longleftrightarrow> (case r of None \<Rightarrow> post m Q | Some x \<Rightarrow> post (g x) Q)"
  "post (case s of Inl x \<Rightarrow> h x | Inr y \<Rightarrow> k y) Q \<longleftrightarrow> (case s of Inl x \<Rightarrow> post (h x) Q | Inr y \<Rightarrow> post (k y) Q)"
  by (auto split: option.split sum.split)

text \<open>The calls below the objects do not touch them.\<close>

lemma fat_calls_wp [wp]:
  "(\<And>x. Q1 x) \<Longrightarrow> post (d_readSector D d n) Q1" "(\<And>x. Q2 x) \<Longrightarrow> post (d_release D d sec) Q2"
  "(\<And>x. Q3 x) \<Longrightarrow> post (dev_load D d n off) Q3" "(\<And>x. Q4 x) \<Longrightarrow> post (dev_modify D d n off g) Q4"
  "(\<And>x. Q4 x) \<Longrightarrow> post (dev_sync D d n) Q4" "(\<And>x. Q4 x) \<Longrightarrow> post (d_clear D d) Q4"
  "(\<And>x. Q5 x) \<Longrightarrow> post (readClusChains D F c) Q5" "(\<And>x. Q6 x) \<Longrightarrow> post (resize D F c num clear) Q6"
  "(\<And>x. Q7 x) \<Longrightarrow> post (freeClus D F c) Q7" "(\<And>x. Q8 x) \<Longrightarrow> post (availClusCnt D F) Q8"
  "(\<And>x. Q9 x) \<Longrightarrow> post (entry_name C e ls) Q9"
  "(\<And>x. Q7 x) \<Longrightarrow> post (sync_meta_entry D F f dir) Q7" "(\<And>x. Q7 x) \<Longrightarrow> post (selfDestruct_disk D F f) Q7"
  by (simp_all add: post_any)

section \<open>Methods keep the identity of the object\<close>

lemma ino_upds [simp]: "ino (f\<lparr>f_clus_chain := c\<rparr>) = ino f" "ino (f\<lparr>f_fst_clus := n\<rparr>) = ino f"
  "ino (f\<lparr>f_file_sz := n\<rparr>) = ino f" "ino (f\<lparr>f_is_deleted := b\<rparr>) = ino f" "ino (setCrtTime ts2 f) = ino f"
  "ino (setAccTime ts f) = ino f" "ino (setWrtTime ts f) = ino f"
  by (simp_all add: ino_def setCrtTime_def setAccTime_def setWrtTime_def)

lemma readClusChain_wp [wp]: "(\<And>cs f' F'. ino f' = ino f \<Longrightarrow> Q (cs, f', F')) \<Longrightarrow> post (readClusChain D F f) Q"
  by (auto simp: readClusChain_def intro!: wp split: option.splits)

lemma sector_no_wp [wp]: "(\<And>f' F'. ino f' = ino f \<Longrightarrow> Q (None, f', F')) \<Longrightarrow>
    (\<And>s f' F'. ino f' = ino f \<Longrightarrow> Q (Some s, f', F')) \<Longrightarrow> post (sector_no D F f n) Q"
  by (auto simp: sector_no_def Let_def intro!: wp)

lemma has_sector_wp [wp]: "(\<And>b f' F'. ino f' = ino f \<Longrightarrow> Q (b, f', F')) \<Longrightarrow> post (has_sector D F f n) Q"
  by (auto simp: has_sector_def intro!: wp split: option.splits)

lemma load_sector_wp [wp]: "(\<And>p f' F'. ino f' = ino f \<Longrightarrow> Q (p, f', F')) \<Longrightarrow> post (load_sector D F f n off) Q"
  by (auto simp: load_sector_def intro!: wp)

lemma modify_sector_wp [wp]: "(\<And>f' F'. ino f' = ino f \<Longrightarrow> Q (f', F')) \<Longrightarrow> post (modify_sector D F f n off g) Q"
  by (auto simp: modify_sector_def intro!: wp)

lemma sync_sector_no_wp [wp]: "(\<And>f' F'. ino f' = ino f \<Longrightarrow> Q (f', F')) \<Longrightarrow> post (sync_sector_no D F f n) Q"
  by (auto simp: sync_sector_no_def intro!: wp)

lemma file_sz_wp [wp]: "(\<And>n f' F'. ino f' = ino f \<Longrightarrow> Q (n, f', F')) \<Longrightarrow> post (file_sz D F f) Q"
  by (auto simp: file_sz_def intro!: wp)

lemma read_loop_wp [wp]: "(\<And>out f' F'. ino f' = ino f \<Longrightarrow> Q (out, f', F')) \<Longrightarrow> post (read_loop D bps F f n r acc) Q"
proof (induction "unat r" arbitrary: F f n r acc rule: less_induct)
  case less
  have "unat (r - min bps r) < unat r" if "r \<noteq> 0" "min bps r \<noteq> 0" using unat_minus_less [OF that] by simp
  then show ?case
    by (subst read_loop.simps) (auto simp: Let_def intro!: wp less)
qed

lemma File_read_wp [wp]: "(\<And>out f' F'. ino f' = ino f \<Longrightarrow> Q (out, f', F')) \<Longrightarrow> post (File_read D now F f cnt off) Q"
  by (auto simp: File_read_def Let_def intro!: wp)

lemma File_truncate_wp [wp]: "(\<And>ok f' F'. ino f' = ino f \<Longrightarrow> Q (ok, f', F')) \<Longrightarrow> post (File_truncate D F f len) Q"
  by (auto simp: File_truncate_def Let_def intro!: wp)

lemma write_loop_wp [wp]: "(\<And>out f' F'. ino f' = ino f \<Longrightarrow> Q (out, f', F')) \<Longrightarrow> post (write_loop D bps F f n r src) Q"
proof (induction "unat r" arbitrary: F f n r src rule: less_induct)
  case less
  have "unat (r - min bps r) < unat r" if "r \<noteq> 0" "min bps r \<noteq> 0" using unat_minus_less [OF that] by simp
  then show ?case
    by (subst write_loop.simps) (auto simp: Let_def intro!: wp less)
qed

lemma File_write_wp [wp]: "(\<And>n f' F'. ino f' = ino f \<Longrightarrow> Q (n, f', F')) \<Longrightarrow> post (File_write D now F f buf cnt off) Q"
  by (auto simp: File_write_def Let_def intro!: wp split: if_splits)

text \<open>The loops whose end is not built in: one unfolding, with the rule for the calls inside.\<close>

lemma sync_data_wp [wp]: "(\<And>f' F'. ino f' = ino f \<Longrightarrow> Q (f', F')) \<Longrightarrow> post (sync_data D F f n) Q"
proof (rule post_mono [where P = "\<lambda>(f', F'). ino f' = ino f"], rule postI,
    erule sync_data.raw_induct [rotated, where P = "\<lambda>D F f n (f', F'). ino f' = ino f"], goal_cases)
  case (1 _ g D F f n x)
  have rec: "(\<And>f' F'. ino f' = ino f \<Longrightarrow> Q (f', F')) \<Longrightarrow> post (g D F f n) Q" for D F f n Q
    using 1(2) by (fastforce intro!: postI)
  show ?case by (rule postD [OF _ 1(3)]) (auto intro!: wp rec)
qed auto

lemma File_sync_wp [wp]: "(\<And>f' F'. ino f' = ino f \<Longrightarrow> Q (f', F')) \<Longrightarrow> post (File_sync D F f dir meta) Q"
  by (auto simp: File_sync_def intro!: wp)

lemma File_destroy_wp [wp]: "(\<And>F'. Q F') \<Longrightarrow> post (File_destroy D F f) Q"
  by (auto simp: File_destroy_def intro!: wp)

lemma readDirEntry_wp [wp]: "(\<And>e f' F'. ino f' = ino f \<Longrightarrow> Q (e, f', F')) \<Longrightarrow> post (readDirEntry D now F f n) Q"
  by (auto simp: readDirEntry_def intro!: wp)

lemma writeDirEntry_wp [wp]: "(\<And>b f' F'. ino f' = ino f \<Longrightarrow> Q (b, f', F')) \<Longrightarrow> post (writeDirEntry D now F f n e) Q"
  by (auto simp: writeDirEntry_def intro!: wp)

lemma lst_loop_wp [wp]: "(\<And>b f' F'. ino f' = ino f \<Longrightarrow> Q (b, f', F')) \<Longrightarrow> post (lst_loop D now F f n) Q"
proof (rule post_mono [where P = "\<lambda>(b, f', F'). ino f' = ino f"], rule postI,
    erule lst_loop.raw_induct [rotated, where P = "\<lambda>D now F f n (b, f', F'). ino f' = ino f"], goal_cases)
  case (1 _ g D now F f n x)
  have rec: "(\<And>b f' F'. ino f' = ino f \<Longrightarrow> Q (b, f', F')) \<Longrightarrow> post (g D now F f n) Q" for D now F f n Q
    using 1(2) by (fastforce intro!: postI)
  show ?case by (rule postD [OF _ 1(3)]) (auto intro!: wp rec split: option.split)
qed auto

lemma isLstNonEmptyEntry_wp [wp]: "(\<And>b f' F'. ino f' = ino f \<Longrightarrow> Q (b, f', F')) \<Longrightarrow> post (isLstNonEmptyEntry D now F f n) Q"
  unfolding isLstNonEmptyEntry_def by (rule lst_loop_wp)

lemma isEmpty_wp [wp]: "(\<And>b f' F'. ino f' = ino f \<Longrightarrow> Q (b, f', F')) \<Longrightarrow> post (isEmpty D now F f) Q"
  unfolding isEmpty_def by (rule isLstNonEmptyEntry_wp)

lemma lookup_loop_wp [wp]: "(\<And>r f' F'. ino f' = ino f \<Longrightarrow> Q (r, f', F')) \<Longrightarrow> post (lookup_loop D now u16 gbk F f n s) Q"
proof (rule post_mono [where P = "\<lambda>(b, f', F'). ino f' = ino f"], rule postI,
    erule lookup_loop.raw_induct [rotated, where P = "\<lambda>D now u16 gbk F f n s (b, f', F'). ino f' = ino f"], goal_cases)
  case (1 _ g D now u16 gbk F f n s x)
  have rec: "(\<And>r f' F'. ino f' = ino f \<Longrightarrow> Q (r, f', F')) \<Longrightarrow> post (g D now u16 gbk F f n s) Q" for D now u16 gbk F f n s Q
    using 1(2) by (fastforce intro!: postI)
  have step: "(\<And>x. Q x) \<Longrightarrow> post (lookup_step u16 gbk n e s) Q" for e Q by (simp add: post_any)
  show ?case by (rule postD [OF _ 1(3)]) (auto intro!: wp rec step split: option.split sum.split)
qed auto

lemma lookupFileInner_wp [wp]: "(\<And>r f' F'. ino f' = ino f \<Longrightarrow> Q (r, f', F')) \<Longrightarrow> post (lookupFileInner D C now F f nm) Q"
  by (auto simp: lookupFileInner_def intro!: wp post_any [of _ "utf8ToUtf16 C nm"] post_any [of _ "utf8ToGbk C (toUpper nm)"])

lemma erase_range_wp [wp]: "(\<And>f' F'. ino f' = ino f \<Longrightarrow> Q (f', F')) \<Longrightarrow> post (erase_range D now e F f i) Q"
proof (induction "unat e - unat i" arbitrary: F f i rule: less_induct)
  case less
  have "unat e - unat (i + 1) < unat e - unat i" if "i < e" using that by (simp add: word_less_nat_alt unat_plus1)
  then show ?case by (subst erase_range.simps) (auto intro!: wp less)
qed

lemma delFile_disk_wp [wp]: "(\<And>r f' F'. ino f' = ino f \<Longrightarrow> Q (r, f', F')) \<Longrightarrow> post (delFile_disk D C now F f nm) Q"
  by (auto simp: delFile_disk_def Let_def intro!: wp split: option.split)

lemma space_loop_wp [wp]: "(\<And>i s c f' F'. ino f' = ino f \<Longrightarrow> Q (i, s, c, f', F')) \<Longrightarrow> post (space_loop D now k F f n s0 c0) Q"
proof (rule post_mono [where P = "\<lambda>(i, s, c, f', F'). ino f' = ino f"], rule postI,
    erule space_loop.raw_induct [rotated, where P = "\<lambda>D now k F f n s0 c0 (i, s, c, f', F'). ino f' = ino f"], goal_cases)
  case (1 _ g D now k F f n s0 c0 x)
  have rec: "(\<And>i s c f' F'. ino f' = ino f \<Longrightarrow> Q (i, s, c, f', F')) \<Longrightarrow> post (g D now k F f n s0 c0) Q" for D now k F f n s0 c0 Q
    using 1(2) by (fastforce intro!: postI)
  show ?case by (rule postD [OF _ 1(3)]) (auto intro!: wp rec split: option.split)
qed auto

lemma write_long_entries_wp [wp]:
  "(\<And>f' F'. ino f' = ino f \<Longrightarrow> Q (f', F')) \<Longrightarrow> post (write_long_entries D now start k crc u16 F f i off) Q"
proof (induction "wrap_left i" arbitrary: F f i off rule: less_induct)
  case less
  show ?case by (subst write_long_entries.simps) (auto simp: Let_def intro!: wp less wrap_left_less)
qed

lemma crtFile_disk_wp [wp]: "(\<And>r f' F'. ino f' = ino f \<Longrightarrow> Q (r, f', F')) \<Longrightarrow> post (crtFile_disk D C now F f nm dir) Q"
  by (auto simp: crtFile_disk_def Let_def intro!: wp post_any [of _ "utf8ToUtf16 C nm"]
      post_any [of _ "genBasisNameFromLong (utf8ToGbk C) nm"])

lemma skip_empty_wp [wp]: "(\<And>r i f' F'. ino f' = ino f \<Longrightarrow> Q (r, i, f', F')) \<Longrightarrow> post (skip_empty D now F f n) Q"
proof (rule post_mono [where P = "\<lambda>(r, i, f', F'). ino f' = ino f"], rule postI,
    erule skip_empty.raw_induct [rotated, where P = "\<lambda>D now F f n (r, i, f', F'). ino f' = ino f"], goal_cases)
  case (1 _ g D now F f n x)
  have rec: "(\<And>r i f' F'. ino f' = ino f \<Longrightarrow> Q (r, i, f', F')) \<Longrightarrow> post (g D now F f n) Q" for D now F f n Q
    using 1(2) by (fastforce intro!: postI)
  show ?case by (rule postD [OF _ 1(3)]) (auto intro!: wp rec split: option.split)
qed auto

lemma collect_entries_wp [wp]:
  "(\<And>s ls i f' F'. ino f' = ino f \<Longrightarrow> Q (s, ls, i, f', F')) \<Longrightarrow> post (collect_entries D now F f n ls) Q"
proof (rule post_mono [where P = "\<lambda>(s, ls, i, f', F'). ino f' = ino f"], rule postI,
    erule collect_entries.raw_induct [rotated, where P = "\<lambda>D now F f n ls (s, ls, i, f', F'). ino f' = ino f"], goal_cases)
  case (1 _ g D now F f n ls x)
  have rec: "(\<And>s ls i f' F'. ino f' = ino f \<Longrightarrow> Q (s, ls, i, f', F')) \<Longrightarrow> post (g D now F f n ls) Q" for D now F f n ls Q
    using 1(2) by (fastforce intro!: postI)
  show ?case by (rule postD [OF _ 1(3)]) (auto intro!: wp rec split: option.split)
qed auto

lemma next_entries_wp [wp]: "(\<And>r i f' F'. ino f' = ino f \<Longrightarrow> Q (r, i, f', F')) \<Longrightarrow> post (next_entries D now F f n) Q"
  by (auto simp: next_entries_def intro!: wp split: option.split)

section \<open>Pointers\<close>

abbreviation cached :: "'d FAT32fs \<Rightarrow> (u64 \<times> nat) list" where
  "cached st \<equiv> lru_view (cached_lookup_files st)"

definition counted :: "(nat \<Rightarrow> fobj option) \<Rightarrow> (nat \<Rightarrow> nat) \<Rightarrow> nat \<Rightarrow> nat multiset \<Rightarrow> bool" where
  "counted objs refs nxt M \<longleftrightarrow>
     (\<forall>a. refs a = count M a) \<and> (\<forall>a. objs a \<noteq> None \<longleftrightarrow> a \<in># M) \<and> (\<forall>a. a \<in># M \<longrightarrow> a < nxt)"

definition fs_wf :: "'d FAT32fs \<Rightarrow> nat multiset \<Rightarrow> bool" where
  "fs_wf st own \<longleftrightarrow> lru_inv (cached_lookup_files st) \<and> max_size (cached_lookup_files st) = 20
     \<and> counted (fs_objs st) (fs_refs st) (fs_next st) (own + mset (map snd (cached st)))
     \<and> (\<forall>(k, a) \<in> set (cached st). \<exists>f. fs_objs st a = Some f \<and> ino f = k)"

lemma counted_new: "counted objs refs n M \<Longrightarrow> counted (objs(n := Some f)) (refs(n := 1)) (Suc n) (add_mset n M)"
  by (auto simp: counted_def less_Suc_eq not_in_iff)

lemma counted_share: "counted objs refs n M \<Longrightarrow> a \<in># M \<Longrightarrow> counted objs (refs(a := Suc (refs a))) n (add_mset a M)"
  by (auto simp: counted_def)

lemma counted_unshare:
  assumes "counted objs refs n (add_mset a M)"
  shows "refs a = 1 \<Longrightarrow> counted (objs(a := None)) (refs(a := 0)) n M"
    and "refs a \<noteq> 1 \<Longrightarrow> counted objs (refs(a := refs a - 1)) n M"
proof -
  have a: "refs a = Suc (count M a)" using assms by (simp add: counted_def)
  show "counted (objs(a := None)) (refs(a := 0)) n M" if "refs a = 1"
    using that a assms by (auto simp: counted_def not_in_iff)
  show "counted objs (refs(a := refs a - 1)) n M" if "refs a \<noteq> 1"
  proof -
    have "a \<in># M" using that a by (auto simp: not_in_iff [symmetric])
    then show ?thesis using a assms by (auto simp: counted_def)
  qed
qed

lemma counted_obj: "counted objs refs n M \<Longrightarrow> objs a = Some f \<Longrightarrow> counted (objs(a := Some f')) refs n M"
  by (auto simp: counted_def)

lemma counted_alive: "counted objs refs n M \<Longrightarrow> a \<in># M \<longleftrightarrow> (\<exists>f. objs a = Some f)"
  by (auto simp: counted_def)

lemma fs_wf_alive: "fs_wf st own \<Longrightarrow> a \<in># own \<Longrightarrow> \<exists>f. fs_objs st a = Some f"
  using counted_alive by (fastforce simp: fs_wf_def)

lemma fs_wf_fat [simp]: "fs_wf (st\<lparr>fs_fat := F\<rparr>) own = fs_wf st own"
  by (simp add: fs_wf_def)

lemma fs_wf_obj:
  assumes "fs_wf st own" and "fs_objs st a = Some f" and "ino f' = ino f"
  shows "fs_wf (st\<lparr>fs_fat := F, fs_objs := (fs_objs st)(a := Some f')\<rparr>) own"
    and "fs_wf (st\<lparr>fs_objs := (fs_objs st)(a := Some f')\<rparr>) own"
  using assms by (fastforce simp: fs_wf_def intro: counted_obj)+

lemma make_shared_wf:
  assumes "fs_wf st own" and "make_shared f st = (a, st')"
  shows "fs_wf st' (add_mset a own)" and "fs_objs st' a = Some f"
proof -
  have c: "counted (fs_objs st) (fs_refs st) (fs_next st) (own + mset (map snd (cached st)))"
    using assms(1) by (simp add: fs_wf_def)
  have "b < fs_next st" if "(k, b) \<in> set (cached st)" for k b
    using c that unfolding counted_def by (metis image_eqI snd_conv union_iff set_mset_mset set_map)
  then show "fs_wf st' (add_mset a own)" "fs_objs st' a = Some f"
    using assms counted_new [OF c, of f] by (fastforce simp: fs_wf_def make_shared_def)+
qed

lemma share_wf:
  assumes "fs_wf st own" and "fs_objs st a = Some f"
  shows "fs_wf (share a st) (add_mset a own)"
proof -
  have c: "counted (fs_objs st) (fs_refs st) (fs_next st) (own + mset (map snd (cached st)))"
    using assms(1) by (simp add: fs_wf_def)
  from counted_share [OF this] counted_alive [OF c, of a] assms show ?thesis by (simp add: fs_wf_def share_def)
qed

lemma unshare_wp [fs_wp]:
  assumes wf: "fs_wf st own" and a: "a \<in># own" and Q: "\<And>st'. fs_wf st' (own - {#a#}) \<Longrightarrow> Q st'"
  shows "post (unshare D a st) Q"
proof -
  let ?M = "own - {#a#} + mset (map snd (cached st))"
  have "counted (fs_objs st) (fs_refs st) (fs_next st) (add_mset a ?M)" using wf a by (simp add: fs_wf_def)
  note c = counted_unshare [OF this]
  show ?thesis
  proof (cases "fs_refs st a = 1")
    case True
    have "a \<notin># ?M" using counted_alive [OF c(1) [OF True], of a] by simp
    then have "b \<noteq> a" if "(k, b) \<in> set (cached st)" for k b using that by force
    then have "fs_wf (st\<lparr>fs_fat := F, fs_objs := (fs_objs st)(a := None), fs_refs := (fs_refs st)(a := 0)\<rparr>) (own - {#a#})" for F
      using wf c(1) [OF True] by (fastforce simp: fs_wf_def)
    then show ?thesis using True by (auto simp: unshare_def intro!: wp Q post_any [of _ "fs_objs st a"])
  next
    case False
    then show ?thesis using wf c(2) by (auto simp: unshare_def fs_wf_def intro!: Q)
  qed
qed

lemma unshare_all_wp [fs_wp]:
  assumes "fs_wf st own" and "mset as \<subseteq># own" and "\<And>st'. fs_wf st' (own - mset as) \<Longrightarrow> Q st'"
  shows "post (unshare_all D as st) Q"
  using assms
proof (induction as arbitrary: st own)
  case (Cons a as)
  have "a \<in># own" "mset as \<subseteq># own - {#a#}" using Cons.prems(2) by (auto simp: insert_subset_eq_iff)
  then show ?case
    using Cons.prems by (auto intro!: unshare_wp [of st own a] Cons.IH)
qed simp

lemma on_file_wp [fs_wp]:
  assumes "fs_wf st own" and "\<And>F f. post (m F f) (\<lambda>(r, f', F'). ino f' = ino f)"
    and "\<And>r st'. fs_wf st' own \<Longrightarrow> Q (r, st')"
  shows "post (on_file a m st) Q"
proof (rule postI)
  fix x assume "on_file a m st = Some x"
  then obtain f r f' F' where m: "fs_objs st a = Some f" "m (fs_fat st) f = Some (r, f', F')"
      "x = (r, st\<lparr>fs_fat := F', fs_objs := (fs_objs st)(a := Some f')\<rparr>)"
    by (auto simp: on_file_def bind_eq_Some_conv)
  then have "ino f' = ino f" using postD [OF assms(2) m(2)] by simp
  then show "Q x" using m(1,3) assms(3) fs_wf_obj(1) [OF assms(1) m(1)] by blast
qed

lemma fs_objs_wp [wp]: "(\<And>f. fs_objs st a = Some f \<Longrightarrow> Q f) \<Longrightarrow> post (fs_objs st a) Q"
  by (simp add: post_def)

section \<open>The cache of file objects\<close>

lemma set_rl_put: "set (rl_put m k v xs) \<subseteq> insert (k, v) (set xs)"
  unfolding rl_put_def rl_drop_def using set_take_subset by fastforce

lemma mset_rl_drop:
  assumes "distinct (map fst xs)"
  shows "mset (rl_drop k xs) + mset (case map_of xs k of Some v \<Rightarrow> [(k, v)] | None \<Rightarrow> []) = mset xs"
    and "mset (map snd (rl_drop k xs)) + mset (case map_of xs k of Some v \<Rightarrow> [v] | None \<Rightarrow> []) = mset (map snd xs)"
proof -
  show m: "mset (rl_drop k xs) + mset (case map_of xs k of Some v \<Rightarrow> [(k, v)] | None \<Rightarrow> []) = mset xs"
    using assms
  proof (induction xs)
    case (Cons p xs)
    have n: "map_of xs (fst p) = None" using Cons.prems by (simp add: map_of_eq_None_iff)
    show ?case using Cons rl_drop_absent [OF n] n by (cases p) (auto simp: rl_drop_def)
  qed (simp add: rl_drop_def)
  show "mset (map snd (rl_drop k xs)) + mset (case map_of xs k of Some v \<Rightarrow> [v] | None \<Rightarrow> []) = mset (map snd xs)"
    using arg_cong [OF m, of "image_mset snd"] by (cases "map_of xs k") simp_all
qed

lemma mset_rl_get: "distinct (map fst xs) \<Longrightarrow> mset (rl_get k xs) = mset xs"
  using mset_rl_drop(1) [of xs k] by (cases "map_of xs k") (simp_all add: rl_get_def)

lemma mset_rl_put:
  assumes "distinct (map fst xs)"
  shows "mset (map snd (rl_put m k v xs)) + mset (rl_dead m k v xs) = add_mset v (mset (map snd xs))"
proof -
  have "mset (map snd (take m ys)) + mset (map snd (drop m ys)) = mset (map snd ys)" for ys :: "('a \<times> 'b) list"
    by (metis append_take_drop_id map_append mset_append)
  from this [of "(k, v) # rl_drop k xs"] have
    "mset (map snd (rl_put m k v xs)) + mset (map snd (drop m ((k, v) # rl_drop k xs)))
      = add_mset v (mset (map snd (rl_drop k xs)))"
    unfolding rl_put_def by simp
  moreover have "A + (B + M) = N + B" if "A + M = N" for A B M N :: "'b multiset" using that by (auto simp: ac_simps)
  ultimately have "mset (map snd (rl_put m k v xs)) + mset (rl_dead m k v xs)
      = add_mset v (mset (map snd (rl_drop k xs))) + mset (case map_of xs k of Some v \<Rightarrow> [v] | None \<Rightarrow> [])"
    unfolding rl_dead_def mset_append by blast
  with mset_rl_drop(2) [OF assms, of k] show ?thesis by simp
qed

lemma cache_put_wp [fs_wp]:
  assumes wf: "fs_wf st own" and f: "fs_objs st a = Some f" "ino f = n" and Q: "\<And>st'. fs_wf st' own \<Longrightarrow> Q st'"
  shows "post (cache_put D n a st) Q"
proof -
  let ?c = "cached_lookup_files st"
  obtain c dead where cd: "lru_put ?c n a = (c, dead)" by fastforce
  have inv: "lru_inv ?c" using wf by (simp add: fs_wf_def)
  have view: "lru_view c = rl_put 20 n a (cached st)" "dead = rl_dead 20 n a (cached st)" "lru_inv c" "max_size c = 20"
    using lru.put_view [OF inv, of n a] lru.put_dead [OF inv, of n a] lru.inv_kept(1) [OF inv, of n a] lru_max_size(1) [of ?c n a] wf cd
    by (simp_all add: fs_wf_def)
  have eq: "own + mset dead + mset (map snd (lru_view c)) = add_mset a (own + mset (map snd (cached st)))"
    using mset_rl_put [OF lru.view_distinct [OF inv], of 20 n a] by (simp add: view ac_simps)
  have "counted (fs_objs st) ((fs_refs st)(a := Suc (fs_refs st a))) (fs_next st) (own + mset dead + mset (map snd (lru_view c)))"
    using share_wf [OF wf f(1)] unfolding eq by (simp add: fs_wf_def share_def)
  moreover have "\<exists>f. fs_objs st b = Some f \<and> ino f = k" if "(k, b) \<in> set (lru_view c)" for k b
    using that set_rl_put [of 20 n a "cached st"] wf f by (auto simp: view fs_wf_def)
  ultimately have "fs_wf (share a st\<lparr>cached_lookup_files := c\<rparr>) (own + mset dead)"
    using view(3,4) by (auto simp: fs_wf_def share_def)
  then show ?thesis unfolding cache_put_def cd by (auto intro!: unshare_all_wp Q)
qed

lemma addFileToCache_wp [fs_wp]: "fs_wf st own \<Longrightarrow> (\<And>st'. fs_wf st' own \<Longrightarrow> Q st') \<Longrightarrow> post (addFileToCache D a st) Q"
  by (auto simp: addFileToCache_def intro!: wp elim!: fs_wp)

lemma rmFileFromCacheByIno_wp [fs_wp]:
  assumes wf: "fs_wf st own" and Q: "\<And>st'. fs_wf st' own \<Longrightarrow> Q st'"
  shows "post (rmFileFromCacheByIno D n st) Q"
proof -
  let ?c = "cached_lookup_files st"
  obtain r c where rc: "lru_remove ?c n = (r, c)" by fastforce
  have inv: "lru_inv ?c" using wf by (simp add: fs_wf_def)
  have view: "lru_view c = rl_drop n (cached st)" "r = map_of (cached st) n" "lru_inv c" "max_size c = 20"
    using lru.remove_view [OF inv, of n] lru.remove_val [OF inv, of n] lru.inv_kept(3) [OF inv, of n] lru_max_size(3) [of ?c n] wf rc
    by (simp_all add: fs_wf_def)
  have "fs_wf (st\<lparr>cached_lookup_files := c\<rparr>) (own + mset (case r of Some v \<Rightarrow> [v] | None \<Rightarrow> []))"
    using wf mset_rl_drop(2) [OF lru.view_distinct [OF inv], of n] view
    by (auto simp: fs_wf_def rl_drop_def ac_simps)
  then show ?thesis unfolding rmFileFromCacheByIno_def rc by (auto intro!: Q elim!: fs_wp split: option.splits)
qed

lemma lru_get_wf:
  assumes "fs_wf st own" and "lru_get (cached_lookup_files st) n = (r, c)"
  shows "fs_wf (st\<lparr>cached_lookup_files := c\<rparr>) own" and "r = Some a \<Longrightarrow> \<exists>f. fs_objs st a = Some f \<and> ino f = n"
proof -
  let ?c = "cached_lookup_files st"
  have inv: "lru_inv ?c" using assms(1) by (simp add: fs_wf_def)
  have view: "lru_view c = rl_get n (cached st)" "r = map_of (cached st) n" "lru_inv c" "max_size c = 20"
    using lru.get_view [OF inv, of n] lru.get_val [OF inv, of n] lru.inv_kept(2) [OF inv, of n] lru_max_size(2) [of ?c n] assms
    by (simp_all add: fs_wf_def)
  have m: "mset (lru_view c) = mset (cached st)" unfolding view by (rule mset_rl_get [OF lru.view_distinct [OF inv]])
  from mset_eq_setD [OF m] have "set (lru_view c) = set (cached st)" .
  moreover have "mset (map snd (lru_view c)) = mset (map snd (cached st))" using m by simp
  ultimately show "fs_wf (st\<lparr>cached_lookup_files := c\<rparr>) own"
    using assms(1) view(3,4) by (simp add: fs_wf_def)
  show "\<exists>f. fs_objs st a = Some f \<and> ino f = n" if "r = Some a"
    using that view(2) assms(1) by (auto simp: fs_wf_def dest!: map_of_SomeD)
qed

lemma ino_split: "push_bit 32 (ucast (ucast (drop_bit 32 n) :: u32)) OR ucast (ucast (n AND 0xffffffff) :: u32) = (n :: u64)"
proof -
  have m: "(0xffffffff :: u64) = mask 32" by (simp add: mask_eq_exp_minus_1)
  have "32 + (i - 32) = i" if "\<not> i < 32" for i :: nat using that by simp
  then show ?thesis unfolding m by (intro bit_word_eqI) (auto simp: bit_simps)
qed

lemma ino_new: "ino (File_new dir p e nm s) = push_bit 32 (ucast p) OR ucast e"
  by (simp add: ino_def File_new_def)

lemma fromIno_ino: "post (fromIno D C F n) (\<lambda>(r, F'). case r of None \<Rightarrow> True | Some f \<Rightarrow> ino f = n)"
  by (auto simp: fromIno_def post_def Let_def bind_eq_Some_conv ino_new ino_split
      split: sum.split_asm prod.split_asm option.split_asm option.split)

lemma getRootDir_wf: "fs_wf st own \<Longrightarrow> getRootDir st = (a, st') \<Longrightarrow> fs_wf st' (add_mset a own)"
  unfolding getRootDir_def by (rule make_shared_wf)

lemma getFileByIno_wp [fs_wp]:
  assumes wf: "fs_wf st own" and None: "\<And>st'. fs_wf st' own \<Longrightarrow> Q (None, st')"
    and Some: "\<And>a st'. fs_wf st' (add_mset a own) \<Longrightarrow> Q (Some a, st')"
  shows "post (getFileByIno D C n st) Q"
proof -
  obtain r c where rc: "lru_get (cached_lookup_files st) n = (r, c)" by fastforce
  let ?st = "st\<lparr>cached_lookup_files := c\<rparr>"
  note get = lru_get_wf [OF wf rc]
  show ?thesis
  proof (cases r)
    case (Some a)
    then obtain f where "fs_objs ?st a = Some f" using get(2) by auto
    from share_wf [OF get(1) this] show ?thesis unfolding getFileByIno_def rc by (simp add: Some assms(3))
  next
    case r: None
    obtain ra rst where root: "getRootDir ?st = (ra, rst)" by fastforce
    have miss: "post (case r of None \<Rightarrow> Some (None, ?st\<lparr>fs_fat := F'\<rparr>)
        | Some f \<Rightarrow> (let (a, st2) = make_shared f (?st\<lparr>fs_fat := F'\<rparr>) in do { st3 \<leftarrow> cache_put D n a st2; Some (Some a, st3) })) Q"
      if "case r of None \<Rightarrow> True | Some f \<Rightarrow> ino f = n" for r F'
    proof (cases r)
      case (Some f)
      obtain a st2 where m: "make_shared f (?st\<lparr>fs_fat := F'\<rparr>) = (a, st2)" by fastforce
      have "fs_wf (?st\<lparr>fs_fat := F'\<rparr>) own" using get(1) by (simp add: fs_wf_def)
      note new = make_shared_wf [OF this m]
      have "ino f = n" using Some that by simp
      with new show ?thesis unfolding Some option.case m Let_def prod.case by (auto intro!: assms(3) elim!: fs_wp)
    qed (use get(1) in \<open>simp add: None fs_wf_def\<close>)
    show ?thesis
      unfolding getFileByIno_def rc using root getRootDir_wf [OF get(1) root]
      by (auto simp: r Let_def assms(3) intro!: post_mono [OF fromIno_ino] miss)
  qed
qed

lemma getDirByIno_wp [fs_wp]:
  assumes "fs_wf st own" and "\<And>st'. fs_wf st' own \<Longrightarrow> Q (None, st')" and "\<And>a st'. fs_wf st' (add_mset a own) \<Longrightarrow> Q (Some a, st')"
  shows "post (getDirByIno D C n st) Q"
  unfolding getDirByIno_def using assms by (auto intro!: wp elim!: fs_wp)

lemma add_new_file_wp [fs_wp]:
  assumes "fs_wf st own" and "\<And>a st'. fs_wf st' (add_mset a own) \<Longrightarrow> Q (a, st')"
  shows "post (add_new_file D f st) Q"
  unfolding add_new_file_def using make_shared_wf [OF assms(1), of f]
  by (cases "make_shared f st") (auto intro!: wp assms(2) elim!: fs_wp)

section \<open>Directories\<close>

lemma lookupFile_wp [fs_wp]:
  assumes "fs_wf st own" and "\<And>st'. fs_wf st' own \<Longrightarrow> Q (None, st')" and "\<And>a st'. fs_wf st' (add_mset a own) \<Longrightarrow> Q (Some a, st')"
  shows "post (lookupFile D C now dir nm st) Q"
  unfolding lookupFile_def Let_def using assms by (auto intro!: wp elim!: fs_wp split: option.split)
    (rule post_any, auto intro!: wp elim!: fs_wp)

lemma lookupFileByIndex_wp [fs_wp]:
  assumes "fs_wf st own" and "\<And>i st'. fs_wf st' own \<Longrightarrow> Q (None, i, st')"
    and "\<And>a i st'. fs_wf st' (add_mset a own) \<Longrightarrow> Q (Some a, i, st')"
  shows "post (lookupFileByIndex D C now dir i st) Q"
  unfolding lookupFileByIndex_def Let_def using assms by (auto intro!: wp elim!: fs_wp split: option.split)

lemma crtFileInner_wp [fs_wp]:
  assumes "fs_wf st own" and "\<And>st'. fs_wf st' own \<Longrightarrow> Q (None, st')" and "\<And>a st'. fs_wf st' (add_mset a own) \<Longrightarrow> Q (Some a, st')"
  shows "post (crtFileInner D C now dir nm is_dir st) Q"
  unfolding crtFileInner_def Let_def using assms by (auto intro!: wp elim!: fs_wp split: option.split)

lemma crtFile_wp [fs_wp]:
  assumes "fs_wf st own" and "\<And>st'. fs_wf st' own \<Longrightarrow> Q (None, st')" and "\<And>a st'. fs_wf st' (add_mset a own) \<Longrightarrow> Q (Some a, st')"
  shows "post (crtFile D C now dir nm st) Q"
  unfolding crtFile_def using assms by (rule crtFileInner_wp)

lemma delFile_wp [fs_wp]:
  assumes "fs_wf st own" and "\<And>b st'. fs_wf st' own \<Longrightarrow> Q (b, st')"
  shows "post (delFile D C now dir nm st) Q"
  unfolding delFile_def Let_def using assms by (auto intro!: wp elim!: fs_wp split: option.split)

lemma crtDir_wp [fs_wp]:
  assumes "fs_wf st own" and "\<And>st'. fs_wf st' own \<Longrightarrow> Q (None, st')" and "\<And>a st'. fs_wf st' (add_mset a own) \<Longrightarrow> Q (Some a, st')"
  shows "post (crtDir D C now dir nm st) Q"
  unfolding crtDir_def Let_def using assms by (auto intro!: wp elim!: fs_wp)

lemmas rm_after_wp [fs_wp] = rmFileFromCacheByIno_wp [of "st\<lparr>fs_fat := F\<rparr>" for st F, unfolded fs_wf_fat]

lemma selfDestruct_wp [fs_wp]:
  assumes "fs_wf st own" and "\<And>st'. fs_wf st' own \<Longrightarrow> Q st'"
  shows "post (selfDestruct D a st) Q"
  unfolding selfDestruct_def using assms(1) by (auto intro!: wp assms(2) elim!: fs_wp intro: fs_wf_obj(2))

section \<open>Handlers\<close>

lemma getExistDir_wp [fs_wp]: "fs_wf st own \<Longrightarrow> (\<And>a st'. fs_wf st' (add_mset a own) \<Longrightarrow> Q (a, st')) \<Longrightarrow> post (getExistDir D en n st) Q"
  by (auto simp: getExistDir_def elim!: fs_wp)

lemma getExistFile_wp [fs_wp]: "fs_wf st own \<Longrightarrow> (\<And>a st'. fs_wf st' (add_mset a own) \<Longrightarrow> Q (a, st')) \<Longrightarrow> post (getExistFile D en n st) Q"
  by (auto simp: getExistFile_def elim!: fs_wp)

lemma readFileStat_wp [fs_wp]:
  "fs_wf st own \<Longrightarrow> (\<And>r st'. fs_wf st' own \<Longrightarrow> Q (r, st')) \<Longrightarrow> post (readFileStat D en a st) Q"
  by (auto simp: readFileStat_def intro!: wp post_any [of _ "dos2UnixTs_2 m ts" for m ts] post_any [of _ "dos2UnixTs m ts" for m ts] elim!: fs_wp)

lemma set_times_ino [simp]: "ino (set_times now r f) = ino f"
  by (simp add: set_times_def Let_def split: option.split)

lemma fat32_lookup_wp: "fs_wf st {#} \<Longrightarrow> post (fat32_lookup D en now parent nm st) (\<lambda>(r, st'). fs_wf st' {#})"
  by (auto simp: fat32_lookup_def intro!: wp elim!: fs_wp)

lemma fat32_getattr_wp: "fs_wf st {#} \<Longrightarrow> post (fat32_getattr D en n st) (\<lambda>(r, st'). fs_wf st' {#})"
  by (auto simp: fat32_getattr_def intro!: wp elim!: fs_wp)

lemma fat32_setattr_wp: "fs_wf st {#} \<Longrightarrow> post (fat32_setattr D en now n r st) (\<lambda>(r, st'). fs_wf st' {#})"
  by (auto simp: fat32_setattr_def intro!: wp elim!: fs_wp split: option.split)

lemma fat32_mkdir_wp: "fs_wf st {#} \<Longrightarrow> post (fat32_mkdir D en now parent nm st) (\<lambda>(r, st'). fs_wf st' {#})"
  by (auto simp: fat32_mkdir_def intro!: wp elim!: fs_wp)

lemma fat32_create_wp: "fs_wf st {#} \<Longrightarrow> post (fat32_create D en now parent nm mode st) (\<lambda>(r, st'). fs_wf st' {#})"
  by (auto simp: fat32_create_def intro!: wp elim!: fs_wp)

lemma fat32_unlink_wp: "fs_wf st {#} \<Longrightarrow> post (fat32_unlink D en now parent nm st) (\<lambda>(r, st'). fs_wf st' {#})"
  by (auto simp: fat32_unlink_def intro!: wp elim!: fs_wp)

lemma fat32_rmdir_wp: "fs_wf st {#} \<Longrightarrow> post (fat32_rmdir D en now parent nm st) (\<lambda>(r, st'). fs_wf st' {#})"
  by (auto simp: fat32_rmdir_def intro!: wp elim!: fs_wp)

lemma fat32_read_wp: "fs_wf st {#} \<Longrightarrow> post (fat32_read D en now n sz offset st) (\<lambda>(r, st'). fs_wf st' {#})"
  by (auto simp: fat32_read_def intro!: wp elim!: fs_wp)

lemma fat32_write_wp: "fs_wf st {#} \<Longrightarrow> post (fat32_write D en now n buf sz offset st) (\<lambda>(r, st'). fs_wf st' {#})"
  by (auto simp: fat32_write_def intro!: wp elim!: fs_wp)

lemma fat32_fsync_wp: "fs_wf st {#} \<Longrightarrow> post (fat32_fsync D en n ds st) (\<lambda>(r, st'). fs_wf st' {#})"
  by (auto simp: fat32_fsync_def intro!: wp elim!: fs_wp)

lemma fat32_opendir_wp: "fs_wf st {#} \<Longrightarrow> post (fat32_opendir D en n st) (\<lambda>(r, st'). fs_wf st' {#})"
  by (auto simp: fat32_opendir_def intro!: wp elim!: fs_wp)

lemma fat32_fsyncdir_wp: "fs_wf st {#} \<Longrightarrow> post (fat32_fsyncdir D en n ds st) (\<lambda>(r, st'). fs_wf st' {#})"
  by (auto simp: fat32_fsyncdir_def intro!: wp elim!: fs_wp)

lemma fat32_statfs_wp: "fs_wf st {#} \<Longrightarrow> post (fat32_statfs D st) (\<lambda>(r, st'). fs_wf st' {#})"
  by (auto simp: fat32_statfs_def getStatfs_def intro!: wp)

lemma swap_meta_ino [simp]: "ino (swap_meta f g) = ino f"
  by (simp add: ino_def swap_meta_def)

lemma exchange_at_wp [fs_wp]:
  assumes wf: "fs_wf st own" and Q: "\<And>st'. fs_wf st' own \<Longrightarrow> Q st'"
  shows "post (exchange_at D a b st) Q"
proof (rule postI)
  fix x assume x: "exchange_at D a b st = Some x"
  show "Q x"
  proof (cases "a = b")
    case True
    with x obtain f h F1 h2 F2 where f: "fs_objs st a = Some f"
        "File_sync D (fs_fat st) (f\<lparr>f_clus_chain := None\<rparr>) (isDir f) True = Some (h, F1)"
        "File_sync D F1 h (isDir h) True = Some (h2, F2)" "x = st\<lparr>fs_fat := F2, fs_objs := (fs_objs st)(a := Some h2)\<rparr>"
      by (auto simp: exchange_at_def bind_eq_Some_conv Let_def isDir_def)
    have s: "post (File_sync D F f dir meta) (\<lambda>(f', F'). ino f' = ino f)" for F f dir meta by (auto intro!: wp)
    have "ino h2 = ino f" using postD [OF s f(2)] postD [OF s f(3)] by simp
    then show ?thesis using Q fs_wf_obj(1) [OF wf f(1)] f(4) by blast
  next
    case False
    with x obtain f g f' g' F' where f: "fs_objs st a = Some f" "fs_objs st b = Some g"
        "exchangeMetaData D (fs_fat st) f g = Some (f', g', F')"
        "x = st\<lparr>fs_fat := F', fs_objs := (fs_objs st)(a := Some f', b := Some g')\<rparr>"
      by (auto simp: exchange_at_def bind_eq_Some_conv)
    have "post (exchangeMetaData D (fs_fat st) f g) (\<lambda>(f', g', F'). ino f' = ino f \<and> ino g' = ino g)"
      by (auto simp: exchangeMetaData_def intro!: wp)
    from postD [OF this f(3)] have i: "ino f' = ino f" "ino g' = ino g" by simp_all
    have "fs_objs (st\<lparr>fs_objs := (fs_objs st)(a := Some f')\<rparr>) b = Some g" using f(2) False by simp
    from fs_wf_obj(1) [OF fs_wf_obj(2) [OF wf f(1) i(1)] this i(2)] show ?thesis using Q f(4) by simp
  qed
qed

lemma fat32_rename_wp: "fs_wf st {#} \<Longrightarrow> post (fat32_rename D en now p nm p' nm' flags st) (\<lambda>(r, st'). fs_wf st' {#})"
  by (auto simp: fat32_rename_def intro!: wp elim!: fs_wp)

lemma readdir_loop_wp [fs_wp]:
  assumes "fs_wf st own" and "\<And>buf st'. fs_wf st' own \<Longrightarrow> Q (buf, st')"
  shows "post (readdir_loop D en now pl dir i left buf st) Q"
proof (rule postI)
  fix x assume "readdir_loop D en now pl dir i left buf st = Some x"
  then have "fs_wf st own \<longrightarrow> fs_wf (snd x) own"
  proof (rule readdir_loop.raw_induct [rotated, where P = "\<lambda>D en now pl dir i left buf st x. fs_wf st own \<longrightarrow> fs_wf (snd x) own"], goal_cases)
    case (1 g D en now pl dir i left buf st x)
    have rec: "fs_wf st own \<Longrightarrow> (\<And>buf st'. fs_wf st' own \<Longrightarrow> Q (buf, st')) \<Longrightarrow> post (g D en now pl dir i left buf st) Q"
      for D en now pl dir i left buf st Q
      using 1(1) by (fastforce intro!: postI)
    show ?case by (rule impI, rule postD [OF _ 1(2)]) (auto simp: Let_def intro!: wp elim!: fs_wp rec)
  qed
  then show "Q x" using assms by (cases x) auto
qed

lemma fat32_do_readdir_wp: "fs_wf st {#} \<Longrightarrow> post (fat32_do_readdir D en now n sz i pl st) (\<lambda>(r, st'). fs_wf st' {#})"
  by (auto simp: fat32_do_readdir_def intro!: wp elim!: fs_wp)

lemmas handlers_wp = fat32_lookup_wp fat32_getattr_wp fat32_setattr_wp fat32_mkdir_wp fat32_unlink_wp fat32_rmdir_wp
  fat32_rename_wp fat32_read_wp fat32_write_wp fat32_fsync_wp fat32_opendir_wp fat32_fsyncdir_wp fat32_statfs_wp
  fat32_create_wp fat32_do_readdir_wp

lemma serve_wf:
  assumes "fs_wf st {#}"
  shows "post (serve D en now req st) (\<lambda>(r, st'). fs_wf st' {#})"
proof (cases req)
qed (use assms in \<open>simp_all add: handlers_wp fat32_mknod_def fat32_symlink_def fat32_link_def fat32_open_def\<close>)

lemma serve_all_wf:
  "fs_wf st {#} \<Longrightarrow> post (serve_all D en reqs st) (\<lambda>(rs, st'). fs_wf st' {#} \<and> length rs = length reqs)"
proof (induction reqs arbitrary: st)
  case (Cons p reqs)
  show ?case
    by (cases p) (auto intro!: post_mono [OF serve_wf [OF Cons.prems]] post_mono [OF Cons.IH])
qed simp

lemma new_wf: "fs_wf (FAT32fs_new fat) {#}"
  using lru_new_inv [of 20] by (simp add: FAT32fs_new_def fs_wf_def counted_def lru_new_view) (simp add: lru_new_def)

lemma mount_wf: "FAT32fs_from D d = Some (Inr st) \<Longrightarrow> fs_wf st {#}"
  by (auto simp: FAT32fs_from_def bind_eq_Some_conv new_wf split: if_splits)

text \<open>After a flush with nothing else running no object is left.\<close>

lemma unshare_cache [frames]:
  "unshare D a st = Some st' \<Longrightarrow> cached_lookup_files st' = cached_lookup_files st"
  "unshare_all D as st = Some st' \<Longrightarrow> cached_lookup_files st' = cached_lookup_files st"
proof -
  have one: "cached_lookup_files st' = cached_lookup_files st" if "unshare D a st = Some st'" for a st st'
    using that by (auto simp: unshare_def bind_eq_Some_conv split: if_splits)
  then show "unshare D a st = Some st' \<Longrightarrow> cached_lookup_files st' = cached_lookup_files st" .
  show "unshare_all D as st = Some st' \<Longrightarrow> cached_lookup_files st' = cached_lookup_files st"
    using one by (induction as arbitrary: st) (auto simp: bind_eq_Some_conv)
qed

lemma flush_empties:
  assumes wf: "fs_wf st {#}" and flush: "flush D st = Some st'"
  shows "fs_objs st' = (\<lambda>_. None)" and "fs_wf st' {#}"
proof -
  obtain c dead st1 d where f: "lru_clear (cached_lookup_files st) = (c, dead)"
      "unshare_all D dead (st\<lparr>cached_lookup_files := c\<rparr>) = Some st1" "st' = st1\<lparr>fs_fat := (fs_fat st1)\<lparr>F_device := d\<rparr>\<rparr>"
    using flush by (auto simp: flush_def bind_eq_Some_conv split: prod.splits)
  have c: "lru_view c = []" "dead = map snd (cached st)" "lru_inv c" "max_size c = 20"
    using lru.clear_view lru.clear_dead lru.inv_kept(4) lru_max_size(4) f(1) wf
    by (metis fst_conv, metis snd_conv, metis fst_conv, metis fst_conv fs_wf_def)
  have "fs_wf (st\<lparr>cached_lookup_files := c\<rparr>) (mset dead)" using wf c by (simp add: fs_wf_def)
  then have "post (unshare_all D dead (st\<lparr>cached_lookup_files := c\<rparr>)) (\<lambda>st'. fs_wf st' {#})"
    by (rule unshare_all_wp) simp_all
  from postD [OF this f(2)] have w: "fs_wf st1 {#}" .
  then show "fs_wf st' {#}" using f(3) by simp
  have "cached st1 = []" using unshare_cache(2) [OF f(2)] c(1) by simp
  then show "fs_objs st' = (\<lambda>_. None)" using w f(3) by (auto simp: fs_wf_def counted_def)
qed

lemma fs_wf_idle:
  assumes "fs_wf st {#}"
  shows "fs_objs st a \<noteq> None \<longleftrightarrow> a \<in> snd ` set (cached st)" and "fs_objs st a \<noteq> None \<Longrightarrow> fs_refs st a = 1"
    and "card {a. fs_objs st a \<noteq> None} \<le> 20" and "distinct (map snd (cached st))"
proof -
  have inv: "lru_inv (cached_lookup_files st)" using assms by (simp add: fs_wf_def)
  show alive: "fs_objs st a \<noteq> None \<longleftrightarrow> a \<in> snd ` set (cached st)" for a
    using assms by (auto simp: fs_wf_def counted_def)
  have len: "length (cached st) \<le> 20" using lru.view_bound [OF inv] assms by (simp add: fs_wf_def)
  have "{a. fs_objs st a \<noteq> None} = snd ` set (cached st)" using alive by auto
  then have "card {a. fs_objs st a \<noteq> None} \<le> length (cached st)"
    using card_image_le [of "set (cached st)" snd] card_length [of "cached st"] by simp
  with len show "card {a. fs_objs st a \<noteq> None} \<le> 20" by simp
  show d: "distinct (map snd (cached st))"
  proof -
    have k: "distinct (map fst (cached st))" by (rule lru.view_distinct [OF inv])
    have "inj_on snd (set (cached st))"
    proof (rule inj_onI, goal_cases)
      case (1 p q)
      have key: "\<exists>f. fs_objs st (snd p) = Some f \<and> ino f = fst p" if "p \<in> set (cached st)" for p
        using assms that by (auto simp: fs_wf_def)
      have "fst p = fst q" using key [OF 1(1)] key [OF 1(2)] 1(3) by auto
      with 1 show ?case by (simp add: prod_eq_iff)
    qed
    then show ?thesis using k by (simp add: distinct_map)
  qed
  show "fs_refs st a = 1" if "fs_objs st a \<noteq> None"
  proof -
    have "fs_refs st a = count (mset (map snd (cached st))) a" using assms by (simp add: fs_wf_def counted_def)
    also have "\<dots> = (if a \<in> set (map snd (cached st)) then 1 else 0)" using d unfolding distinct_count_atmost_1 by blast
    also have "\<dots> = 1" using that alive [of a] by auto
    finally show ?thesis .
  qed
qed

end
