(* ===== verification/CacheSteps.thy ===== *)
theory CacheSteps
  imports FsRefs
begin

text \<open>
  The steps of a handler on objects that are in the cache, run forward: the pointers it takes and gives
  back, methods on an object, and the removal from the cache. Each lemma gives the state after the step
  by its volume, its objects and what the cache finds (the order in the cache changes).
\<close>

section \<open>Pointers\<close>

abbreviation finds :: "'d FAT32fs \<Rightarrow> u64 \<rightharpoonup> nat" where
  "finds st \<equiv> map_of (cached st)"

lemma finds_mem:
  assumes "fs_wf st own"
  shows "a \<in># mset (map snd (cached st)) \<longleftrightarrow> (\<exists>k. finds st k = Some a)"
proof -
  have inv: "lru_inv (cached_lookup_files st)" using assms by (simp add: fs_wf_def)
  show ?thesis using lru.view_distinct [OF inv] by (auto intro: map_of_is_SomeI dest: map_of_SomeD) force
qed

lemma finds_object:
  assumes "fs_wf st own" and "finds st k = Some a"
  shows "\<exists>f. fs_objs st a = Some f \<and> ino f = k"
  using assms by (auto simp: fs_wf_def dest!: map_of_SomeD)

lemma unshare_kept:
  assumes wf: "fs_wf st (add_mset a own)" and more: "a \<in># own \<or> (\<exists>k. finds st k = Some a)"
  shows "\<exists>st'. unshare D a st = Some st' \<and> fs_wf st' own \<and> fs_fat st' = fs_fat st \<and> fs_objs st' = fs_objs st \<and> finds st' = finds st"
proof -
  let ?M = "own + mset (map snd (cached st))"
  have c: "counted (fs_objs st) (fs_refs st) (fs_next st) (add_mset a ?M)" using wf by (simp add: fs_wf_def)
  have "a \<in># ?M" using more finds_mem [OF wf] by auto
  then have r: "fs_refs st a \<noteq> 1" using c by (auto simp: counted_def not_in_iff [symmetric])
  let ?st = "st\<lparr>fs_refs := (fs_refs st)(a := fs_refs st a - 1)\<rparr>"
  have "fs_wf ?st own" using wf counted_unshare(2) [OF c r] by (simp add: fs_wf_def)
  then show ?thesis using r by (intro exI [of _ ?st]) (simp add: unshare_def)
qed

lemma unshare_last:
  assumes wf: "fs_wf st (add_mset a own)" and last: "a \<notin># own" "\<And>k. finds st k \<noteq> Some a"
    and f: "fs_objs st a = Some f" "File_destroy D (fs_fat st) f = Some F'"
  shows "\<exists>st'. unshare D a st = Some st' \<and> fs_wf st' own \<and> fs_fat st' = F' \<and> fs_objs st' = (fs_objs st)(a := None) \<and> finds st' = finds st"
proof -
  let ?M = "own + mset (map snd (cached st))"
  have c: "counted (fs_objs st) (fs_refs st) (fs_next st) (add_mset a ?M)" using wf by (simp add: fs_wf_def)
  have n: "a \<notin># ?M" using last finds_mem [OF wf] by auto
  then have "count ?M a = 0" by (simp only: not_in_iff)
  moreover have "fs_refs st a = count (add_mset a ?M) a" using c unfolding counted_def by blast
  ultimately have r: "fs_refs st a = 1" by simp
  let ?st = "st\<lparr>fs_fat := F', fs_objs := (fs_objs st)(a := None), fs_refs := (fs_refs st)(a := 0)\<rparr>"
  have u: "unshare D a st = Some ?st" using r f by (simp add: unshare_def)
  have "fs_wf ?st own" using postD [OF unshare_wp [OF wf, of a "\<lambda>st. fs_wf st own" D] u] by simp
  then show ?thesis using u by (intro exI [of _ ?st]) simp
qed

section \<open>The cache\<close>

lemma getFileByIno_cached:
  assumes wf: "fs_wf st own" and k: "finds st k = Some a"
  shows "\<exists>st'. getFileByIno D C k st = Some (Some a, st') \<and> fs_wf st' (add_mset a own) \<and> fs_fat st' = fs_fat st
    \<and> fs_objs st' = fs_objs st \<and> finds st' = finds st"
proof -
  obtain r c where get: "lru_get (cached_lookup_files st) k = (r, c)" by fastforce
  have inv: "lru_inv (cached_lookup_files st)" using wf by (simp add: fs_wf_def)
  have r: "r = Some a" using lru.get_val [OF inv, of k] get k by simp
  note wf1 = lru_get_wf [OF wf get]
  obtain f where "fs_objs st a = Some f" using wf1(2) [OF r] by blast
  then have "fs_wf (share a (st\<lparr>cached_lookup_files := c\<rparr>)) (add_mset a own)" using share_wf [OF wf1(1), of a f] by simp
  moreover have "map_of (lru_view c) = finds st" using lru.get_lookup [OF inv, of k] get by fastforce
  ultimately show ?thesis by (simp add: getFileByIno_def get r share_def)
qed

lemma getExistFile_cached:
  assumes "fs_wf st own" and "finds st (node_ino n) = Some a"
  shows "\<exists>st'. getExistFile D en n st = Some (a, st') \<and> fs_wf st' (add_mset a own) \<and> fs_fat st' = fs_fat st
    \<and> fs_objs st' = fs_objs st \<and> finds st' = finds st"
  using getFileByIno_cached [OF assms, of D "conv en"] by (auto simp: getExistFile_def)

lemma getExistDir_cached:
  assumes "fs_wf st own" and "finds st (node_ino n) = Some a" and "fs_objs st a = Some f" and "f_is_dir f"
  shows "\<exists>st'. getExistDir D en n st = Some (a, st') \<and> fs_wf st' (add_mset a own) \<and> fs_fat st' = fs_fat st
    \<and> fs_objs st' = fs_objs st \<and> finds st' = finds st"
  using getFileByIno_cached [OF assms(1,2), of D "conv en"] assms(3,4) by (auto simp: getExistDir_def getDirByIno_def isDir_def)

lemma rm_from_cache:
  assumes wf: "fs_wf st own" and k: "\<And>a. finds st k = Some a \<Longrightarrow> a \<in># own"
  shows "\<exists>st'. rmFileFromCacheByIno D k st = Some st' \<and> fs_wf st' own \<and> fs_fat st' = fs_fat st
    \<and> fs_objs st' = fs_objs st \<and> finds st' = (finds st)(k := None)"
proof -
  let ?c = "cached_lookup_files st"
  obtain r c where rc: "lru_remove ?c k = (r, c)" by fastforce
  have inv: "lru_inv ?c" using wf by (simp add: fs_wf_def)
  have view: "lru_view c = rl_drop k (cached st)" "r = finds st k" "lru_inv c" "max_size c = 20"
    using lru.remove_view [OF inv, of k] lru.remove_val [OF inv, of k] lru.inv_kept(3) [OF inv, of k] lru_max_size(3) [of ?c k] wf rc
    by (simp_all add: fs_wf_def)
  let ?st = "st\<lparr>cached_lookup_files := c\<rparr>"
  have wf1: "fs_wf ?st (own + mset (case r of Some v \<Rightarrow> [v] | None \<Rightarrow> []))"
    using wf mset_rl_drop(2) [OF lru.view_distinct [OF inv], of k] view by (auto simp: fs_wf_def rl_drop_def ac_simps)
  have lk: "finds ?st = (finds st)(k := None)" using view(1) by (auto simp: rl_drop_lookup)
  show ?thesis
  proof (cases r)
    case None
    then show ?thesis using wf1 lk by (simp add: rmFileFromCacheByIno_def rc)
  next
    case (Some a)
    have "fs_wf ?st (add_mset a own)" using wf1 Some by simp
    moreover have "a \<in># own" using k view(2) Some by simp
    ultimately obtain st' where "unshare D a ?st = Some st'" "fs_wf st' own" "fs_fat st' = fs_fat ?st" "fs_objs st' = fs_objs ?st"
        "finds st' = finds ?st"
      using unshare_kept [of ?st a own D] by blast
    then show ?thesis using lk by (simp add: rmFileFromCacheByIno_def rc Some)
  qed
qed

section \<open>Methods\<close>

lemma on_file_step:
  assumes wf: "fs_wf st own" and f: "fs_objs st a = Some f" and m: "m (fs_fat st) f = Some (r, f', F')" and i: "ino f' = ino f"
  shows "\<exists>st'. on_file a m st = Some (r, st') \<and> fs_wf st' own \<and> fs_fat st' = F' \<and> fs_objs st' = (fs_objs st)(a := Some f')
    \<and> finds st' = finds st"
  using fs_wf_obj(1) [OF wf f i, of F'] f m by (simp add: on_file_def)

lemma cached_method:
  assumes wf: "fs_wf st {#}" and k: "finds st (node_ino n) = Some a" and f: "fs_objs st a = Some f"
    and m: "m (fs_fat st) f = Some (r, f', F')" and i: "ino f' = ino f"
  shows "\<exists>st1 st2 st3. getExistFile D en n st = Some (a, st1) \<and> on_file a m st1 = Some (r, st2) \<and> unshare D a st2 = Some st3
    \<and> fs_wf st3 {#} \<and> fs_fat st3 = F' \<and> fs_objs st3 = (fs_objs st)(a := Some f') \<and> finds st3 = finds st"
proof -
  obtain st1 where s1: "getExistFile D en n st = Some (a, st1)" "fs_wf st1 {#a#}" "fs_fat st1 = fs_fat st" "fs_objs st1 = fs_objs st"
      "finds st1 = finds st"
    using getExistFile_cached [OF wf k] by blast
  obtain st2 where s2: "on_file a m st1 = Some (r, st2)" "fs_wf st2 {#a#}" "fs_fat st2 = F'" "fs_objs st2 = (fs_objs st)(a := Some f')"
      "finds st2 = finds st"
    using on_file_step [where m = m, OF s1(2) _ _ i, of a] f m unfolding s1(3-5) by blast
  obtain st3 where "unshare D a st2 = Some st3" "fs_wf st3 {#}" "fs_fat st3 = F'" "fs_objs st3 = (fs_objs st)(a := Some f')"
      "finds st3 = finds st"
    using unshare_kept [OF s2(2), of D] k unfolding s2(3-5) by blast
  with s1(1) s2(1) show ?thesis by blast
qed

end
