(* ===== verification/FsProps.thy ===== *)
theory FsProps
  imports FileProps FileSync CacheSteps
begin

text \<open>
  What the file system object promises: mounting, and the objects behind the
  requests. A volume that can be mounted serves the witnesses.
\<close>

section \<open>Mounting\<close>

abbreviation info_marked :: "bytes \<Rightarrow> bytes" where
  "info_marked info \<equiv> put32 (put32 info 488 0xFFFFFFFF) 492 0xFFFFFFFF"

lemma fat_new_holds:
  assumes "disk_good d" and "fat_ok (disk_view d) bpb"
    and "\<And>k. k < unat (BPB_num_fats bpb) \<Longrightarrow> fat_tab (disk_view d) bpb k = E"
  shows "\<exists>F. FAT_new bpb n d = Some F \<and> disk_fat F E (disk_view d |` (- fat_secs bpb)) \<and> F_bpb F = bpb
    \<and> F_free_count F = n \<and> F_avail_clus_cnt F = None \<and> F_device F = d"
proof -
  obtain cnt where "getCountOfClusters bpb = Some cnt" "unat cnt = cluster_count bpb"
    using assms(2) unat_CountOfClusters [of bpb] by (auto simp: fat_ok_def)
  then show ?thesis using assms by (simp add: FAT_new_def fat_holds_def)
qed

lemma mount_ok:
  assumes "disk_good d" and "disk_view d 0 = Some boot" and "decode_BPB boot = Some bpb"
    and "isValidFat32BPB bpb = Some True" and "fat_ok (disk_view d) bpb"
    and "\<forall>k < unat (BPB_num_fats bpb). fat_tab (disk_view d) bpb k = E"
    and "disk_view d (ucast (BPB_fs_info bpb)) = Some info" and "decode_FSInfo info = Some i"
    and "assertFSInfo i = Some ()" and "ucast (BPB_fs_info bpb) \<notin> fat_secs bpb"
  shows "\<exists>F. FAT32fs_from disk_ops d = Some (Inr (FAT32fs_new F)) \<and> F_bpb F = bpb
    \<and> disk_fat F E ((disk_view d)(ucast (BPB_fs_info bpb) \<mapsto> info_marked info) |` (- fat_secs bpb))
    \<and> F_free_count F = free_count i \<and> avail_ok F E"
proof -
  let ?n = "ucast (BPB_fs_info bpb) :: u32"
  have len: "length info = 512" using assms(5,7) by (auto simp: fat_ok_def SECTOR_SIZE_def)
  have sz: "unat (0 :: u32) < SECTOR_SIZE" by (simp add: SECTOR_SIZE_def)
  obtain d1 where d1: "dev_load disk_ops d 0 0 = Some (boot, d1)" "disk_good d1" "disk_view d1 = disk_view d"
    using lfd.cached.dev_load_ok [OF assms(1,2) sz] by auto
  obtain d2 where d2: "dev_load disk_ops d1 ?n 0 = Some (info, d2)" "disk_good d2" "disk_view d2 = disk_view d"
    using lfd.cached.dev_load_ok [OF d1(2), of ?n info 0] assms(7) d1(3) sz by auto
  have m: "invalidate_info (drop (unat (0 :: u32)) info) = Some (info_marked info)" by (simp add: invalidate_info_def len)
  have ml: "length (info_marked info) = SECTOR_SIZE - unat (0 :: u32)" by (simp add: len SECTOR_SIZE_def)
  have v2: "disk_view d2 ?n = Some info" using assms(7) d2(3) by simp
  obtain d3 where d3: "dev_modify disk_ops d2 ?n 0 invalidate_info = Some d3" "disk_good d3"
      "disk_view d3 = (disk_view d)(?n \<mapsto> info_marked info)"
    using lfd.cached.dev_modify_ok [where f = invalidate_info, OF d2(2) v2 sz m ml] d2(3) by auto
  have g: "geometry_ok bpb" using assms(5) by (simp add: fat_ok_def)
  have "fat_ok (disk_view d3) bpb" using assms(5) ml unfolding d3(3) by (auto simp: fat_ok_def)
  moreover have "fat_tab (disk_view d3) bpb k = E" if "k < unat (BPB_num_fats bpb)" for k
    unfolding d3(3) fat_tab_upd [OF g assms(10) that] using assms(6) that by simp
  ultimately obtain F where F: "FAT_new bpb (free_count i) d3 = Some F"
      "disk_fat F E (disk_view d3 |` (- fat_secs bpb))" "F_bpb F = bpb" "F_free_count F = free_count i"
      "F_avail_clus_cnt F = None"
    using fat_new_holds [OF d3(2)] by blast
  have "FAT32fs_from disk_ops d = Some (Inr (FAT32fs_new F))"
    using d1(1) d2(1) d3(1) F(1) assms(3,4,8,9) by (simp add: FAT32fs_from_def)
  moreover have "avail_ok F E" using F(5) by (simp add: avail_ok_def)
  ultimately show ?thesis using F(2-4) unfolding d3(3) by blast
qed

text \<open>C14: Mounting a volume with a valid boot sector and \<open>FSInfo\<close> succeeds: the FAT object then shows
  the table of the volume, takes over the count of free clusters as the code keeps it, and the
  only change on the disk is that both counters of \<open>FSInfo\<close> are marked unknown.\<close>

theorem mount_reads_the_volume:
  assumes "disk_good d" and "disk_view d 0 = Some boot" and "decode_BPB boot = Some bpb"
    and "isValidFat32BPB bpb = Some True" and "fat_ok (disk_view d) bpb"
    and "\<forall>k < unat (BPB_num_fats bpb). fat_tab (disk_view d) bpb k = E"
    and "disk_view d (ucast (BPB_fs_info bpb)) = Some info" and "decode_FSInfo info = Some i"
    and "assertFSInfo i = Some ()" and "ucast (BPB_fs_info bpb) \<notin> fat_secs bpb"
  shows "\<exists>F. FAT32fs_from disk_ops d = Some (Inr (FAT32fs_new F)) \<and> F_bpb F = bpb
    \<and> disk_fat F E ((disk_view d)(ucast (BPB_fs_info bpb) \<mapsto> info_marked info) |` (- fat_secs bpb))
    \<and> F_free_count F = free_count i \<and> avail_ok F E"
  by (rule mount_ok [OF assms])

text \<open>A volume of 65532 clusters of one sector, with one FAT in which every entry is an end mark.\<close>

definition big_boot :: bytes where
  "big_boot = [0xEB, 0x58, 0x90] @ replicate 8 0x20 @
     [0, 2, 1, 32, 0, 1, 0, 0, 0, 0, 0xF8, 0, 0, 32, 0, 8, 0, 0, 0, 0, 0, 0x1C, 2, 1, 0, 0, 2, 0, 0, 0, 0, 0, 0,
      2, 0, 0, 0, 1, 0, 6, 0] @ replicate 12 0 @ [0x80, 0, 0x29, 0, 0, 0, 0] @ replicate 19 0x20"

definition big_byte :: "nat \<Rightarrow> u8" where
  "big_byte n = (if n < 90 then big_boot ! n else if n < 512 then 0
     else if n < 516 then bytes32 KFsInfoLeadSig ! (n - 512) else if n < 996 then 0
     else if n < 1000 then bytes32 KStrucSig ! (n - 996) else if n < 1008 then 0xFF else if n < 1020 then 0
     else if n < 1024 then bytes32 KTrailSig ! (n - 1020) else 0xFF)"

abbreviation big_len :: nat where
  "big_len \<equiv> 33830912"

definition big_BPB :: BPB where
  "big_BPB = the (decode_BPB (map big_byte [0..<512]))"

lemma big_fields: "decode_BPB (map big_byte [0..<512]) = Some big_BPB" "BPB_bytes_per_sec big_BPB = 512" "BPB_sec_per_clus big_BPB = 1"
  "BPB_resvd_sec_cnt big_BPB = 32" "BPB_num_fats big_BPB = 1" "BPB_FATsz16 big_BPB = 0" "BPB_tot_sec32 big_BPB = 66076"
  "BPB_FATsz32 big_BPB = 512" "BPB_root_clus big_BPB = 2" "BPB_fs_info big_BPB = 1" "BS_jmp_boot big_BPB ! 0 = 0xEB"
  "BS_jmp_boot big_BPB ! 2 = 0x90"
  by (simp_all add: big_BPB_def decode_BPB_def get16_def get32_def big_byte_def big_boot_def field_def nth_append nth_Cons'
      del: upt_rec_numeral)

lemma big_geometry: "geometry_ok big_BPB" "cluster_count big_BPB = 65532" "fat_area big_BPB = 544"
  by (simp_all add: geometry_ok_def cluster_count_def fat_area_def big_fields SECTOR_SIZE_def)

abbreviation big_V :: "u32 \<Rightarrow> bytes option" where
  "big_V \<equiv> image_view big_len big_byte"

definition big_E :: "u32 \<Rightarrow> u32" where
  "big_E n = (if unat n < 65536 then 0x0FFFFFFF else 0)"

lemma big_sectors: "big_V 0 = Some (map big_byte [0..<512])" "big_V 1 = Some (map big_byte [512..<1024])"
  "\<And>s. 2 \<le> unat s \<Longrightarrow> unat s < 66076 \<Longrightarrow> big_V s = Some (replicate 512 0xFF)"
proof -
  show "big_V 0 = Some (map big_byte [0..<512])" "big_V 1 = Some (map big_byte [512..<1024])"
    by (simp_all add: image_view_def SECTOR_SIZE_def del: upt_rec_numeral)
  fix s :: u32 assume s: "2 \<le> unat s" "unat s < 66076"
  have "map big_byte [unat s * 512..<unat s * 512 + 512] = replicate 512 0xFF"
    using s(1) by (intro replicate_eqI) (auto simp: big_byte_def)
  then show "big_V s = Some (replicate 512 0xFF)" using s by (simp add: image_view_def SECTOR_SIZE_def add.commute)
qed

lemma big_info: "decode_FSInfo (map big_byte [512..<1024]) = Some i \<Longrightarrow> free_count i = 0xFFFFFFFF \<and> assertFSInfo i = Some ()"
  by (auto simp: decode_FSInfo_def assertFSInfo_def get32_def big_byte_def KFsInfoLeadSig_def KStrucSig_def KTrailSig_def
      bytes32_def nth_Cons' simp del: upt_rec_numeral)

lemma big_fat_tab:
  assumes "k < 1"
  shows "fat_tab big_V big_BPB k = big_E"
proof
  fix n
  show "fat_tab big_V big_BPB k n = big_E n"
  proof (cases "unat n < 65536")
    case True
    have e: "fat_entries big_BPB = 65536" by (simp add: fat_entries_def big_fields)
    have "unat n div 128 < 512" using True by (simp add: div_less_iff_less_mult)
    then have "2 \<le> unat (fat_sec big_BPB k n)" "unat (fat_sec big_BPB k n) < 66076"
      using unat_fat_sec(1) [OF big_geometry(1), of k n] True assms by (simp_all add: big_fields e)
    note s = big_sectors(3) [OF this]
    have "unat n mod 128 < 128" by simp
    then have "get32 (replicate 512 0xFF) (4 * (unat n mod 128)) = 0xFFFFFFFF" by (simp add: get32_def)
    then show ?thesis using True unfolding fat_tab_def s by (simp add: big_E_def e)
  qed (simp add: fat_tab_def big_E_def fat_entries_def big_fields)
qed

lemma big_fat_ok: "fat_ok big_V big_BPB"
proof -
  have "big_V s \<noteq> None" if "unat s < 544" for s using that by (simp add: image_view_def SECTOR_SIZE_def)
  then have "fat_secs big_BPB \<subseteq> dom big_V" unfolding fat_secs_def big_geometry(3) by blast
  moreover have "length bs = SECTOR_SIZE" if "big_V s = Some bs" for s bs
    using that by (auto simp: image_view_def SECTOR_SIZE_def split: if_splits)
  moreover have "fat_entries big_BPB = 65536" by (simp add: fat_entries_def big_fields)
  ultimately show ?thesis using big_geometry(1,2) by (simp add: fat_ok_def)
qed

lemma big_disk: "disk_good (mount_disk big_len big_byte)" "disk_view (mount_disk big_len big_byte) = big_V"
  using mount_disk_good [of big_len big_byte] by simp_all

lemma big_valid: "isValidFat32BPB big_BPB = Some True"
  by (simp add: isValidFat32BPB_def getCountOfClusters_def getDataSecCnt_def big_fields)

lemma big_facts: "(ucast (BPB_fs_info big_BPB) :: u32) = 1" "(1 :: u32) \<notin> fat_secs big_BPB"
  "\<forall>k < unat (BPB_num_fats big_BPB). fat_tab big_V big_BPB k = big_E"
  by (simp_all add: big_fields fat_secs_def big_fat_tab)

definition big_R :: "u32 \<Rightarrow> bytes option" where
  "big_R = big_V(1 \<mapsto> info_marked (map big_byte [512..<1024])) |` (- fat_secs big_BPB)"

theorem mount_reads_the_volume_witness:
  "\<exists>F. FAT32fs_from disk_ops (mount_disk big_len big_byte) = Some (Inr (FAT32fs_new F)) \<and> F_bpb F = big_BPB
    \<and> disk_fat F big_E big_R \<and> F_free_count F = 0xFFFFFFFF"
proof -
  obtain i where i: "decode_FSInfo (map big_byte [512..<1024]) = Some i"
    by (simp add: decode_FSInfo_def del: upt_rec_numeral)
  note inf = big_info [OF this]
  show ?thesis
    using mount_reads_the_volume [OF big_disk(1), unfolded big_disk(2), OF big_sectors(1) big_fields(1) big_valid big_fat_ok big_facts(3),
      unfolded big_facts(1), OF big_sectors(2) i conjunct2 [OF inf] big_facts(2), folded big_R_def] conjunct1 [OF inf] by metis
qed

lemma mount_reads_big:
  "\<exists>F. FAT32fs_from disk_ops (mount_disk big_len big_byte) = Some (Inr (FAT32fs_new F)) \<and> F_bpb F = big_BPB
    \<and> disk_fat F big_E big_R \<and> F_free_count F = 0xFFFFFFFF"
proof -
  obtain i where i: "decode_FSInfo (map big_byte [512..<1024]) = Some i"
    by (simp add: decode_FSInfo_def del: upt_rec_numeral)
  note inf = big_info [OF this]
  show ?thesis
    using mount_ok [OF big_disk(1), unfolded big_disk(2), OF big_sectors(1) big_fields(1) big_valid big_fat_ok big_facts(3),
      unfolded big_facts(1), OF big_sectors(2) i conjunct2 [OF inf] big_facts(2), folded big_R_def] conjunct1 [OF inf] by metis
qed

lemma big_root: "isValidCluster 2" "BPB_root_clus big_BPB = 2" "F_bpb F = big_BPB \<Longrightarrow> chain (fat_size F) big_E 2 [2]" "data_clus big_BPB 2"
  "clus_secs big_BPB 2 \<subseteq> dom big_R"
proof -
  show "clus_secs big_BPB 2 \<subseteq> dom big_R"
  proof
    fix s assume "s \<in> clus_secs big_BPB 2"
    then have "unat s = 544"
      using unat_FirstSectorOfCluster(1) [OF big_geometry(1), of 2] by (simp add: clus_secs_def big_geometry big_fields)
    then show "s \<in> dom big_R" using big_sectors(3) [of s] by (auto simp: big_R_def fat_secs_def big_geometry)
  qed
  assume "F_bpb F = big_BPB"
  then show "chain (fat_size F) big_E 2 [2]"
    by (simp add: fat_entries_def big_fields big_E_def isEndOfClusChain_def)
qed (simp_all add: big_fields data_clus_def big_geometry isValidCluster_def)

section \<open>Requests\<close>

text \<open>The demo file in the cache, and an environment.\<close>

definition demo_env :: env where
  "demo_env = \<lparr>conv = \<lparr>utf8ToGbk = Some, gbkToUtf8 = Some, utf8ToUtf16 = Some, utf16ToUtf8 = Some\<rparr>,
     mktime = (\<lambda>t. 0), direntry = (\<lambda>nm st off. nm), direntry_plus = (\<lambda>nm st n off. nm)\<rparr>"

definition demo_fs :: "lfd cache_mgr FAT32fs" where
  "demo_fs = \<lparr>fs_fat = demo_FAT, fs_objs = [0 \<mapsto> demo_file], fs_refs = (\<lambda>_. 0)(0 := 1), fs_next = 1,
     cached_lookup_files = fst (lru_put (lru_new 20) 0x200000000 0)\<rparr>"

lemma demo_fs_sel [simp]: "fs_fat demo_fs = demo_FAT" "fs_objs demo_fs 0 = Some demo_file" "cached demo_fs = [(0x200000000, 0)]"
  using lru_put_correct(1) [OF lru_new_inv [of 20], of "0x200000000 :: u64" "0 :: nat"]
  by (simp_all add: demo_fs_def lru_new_view rl_put_def rl_drop_def) (simp add: lru_new_def)

lemma demo_fs_wf: "fs_wf demo_fs {#}"
proof -
  have "ino demo_file = 0x200000000" by (simp add: ino_def demo_file_def)
  moreover have "max_size (lru_new 20 :: (u64, nat) lru) = 20" by (simp add: lru_new_def)
  then have "lru_inv (cached_lookup_files demo_fs)" "max_size (cached_lookup_files demo_fs) = 20"
    using lru_put_correct(3) [OF lru_new_inv [of 20]] by (simp_all add: demo_fs_def lru_max_size(1))
  ultimately show ?thesis by (simp add: fs_wf_def counted_def) (simp add: demo_fs_def)
qed

lemma demo_node: "node_ino 0x200000000 = 0x200000000"
  by (simp add: node_ino_def)

lemma demo_read: "take 4 (drop 2998 (file_bytes demo_R demo_BPB demo_file [3, 4, 5])) = [0, 0]"
  unfolding demo_bytes drop_replicate by (simp add: numeral_2_eq_2)

text \<open>C9: No request leaves a dangling pointer or a leak: after any history of requests every live
  object is in the lookup cache under its own inode number, has exactly that one pointer, and
  there are at most 20 of them; the cache points to live objects only.\<close>

theorem requests_keep_objects_sound:
  assumes "fs_wf st {#}" and "serve_all D en reqs st = Some (replies, st')"
  shows "fs_wf st' {#} \<and> length replies = length reqs \<and> card {a. fs_objs st' a \<noteq> None} \<le> 20
    \<and> (\<forall>a f. fs_objs st' a = Some f \<longrightarrow> fs_refs st' a = 1 \<and> (ino f, a) \<in> set (cached st'))
    \<and> (\<forall>(k, a) \<in> set (cached st'). fs_objs st' a \<noteq> None)"
proof -
  from postD [OF serve_all_wf [OF assms(1)] assms(2)] have wf: "fs_wf st' {#}" and len: "length replies = length reqs" by simp_all
  have key: "\<exists>f. fs_objs st' a = Some f \<and> ino f = k" if "(k, a) \<in> set (cached st')" for k a
    using wf that by (auto simp: fs_wf_def)
  have "(ino f, a) \<in> set (cached st')" if "fs_objs st' a = Some f" for a f
    using fs_wf_idle(1) [OF wf, of a] that key by force
  then show ?thesis using wf len fs_wf_idle(2,3) [OF wf] key by fastforce
qed

lemma cached_read_ok:
  assumes "fs_wf st {#}" and "map_of (cached st) (node_ino n) = Some a" and "fs_objs st a = Some f"
    and "disk_file (fs_fat st) E R f xs" and "sz < 4294967295"
  shows "\<exists>st'. serve disk_ops en now (Read_req n sz off) st
      = Some (Reply_buf (take (unat sz) (drop (unat (ucast off :: u32)) (file_bytes R (F_bpb (fs_fat st)) f xs))), st')
    \<and> fs_wf st' {#} \<and> disk_fat (fs_fat st') E R"
proof -
  let ?out = "take (unat sz) (drop (unat (ucast off :: u32)) (file_bytes R (F_bpb (fs_fat st)) f xs))"
  have le: "\<not> 4294967295 \<le> sz" using assms(5) by simp
  have cut: "unat (ucast sz :: u32) = unat sz" using assms(5) by (simp add: unsigned_ucast_eq take_bit_nat_eq_self word_less_nat_alt)
  obtain f' F' where rd: "File_read disk_ops now (fs_fat st) f (ucast sz) (ucast off) = Some (?out, f', F')" "disk_file F' E R f' xs"
    using read_step [OF assms(4), of now "ucast sz" "ucast off"] unfolding cut by blast
  have i: "ino f' = ino f" using postD [OF File_read_wp rd(1), of "\<lambda>(_, f', _). ino f' = ino f"] by simp
  from cached_method [where m = "\<lambda>F f. File_read disk_ops now F f (ucast sz) (ucast off)", OF assms(1-3) rd(1) i, of disk_ops en]
  show ?thesis using le file_okD(1) [OF rd(2)] by (auto simp: fat32_read_def)
qed

theorem requests_keep_objects_sound_witness:
  "\<exists>st'. serve_all disk_ops demo_env [(demo_now, Read_req 0x200000000 4 2998)] demo_fs = Some ([Reply_buf [0, 0]], st')
    \<and> fs_wf st' {#} \<and> card {a. fs_objs st' a \<noteq> None} \<le> 20"
proof -
  obtain st' where r: "serve disk_ops demo_env demo_now (Read_req 0x200000000 4 2998) demo_fs = Some (Reply_buf [0, 0], st')"
    using cached_read_ok [OF demo_fs_wf, of "0x200000000" 0 demo_file demo_E demo_R "[3, 4, 5]" 4 demo_env demo_now 2998]
      demo_file_ok demo_read by (auto simp: demo_node demo_count)
  have "serve_all disk_ops demo_env [(demo_now, Read_req 0x200000000 4 2998)] demo_fs = Some ([Reply_buf [0, 0]], st')"
    by (simp only: serve_all.simps r) simp
  from this requests_keep_objects_sound [OF demo_fs_wf this] show ?thesis by blast
qed

lemma sessionD:
  assumes "session D en d reqs = Some (Inr (replies, st))"
  shows "\<exists>st0 st1. FAT32fs_from D d = Some (Inr st0) \<and> serve_all D en reqs st0 = Some (replies, st1) \<and> flush D st1 = Some st"
proof -
  obtain r where r: "FAT32fs_from D d = Some r" using assms by (auto simp: session_def bind_eq_Some_conv)
  then obtain st0 where "r = Inr st0" using assms by (cases r) (simp_all add: session_def)
  with r assms show ?thesis by (auto simp: session_def bind_eq_Some_conv)
qed

text \<open>When the program ends after serving any requests, the final flush has destroyed every object.\<close>

lemma session_destroys_every_object:
  assumes "session D en d reqs = Some (Inr (replies, st))"
  shows "fs_objs st = (\<lambda>_. None) \<and> length replies = length reqs"
proof -
  obtain st0 st1 where s: "FAT32fs_from D d = Some (Inr st0)" "serve_all D en reqs st0 = Some (replies, st1)" "flush D st1 = Some st"
    using sessionD [OF assms] by blast
  from postD [OF serve_all_wf [OF mount_wf [OF s(1)]] s(2)] have "fs_wf st1 {#}" "length replies = length reqs" by simp_all
  with flush_empties(1) [OF _ s(3)] show ?thesis by blast
qed

text \<open>The big volume is mounted, the root directory opened, and the program ends.\<close>

lemma opendir_root_ok:
  assumes "disk_fat F E R" and "isValidCluster c" and "BPB_root_clus (F_bpb F) = c" and "chain (fat_size F) E c xs" and "xs \<noteq> []"
    and "\<forall>x \<in> set xs. data_clus (F_bpb F) x \<and> clus_secs (F_bpb F) x \<subseteq> dom R"
  shows "\<exists>d. fat32_opendir disk_ops en 1 (FAT32fs_new F)
    = Some (Reply_open, (FAT32fs_new (F\<lparr>F_device := d\<rparr>))\<lparr>fs_next := 1\<rparr>) \<and> disk_fat (F\<lparr>F_device := d\<rparr>) E R"
proof -
  let ?root = "mkRootDir c"
  have "f_fst_clus ?root = c"
    by (simp add: mkRootDir_def File_new_def readEntryClusNo_set)
  moreover have root: "f_is_dir ?root" "f_clus_chain ?root = None" "\<not> f_is_deleted ?root" "ino ?root = KRootDirIno"
    by (simp_all add: mkRootDir_def File_new_def ino_def KRootDirIno_def)
  ultimately have "file_holds F E R ?root xs" using assms(2-6) by (simp add: file_holds_def)
  from lfd.cached.File_sync_data_ok [OF assms(1) this, of True False] root obtain d where
    d: "File_sync disk_ops F ?root False True = Some (with_chain xs ?root, F\<lparr>F_device := d\<rparr>)" "disk_fat (F\<lparr>F_device := d\<rparr>) E R"
    by auto
  have "lru_get (lru_new 20 :: (u64, nat) lru) 0 = (None, lru_new 20)" by (simp add: lru_get_def lru_new_def)
  then show ?thesis
    using d root assms(3) by (intro exI [of _ d])
      (simp add: fat32_opendir_def getExistFile_def getFileByIno_def node_ino_def FAT32fs_new_def KRootDirIno_def
        getRootDir_def make_shared_def isDir_def unshare_def File_destroy_def Let_def fun_eq_iff)
qed

lemma big_session:
  "\<exists>st. session disk_ops demo_env (mount_disk big_len big_byte) [(demo_now, Opendir_req 1), (demo_now, Mknod_req)]
      = Some (Inr ([Reply_open, Reply_err EPERM], st))"
proof -
  obtain F where F: "FAT32fs_from disk_ops (mount_disk big_len big_byte) = Some (Inr (FAT32fs_new F))"
      "F_bpb F = big_BPB" "disk_fat F big_E big_R"
    using mount_reads_big by blast
  obtain d where d: "fat32_opendir disk_ops demo_env 1 (FAT32fs_new F)
      = Some (Reply_open, (FAT32fs_new (F\<lparr>F_device := d\<rparr>))\<lparr>fs_next := 1\<rparr>)" "disk_fat (F\<lparr>F_device := d\<rparr>) big_E big_R"
    using opendir_root_ok [OF F(3) big_root(1) _ big_root(3) [OF F(2)], of demo_env] big_root(2,4,5) unfolding F(2) by auto
  obtain d2 where c: "d_clear disk_ops d = Some d2"
    using lfd.cached.clear_device [of d] d(2) by (auto simp: fat_holds_def)
  have "flush disk_ops ((FAT32fs_new (F\<lparr>F_device := d\<rparr>))\<lparr>fs_next := 1\<rparr>)
      = Some (FAT32fs_new (F\<lparr>F_device := d2\<rparr>)\<lparr>fs_next := 1\<rparr>)"
    by (simp add: flush_def FAT32fs_new_def lru_clear_def lru_new_def c)
  then show ?thesis by (simp add: session_def F(1) d(1) fat32_mknod_def)
qed

end
