(* ===== verification/DirProps.thy ===== *)
theory DirProps
  imports DirDelete FsProps
begin

text \<open>
  What the methods of \<open>Directory\<close> promise on a mounted image, and a directory for the witnesses.
\<close>

abbreviation disk_dir :: "lfd cache_mgr FAT \<Rightarrow> (u32 \<Rightarrow> u32) \<Rightarrow> (u32 \<Rightarrow> bytes option) \<Rightarrow> fobj \<Rightarrow> u32 list \<Rightarrow> bool" where
  "disk_dir \<equiv> dir_ok disk_good disk_view"

abbreviation disk_dir_kept :: "(u32 \<Rightarrow> u32) \<Rightarrow> (u32 \<Rightarrow> bytes option) \<Rightarrow> u32 list \<Rightarrow> lfd cache_mgr FAT \<Rightarrow> fobj \<Rightarrow> fobj \<Rightarrow>
    lfd cache_mgr FAT \<Rightarrow> bool" where
  "disk_dir_kept \<equiv> dir_kept disk_good disk_view"

section \<open>A directory for the witnesses\<close>

text \<open>The root directory of the demo volume, with any entries in its first slots.\<close>

lemma demo_root_ok: "disk_dir demo_FAT demo_E demo_R (mkRootDir 2) [2]" "ino (mkRootDir 2) = KRootDirIno"
proof -
  have "f_fst_clus (mkRootDir 2) = 2" by (simp add: mkRootDir_def File_new_def readEntryClusNo_set)
  moreover have r: "f_is_dir (mkRootDir 2)" "f_clus_chain (mkRootDir 2) = None" "ino (mkRootDir 2) = KRootDirIno"
    by (simp_all add: mkRootDir_def File_new_def ino_def KRootDirIno_def)
  moreover have "chain (fat_size demo_FAT) demo_E 2 [2]"
    by (simp add: demo_size demo_E_def demo_table_def isEndOfClusChain_def KFat32EocMark_def)
  moreover have "data_clus demo_BPB 2" by (simp add: data_clus_def demo_BPB_ok)
  ultimately have "file_holds demo_FAT demo_E demo_R (mkRootDir 2) [2]"
    using demo_data_secs [of 2] by (simp add: file_holds_def demo_count isValidCluster_def)
  then show "disk_dir demo_FAT demo_E demo_R (mkRootDir 2) [2]" "ino (mkRootDir 2) = KRootDirIno"
    using demo_holds r by (simp_all add: dir_ok_def demo_count) (simp add: demo_BPB_def)
qed

lemma demo_root_slots: "dir_slots demo_R demo_BPB [2] = replicate 32 zero_entry"
proof -
  have "1024 * length [2 :: u32] = 1024" by simp
  with demo_zero [of demo_FAT demo_E "mkRootDir 2" "[2]"] demo_root_ok(1)
  have z: "file_content demo_R demo_BPB [2] = replicate 1024 0" by (simp only: dir_ok_def demo_count)
  show ?thesis
    unfolding dir_slots_def z by (intro nth_equalityI) (simp_all add: nth_slots_of zero_entry_def)
qed

lemma demo_dir_wrote:
  assumes "\<forall>e \<in> set es. wf_long e" and "length es \<le> 32"
  shows "\<exists>F E R f. dir_wrote disk_good disk_view demo_FAT demo_E demo_R (mkRootDir 2) [2] F E R f
    \<and> dir_slots R (F_bpb F) [2] = es @ replicate (32 - length es) zero_entry"
  using assms
proof (induction es rule: rev_induct)
  case Nil
  show ?case using dir_wrote_refl [OF demo_root_ok(1)]
    by (intro exI [of _ demo_FAT] exI [of _ demo_E] exI [of _ demo_R] exI [of _ "mkRootDir 2"]) (simp add: demo_count demo_root_slots)
next
  case (snoc e es)
  then obtain F E R f where d: "dir_wrote disk_good disk_view demo_FAT demo_E demo_R (mkRootDir 2) [2] F E R f"
      "dir_slots R (F_bpb F) [2] = es @ replicate (32 - length es) zero_entry" by auto
  have ok: "disk_dir F E R f [2]" using d(1) by (simp add: dir_wrote_def dir_next_def)
  have "length es < length (es @ replicate (32 - length es) zero_entry)" "wf_long e" using snoc.prems by simp_all
  from lfd.cached.writeDirEntry_wrote [OF ok d(2) this, of demo_now] obtain F' f' E' R' where
    w: "dir_wrote disk_good disk_view F E R f [2] F' E' R' f'"
      "dir_slots R' (F_bpb F') [2] = (es @ replicate (32 - length es) zero_entry)[length es := e]" by blast
  have "(32 - length es) = Suc (32 - length (es @ [e]))" using snoc.prems(2) by simp
  then have "(es @ replicate (32 - length es) zero_entry)[length es := e] = (es @ [e]) @ replicate (32 - length (es @ [e])) zero_entry"
    by simp
  then show ?case using w(2) dir_wrote_trans [OF d(1) w(1)] by metis
qed

lemma demo_dir:
  assumes "\<forall>e \<in> set es. wf_long e" and "length es \<le> 32"
  shows "\<exists>F E R f. disk_dir F E R f [2] \<and> F_bpb F = demo_BPB \<and> ino f = KRootDirIno
    \<and> dir_slots R demo_BPB [2] = es @ replicate (32 - length es) zero_entry"
  using demo_dir_wrote [OF assms] demo_root_ok(2) by (fastforce simp: dir_wrote_def dir_next_def demo_count)

text \<open>A file \<open>a\<close> with a long entry, and \<open>B\<close> with a short entry only.\<close>

definition demo_short :: "bytes \<Rightarrow> LongDirEntry" where
  "demo_short p = castShortDirEntryToLong (mkShortDirEntry \<lparr>ts2_tt = 0, ts2_ts = \<lparr>ts_time = 0, ts_date = 33\<rparr>\<rparr>
     \<lparr>primary = p @ replicate (8 - length p) 0x20 @ [0], extension = [0x20, 0x20, 0x20, 0]\<rparr> False)"

definition demo_long :: LongDirEntry where
  "demo_long = mkLongDirEntry True 1 (chkSum \<lparr>primary = 0x41 # replicate 7 0x20 @ [0], extension = [0x20, 0x20, 0x20, 0]\<rparr>) [0x61, 0] 0"

abbreviation demo_items :: "dir_item list" where
  "demo_items \<equiv> [Present [demo_long] (demo_short [0x41]), Deleted (setDirEntryEmpty zero_entry), Present [] (demo_short [0x42])]"

lemma demo_items_ok: "\<forall>it \<in> set demo_items. item_ok it"
  by code_simp

lemma demo_find: "find_item [0x61, 0] [0x41, 0] 0 demo_items = Some \<lparr>range_start = 0, range_count = 2\<rparr>"
  by code_simp

lemma demo_listed: "list_items 0 demo_items =
    [(0, castLongDirEntryToShort (demo_short [0x41]), [demo_long], 2), (3, castLongDirEntryToShort (demo_short [0x42]), [], 4)]"
  by simp

lemma demo_listing: "\<exists>F E R f. disk_dir F E R f [2] \<and> F_bpb F = demo_BPB \<and> ino f = KRootDirIno
    \<and> dir_slots R (F_bpb F) [2] = items_slots demo_items @ replicate 28 zero_entry
    \<and> dir_items (dir_slots R (F_bpb F) [2]) demo_items"
proof -
  have "\<forall>e \<in> set (items_slots demo_items). wf_long e" by code_simp
  from demo_dir [OF this] obtain F E R f where d: "disk_dir F E R f [2]" "F_bpb F = demo_BPB" "ino f = KRootDirIno"
      "dir_slots R demo_BPB [2] = items_slots demo_items @ replicate 28 zero_entry" by auto
  moreover have "isLstEmptyDirEntry zero_entry" by code_simp
  then have "dir_items (items_slots demo_items @ replicate 28 zero_entry) demo_items"
    unfolding dir_items_def using demo_items_ok end_is_empty by (intro conjI exI [of _ "replicate 28 zero_entry"]) simp_all
  ultimately show ?thesis by metis
qed

section \<open>Looking up, listing, deleting\<close>

text \<open>C25: The search for a name in a directory gives the entries of the first file of that name among
  the files before the end mark: by its long name if it has long entries, else by its short name.
  It comes back on every such directory, whatever lies behind the end mark.\<close>

theorem lookup_finds_the_first_file:
  assumes "disk_dir F E R f xs" and "dir_slots R (F_bpb F) xs = items_slots items @ tail"
    and "\<forall>it \<in> set items. item_ok it" and "tail = [] \<or> isLstEmptyDirEntry (hd tail)"
    and "utf8ToUtf16 C nm = Some u" and "utf8ToGbk C (toUpper nm) = Some g"
  shows "\<exists>f' F'. lookupFileInner disk_ops C now F f nm = Some (find_item u g 0 items, f', F') \<and> disk_dir_kept E R xs F f f' F'"
  by (rule lfd.cached.lookup_items_ok [OF assms])

theorem lookup_finds_the_first_file_witness:
  "\<exists>F E R f f' F'. disk_dir F E R f [2] \<and> dir_slots R (F_bpb F) [2] = items_slots demo_items @ replicate 28 zero_entry
    \<and> lookupFileInner disk_ops (conv demo_env) demo_now F f [0x61, 0] = Some (Some \<lparr>range_start = 0, range_count = 2\<rparr>, f', F')"
proof -
  obtain F E R f where d: "disk_dir F E R f [2]" "dir_slots R (F_bpb F) [2] = items_slots demo_items @ replicate 28 zero_entry"
    using demo_listing by blast
  have "isLstEmptyDirEntry (hd (replicate 28 zero_entry))" by code_simp
  moreover have "utf8ToUtf16 (conv demo_env) [0x61, 0] = Some [0x61, 0]"
    "utf8ToGbk (conv demo_env) (toUpper [0x61, 0]) = Some [0x41, 0]" by code_simp+
  ultimately show ?thesis
    using lookup_finds_the_first_file [OF d demo_items_ok, of "conv demo_env" "[0x61, 0]"] d demo_find by metis
qed

lemma isEmpty_items:
  assumes "disk_dir F E R f xs" and "dir_items (dir_slots R (F_bpb F) xs) (dots @ items)"
    and "length (items_slots dots) = (if ino f = KRootDirIno then 0 else 2)"
  shows "\<exists>f' F'. isEmpty disk_ops now F f = Some (list_items (length (items_slots dots)) items = [], f', F')
    \<and> disk_dir_kept E R xs F f f' F'"
proof -
  obtain tail where t: "dir_slots R (F_bpb F) xs = items_slots (dots @ items) @ tail" "\<forall>it \<in> set (dots @ items). item_ok it"
      "tail = [] \<or> isLstEmptyDirEntry (hd tail)"
    using assms(2) unfolding dir_items_def by blast
  have its: "\<forall>it \<in> set items. item_ok it" using t(2) by simp
  have "drop (length (items_slots dots)) (items_slots (dots @ items) @ tail) = items_slots items @ tail" by simp
  then show ?thesis
    using lfd.cached.isEmpty_ok [OF assms(1) t(1) assms(3)] before_end_items [OF its t(3)] only_deleted [OF its] by simp
qed

text \<open>C26: Traversing a directory with \<open>lookupFileByIndex\<close> lists every file once, in order, with its
  place and its entries, and ends; and \<open>isEmpty\<close>, on which \<open>rmdir\<close> rests, holds exactly when nothing
  but the two entries every directory but the root has is listed.\<close>

theorem traversal_lists_every_file:
  assumes "disk_dir F E R f xs" and "dir_items (dir_slots R (F_bpb F) xs) (dots @ items)"
    and "length (items_slots dots) = (if ino f = KRootDirIno then 0 else 2)"
  shows "(\<exists>f' F'. walk disk_ops now F f 0 = Some (list_items 0 (dots @ items), f', F') \<and> disk_dir_kept E R xs F f f' F')
    \<and> (\<exists>f' F'. isEmpty disk_ops now F f = Some (list_items (length (items_slots dots)) items = [], f', F')
        \<and> disk_dir_kept E R xs F f f' F')"
proof -
  obtain tail where t: "dir_slots R (F_bpb F) xs = items_slots (dots @ items) @ tail" "\<forall>it \<in> set (dots @ items). item_ok it"
      "tail = [] \<or> isLstEmptyDirEntry (hd tail)" "\<forall>e \<in> set tail. isEmptyDirEntry e"
    using assms(2) unfolding dir_items_def by blast
  then show ?thesis using isEmpty_items [OF assms] lfd.cached.walk_ok [OF assms(1) t(1), of 0 "dots @ items" tail] t(2,4) by simp
qed

theorem traversal_lists_every_file_witness:
  "\<exists>F E R f. disk_dir F E R f [2] \<and> (\<exists>f' F'. walk disk_ops demo_now F f 0 = Some
      ([(0, castLongDirEntryToShort (demo_short [0x41]), [demo_long], 2), (3, castLongDirEntryToShort (demo_short [0x42]), [], 4)], f', F'))
    \<and> (\<exists>f' F'. isEmpty disk_ops demo_now F f = Some (False, f', F'))"
proof -
  obtain F E R f where d: "disk_dir F E R f [2]" "ino f = KRootDirIno" "dir_items (dir_slots R (F_bpb F) [2]) demo_items"
    using demo_listing by blast
  have z: "length (items_slots []) = (if ino f = KRootDirIno then 0 else 2)" using d(2) by simp
  have d3: "dir_items (dir_slots R (F_bpb F) [2]) ([] @ demo_items)" using d(3) by simp
  have l: "list_items (length (items_slots [])) demo_items = list_items 0 demo_items" "[] @ demo_items = demo_items" by simp_all
  from traversal_lists_every_file [OF d(1) d3 z, of demo_now, unfolded l demo_listed] d(1) show ?thesis by force
qed

text \<open>C19: Deleting a name that is found removes exactly the file it was found at from the listing,
  inside the directory or at its end, where the end mark moves forward and the directory shrinks; the
  directory stays sound, and no cluster outside it changes. For a name that is not found nothing
  happens.\<close>

theorem delete_removes_the_file:
  assumes "disk_dir F E R f xs" and "dir_items (dir_slots R (F_bpb F) xs) items"
    and "utf8ToUtf16 C nm = Some u" and "utf8ToGbk C (toUpper nm) = Some g"
  shows "case find_item u g 0 items of
      None \<Rightarrow> \<exists>f' F'. delFile_disk disk_ops C now F f nm = Some (None, f', F') \<and> disk_dir_kept E R xs F f f' F'
    | Some rg \<Rightarrow> \<exists>F' f' E' R' ys items'. delFile_disk disk_ops C now F f nm = Some (Some rg, f', F')
        \<and> disk_dir F' E' R' f' ys \<and> set ys \<subseteq> set xs \<and> only_clus (F_bpb F) xs [] E E' R R'
        \<and> dir_items (dir_slots R' (F_bpb F') ys) items'
        \<and> list_items 0 items' = filter (\<lambda>x. fst x \<noteq> range_start rg) (list_items 0 items)"
proof (cases "find_item u g 0 items")
  case None
  obtain tail where t: "dir_slots R (F_bpb F) xs = items_slots items @ tail" "\<forall>it \<in> set items. item_ok it"
      "tail = [] \<or> isLstEmptyDirEntry (hd tail)"
    using assms(2) unfolding dir_items_def by blast
  from lfd.cached.lookup_items_ok [OF assms(1) t assms(3,4), of now] None show ?thesis by (auto simp: delFile_disk_def)
next
  case (Some rg)
  from lfd.cached.delFile_disk_ok [OF assms Some, of now] Some show ?thesis unfolding dir_next_def by simp blast
qed

theorem delete_removes_the_file_witness:
  "\<exists>F E R f F' f' E' R' ys items'. disk_dir F E R f [2]
    \<and> delFile_disk disk_ops (conv demo_env) demo_now F f [0x61, 0] = Some (Some \<lparr>range_start = 0, range_count = 2\<rparr>, f', F')
    \<and> disk_dir F' E' R' f' ys \<and> dir_items (dir_slots R' (F_bpb F') ys) items'
    \<and> list_items 0 items' = [(3, castLongDirEntryToShort (demo_short [0x42]), [], 4)]"
proof -
  obtain F E R f where d: "disk_dir F E R f [2]" "dir_items (dir_slots R (F_bpb F) [2]) demo_items"
    using demo_listing by blast
  have "utf8ToUtf16 (conv demo_env) [0x61, 0] = Some [0x61, 0]"
    "utf8ToGbk (conv demo_env) (toUpper [0x61, 0]) = Some [0x41, 0]" by code_simp+
  from delete_removes_the_file [OF d this, of demo_now, unfolded demo_find demo_listed] d(1) show ?thesis by force
qed

text \<open>C27: The traversal does not stop at the end mark: it skips it like a deleted entry and returns the
  first file it finds behind it, which the search by name does not see, in a directory that counts
  as empty.\<close>

theorem traversal_runs_past_the_end_mark:
  assumes "disk_dir F E R f xs" and "dir_slots R (F_bpb F) xs = z # es @ e # rest" and "ino f = KRootDirIno"
    and "isLstEmptyDirEntry z" and "\<forall>d \<in> set es. isEmptyDirEntry d" and "\<not> isEmptyDirEntry e" and "\<not> isLongDirEntry e"
    and "utf8ToUtf16 C nm \<noteq> None" and "utf8ToGbk C (toUpper nm) \<noteq> None"
  shows "(\<exists>f' F'. next_entries disk_ops now F f 0 = Some (Some (of_nat (Suc (length es)), castLongDirEntryToShort e, []),
        of_nat (length es + 2), f', F'))
    \<and> (\<exists>f' F'. lookupFileInner disk_ops C now F f nm = Some (None, f', F'))
    \<and> (\<exists>f' F'. isEmpty disk_ops now F f = Some (True, f', F'))"
proof -
  have d: "drop 0 (z # es @ e # rest) = (z # es) @ [] @ e # rest" by simp
  have "\<forall>d \<in> set (z # es). isEmptyDirEntry d" using assms(4,5) end_is_empty by simp
  from lfd.cached.next_present [OF assms(1,2) d this assms(6,7), of now]
  have "\<exists>f' F'. next_entries disk_ops now F f 0 = Some (Some (of_nat (Suc (length es)), castLongDirEntryToShort e, []),
      of_nat (length es + 2), f', F')" by (auto simp: add.commute)
  moreover obtain u g where c: "utf8ToUtf16 C nm = Some u" "utf8ToGbk C (toUpper nm) = Some g" using assms(8,9) by auto
  have "\<exists>f' F'. lookupFileInner disk_ops C now F f nm = Some (None, f', F')"
    using lfd.cached.lookup_items_ok [OF assms(1), of "[]" "z # es @ e # rest", OF _ _ _ c, of now] assms(2,4) by auto
  moreover have "\<exists>f' F'. isEmpty disk_ops now F f = Some (True, f', F')"
    using lfd.cached.isEmpty_ok [OF assms(1,2), of 0 now] assms(3,4) by (auto simp: before_end_Cons)
  ultimately show ?thesis by blast
qed

theorem traversal_runs_past_the_end_mark_witness:
  "\<exists>F E R f. disk_dir F E R f [2]
    \<and> (\<exists>f' F'. next_entries disk_ops demo_now F f 0 = Some (Some (1, castLongDirEntryToShort (demo_short [0x42]), []), 2, f', F'))
    \<and> (\<exists>f' F'. lookupFileInner disk_ops (conv demo_env) demo_now F f [0x42] = Some (None, f', F'))"
proof -
  have "\<forall>e \<in> set [zero_entry, demo_short [0x42]]. wf_long e" by code_simp
  from demo_dir [OF this] obtain F E R f where d: "disk_dir F E R f [2]" "ino f = KRootDirIno"
      "dir_slots R (F_bpb F) [2] = zero_entry # [] @ demo_short [0x42] # replicate 30 zero_entry" by auto
  have "isLstEmptyDirEntry zero_entry" "\<not> isEmptyDirEntry (demo_short [0x42])" "\<not> isLongDirEntry (demo_short [0x42])"
    "utf8ToUtf16 (conv demo_env) [0x42] \<noteq> None" "utf8ToGbk (conv demo_env) (toUpper [0x42]) \<noteq> None" by code_simp+
  from traversal_runs_past_the_end_mark [OF d(1,3,2) this(1) _ this(2-5), of demo_now] d(1) show ?thesis by force
qed

end
