(* ===== verification/CreateProps.thy ===== *)
theory CreateProps
  imports BadName DirProps
begin

text \<open>
  What the creation of a file means for the directory on a mounted image: the file is added to the
  listing, it is found by its name and only by its name, and deleting it gives the old listing back;
  a name with a blank makes a file no search can pass.
\<close>

section \<open>The new file\<close>

text \<open>The name \<open>nm\<close> is \<open>u\<close> in UTF-16, and what its basis name is made from is \<open>w\<close> in GBK.\<close>

definition new_name :: "conversions \<Rightarrow> bytes \<Rightarrow> bytes \<Rightarrow> bytes \<Rightarrow> bool" where
  "new_name C nm u w \<longleftrightarrow> utf8ToUtf16 C nm = Some u \<and> u \<noteq> [] \<and> length u \<le> 510
     \<and> utf8ToGbk C (strip (strip (toUpper nm) 0x20) 0x2E) = Some w"

definition name_slots :: "bytes \<Rightarrow> nat" where
  "name_slots u = (length u - 1) div 26 + 1"

definition new_basis :: "bytes \<Rightarrow> BasisName" where
  "new_basis w = padded_basis (basis_primary w) (basis_extension w)"

definition new_short :: "timespec \<Rightarrow> bytes \<Rightarrow> bool \<Rightarrow> ShortDirEntry" where
  "new_short now w is_dir = mkShortDirEntry (getCurDosTs2 now) (new_basis w) is_dir"

definition new_file :: "timespec \<Rightarrow> bytes \<Rightarrow> bytes \<Rightarrow> bool \<Rightarrow> nat \<Rightarrow> u32 \<times> ShortDirEntry \<times> LongDirEntry list \<times> u64" where
  "new_file now u w is_dir a = listed_file a (name_slots u) u (new_basis w) (new_short now w is_dir)"

text \<open>The directory may grow by the slots of a file and does not reach the end of a 4 GiB file.\<close>

definition dir_room :: "'d FAT \<Rightarrow> (u32 \<Rightarrow> u32) \<Rightarrow> (u32 \<Rightarrow> bytes option) \<Rightarrow> u32 list \<Rightarrow> bytes \<Rightarrow> bool" where
  "dir_room F E R xs u \<longleftrightarrow> vol_ok F E R
     \<and> 32 * (length (dir_slots R (F_bpb F) xs) + Suc (name_slots u)) + 512 * spc (F_bpb F) \<le> 2 ^ 32"

abbreviation disk_dir_more :: "lfd cache_mgr FAT \<Rightarrow> (u32 \<Rightarrow> u32) \<Rightarrow> (u32 \<Rightarrow> bytes option) \<Rightarrow> fobj \<Rightarrow> u32 list \<Rightarrow> u32 list \<Rightarrow>
    lfd cache_mgr FAT \<Rightarrow> (u32 \<Rightarrow> u32) \<Rightarrow> (u32 \<Rightarrow> bytes option) \<Rightarrow> fobj \<Rightarrow> bool" where
  "disk_dir_more \<equiv> dir_more disk_good disk_view"

lemma new_basis_made: "new_name C nm u w \<Longrightarrow> genBasisNameFromLong (utf8ToGbk C) nm = Some (new_basis w)"
  unfolding new_basis_def by (rule genBasisNameFromLong_parts) (simp add: new_name_def)

text \<open>The operation places the entries, whatever the name.\<close>

lemma crtFile_places:
  assumes "disk_dir F E R f xs" and "new_name C nm u w" and "dir_room F E R xs u"
  shows "(\<exists>f' F'. crtFile_disk disk_ops C now F f nm is_dir = Some (None, f', F') \<and> disk_dir F' E R f' xs
        \<and> 16 * (frees (F_bpb F) E * spc (F_bpb F)) < Suc (name_slots u))
    \<or> (\<exists>a F' f' E' R' cs. crtFile_disk disk_ops C now F f nm is_dir = Some (Some (of_nat a, new_short now w is_dir), f', F')
        \<and> disk_dir_more F E R f xs cs F' E' R' f' \<and> placed (dir_slots R (F_bpb F) xs) a
            (new_long (name_slots u) (chkSum (new_basis w)) u) (castShortDirEntryToLong (new_short now w is_dir))
            (dir_slots R' (F_bpb F') (xs @ cs))
        \<and> vol_ok F' E' R' \<and> 16 * (length cs * spc (F_bpb F)) < Suc (name_slots u) + 16 * spc (F_bpb F)
        \<and> (free_tail (dir_slots R (F_bpb F) xs) (Suc (name_slots u)) \<longrightarrow> cs = []))"
  unfolding new_short_def
  using assms(2,3) by (intro lfd.cached.crtFile_disk_ok assms(1) new_basis_made [OF assms(2)] name_slots_def)
    (simp_all add: new_name_def dir_room_def)

lemma new_short_wf: "new_name C nm u w \<Longrightarrow> wf_short (new_short now w is_dir)"
  unfolding new_short_def by (rule wf_new_short(1) [OF new_basis_made])

lemma name_slots_bound: "length u \<le> 510 \<Longrightarrow> name_slots u < 64"
  by (simp add: name_slots_def)

lemma new_file_ok:
  assumes "new_name C nm u w" and "plain_name w"
  shows "item_ok (Present (new_long (name_slots u) (chkSum (new_basis w)) u) (castShortDirEntryToLong (new_short now w is_dir)))"
proof -
  have "file_sum (castShortDirEntryToLong (new_short now w is_dir)) = Some (chkSum (new_basis w))"
    unfolding new_short_def new_basis_def by (rule padded_file_sum [OF plain_parts [OF assms(2)]])
  moreover have "name_slots u < 64" using assms(1) by (intro name_slots_bound) (simp add: new_name_def)
  ultimately show ?thesis unfolding new_short_def by (intro new_item_ok [OF _ new_basis_made [OF assms(1)]])
qed

text \<open>For a plain name that adds the file to the listing.\<close>

lemma crtFile_adds:
  assumes "disk_dir F E R f xs" and "dir_items (dir_slots R (F_bpb F) xs) items" and "new_name C nm u w" and "plain_name w"
    and "dir_room F E R xs u"
  shows "(\<exists>f' F'. crtFile_disk disk_ops C now F f nm is_dir = Some (None, f', F') \<and> disk_dir F' E R f' xs
        \<and> 16 * (frees (F_bpb F) E * spc (F_bpb F)) < Suc (name_slots u))
    \<or> (\<exists>a F' f' E' R' cs items'. crtFile_disk disk_ops C now F f nm is_dir = Some (Some (of_nat a, new_short now w is_dir), f', F')
        \<and> disk_dir_more F E R f xs cs F' E' R' f' \<and> dir_items (dir_slots R' (F_bpb F') (xs @ cs)) items'
        \<and> file_added items items' (new_file now u w is_dir a))"
  using crtFile_places [OF assms(1,3,5), of now is_dir]
proof (elim disjE exE conjE)
  fix a F' f' E' R' cs
  assume p: "placed (dir_slots R (F_bpb F) xs) a (new_long (name_slots u) (chkSum (new_basis w)) u)
      (castShortDirEntryToLong (new_short now w is_dir)) (dir_slots R' (F_bpb F') (xs @ cs))"
    and "crtFile_disk disk_ops C now F f nm is_dir = Some (Some (of_nat a, new_short now w is_dir), f', F')"
      "disk_dir_more F E R f xs cs F' E' R' f'"
  then show ?thesis
    using placed_item [OF assms(2) p new_file_ok [OF assms(3,4)] new_short_wf [OF assms(3)]] unfolding new_file_def by blast
qed blast

lemma crtFile_result:
  assumes "disk_dir F E R f xs" and "dir_items (dir_slots R (F_bpb F) xs) items" and "new_name C nm u w" and "plain_name w"
    and "dir_room F E R xs u" and "crtFile_disk disk_ops C now F f nm is_dir = Some (Some (start, s), f', F')"
  shows "\<exists>a E' R' cs items'. start = of_nat a \<and> s = new_short now w is_dir \<and> disk_dir_more F E R f xs cs F' E' R' f'
    \<and> dir_items (dir_slots R' (F_bpb F') (xs @ cs)) items' \<and> file_added items items' (new_file now u w is_dir a)"
  using crtFile_adds [OF assms(1-5), of now is_dir] assms(6) by (elim disjE exE conjE) (simp, simp, blast)

lemma new_file_facts:
  assumes "new_name C nm u w" and "units_ok u"
  shows "goes_by v g (new_file now u w is_dir a) \<longleftrightarrow> v = u"
    and "file_range (new_file now u w is_dir a) = \<lparr>range_start = of_nat a, range_count = of_nat (Suc (name_slots u))\<rparr>"
proof -
  show "goes_by v g (new_file now u w is_dir a) \<longleftrightarrow> v = u"
    using assms unfolding new_file_def by (intro goes_by_new) (simp_all add: new_name_def name_slots_def)
qed (simp add: new_file_def listed_file_def file_range_def)


section \<open>The empty root directory of the demo volume\<close>

lemma demo_root_empty: "dir_items (dir_slots demo_R (F_bpb demo_FAT) [2]) []"
proof -
  have z: "isLstEmptyDirEntry zero_entry" by code_simp
  show ?thesis unfolding demo_count demo_root_slots dir_items_def using z end_is_empty [OF z]
    by (intro conjI exI [of _ "replicate 32 zero_entry"]) simp_all
qed

lemma demo_root_room: "length u \<le> 510 \<Longrightarrow> dir_room demo_FAT demo_E demo_R [2] u"
  using name_slots_bound [of u] unfolding dir_room_def vol_ok_def demo_count demo_root_slots
  by (simp add: demo_count(4) demo_reserved demo_data_secs) (simp add: demo_BPB_def)

lemma demo_created:
  assumes "new_name C nm u w"
  shows "\<exists>start s f' F'. crtFile_disk disk_ops C demo_now demo_FAT (mkRootDir 2) nm False = Some (Some (start, s), f', F')"
proof -
  have u: "length u \<le> 510" using assms by (simp add: new_name_def)
  have "16 * (frees (F_bpb demo_FAT) demo_E * spc (F_bpb demo_FAT)) = 8000"
    by (simp only: demo_count demo_free_ok) (simp add: demo_BPB_def)
  with crtFile_places [OF demo_root_ok(1) assms demo_root_room [OF u], of demo_now False] name_slots_bound [OF u]
  show ?thesis by auto
qed

section \<open>Properties\<close>

text \<open>C20: Creating a file with a plain name (no blanks in its GBK form, and a first byte without a
  meaning of its own) adds exactly that file to the listing of the directory: with long entries that
  hold the name, a short entry with its 8.3 name and the current time, and the place the call
  returns; in free slots if there are enough in a row, else at the end of the directory, which then
  grows by free clusters, cleared first. No other cluster changes. The call fails just when the
  clusters it lacks are not there, and then changes nothing in the directory.\<close>

theorem create_adds_the_file:
  assumes "disk_dir F E R f xs" and "dir_items (dir_slots R (F_bpb F) xs) items" and "new_name C nm u w" and "plain_name w"
    and "dir_room F E R xs u"
  shows "\<exists>r f' F'. crtFile_disk disk_ops C now F f nm is_dir = Some (r, f', F') \<and> (case r of
      None \<Rightarrow> disk_dir F' E R f' xs \<and> 16 * (frees (F_bpb F) E * spc (F_bpb F)) < Suc (name_slots u)
    | Some (start, s) \<Rightarrow> s = new_short now w is_dir \<and> (\<exists>a E' R' cs items'. start = of_nat a
        \<and> disk_dir_more F E R f xs cs F' E' R' f' \<and> dir_items (dir_slots R' (F_bpb F') (xs @ cs)) items'
        \<and> file_added items items' (new_file now u w is_dir a)))"
  using crtFile_adds [OF assms, of now is_dir] by (elim disjE exE conjE) (simp, fastforce)

theorem create_adds_the_file_witness:
  "\<exists>f' F' E' R' cs items' a. disk_dir_more demo_FAT demo_E demo_R (mkRootDir 2) [2] cs F' E' R' f'
    \<and> crtFile_disk disk_ops (conv demo_env) demo_now demo_FAT (mkRootDir 2) [0x61, 0] False
        = Some (Some (of_nat a, new_short demo_now [0x41, 0] False), f', F')
    \<and> dir_items (dir_slots R' (F_bpb F') ([2] @ cs)) items'
    \<and> list_items 0 items' = [new_file demo_now [0x61, 0] [0x41, 0] False a]"
proof -
  have n: "new_name (conv demo_env) [0x61, 0] [0x61, 0] [0x41, 0]" "plain_name [0x41, 0]" by code_simp+
  have "length [0x61, 0 :: u8] \<le> 510" by simp
  from create_adds_the_file [OF demo_root_ok(1) demo_root_empty n demo_root_room [OF this], of demo_now False]
    demo_created [OF n(1)] show ?thesis by (auto simp: file_added_def) blast
qed

text \<open>C21: The new file is found by its name, at the place the call returned, unless that name was there
  before; every other name is found where it was found before, or still not found; and deleting the
  name gives back the listing there was before the file was made.\<close>

theorem created_file_is_found:
  assumes "disk_dir F E R f xs" and "dir_items (dir_slots R (F_bpb F) xs) items" and "new_name C nm u w" and "plain_name w"
    and "dir_room F E R xs u" and "crtFile_disk disk_ops C now F f nm is_dir = Some (Some (start, s), f', F')" and "units_ok u"
    and "utf8ToUtf16 C nm2 = Some u2" and "utf8ToGbk C (toUpper nm2) = Some g2" and "u2 = u \<longrightarrow> find_item u2 g2 0 items = None"
  shows "(\<exists>f2 F2. lookupFileInner disk_ops C now2 F' f' nm2 = Some (
      (if u2 = u then Some \<lparr>range_start = start, range_count = of_nat (Suc (name_slots u))\<rparr> else find_item u2 g2 0 items), f2, F2))
    \<and> (u2 = u \<longrightarrow> (\<exists>f2 F2 E2 R2 ys items2. delFile_disk disk_ops C now2 F' f' nm2
        = Some (Some \<lparr>range_start = start, range_count = of_nat (Suc (name_slots u))\<rparr>, f2, F2)
      \<and> disk_dir F2 E2 R2 f2 ys \<and> dir_items (dir_slots R2 (F_bpb F2) ys) items2 \<and> list_items 0 items2 = list_items 0 items))"
proof -
  obtain a E' R' cs items' where r: "start = of_nat a" "disk_dir_more F E R f xs cs F' E' R' f'"
      "dir_items (dir_slots R' (F_bpb F') (xs @ cs)) items'" "file_added items items' (new_file now u w is_dir a)"
    using crtFile_result [OF assms(1-6)] by blast
  let ?new = "\<lparr>range_start = start, range_count = of_nat (Suc (name_slots u))\<rparr>"
  have ok: "disk_dir F' E' R' f' (xs @ cs)" using r(2) by (simp add: dir_more_def)
  obtain tail where t: "dir_slots R' (F_bpb F') (xs @ cs) = items_slots items' @ tail" "\<forall>it \<in> set items'. item_ok it"
      "tail = [] \<or> isLstEmptyDirEntry (hd tail)"
    using r(3) unfolding dir_items_def by blast
  have f: "find_item u2 g2 0 items' = (if u2 = u then Some ?new else find_item u2 g2 0 items)"
    using find_item_added [OF r(4), of u2 g2] new_file_facts [OF assms(3,7)] assms(10) r(1) by simp
  have "length (items_slots items') < 2 ^ 27" using dir_slots_bound(2) [OF ok] unfolding t(1) by simp
  then have "filter (\<lambda>y. fst y \<noteq> fst (new_file now u w is_dir a)) (list_items 0 items') = list_items 0 items"
    by (intro added_then_removed [OF r(4)]) simp
  moreover have "fst (new_file now u w is_dir a) = start" by (simp add: new_file_def listed_file_def r(1))
  ultimately have l: "filter (\<lambda>y. fst y \<noteq> range_start ?new) (list_items 0 items') = list_items 0 items" by simp
  have "\<exists>f2 F2 E2 R2 ys items2. delFile_disk disk_ops C now2 F' f' nm2 = Some (Some ?new, f2, F2)
      \<and> disk_dir F2 E2 R2 f2 ys \<and> dir_items (dir_slots R2 (F_bpb F2) ys) items2 \<and> list_items 0 items2 = list_items 0 items" if "u2 = u"
    using lfd.cached.delFile_disk_ok [OF ok r(3) assms(8,9), of ?new now2] f that unfolding l dir_next_def by simp blast
  moreover have "\<exists>f2 F2. lookupFileInner disk_ops C now2 F' f' nm2 = Some (find_item u2 g2 0 items', f2, F2)"
    using lfd.cached.lookup_items_ok [OF ok t assms(8,9), of now2] by blast
  ultimately show ?thesis unfolding f by blast
qed

theorem created_file_is_found_witness:
  "\<exists>start s f1 F1 f2 F2 f3 F3. crtFile_disk disk_ops (conv demo_env) demo_now demo_FAT (mkRootDir 2) [0x61, 0] False
      = Some (Some (start, s), f1, F1)
    \<and> lookupFileInner disk_ops (conv demo_env) demo_now F1 f1 [0x61, 0] = Some (Some \<lparr>range_start = start, range_count = 2\<rparr>, f2, F2)
    \<and> delFile_disk disk_ops (conv demo_env) demo_now F1 f1 [0x61, 0] = Some (Some \<lparr>range_start = start, range_count = 2\<rparr>, f3, F3)"
proof -
  have n: "new_name (conv demo_env) [0x61, 0] [0x61, 0] [0x41, 0]" "plain_name [0x41, 0]"
    "utf8ToGbk (conv demo_env) (toUpper [0x61, 0]) = Some [0x41, 0]" "units_ok [0x61, 0]"
    "[0x61, 0] = [0x61, 0 :: u8] \<longrightarrow> find_item [0x61, 0] [0x41, 0] 0 [] = None"
    "of_nat (Suc (name_slots [0x61, 0])) = (2 :: u32)" by code_simp+
  have u: "utf8ToUtf16 (conv demo_env) [0x61, 0] = Some [0x61, 0]" using n(1) by (simp add: new_name_def)
  have l: "length [0x61, 0 :: u8] \<le> 510" by simp
  obtain start s f1 F1 where c: "crtFile_disk disk_ops (conv demo_env) demo_now demo_FAT (mkRootDir 2) [0x61, 0] False
      = Some (Some (start, s), f1, F1)" using demo_created [OF n(1)] by blast
  from created_file_is_found [OF demo_root_ok(1) demo_root_empty n(1,2) demo_root_room [OF l] c n(4) u n(3,5), of demo_now] c
  show ?thesis unfolding n(6) by simp blast
qed




end
