(* ===== verification/EntryProps.thy ===== *)
theory EntryProps
  imports EntryReload CreateProps
begin

text \<open>
  What \<open>File::sync\<close> leaves in the directory of the parent, and what \<open>getFileByIno\<close> finds there.
\<close>

section \<open>A file for the witnesses\<close>

abbreviation demo_entry :: fobj where
  "demo_entry \<equiv> demo_empty\<lparr>f_fst_entry_num := 0\<rparr>"

lemma demo_entry_wf: "fs_wf (demo_fs\<lparr>fs_fat := F, fs_objs := [0 \<mapsto> demo_entry]\<rparr>) {#}"
proof -
  have "ino demo_file = ino demo_entry" by (simp add: ino_def demo_empty_def demo_file_def)
  then show ?thesis using demo_fs_wf by (auto simp: fs_wf_def counted_def split: if_splits)
qed

text \<open>The place of the demo file in a root directory with two files.\<close>

lemma demo_entry_at:
  "\<exists>F E R g rest. disk_dir F E R g [2] \<and> drop 0 (dir_slots R (F_bpb F) [2]) = [demo_long] @ demo_short [0x41] # rest
    \<and> lies_at demo_entry g (F_bpb F) 0 \<and> file_holds F E R demo_entry []"
proof -
  obtain F E R g where d: "disk_dir F E R g [2]" "F_bpb F = demo_BPB"
      "dir_slots R (F_bpb F) [2] = items_slots demo_items @ replicate 28 zero_entry"
    using demo_listing by blast
  have "f_fst_clus g = 2" using d(1) by (auto simp: dir_ok_def file_holds_def split: if_splits)
  then have "lies_at demo_entry g (F_bpb F) 0" unfolding d(2) by (simp add: lies_at_def demo_empty_def demo_file_def demo_BPB_def)
  moreover have "file_holds F E R demo_entry []" by (simp add: file_holds_def demo_empty_def isValidCluster_def)
  moreover have "drop 0 (dir_slots R (F_bpb F) [2]) = [demo_long] @ demo_short [0x41] # drop 2 (items_slots demo_items) @ replicate 28 zero_entry"
    unfolding d(3) by simp
  ultimately show ?thesis using d(1) by blast
qed

lemma demo_entry_facts: "\<not> f_is_deleted demo_entry" "ino demo_entry \<noteq> KRootDirIno" "item_ok (Present [demo_long] (demo_short [0x41]))"
  using demo_items_ok by (simp_all add: demo_empty_def demo_file_def ino_def KRootDirIno_def)

section \<open>Properties\<close>

text \<open>C11: Synchronising a file whose entries begin in the first cluster of its directory stores its
  metadata in its short entry and changes nothing else in the directory or outside it; and making the
  object from its inode number afterwards gives back the object, with its size, times and first
  cluster.\<close>

theorem sync_then_reload:
  assumes "disk_dir F E R g xs" and "drop n (dir_slots R (F_bpb F) xs) = ls @ e # rest" and "item_ok (Present ls e)"
    and "lies_at f g (F_bpb F) n" and "file_holds F E R f ys" and "\<not> f_is_deleted f" and "ino f \<noteq> KRootDirIno"
    and "stored_name C ls e = Some nm"
  shows "\<exists>F' R' f2 F2. File_sync disk_ops F f dir True = Some (with_chain ys f, F') \<and> disk_dir F' E R' g xs
    \<and> dir_slots R' (F_bpb F) xs = (dir_slots R (F_bpb F) xs)[n + length ls := synced f dir e]
    \<and> only_secs (set (file_secs (F_bpb F) xs)) R R'
    \<and> fromIno disk_ops C F' (ino f) = Some (Some f2, F2) \<and> disk_dir F2 E R' g xs
    \<and> f2 = f\<lparr>f_is_dir := isDirectory (castLongDirEntryToShort e), f_name := nm, f_clus_chain := None,
         f_file_sz := (if dir then se_file_sz (castLongDirEntryToShort e) else f_file_sz f)\<rparr>"
  using lfd.cached.sync_reload_ok [OF assms(1) refl assms(2-8), of dir] by blast

theorem sync_then_reload_witness:
  "\<exists>F E R g F' F2. disk_dir F E R g [2] \<and> File_sync disk_ops F demo_entry False True = Some (with_chain [] demo_entry, F')
    \<and> fromIno disk_ops (conv demo_env) F' (ino demo_entry) = Some (Some (demo_entry\<lparr>f_name := [0x61, 0]\<rparr>), F2)"
proof -
  obtain F E R g rest where d: "disk_dir F E R g [2]" "drop 0 (dir_slots R (F_bpb F) [2]) = [demo_long] @ demo_short [0x41] # rest"
      "lies_at demo_entry g (F_bpb F) 0" "file_holds F E R demo_entry []"
    using demo_entry_at by blast
  have nm: "stored_name (conv demo_env) [demo_long] (demo_short [0x41]) = Some [0x61, 0]"
    "\<not> isDirectory (castLongDirEntryToShort (demo_short [0x41]))" by code_simp+
  obtain F' f2 F2 where r: "File_sync disk_ops F demo_entry False True = Some (with_chain [] demo_entry, F')"
      "fromIno disk_ops (conv demo_env) F' (ino demo_entry) = Some (Some f2, F2)"
      "f2 = demo_entry\<lparr>f_is_dir := isDirectory (castLongDirEntryToShort (demo_short [0x41])), f_name := [0x61, 0], f_clus_chain := None,
         f_file_sz := (if False then se_file_sz (castLongDirEntryToShort (demo_short [0x41])) else f_file_sz demo_entry)\<rparr>"
    using sync_then_reload [OF d(1,2) demo_entry_facts(3) d(3,4) demo_entry_facts(1,2) nm(1), of False] by blast
  have "f2 = demo_entry\<lparr>f_name := [0x61, 0]\<rparr>" unfolding r(3) using nm(2) by (simp add: demo_empty_def demo_file_def)
  then show ?thesis using d(1) r(1,2) by blast
qed

text \<open>C12: The metadata of the file with entry \<open>n\<close> of a directory goes to the sector of that entry as it is counted in
  consecutive clusters from the first one of the directory on, the next clusters of its chain or not (unless a long
  entry is there, which the search for the short entry passes over). This is
  the entry of the file itself just when the cluster of the directory that has entry \<open>n\<close> carries that number, as
  it does for every entry in the first cluster. Otherwise entry \<open>n\<close> stays as it was; and if the counted cluster is not
  one of the directory, then all of its entries do, and 32 bytes of that other cluster are overwritten.\<close>

theorem far_entry_is_written_elsewhere:
  assumes "disk_dir F E R g xs" and "n < length (dir_slots R (F_bpb F) xs)" and "f_parent_clus f = f_fst_clus g"
    and "f_fst_entry_num f = of_nat n" and "data_clus (F_bpb F) (far_clus (F_bpb F) xs n)"
    and "R (far_sec (F_bpb F) xs n) = Some b" and "\<not> isLongDirEntry (decode_long (drop (32 * (n mod 16)) b))"
  shows "\<exists>d R'. sync_meta_entry disk_ops F f dir = Some (F\<lparr>F_device := d\<rparr>) \<and> disk_fat (F\<lparr>F_device := d\<rparr>) E R'
    \<and> R' = R(far_sec (F_bpb F) xs n \<mapsto> meta_at f dir (32 * (n mod 16)) b)
    \<and> far_sec (F_bpb F) xs n \<in> clus_secs (F_bpb F) (far_clus (F_bpb F) xs n)
    \<and> (far_sec (F_bpb F) xs n = slot_sec (F_bpb F) xs n \<longleftrightarrow> far_clus (F_bpb F) xs n = xs ! (n div 16 div spc (F_bpb F)))
    \<and> (far_clus (F_bpb F) xs n \<noteq> xs ! (n div 16 div spc (F_bpb F)) \<longrightarrow> dir_slots R' (F_bpb F) xs ! n = dir_slots R (F_bpb F) xs ! n)
    \<and> (far_clus (F_bpb F) xs n \<notin> set xs \<longrightarrow> dir_slots R' (F_bpb F) xs = dir_slots R (F_bpb F) xs)"
proof -
  let ?s = "far_sec (F_bpb F) xs n"
  have h: "disk_fat F E R" "file_holds F E R g xs" using assms(1) by (simp_all add: dir_ok_def)
  note geo = file_holds_facts(1) [OF h] and at = far_sec_slot [OF assms(1,2,5)] and s = far_sec_clus [OF file_holds_facts(1) [OF h] assms(5)]
  obtain d where d: "sync_meta_entry disk_ops F f dir = Some (F\<lparr>F_device := d\<rparr>)"
      "disk_fat (F\<lparr>F_device := d\<rparr>) E (R(?s \<mapsto> meta_at f dir (32 * (n mod 16)) b))"
    using lfd.cached.sync_meta_far [OF assms(1-4,6,7), of dir] by blast
  have "\<forall>x \<in> set xs. data_clus (F_bpb F) x" using h(2) by (simp add: file_holds_def)
  note other = slots_elsewhere [OF sec_elsewhere [OF geo file_holds_facts(2) [OF h] this assms(5) _ s]]
  have "R ?s \<noteq> None" using assms(6) by simp
  from slot_kept [OF assms(1,2) d(2) this] d s at other show ?thesis by blast
qed

text \<open>The root directory of the demo volume, grown by a cluster that is not the next one: that is
  cluster 3, where a file begins.\<close>

lemma demo_grown:
  "\<exists>F E R g cs. disk_dir F E R g ([2] @ cs) \<and> F_bpb F = demo_BPB \<and> f_fst_clus g = 2 \<and> 3 \<notin> set ([2] @ cs)
    \<and> 64 \<le> length (dir_slots R demo_BPB ([2] @ cs)) \<and> (\<forall>s \<in> clus_secs demo_BPB 3. R s = demo_R s)"
proof -
  have vol: "vol_ok demo_FAT demo_E demo_R" using demo_root_room [of "[]"] by (simp add: dir_room_def)
  have sp: "spc (F_bpb demo_FAT) = 2" unfolding demo_count by (simp add: demo_BPB_def)
  have len: "32 * length (replicate 32 zero_entry) < unat (2048 :: u32)" "unat (2048 :: u32) + 512 * spc (F_bpb demo_FAT) \<le> 2 ^ 32"
    unfolding sp by simp_all
  have "\<not> 512 * (frees (F_bpb demo_FAT) demo_E * spc (F_bpb demo_FAT)) < unat (2048 :: u32) - 32 * length (replicate 32 zero_entry)"
    unfolding sp by (simp only: demo_count demo_free_ok) simp
  with lfd.cached.grow_dir_ok [OF demo_root_ok(1) demo_root_slots [folded demo_count(2)] vol len]
  obtain F E R g cs m where r: "disk_dir_more demo_FAT demo_E demo_R (mkRootDir 2) [2] cs F E R g"
      "dir_slots R (F_bpb F) ([2] @ cs) = replicate 32 zero_entry @ replicate m zero_entry" "unat (2048 :: u32) \<le> 32 * (length (replicate 32 zero_entry) + m)"
    by blast
  have ok: "disk_dir F E R g ([2] @ cs)" and bpb: "F_bpb F = demo_BPB" using r(1) by (simp_all add: dir_more_def demo_count)
  have g: "f_fst_clus g = 2" using ok by (auto simp: dir_ok_def file_holds_def split: if_splits)
  have "demo_E 3 \<noteq> 0" by code_simp
  then have three: "3 \<notin> set ([2] @ cs)" using r(1) by (auto simp: dir_more_def only_clus_def)
  have dc: "\<forall>x \<in> set ([2] @ cs). data_clus demo_BPB x" "distinct ([2] @ cs)"
    using ok file_holds_facts(2) [of disk_good disk_view F E R g "[2] @ cs"] unfolding dir_ok_def bpb file_holds_def by auto
  have "R s = demo_R s" if "s \<in> clus_secs demo_BPB 3" for s
    using sec_elsewhere [OF demo_BPB_ok(1) dc(2,1) demo_data_clus three that] r(1)
    by (simp add: dir_more_def only_clus_def only_secs_def demo_count)
  moreover have "64 \<le> length (dir_slots R demo_BPB ([2] @ cs))" using r(2,3) unfolding bpb by simp
  ultimately show ?thesis using ok bpb g three by blast
qed

lemma demo_third: "demo_R (getFirstSectorOfCluster demo_BPB 3) = Some (replicate 512 0)"
proof -
  have h: "disk_fat demo_FAT demo_E demo_R" "file_holds demo_FAT demo_E demo_R demo_file [3, 4, 5]"
    using file_okD(1,2) [OF demo_file_ok] .
  have n: "0 < length [3, 4, 5 :: u32] * spc (F_bpb demo_FAT)" unfolding demo_count by (simp add: demo_BPB_def)
  have z: "x = 0" if "x \<in> set (blocks demo_R demo_BPB [3, 4, 5] ! 0)" for x
  proof -
    have "x \<in> set (file_content demo_R demo_BPB [3, 4, 5])" unfolding file_content_def
      using that n nth_mem [of 0 "blocks demo_R demo_BPB [3, 4, 5]"] by (auto simp: demo_count simp del: length_greater_0_conv)
    then show ?thesis unfolding demo_content by simp
  qed
  note b = blocks_length [OF h, unfolded demo_count]
  have "length (blocks demo_R demo_BPB [3, 4, 5] ! 0) = 512" using b(1) n by (simp add: demo_count)
  then have "blocks demo_R demo_BPB [3, 4, 5] ! 0 = replicate 512 0" using z by (intro replicate_eqI) auto
  moreover have "file_secs demo_BPB [3, 4, 5] ! 0 = getFirstSectorOfCluster demo_BPB 3"
    using nth_file_secs [of 0 "[3, 4, 5]" demo_BPB] n by (simp add: demo_count)
  ultimately show ?thesis using b(2) [of 0] n by (simp add: demo_count)
qed

theorem far_entry_is_written_elsewhere_witness:
  "\<exists>F E R g xs d R'. disk_dir F E R g xs
    \<and> sync_meta_entry disk_ops F (demo_empty\<lparr>f_fst_entry_num := 32\<rparr>) False = Some (F\<lparr>F_device := d\<rparr>)
    \<and> disk_fat (F\<lparr>F_device := d\<rparr>) E R' \<and> dir_slots R' (F_bpb F) xs = dir_slots R (F_bpb F) xs
    \<and> R' (getFirstSectorOfCluster demo_BPB 3) = Some (meta_at (demo_empty\<lparr>f_fst_entry_num := 32\<rparr>) False 0 (replicate 512 0))"
proof -
  obtain F E R g cs where d: "disk_dir F E R g ([2] @ cs)" "F_bpb F = demo_BPB" "f_fst_clus g = 2" "3 \<notin> set ([2] @ cs)"
      "64 \<le> length (dir_slots R demo_BPB ([2] @ cs))" "\<forall>s \<in> clus_secs demo_BPB 3. R s = demo_R s"
    using demo_grown by blast
  let ?f = "demo_empty\<lparr>f_fst_entry_num := 32\<rparr>"
  have "spc demo_BPB = 2" by (simp add: demo_BPB_def)
  then have far: "far_clus demo_BPB ([2] @ cs) 32 = 3" "far_sec demo_BPB ([2] @ cs) 32 = getFirstSectorOfCluster demo_BPB 3"
    by (simp_all add: far_clus_def far_sec_def)
  have dc: "data_clus demo_BPB 3" by (rule demo_data_clus) simp
  have "R (getFirstSectorOfCluster demo_BPB 3) = Some (replicate 512 0)"
    using far_sec_clus [OF demo_BPB_ok(1), of "[2] @ cs" 32] d(6) demo_third dc unfolding far by simp
  moreover have "\<not> isLongDirEntry (decode_long (drop (32 * (32 mod 16)) (replicate 512 0)))"
    by (simp add: isLongDirEntry_def decode_long_def attr_values)
  moreover have "f_parent_clus ?f = f_fst_clus g" "f_fst_entry_num ?f = of_nat 32" using d(3) by (simp_all add: demo_empty_def demo_file_def)
  moreover have "32 < length (dir_slots R (F_bpb F) ([2] @ cs))" using d(5) unfolding d(2) by simp
  ultimately obtain d' R' where "sync_meta_entry disk_ops F ?f False = Some (F\<lparr>F_device := d'\<rparr>)" "disk_fat (F\<lparr>F_device := d'\<rparr>) E R'"
      "R' = R(getFirstSectorOfCluster demo_BPB 3 \<mapsto> meta_at ?f False (32 * (32 mod 16)) (replicate 512 0))"
      "dir_slots R' (F_bpb F) ([2] @ cs) = dir_slots R (F_bpb F) ([2] @ cs)"
    using far_entry_is_written_elsewhere [OF d(1), of 32 ?f "replicate 512 0" False] d(4) dc unfolding d(2) far by blast
  then show ?thesis using d(1) by (intro exI [of _ F] exI [of _ E] exI [of _ R] exI [of _ g] exI [of _ "[2] @ cs"] exI [of _ d'] exI [of _ R']) simp
qed

section \<open>The request for synchronisation\<close>

lemma cached_fsync_ok:
  assumes "fs_wf st {#}" and "map_of (cached st) (node_ino n) = Some a" and "fs_objs st a = Some f"
    and "File_sync disk_ops (fs_fat st) f (isDir f) datasync = Some (f', F')"
  shows "\<exists>st'. serve disk_ops en now (Fsync_req n datasync) st = Some (Reply_err Success, st') \<and> fs_fat st' = F' \<and> fs_objs st' a = Some f'"
proof -
  obtain r c where get: "lru_get (cached_lookup_files st) (node_ino n) = (r, c)" by fastforce
  have inv: "lru_inv (cached_lookup_files st)" using assms(1) by (simp add: fs_wf_def)
  have r: "r = Some a" using lru.get_val [OF inv, of "node_ino n"] get assms(2) by simp
  let ?st1 = "share a (st\<lparr>cached_lookup_files := c\<rparr>)"
  let ?st2 = "?st1\<lparr>fs_fat := F', fs_objs := (fs_objs ?st1)(a := Some f')\<rparr>"
  have "fs_refs ?st2 a = Suc (fs_refs st a)" by (simp add: share_def)
  moreover have "fs_refs st a = 1" using fs_wf_idle(2) [OF assms(1), of a] assms(3) by simp
  ultimately have u: "unshare disk_ops a ?st2 = Some (?st2\<lparr>fs_refs := (fs_refs ?st2)(a := 1)\<rparr>)" by (simp add: unshare_def)
  have "serve disk_ops en now (Fsync_req n datasync) st = Some (Reply_err Success, ?st2\<lparr>fs_refs := (fs_refs ?st2)(a := 1)\<rparr>)"
    using u assms(3,4) by (simp add: fat32_fsync_def getExistFile_def getFileByIno_def get r on_file_def share_def)
  then show ?thesis by simp
qed

text \<open>C13: The flag of \<open>fsync\<close> is taken the wrong way round. The kernel sets it to ask for the data only;
  the handler hands it to \<open>sync\<close> as the wish for the metadata. So a full \<open>fsync\<close> of a cached file
  succeeds and leaves the volume as it was, its directory entry included, and the entry is brought
  up to date just when only the data were asked for.\<close>

theorem fsync_flag_is_inverted:
  assumes "fs_wf st {#}" and "map_of (cached st) (node_ino i) = Some a" and "fs_objs st a = Some f"
    and "disk_dir (fs_fat st) E R g xs" and "drop n (dir_slots R (F_bpb (fs_fat st)) xs) = ls @ e # rest" and "item_ok (Present ls e)"
    and "lies_at f g (F_bpb (fs_fat st)) n" and "file_holds (fs_fat st) E R f ys" and "\<not> f_is_deleted f" and "ino f \<noteq> KRootDirIno"
  shows "(\<exists>st'. serve disk_ops en now (Fsync_req i False) st = Some (Reply_err Success, st') \<and> disk_dir (fs_fat st') E R g xs)
    \<and> (\<exists>st' R'. serve disk_ops en now (Fsync_req i True) st = Some (Reply_err Success, st') \<and> disk_dir (fs_fat st') E R' g xs
        \<and> dir_slots R' (F_bpb (fs_fat st)) xs
            = (dir_slots R (F_bpb (fs_fat st)) xs)[n + length ls := synced f (isDir f) e])"
proof -
  have h: "disk_fat (fs_fat st) E R" using assms(4) by (simp add: dir_ok_def)
  obtain d1 where d1: "File_sync disk_ops (fs_fat st) f (isDir f) False = Some (with_chain ys f, fs_fat st\<lparr>F_device := d1\<rparr>)"
      "disk_fat (fs_fat st\<lparr>F_device := d1\<rparr>) E R"
    using lfd.cached.File_sync_data_ok [OF h assms(8) _ assms(9), of False "isDir f"] by auto
  then have "disk_dir (fs_fat st\<lparr>F_device := d1\<rparr>) E R g xs" using assms(4) by (simp add: dir_ok_def)
  then have "\<exists>st'. serve disk_ops en now (Fsync_req i False) st = Some (Reply_err Success, st') \<and> disk_dir (fs_fat st') E R g xs"
    using cached_fsync_ok [OF assms(1-3) d1(1), of en now] by auto
  moreover obtain d2 R' where "File_sync disk_ops (fs_fat st) f (isDir f) True = Some (with_chain ys f, fs_fat st\<lparr>F_device := d2\<rparr>)"
      "disk_dir (fs_fat st\<lparr>F_device := d2\<rparr>) E R' g xs"
      "dir_slots R' (F_bpb (fs_fat st)) xs = (dir_slots R (F_bpb (fs_fat st)) xs)[n + length ls := synced f (isDir f) e]"
    using lfd.cached.File_sync_ok [OF assms(4) refl assms(5-8,9,10), of "isDir f"] by blast
  moreover from cached_fsync_ok [OF assms(1-3) calculation(2), of en now] obtain st2 where
    "serve disk_ops en now (Fsync_req i True) st = Some (Reply_err Success, st2)" "fs_fat st2 = fs_fat st\<lparr>F_device := d2\<rparr>" by blast
  ultimately show ?thesis by metis
qed

theorem fsync_flag_is_inverted_witness:
  "\<exists>st st' st2. fs_wf st {#} \<and> serve disk_ops demo_env demo_now (Fsync_req 0x200000000 False) st = Some (Reply_err Success, st')
    \<and> serve disk_ops demo_env demo_now (Fsync_req 0x200000000 True) st = Some (Reply_err Success, st2)"
proof -
  obtain F E R g rest where d: "disk_dir F E R g [2]" "drop 0 (dir_slots R (F_bpb F) [2]) = [demo_long] @ demo_short [0x41] # rest"
      "lies_at demo_entry g (F_bpb F) 0" "file_holds F E R demo_entry []"
    using demo_entry_at by blast
  let ?st = "demo_fs\<lparr>fs_fat := F, fs_objs := [0 \<mapsto> demo_entry]\<rparr>"
  have "map_of (cached ?st) (node_ino 0x200000000) = Some 0" "fs_objs ?st 0 = Some demo_entry" "fs_fat ?st = F" by (simp_all add: demo_node)
  from fsync_flag_is_inverted [OF demo_entry_wf this(1,2), unfolded this(3), OF d(1,2) demo_entry_facts(3) d(3,4) demo_entry_facts(1,2), of demo_env demo_now]
    demo_entry_wf show ?thesis by blast
qed

end
