(* ===== verification/MkDir.thy ===== *)
theory MkDir
  imports CreateProps EntryReload FsProps
begin

text \<open>
  Making a directory: its entries in the parent, as for a file, and a cluster of its own with the two
  entries every directory begins with.
\<close>

section \<open>The entries for itself and its parent\<close>

definition dot_items :: "FatTimeStamp2 \<Rightarrow> FatTimeStamp2 \<Rightarrow> u32 \<Rightarrow> u32 \<Rightarrow> dir_item list" where
  "dot_items now t self parent =
     [Present [] (castShortDirEntryToLong (mkDotShortDirEntry now t self)),
      Present [] (castShortDirEntryToLong (mkDotDotShortDirEntry now t parent))]"

lemma cast_short_facts:
  assumes "wf_short s"
  shows "wf_long (castShortDirEntryToLong s)" and "le_attr (castShortDirEntryToLong s) = se_attr s"
    and "le_ord (castShortDirEntryToLong s) = se_name s ! 0"
proof -
  have l: "length (se_name s) = 11" using assms by (simp add: wf_short_def)
  show "wf_long (castShortDirEntryToLong s)" using assms by (simp add: castShortDirEntryToLong_def wf_decode)
  show "le_attr (castShortDirEntryToLong s) = se_attr s"
    using l by (simp add: castShortDirEntryToLong_def decode_long_def encode_short_def nth_append)
  show "le_ord (castShortDirEntryToLong s) = se_name s ! 0"
    using l by (simp add: castShortDirEntryToLong_def decode_long_def encode_short_def nth_append)
qed

lemma short_item_ok:
  assumes "wf_short s" and "se_attr s = KAttrDirectory" and "se_name s ! 0 = 0x2E"
  shows "item_ok (Present [] (castShortDirEntryToLong s))"
  using assms cast_short_facts [OF assms(1)]
  by (simp add: cast_round_trip(1) isEmptyDirEntry_def isLongDirEntry_def attr_values KAttrDirectory_def
      readShortEntryName_def parseEntryType_def Let_def)

lemma dot_entries:
  "wf_short (mkDotShortDirEntry now t c)" "wf_short (mkDotDotShortDirEntry now t c)"
  "item_ok (Present [] (castShortDirEntryToLong (mkDotShortDirEntry now t c)))"
  "item_ok (Present [] (castShortDirEntryToLong (mkDotDotShortDirEntry now t c)))"
proof -
  show w: "wf_short (mkDotShortDirEntry now t c)" "wf_short (mkDotDotShortDirEntry now t c)"
    by (simp_all add: mkDotShortDirEntry_def mkDotDotShortDirEntry_def mkShortDirEntry_def setFstClusNo_def Let_def wf_short_def)
  show "item_ok (Present [] (castShortDirEntryToLong (mkDotShortDirEntry now t c)))"
    "item_ok (Present [] (castShortDirEntryToLong (mkDotDotShortDirEntry now t c)))"
    by (intro short_item_ok w; simp add: mkDotShortDirEntry_def mkDotDotShortDirEntry_def mkShortDirEntry_def setFstClusNo_def Let_def)+
qed

section \<open>Directories apart\<close>

text \<open>A change to some clusters leaves a directory made of others as it was.\<close>

lemma dir_apart:
  assumes ok: "dir_ok good view F E R f xs" and ok': "dir_ok good view F' E' R' g (ys @ cs)" and bpb: "F_bpb F' = F_bpb F"
    and only: "only_clus (F_bpb F) ys cs E E' R R'" and dis: "set (ys @ cs) \<inter> set xs = {}"
  shows "dir_ok good view F' E' R' f xs" and "dir_slots R' (F_bpb F) xs = dir_slots R (F_bpb F) xs"
proof -
  have h: "fat_holds good view F E R" "file_holds F E R f xs" and h': "fat_holds good view F' E' R'" "file_holds F' E' R' g (ys @ cs)"
    using ok ok' by (simp_all add: dir_ok_def)
  note kept = file_apart [OF h h' bpb only dis]
  show "dir_ok good view F' E' R' f xs" using ok h'(1) bpb kept(1) by (simp add: dir_ok_def)
  show "dir_slots R' (F_bpb F) xs = dir_slots R (F_bpb F) xs" by (simp add: dir_slots_def kept(2))
qed

lemma only_clus_free:
  assumes "file_holds F E R f xs" and "only_clus bpb [] cs E E' R R'"
  shows "set cs \<inter> set xs = {}"
  using file_clus_used(1) [OF assms(1)] assms(2) by (auto simp: only_clus_def)

section \<open>The cluster of a new directory\<close>

context block_device
begin

lemma new_dir_ok:
  assumes fat: "fat_holds good view F E R" and vol: "vol_ok F E R" and free: "0 < frees (F_bpb F) E"
    and g: "f_is_dir g" "f_fst_clus g = 0" "f_clus_chain g = None"
  shows "\<exists>F' g' E' R' y. File_truncate D F g (bytesPerClus (F_bpb F)) = Some (True, g', F')
    \<and> dir_more good view F E R g [] [y] F' E' R' g' \<and> f_fst_clus g' = y
    \<and> dir_slots R' (F_bpb F) [y] = replicate (16 * spc (F_bpb F)) zero_entry"
proof -
  have "file_holds F E R g []" using g by (simp add: file_holds_def isValidCluster_def)
  then have ok: "dir_ok good view F E R g []" using fat g(1) by (simp add: dir_ok_def)
  have geo: "geometry_ok (F_bpb F)" using fat by (simp add: fat_holds_def fat_ok_def)
  have s: "0 < spc (F_bpb F)" "spc (F_bpb F) < 256" using geometryD(2) [OF geo] spc_bound by simp_all
  have len: "unat (bytesPerClus (F_bpb F)) = 512 * spc (F_bpb F)" by (rule bytes_per_clus [OF geo])
  have S: "dir_slots R (F_bpb F) [] = []"
    using dir_slots_bound(1) [OF ok] length_content [OF fat \<open>file_holds F E R g []\<close>] by simp
  have l: "32 * length ([] :: LongDirEntry list) < unat (bytesPerClus (F_bpb F))"
    "unat (bytesPerClus (F_bpb F)) + 512 * spc (F_bpb F) \<le> 2 ^ 32" using s by (simp_all add: len)
  show ?thesis
    using grow_dir_ok [OF ok S vol l]
  proof (elim disjE exE conjE)
    assume "512 * (frees (F_bpb F) E * spc (F_bpb F)) < unat (bytesPerClus (F_bpb F)) - 32 * length ([] :: LongDirEntry list)"
    then show ?thesis using free by (simp add: len)
  next
    fix F' g' E' R' cs m
    assume t: "File_truncate D F g (bytesPerClus (F_bpb F)) = Some (True, g', F')" and more: "dir_more good view F E R g [] cs F' E' R' g'"
      and S': "dir_slots R' (F_bpb F') ([] @ cs) = [] @ replicate m zero_entry" and m: "unat (bytesPerClus (F_bpb F)) \<le> 32 * (length ([] :: LongDirEntry list) + m)"
      and few: "512 * (length cs * spc (F_bpb F)) < unat (bytesPerClus (F_bpb F)) - 32 * length ([] :: LongDirEntry list) + 512 * spc (F_bpb F)"
    have ok': "dir_ok good view F' E' R' g' cs" and b: "F_bpb F' = F_bpb F" using more by (simp_all add: dir_more_def)
    have h: "fat_holds good view F' E' R'" "file_holds F' E' R' g' cs" using ok' by (simp_all add: dir_ok_def)
    have "32 * m = 512 * (length cs * spc (F_bpb F))"
      using dir_slots_bound(1) [OF ok'] length_content [OF h] S' by (simp add: b)
    then have "length cs = 1" using m few s(1) by (simp add: len)
    then obtain y where y: "cs = [y]" by (auto simp: length_Suc_conv)
    have "m = 16 * spc (F_bpb F)" using \<open>32 * m = _\<close> by (simp add: y)
    moreover have "f_fst_clus g' = y" using h(2) by (simp add: y file_holds_def split: if_splits)
    ultimately show ?thesis using t more S' by (auto simp: y b)
  qed
qed

lemma dot_writes_ok:
  assumes fat: "fat_holds good view F E R" and vol: "vol_ok F E R" and free: "0 < frees (F_bpb F) E"
    and g: "f_is_dir g" "f_fst_clus g = 0" "f_clus_chain g = None"
  shows "\<exists>F1 g1 F2 g2 F3 g3 E3 R3 y. File_truncate D F g (bytesPerClus (F_bpb F)) = Some (True, g1, F1) \<and> f_fst_clus g1 = y
    \<and> writeDirEntry D now F1 g1 0 (castShortDirEntryToLong (mkDotShortDirEntry t0 t y)) = Some (True, g2, F2)
    \<and> writeDirEntry D now F2 g2 1 (castShortDirEntryToLong (mkDotDotShortDirEntry t0 t p)) = Some (True, g3, F3)
    \<and> dir_more good view F E R g [] [y] F3 E3 R3 g3 \<and> dir_items (dir_slots R3 (F_bpb F) [y]) (dot_items t0 t y p)"
proof -
  obtain F1 g1 E1 R1 y where t: "File_truncate D F g (bytesPerClus (F_bpb F)) = Some (True, g1, F1)"
      "dir_more good view F E R g [] [y] F1 E1 R1 g1" "f_fst_clus g1 = y"
      "dir_slots R1 (F_bpb F) [y] = replicate (16 * spc (F_bpb F)) zero_entry"
    using new_dir_ok [OF fat vol free g] by blast
  let ?n = "16 * spc (F_bpb F)" and ?d = "castShortDirEntryToLong (mkDotShortDirEntry t0 t y)"
    and ?dd = "castShortDirEntryToLong (mkDotDotShortDirEntry t0 t p)"
  have b1: "F_bpb F1 = F_bpb F" and ok1: "dir_ok good view F1 E1 R1 g1 [y]" using t(2) by (simp_all add: dir_more_def)
  have "0 < spc (F_bpb F)" using fat geometryD(2) by (simp add: fat_holds_def fat_ok_def)
  then have n: "0 < ?n" "1 < ?n" "?n = Suc (Suc (?n - 2))" by simp_all
  have S1: "dir_slots R1 (F_bpb F1) [y] = replicate ?n zero_entry" using t(4) by (simp add: b1)
  note wf = cast_short_facts(1) [OF dot_entries(1) [of t0 t y]] cast_short_facts(1) [OF dot_entries(2) [of t0 t p]]
  obtain F2 g2 E2 R2 where w1: "writeDirEntry D now F1 g1 0 ?d = Some (True, g2, F2)" "dir_next good view F1 E1 R1 g1 [y] F2 E2 R2 g2 [y]"
      "dir_slots R2 (F_bpb F2) [y] = (replicate ?n zero_entry)[0 := ?d]"
    using writeDirEntry_ok [OF ok1 S1 _ wf(1), of 0 now] n(1) by auto
  have ok2: "dir_ok good view F2 E2 R2 g2 [y]" and b2: "F_bpb F2 = F_bpb F" using w1(2) b1 by (simp_all add: dir_next_def)
  obtain F3 g3 E3 R3 where w2: "writeDirEntry D now F2 g2 1 ?dd = Some (True, g3, F3)" "dir_next good view F2 E2 R2 g2 [y] F3 E3 R3 g3 [y]"
      "dir_slots R3 (F_bpb F3) [y] = (replicate ?n zero_entry)[0 := ?d, 1 := ?dd]"
    using writeDirEntry_ok [OF ok2 w1(3) _ wf(2), of 1 now] n(2) by auto
  have "dir_next good view F1 E1 R1 g1 ([] @ [y]) F3 E3 R3 g3 ([] @ [y])" using dir_next_trans [OF w1(2) w2(2)] by simp
  then have more: "dir_more good view F E R g [] [y] F3 E3 R3 g3" by (rule dir_more_next [OF t(2)])
  have z: "isLstEmptyDirEntry zero_entry" by code_simp
  have "dir_slots R3 (F_bpb F3) [y] = items_slots (dot_items t0 t y p) @ replicate (?n - 2) zero_entry"
    unfolding w2(3) by (subst n(3)) (simp add: dot_items_def)
  moreover have "\<forall>it \<in> set (dot_items t0 t y p). item_ok it" using dot_entries(3,4) by (simp add: dot_items_def del: item_ok.simps)
  moreover have "\<forall>k. replicate k zero_entry = [] \<or> isLstEmptyDirEntry (hd (replicate k zero_entry))"
    using z by (metis hd_replicate replicate_empty)
  ultimately have "dir_items (dir_slots R3 (F_bpb F3) [y]) (dot_items t0 t y p)"
    unfolding dir_items_def using end_is_empty [OF z]
    by (intro conjI exI [of _ "replicate (?n - 2) zero_entry"]) (simp_all only: set_replicate_conv_if, simp)
  moreover have "F_bpb F3 = F_bpb F" using more by (simp add: dir_more_def)
  ultimately show ?thesis using t(1,3) w1(1) w2(1) more by (simp only:) blast
qed

end

section \<open>The new object\<close>

text \<open>The cache has room, and no object in it claims a free slot of the directory.\<close>

definition cache_room :: "'d FAT32fs \<Rightarrow> fobj \<Rightarrow> LongDirEntry list \<Rightarrow> bool" where
  "cache_room st f S \<longleftrightarrow> length (cached st) < 20 \<and> (\<forall>k \<in> fst ` set (cached st). \<forall>n < 2 ^ 27.
     k = entry_ino f (of_nat n) \<longrightarrow> n < length S \<and> \<not> isEmptyDirEntry (S ! n))"

lemma rl_room:
  assumes "k \<notin> fst ` set xs" and "length xs < m"
  shows "rl_put m k v xs = (k, v) # xs" and "rl_dead m k v xs = []"
proof -
  have d: "rl_drop k xs = xs" using assms(1) by (force simp: rl_drop_def filter_id_conv)
  have "map_of xs k = None" using assms(1) by (simp add: map_of_eq_None_iff)
  then show "rl_put m k v xs = (k, v) # xs" "rl_dead m k v xs = []" using assms(2) by (simp_all add: rl_put_def rl_dead_def d)
qed

lemma add_new_file_room:
  assumes wf: "fs_wf st own" and k: "ino g \<notin> fst ` set (cached st)" and room: "length (cached st) < 20"
  shows "\<exists>st'. add_new_file D g st = Some (fs_next st, st') \<and> fs_wf st' (add_mset (fs_next st) own) \<and> fs_fat st' = fs_fat st
    \<and> fs_objs st' = (fs_objs st)(fs_next st := Some g) \<and> finds st' = (finds st)(ino g \<mapsto> fs_next st)"
proof -
  have c: "lru_inv (cached_lookup_files st)" "unat (max_size (cached_lookup_files st)) = 20" using wf by (simp_all add: fs_wf_def)
  note p = lru_put_correct(1,2) [OF c(1), of "ino g" "fs_next st", unfolded c(2) rl_room [OF k room]]
  then obtain c where put: "lru_put (cached_lookup_files st) (ino g) (fs_next st) = (c, [])" by (cases "lru_put (cached_lookup_files st) (ino g) (fs_next st)") simp
  with p(1) have "lru_view c = (ino g, fs_next st) # cached st" by simp
  with put obtain st' where "add_new_file D g st = Some (fs_next st, st')" "fs_fat st' = fs_fat st"
      "fs_objs st' = (fs_objs st)(fs_next st := Some g)" "finds st' = (finds st)(ino g \<mapsto> fs_next st)"
    by (simp add: add_new_file_def addFileToCache_def cache_put_def make_shared_def share_def)
  with postD [OF add_new_file_wp [OF wf, of "\<lambda>(a, st'). fs_wf st' (add_mset a own)"] this(1)] show ?thesis by auto
qed

lemma next_is_free: "fs_wf st own \<Longrightarrow> fs_objs st (fs_next st) = None"
  unfolding fs_wf_def counted_def by (metis less_irrefl)

lemma ino_File_new: "ino (File_new d (f_fst_clus f) n nm s) = entry_ino f n"
  by (simp add: ino_def entry_ino_def File_new_def)

lemma placed_free:
  assumes "placed S a ls e S'" and "a < length S"
  shows "isEmptyDirEntry (S ! a)"
  using assms by (auto simp: placed_def free_at_def nth_append)

lemma placed_bound: "placed S a ls e S' \<Longrightarrow> a < length S'"
  by (auto simp: placed_def free_at_def)

lemma fst_clus_hd: "file_holds F E R f xs \<Longrightarrow> xs \<noteq> [] \<Longrightarrow> f_fst_clus f = hd xs"
  by (cases xs) (auto simp: file_holds_def split: if_splits)

lemma crtFileInner_ok:
  assumes wf: "fs_wf st own" and obj: "fs_objs st dir = Some f" and ok: "disk_dir (fs_fat st) E R f xs" and x: "xs \<noteq> []"
    and items: "dir_items (dir_slots R (F_bpb (fs_fat st)) xs) items" and nm: "new_name C nm u w" and plain: "plain_name w"
    and room: "dir_room (fs_fat st) E R xs u" "cache_room st f (dir_slots R (F_bpb (fs_fat st)) xs)"
    and space: "Suc (name_slots u) \<le> 16 * (frees (F_bpb (fs_fat st)) E * spc (F_bpb (fs_fat st)))"
  shows "\<exists>a st' f' E' R' cs items'. crtFileInner disk_ops C now dir nm is_dir st = Some (Some (fs_next st), st')
    \<and> fs_objs st' dir = Some f' \<and> fs_objs st' (fs_next st) = Some (File_new is_dir (f_fst_clus f') (of_nat a) nm (new_short now w is_dir))
    \<and> fs_wf st' (add_mset (fs_next st) own) \<and> finds st' = (finds st)(entry_ino f (of_nat a) \<mapsto> fs_next st)
    \<and> (\<forall>b. b \<notin> {dir, fs_next st} \<longrightarrow> fs_objs st' b = fs_objs st b)
    \<and> fs_next st \<noteq> dir \<and> finds st (entry_ino f (of_nat a)) = None \<and> disk_dir_more (fs_fat st) E R f xs cs (fs_fat st') E' R' f'
    \<and> dir_items (dir_slots R' (F_bpb (fs_fat st)) (xs @ cs)) items' \<and> file_added items items' (new_file now u w is_dir a)
    \<and> vol_ok (fs_fat st') E' R' \<and> 16 * (length cs * spc (F_bpb (fs_fat st))) < Suc (name_slots u) + 16 * spc (F_bpb (fs_fat st))
    \<and> (free_tail (dir_slots R (F_bpb (fs_fat st)) xs) (Suc (name_slots u)) \<longrightarrow> cs = [])"
proof -
  let ?F = "fs_fat st" and ?S = "dir_slots R (F_bpb (fs_fat st)) xs" and ?s = "new_short now w is_dir" and ?c = "fs_next st"
  obtain a F1 f1 E1 R1 cs where r: "crtFile_disk disk_ops C now ?F f nm is_dir = Some (Some (of_nat a, ?s), f1, F1)"
      "disk_dir_more ?F E R f xs cs F1 E1 R1 f1" "placed ?S a (new_long (name_slots u) (chkSum (new_basis w)) u)
        (castShortDirEntryToLong ?s) (dir_slots R1 (F_bpb F1) (xs @ cs))"
      "vol_ok F1 E1 R1" "16 * (length cs * spc (F_bpb ?F)) < Suc (name_slots u) + 16 * spc (F_bpb ?F)"
      "free_tail ?S (Suc (name_slots u)) \<longrightarrow> cs = []"
    using crtFile_places [OF ok nm room(1), of now is_dir] space by (elim disjE exE conjE) (linarith, blast)
  have ok1: "disk_dir F1 E1 R1 f1 (xs @ cs)" and b1: "F_bpb F1 = F_bpb ?F" and i1: "ino f1 = ino f" using r(2) by (simp_all add: dir_more_def)
  obtain items' where it: "dir_items (dir_slots R1 (F_bpb F1) (xs @ cs)) items'" "file_added items items' (new_file now u w is_dir a)"
    using placed_item [OF items r(3) new_file_ok [OF nm plain] new_short_wf [OF nm]] unfolding new_file_def by blast
  let ?g = "File_new is_dir (f_fst_clus f1) (of_nat a) nm ?s" and ?st1 = "st\<lparr>fs_fat := F1, fs_objs := (fs_objs st)(dir := Some f1)\<rparr>"
  have "f_fst_clus f1 = hd (xs @ cs)" "f_fst_clus f = hd xs"
    using ok1 ok x fst_clus_hd [of F1 E1 R1 f1 "xs @ cs"] fst_clus_hd [of ?F E R f xs] by (simp_all add: dir_ok_def)
  then have ino: "ino ?g = entry_ino f (of_nat a)" using x unfolding ino_File_new by (simp add: entry_ino_def)
  have "a < 2 ^ 27" using placed_bound [OF r(3)] dir_slots_bound(2) [OF ok1] by linarith
  then have k: "ino ?g \<notin> fst ` set (cached ?st1)" using room(2) placed_free [OF r(3)] unfolding ino cache_room_def by auto
  have wf1: "fs_wf ?st1 own" by (rule fs_wf_obj(1) [OF wf obj i1])
  have l: "length (cached ?st1) < 20" using room(2) by (simp add: cache_room_def)
  obtain st' where st': "add_new_file disk_ops ?g ?st1 = Some (?c, st')" "fs_fat st' = F1" "fs_objs st' = (fs_objs st)(dir := Some f1, ?c := Some ?g)"
      "fs_wf st' (add_mset ?c own)" "finds st' = (finds st)(entry_ino f (of_nat a) \<mapsto> ?c)"
    using add_new_file_room [OF wf1 k l, of disk_ops] unfolding ino by auto
  have "finds st (entry_ino f (of_nat a)) = None" using k unfolding ino by (simp add: map_of_eq_None_iff)
  moreover have "?c \<noteq> dir" using next_is_free [OF wf] obj by auto
  moreover have "crtFileInner disk_ops C now dir nm is_dir st = Some (Some ?c, st')"
    using obj r(1) st'(1) by (simp add: crtFileInner_def on_file_def)
  ultimately show ?thesis using st'(2-5) r(2,4,5,6) it b1
    by (intro exI [of _ a] exI [of _ st'] exI [of _ f1] exI [of _ E1] exI [of _ R1] exI [of _ cs] exI [of _ items']) simp
qed

lemma frees_left:
  assumes fat: "fat_holds good view F E R" and f: "file_holds F E R f xs" and only: "only_clus (F_bpb F) xs cs E E' R R'"
  shows "frees (F_bpb F) E \<le> frees (F_bpb F) E' + length cs"
proof -
  let ?n = "cluster_count (F_bpb F)" and ?A = "\<lambda>E. {c :: u32. E c = (0 :: u32) \<and> unat c < cluster_count (F_bpb F)}"
  have n: "?n < 2 ^ 28" using fat by (auto simp: fat_holds_def fat_ok_def)
  have "E' c = E c" if "E c = 0" "c \<notin> set cs" for c
  proof -
    have "c \<notin> set xs" using file_clus_used(1) [OF f] that(1) by blast
    then show ?thesis using only that(2) by (simp add: only_clus_def)
  qed
  then have "?A E \<subseteq> ?A E' \<union> set cs" by auto
  then have "card (?A E) \<le> card (?A E' \<union> set cs)" by (intro card_mono) (simp_all add: finite_clus)
  also have "\<dots> \<le> card (?A E') + length cs" using card_Un_le [of "?A E'" "set cs"] card_length [of cs] by linarith
  finally show ?thesis unfolding frees_def length_free_clus [OF n] .
qed

lemma only_clus_more:
  assumes "only_clus bpb xs cs E E1 R R1" and "only_clus bpb [] ys E1 E2 R1 R2" and "set ys \<inter> set (xs @ cs) = {}"
  shows "only_clus bpb xs (cs @ ys) E E2 R R2"
proof -
  have s: "set (file_secs bpb (xs @ cs)) \<subseteq> set (file_secs bpb (xs @ cs @ ys))" "set (file_secs bpb ys) \<subseteq> set (file_secs bpb (xs @ cs @ ys))"
    by (intro set_file_secs_mono; auto)+
  have o: "only_secs (set (file_secs bpb (xs @ cs))) R R1" "only_secs (set (file_secs bpb ys)) R1 R2"
    using assms(1,2) by (simp_all add: only_clus_def)
  have "only_secs (set (file_secs bpb (xs @ cs @ ys))) R R2"
    by (rule only_secs_trans [OF only_secs_mono [OF o(1) s(1)] only_secs_mono [OF o(2) s(2)]])
  moreover have "E n = 0" if n: "n \<in> set ys" for n
  proof -
    have "n \<notin> set (xs @ cs)" using assms(3) n by blast
    then have "E1 n = E n" using assms(1) by (simp add: only_clus_def)
    then show ?thesis using n assms(2) by (simp add: only_clus_def)
  qed
  moreover have "\<forall>n. n \<notin> set (xs @ cs @ ys) \<longrightarrow> E2 n = E n" "\<forall>n \<in> set cs. E n = 0" using assms(1,2) by (simp_all add: only_clus_def)
  ultimately show ?thesis unfolding only_clus_def by (intro conjI) auto
qed

text \<open>A directory with nothing but the two dot entries is empty.\<close>

lemma dots_only_empty:
  assumes ok: "disk_dir F E R g xs" and items: "dir_items (dir_slots R (F_bpb F) xs) (dot_items t0 t y p)" and i: "ino g \<noteq> KRootDirIno"
  shows "\<exists>g' F'. isEmpty disk_ops now F g = Some (True, g', F')"
proof -
  obtain tail where t: "dir_slots R (F_bpb F) xs = items_slots (dot_items t0 t y p) @ tail" "tail = [] \<or> isLstEmptyDirEntry (hd tail)"
    using items by (auto simp: dir_items_def)
  have "before_end tail = []" using before_end_items [of "[]" tail] t(2) by simp
  then show ?thesis
    using lfd.cached.isEmpty_ok [OF ok t(1) refl, of now] i by (simp add: dot_items_def) blast
qed

section \<open>Properties\<close>

text \<open>C22: Making a directory with a plain name, when there is room for it, adds it to the listing of its parent
  like a file, and gives it a free cluster of its own, cleared, that holds the two entries every
  directory begins with: the first names this cluster, the second that of the parent, and both
  carry the creation time of the parent. No other cluster changes; the new directory is empty for
  \<open>rmdir\<close>. The entry in the parent does not name the cluster yet: it does when the object is
  synchronised.\<close>

theorem mkdir_makes_an_empty_directory:
  assumes "fs_wf st own" and "fs_objs st dir = Some f" and "disk_dir (fs_fat st) E R f xs" and "xs \<noteq> []"
    and "dir_items (dir_slots R (F_bpb (fs_fat st)) xs) items" and "new_name C nm u w" and "plain_name w"
    and "dir_room (fs_fat st) E R xs u" and "cache_room st f (dir_slots R (F_bpb (fs_fat st)) xs)"
    and "Suc (name_slots u) + 16 * spc (F_bpb (fs_fat st)) \<le> 16 * (frees (F_bpb (fs_fat st)) E * spc (F_bpb (fs_fat st)))"
  shows "\<exists>c st' f' g E' R' cs y a items'. crtDir disk_ops C now dir nm st = Some (Some c, st')
    \<and> fs_objs st' dir = Some f' \<and> fs_objs st' c = Some g \<and> ino g = entry_ino f' (of_nat a) \<and> f_fst_clus g = y
    \<and> only_clus (F_bpb (fs_fat st)) xs (cs @ [y]) E E' R R'
    \<and> disk_dir (fs_fat st') E' R' f' (xs @ cs) \<and> dir_items (dir_slots R' (F_bpb (fs_fat st')) (xs @ cs)) items'
    \<and> file_added items items' (new_file now u w True a)
    \<and> disk_dir (fs_fat st') E' R' g [y]
    \<and> dir_items (dir_slots R' (F_bpb (fs_fat st')) [y]) (dot_items (getCurDosTs2 now) (f_crt_time f') y (f_fst_clus f'))
    \<and> (\<exists>g2 F2. isEmpty disk_ops now2 (fs_fat st') g = Some (True, g2, F2))"
proof -
  let ?bpb = "F_bpb (fs_fat st)"
  have space: "Suc (name_slots u) \<le> 16 * (frees ?bpb E * spc ?bpb)" using assms(10) by linarith
  obtain a st1 f1 E1 R1 cs items' where r: "crtFileInner disk_ops C now dir nm True st = Some (Some (fs_next st), st1)"
      "fs_objs st1 dir = Some f1" "fs_objs st1 (fs_next st) = Some (File_new True (f_fst_clus f1) (of_nat a) nm (new_short now w True))"
      "fs_next st \<noteq> dir" "disk_dir_more (fs_fat st) E R f xs cs (fs_fat st1) E1 R1 f1"
      "dir_items (dir_slots R1 ?bpb (xs @ cs)) items'" "file_added items items' (new_file now u w True a)"
      "vol_ok (fs_fat st1) E1 R1" "16 * (length cs * spc ?bpb) < Suc (name_slots u) + 16 * spc ?bpb"
    using crtFileInner_ok [OF assms(1-9) space, of now True] by blast
  let ?g = "File_new True (f_fst_clus f1) (of_nat a) nm (new_short now w True)"
  have ok1: "disk_dir (fs_fat st1) E1 R1 f1 (xs @ cs)" "F_bpb (fs_fat st1) = ?bpb" "only_clus ?bpb xs cs E E1 R R1"
    using r(5) by (simp_all add: dir_more_def)
  have h: "disk_fat (fs_fat st) E R" "file_holds (fs_fat st) E R f xs" "disk_fat (fs_fat st1) E1 R1" "file_holds (fs_fat st1) E1 R1 f1 (xs @ cs)"
    using assms(3) ok1(1) by (simp_all add: dir_ok_def)
  have "length cs * spc ?bpb < frees ?bpb E * spc ?bpb" using r(9) assms(10) by linarith
  then have "0 < frees (F_bpb (fs_fat st1)) E1" using frees_left [OF h(1,2) ok1(3)] ok1(2) by simp
  moreover have "f_is_dir ?g" "f_fst_clus ?g = 0" "f_clus_chain ?g = None"
    by (simp_all add: File_new_def new_short_def mkShortDirEntry_def readEntryClusNo_set)
  ultimately obtain F1 g1 F2 g2 F3 g E3 R3 y where d: "File_truncate disk_ops (fs_fat st1) ?g (bytesPerClus (F_bpb (fs_fat st1))) = Some (True, g1, F1)"
      "f_fst_clus g1 = y" "writeDirEntry disk_ops now F1 g1 0 (castShortDirEntryToLong (mkDotShortDirEntry (getCurDosTs2 now) (f_crt_time f1) y)) = Some (True, g2, F2)"
      "writeDirEntry disk_ops now F2 g2 1 (castShortDirEntryToLong (mkDotDotShortDirEntry (getCurDosTs2 now) (f_crt_time f1) (f_fst_clus f1))) = Some (True, g, F3)"
      "disk_dir_more (fs_fat st1) E1 R1 ?g [] [y] F3 E3 R3 g"
      "dir_items (dir_slots R3 (F_bpb (fs_fat st1)) [y]) (dot_items (getCurDosTs2 now) (f_crt_time f1) y (f_fst_clus f1))"
    using lfd.cached.dot_writes_ok [OF h(3) r(8)] by metis
  let ?st' = "st1\<lparr>fs_fat := F3, fs_objs := (fs_objs st1)(fs_next st := Some g)\<rparr>"
  have c: "crtDir disk_ops C now dir nm st = Some (Some (fs_next st), ?st')"
    using r(1-4) d(1-4) by (simp add: crtDir_def on_file_def Let_def)
  have ok3: "disk_dir F3 E3 R3 g ([] @ [y])" "F_bpb F3 = F_bpb (fs_fat st1)" "only_clus (F_bpb (fs_fat st1)) [] [y] E1 E3 R1 R3" "ino g = ino ?g"
    using d(5) by (simp_all add: dir_more_def)
  have dis: "set ([] @ [y]) \<inter> set (xs @ cs) = {}" using only_clus_free [OF h(4) ok3(3)] by simp
  note parent = dir_apart [OF ok1(1) ok3(1,2,3) dis]
  have ino: "ino g = entry_ino f1 (of_nat a)" unfolding ok3(4) by (rule ino_File_new)
  have "xs @ cs \<noteq> []" "\<forall>x \<in> set (xs @ cs). data_clus ?bpb x" using assms(4) h(4) ok1(2) by (simp_all add: file_holds_def)
  then have "data_clus ?bpb (f_fst_clus f1)" using fst_clus_hd [OF h(4)] hd_in_set [of "xs @ cs"] by metis
  then have "f_fst_clus f1 \<noteq> 0" by (auto simp: data_clus_def)
  then have "ino g \<noteq> KRootDirIno" using ino_parts(1) [of ?g] unfolding ok3(4) by (auto simp: File_new_def KRootDirIno_def)
  moreover have "dir_items (dir_slots R3 (F_bpb F3) [y]) (dot_items (getCurDosTs2 now) (f_crt_time f1) y (f_fst_clus f1))" using d(6) ok3(2) by simp
  ultimately have "\<exists>g2 F2. isEmpty disk_ops now2 F3 g = Some (True, g2, F2)" using ok3(1) by (intro dots_only_empty [of F3 E3 R3 g "[y]"]) simp_all
  moreover have "f_fst_clus g = y" using fst_clus_hd [of F3 E3 R3 g "[y]"] ok3(1) by (simp add: dir_ok_def)
  moreover have "only_clus ?bpb xs (cs @ [y]) E E3 R R3"
    using only_clus_more [OF ok1(3), of "[y]" E3 R3] ok3(3) dis by (simp add: ok1(2))
  ultimately show ?thesis
    using c r(2,4,6,7) d(6) ino parent ok1(2) ok3(1,2)
    by - (rule exI [of _ "fs_next st"], rule exI [of _ ?st'], rule exI [of _ f1], rule exI [of _ g], rule exI [of _ E3],
        rule exI [of _ R3], rule exI [of _ cs], rule exI [of _ y], rule exI [of _ a], rule exI [of _ items'], simp)
qed

text \<open>The root directory of the demo volume, opened for the request.\<close>

theorem mkdir_makes_an_empty_directory_witness:
  "\<exists>c st st' f' g E' R' cs a items'. crtDir disk_ops (conv demo_env) demo_now 0 [0x61, 0] st = Some (Some c, st')
    \<and> fs_objs st 0 = Some (mkRootDir 2) \<and> fs_objs st' 0 = Some f' \<and> fs_objs st' c = Some g
    \<and> dir_items (dir_slots R' (F_bpb (fs_fat st')) ([2] @ cs)) items'
    \<and> list_items 0 items' = [new_file demo_now [0x61, 0] [0x41, 0] True a]
    \<and> disk_dir (fs_fat st') E' R' g [f_fst_clus g]
    \<and> (\<exists>g2 F2. isEmpty disk_ops demo_now (fs_fat st') g = Some (True, g2, F2))"
proof -
  let ?st = "snd (make_shared (mkRootDir 2) (FAT32fs_new demo_FAT))"
  have wf: "fs_wf ?st (add_mset 0 {#})"
    by (rule make_shared_wf(1) [OF new_wf]) (simp add: make_shared_def FAT32fs_new_def)
  have obj: "fs_objs ?st 0 = Some (mkRootDir 2)" "fs_fat ?st = demo_FAT" "cached ?st = []"
    by (simp_all add: make_shared_def FAT32fs_new_def lru_new_view)
  have n: "new_name (conv demo_env) [0x61, 0] [0x61, 0] [0x41, 0]" "plain_name [0x41, 0]" "name_slots [0x61, 0] = 1" by code_simp+
  have "16 * (frees (F_bpb demo_FAT) demo_E * spc (F_bpb demo_FAT)) = 8000"
    by (simp only: demo_count demo_free_ok) (simp add: demo_BPB_def)
  moreover have "spc (F_bpb demo_FAT) = 2" by (simp add: demo_count(2) demo_BPB_def)
  ultimately have space: "Suc (name_slots [0x61, 0]) + 16 * spc (F_bpb demo_FAT) \<le> 16 * (frees (F_bpb demo_FAT) demo_E * spc (F_bpb demo_FAT))"
    by (simp only: n(3))
  have len: "length [0x61, 0 :: u8] \<le> 510" by simp
  have room: "cache_room ?st (mkRootDir 2) (dir_slots demo_R (F_bpb demo_FAT) [2])" by (simp add: cache_room_def obj(3))
  from mkdir_makes_an_empty_directory [OF wf obj(1), unfolded obj(2), OF demo_root_ok(1) _ demo_root_empty n(1,2) demo_root_room [OF len] room space,
      of demo_now demo_now] obj(1)
  show ?thesis by (simp add: file_added_def) blast
qed

end
