(* ===== verification/Rename.thy ===== *)
theory Rename
  imports EntryProps MkDir
begin

text \<open>
  What is done to the entries of a file when it is renamed: \<open>File::exchangeMetaData\<close> stores its metadata
  in the entries of the new name, and \<open>File::selfDestruct\<close> removes the entries of the old one.
\<close>

section \<open>Changing one item of a listing\<close>

text \<open>The slot an item begins in.\<close>

definition place :: "dir_item list \<Rightarrow> nat \<Rightarrow> nat" where
  "place items k = length (items_slots (take k items))"

lemma place_slots:
  assumes "dir_items S items" and "k < length items" and "items ! k = Present ls e"
  shows "\<exists>tail. S = items_slots (take k items) @ ls @ e # items_slots (drop (Suc k) items) @ tail
    \<and> (tail = [] \<or> isLstEmptyDirEntry (hd tail)) \<and> (\<forall>e \<in> set tail. isEmptyDirEntry e)"
proof -
  have i: "items = take k items @ Present ls e # drop (Suc k) items" using id_take_nth_drop [OF assms(2)] assms(3) by simp
  have "items_slots items = items_slots (take k items) @ ls @ e # items_slots (drop (Suc k) items)"
    by (subst i) simp
  then show ?thesis using assms(1) by (auto simp: dir_items_def)
qed

lemma place_drop:
  assumes "dir_items S items" and "k < length items" and "items ! k = Present ls e"
  shows "\<exists>rest. drop (place items k) S = ls @ e # rest" and "item_ok (Present ls e)"
proof -
  show "\<exists>rest. drop (place items k) S = ls @ e # rest" using place_slots [OF assms] by (auto simp: place_def)
  have "items ! k \<in> set items" using assms(2) by simp
  then show "item_ok (Present ls e)" using assms(1,3) unfolding dir_items_def by metis
qed

lemma item_updated:
  assumes "dir_items S items" and "k < length items" and "items ! k = Present ls e" and "item_ok (Present ls e')"
  shows "dir_items (S[place items k + length ls := e']) (items[k := Present ls e'])"
proof -
  obtain tail where t: "S = items_slots (take k items) @ ls @ e # items_slots (drop (Suc k) items) @ tail"
      "tail = [] \<or> isLstEmptyDirEntry (hd tail)" "\<forall>e \<in> set tail. isEmptyDirEntry e"
    using place_slots [OF assms(1-3)] by blast
  have u: "items[k := Present ls e'] = take k items @ Present ls e' # drop (Suc k) items" using assms(2) by (rule upd_conv_take_nth_drop)
  have "S[place items k + length ls := e'] = items_slots (items[k := Present ls e']) @ tail"
    unfolding t(1) u place_def by (simp add: list_update_append)
  moreover have "\<forall>it \<in> set items. item_ok it" using assms(1) by (simp add: dir_items_def)
  then have "\<forall>it \<in> set (items[k := Present ls e']). item_ok it" using assms(4) set_update_subset_insert [of items k "Present ls e'"] by blast
  ultimately show ?thesis using t(2,3) unfolding dir_items_def by blast
qed

lemma item_erased:
  assumes "dir_items S items" and "k < length items" and "items ! k = Present ls e" and "drop (place items k) S = ls @ e # rest"
  shows "dir_items (take (place items k) S @ map setDirEntryEmpty (ls @ [e]) @ rest)
    (take k items @ map (\<lambda>l. Deleted (setDirEntryEmpty l)) (ls @ [e]) @ drop (Suc k) items)"
proof -
  obtain tail where t: "S = items_slots (take k items) @ ls @ e # items_slots (drop (Suc k) items) @ tail"
      "tail = [] \<or> isLstEmptyDirEntry (hd tail)" "\<forall>e \<in> set tail. isEmptyDirEntry e"
    using place_slots [OF assms(1-3)] by blast
  have r: "rest = items_slots (drop (Suc k) items) @ tail" "take (place items k) S = items_slots (take k items)"
    using assms(4) by (simp_all add: t(1) place_def)
  have sl: "concat (map (item_slots \<circ> (\<lambda>l. Deleted (setDirEntryEmpty l))) ls) = map setDirEntryEmpty ls" for ls :: "LongDirEntry list"
    by (induction ls) simp_all
  have "\<forall>it \<in> set items. item_ok it" using assms(1) by (simp add: dir_items_def)
  then have "\<forall>it \<in> set (take k items @ map (\<lambda>l. Deleted (setDirEntryEmpty l)) (ls @ [e]) @ drop (Suc k) items). item_ok it"
    by (auto simp: isEmptyDirEntry_def isLstEmptyDirEntry_def setDirEntryEmpty_def dest: in_set_takeD in_set_dropD simp del: item_ok.simps(2))
  then show ?thesis unfolding dir_items_def using t(2,3) by (intro conjI exI [of _ tail]) (simp_all add: r sl)
qed

lemma place_update:
  assumes "length (item_slots x) = length (item_slots (items ! j))"
  shows "place (items[j := x]) k = place items k"
proof -
  have "map (length \<circ> item_slots) (items[j := x]) = map (length \<circ> item_slots) items"
    using assms by (simp add: map_update) (metis comp_apply length_map list_update_beyond list_update_id not_le nth_map)
  then show ?thesis unfolding place_def length_concat map_map take_map [symmetric] by simp
qed

lemma drop_short:
  assumes "drop n S = ls @ e # rest"
  shows "n + length ls < length S" and "S ! (n + length ls) = e"
proof -
  have "drop (n + length ls) S = drop (length ls) (drop n S)" by (simp add: add.commute)
  then have "drop (n + length ls) S = e # rest" by (simp add: assms)
  from drop_ConsD(1,2) [OF this] show "n + length ls < length S" "S ! (n + length ls) = e" by simp_all
qed

section \<open>Removing the entries\<close>

lemma wf_erased:
  assumes "dir_slots R bpb xs = S" and "n < length S"
  shows "wf_long (setDirEntryEmpty (S ! n))"
proof -
  obtain p where "length p = 32" "S ! n = decode_long p" using slot_wf [OF assms] by blast
  then have "wf_long (S ! n)" by (simp add: wf_decode)
  then show ?thesis by (simp add: wf_long_def setDirEntryEmpty_def)
qed

context block_device
begin

lemma erase_entries_ok:
  assumes "dir_ok good view F E R g xs" and "dir_slots R (F_bpb F) xs = S" and "drop n S = ls @ e # rest"
    and "\<forall>l \<in> set ls. isLongDirEntry l" and "\<not> isLongDirEntry e"
  shows "\<exists>d R'. erase_entries D F xs (clus_ix (F_bpb F) n) (sec_ix (F_bpb F) n) (off_ix n) = Some (F\<lparr>F_device := d\<rparr>)
    \<and> dir_ok good view (F\<lparr>F_device := d\<rparr>) E R' g xs
    \<and> dir_slots R' (F_bpb F) xs = take n S @ map setDirEntryEmpty (ls @ [e]) @ rest
    \<and> only_secs (set (file_secs (F_bpb F) xs)) R R'"
  using assms
proof (induction ls arbitrary: n F R S)
  case Nil
  then have n: "n < length S" "S ! n = e" "drop (Suc n) S = rest" using drop_ConsD [of n S e rest] by simp_all
  have w: "wf_long (setDirEntryEmpty e)" using wf_erased [OF Nil.prems(2) n(1)] n(2) by simp
  obtain p d where r: "dev_load D (F_device F) (slot_sec (F_bpb F) xs n) (off_ix n) = Some (p, d)" "32 \<le> length p"
      "decode_long p = e" "dir_ok good view (F\<lparr>F_device := d\<rparr>) E R g xs"
    using slot_load_ok [OF Nil.prems(1,2) n(1)] n(2) by blast
  have S: "dir_slots R (F_bpb (F\<lparr>F_device := d\<rparr>)) xs = S" using Nil.prems(2) by simp
  have "mark_empty p = Some (encode_long (setDirEntryEmpty e) @ drop 32 p)" if "32 \<le> length p" "decode_long p = S ! n" for p
    using that n(2) by (simp add: mark_empty_def)
  from slot_store_ok [OF r(4) S n(1) w this] obtain d2 R' where
    "dev_modify D d (slot_sec (F_bpb F) xs n) (off_ix n) mark_empty = Some d2" "dir_ok good view (F\<lparr>F_device := d2\<rparr>) E R' g xs"
    "dir_slots R' (F_bpb F) xs = S[n := setDirEntryEmpty e]" "only_secs (set (file_secs (F_bpb F) xs)) R R'" by auto
  then show ?case using r(1,3) slot_step(1) [OF Nil.prems(1,2) n(1)] Nil.prems(5) n
    by (intro exI [of _ d2] exI [of _ R']) (subst erase_entries.simps, simp add: upd_conv_take_nth_drop)
next
  case (Cons l ls)
  then have n: "n < length S" "S ! n = l" "drop (Suc n) S = ls @ e # rest" using drop_ConsD [of n S l "ls @ e # rest"] by simp_all
  have w: "wf_long (setDirEntryEmpty l)" using wf_erased [OF Cons.prems(2) n(1)] n(2) by simp
  obtain p d where r: "dev_load D (F_device F) (slot_sec (F_bpb F) xs n) (off_ix n) = Some (p, d)" "32 \<le> length p"
      "decode_long p = l" "dir_ok good view (F\<lparr>F_device := d\<rparr>) E R g xs"
    using slot_load_ok [OF Cons.prems(1,2) n(1)] n(2) by blast
  have S: "dir_slots R (F_bpb (F\<lparr>F_device := d\<rparr>)) xs = S" using Cons.prems(2) by simp
  have "mark_empty p = Some (encode_long (setDirEntryEmpty l) @ drop 32 p)" if "32 \<le> length p" "decode_long p = S ! n" for p
    using that n(2) by (simp add: mark_empty_def)
  from slot_store_ok [OF r(4) S n(1) w this] obtain d1 R1 where
    s: "dev_modify D d (slot_sec (F_bpb F) xs n) (off_ix n) mark_empty = Some d1" "dir_ok good view (F\<lparr>F_device := d1\<rparr>) E R1 g xs"
      "dir_slots R1 (F_bpb F) xs = S[n := setDirEntryEmpty l]" "only_secs (set (file_secs (F_bpb F) xs)) R R1" by auto
  have "Suc n < length S" using n(3) by (rule_tac ccontr) simp
  moreover have "drop (Suc n) (S[n := setDirEntryEmpty l]) = ls @ e # rest" using n(3) by simp
  then obtain d2 R2 where "erase_entries D (F\<lparr>F_device := d1\<rparr>) xs (clus_ix (F_bpb F) (Suc n)) (sec_ix (F_bpb F) (Suc n)) (off_ix (Suc n))
      = Some (F\<lparr>F_device := d2\<rparr>)" "dir_ok good view (F\<lparr>F_device := d2\<rparr>) E R2 g xs"
      "dir_slots R2 (F_bpb F) xs = take (Suc n) (S[n := setDirEntryEmpty l]) @ map setDirEntryEmpty (ls @ [e]) @ rest"
      "only_secs (set (file_secs (F_bpb F) xs)) R1 R2"
    using Cons.IH [OF s(2) _ _ _ Cons.prems(5), of "S[n := setDirEntryEmpty l]" "Suc n"] s(3) Cons.prems(4) by auto
  moreover have "take (Suc n) (S[n := setDirEntryEmpty l]) = take n S @ [setDirEntryEmpty l]" using n(1) by (simp add: take_Suc_conv_app_nth)
  ultimately show ?case using slot_step [OF Cons.prems(1,2) n(1)] r(1,3) s(1) Cons.prems(4) only_secs_trans [OF s(4)]
    by (intro exI [of _ d2] exI [of _ R2]) (subst erase_entries.simps, simp)
qed

text \<open>\<open>selfDestruct\<close> removes the entries and frees the clusters.\<close>

lemma selfDestruct_disk_ok:
  assumes ok: "dir_ok good view F E R g xs" and S: "dir_slots R (F_bpb F) xs = S" and d: "drop n S = ls @ e # rest"
    and l: "\<forall>l \<in> set ls. isLongDirEntry l" "\<not> isLongDirEntry e" and at: "lies_at f g (F_bpb F) n" and f: "file_holds F E R f zs" and dis: "set xs \<inter> set zs = {}"
  shows "\<exists>F' R'. selfDestruct_disk D F f = Some F' \<and> F_bpb F' = F_bpb F
    \<and> dir_ok good view F' (\<lambda>c. if c \<in> set zs then 0 else E c) R' g xs
    \<and> dir_slots R' (F_bpb F) xs = take n S @ map setDirEntryEmpty (ls @ [e]) @ rest \<and> only_secs (set (file_secs (F_bpb F) xs)) R R'
    \<and> (zs = [] \<longrightarrow> (\<exists>d. F' = F\<lparr>F_device := d\<rparr>))"
proof -
  have h: "fat_holds good view F E R" "file_holds F E R g xs" using ok by (simp_all add: dir_ok_def)
  have n: "n < length S" using d by (rule_tac ccontr) simp
  obtain d1 where c: "readClusChains D F (f_parent_clus f) = Some (xs, F\<lparr>F_device := d1\<rparr>)" "dir_ok good view (F\<lparr>F_device := d1\<rparr>) E R g xs"
    using parent_chain_ok [OF ok slots_chain [OF ok]] n S at by (auto simp: lies_at_def)
  note bps = geometryD(1) [OF file_holds_facts(1) [OF h]]
  have n27: "n < 2 ^ 27" using n dir_slots_bound(2) [OF ok, unfolded S] by simp
  have pos: "entry_pos (F_bpb F) (f_fst_entry_num f) = Some (sec_ix (F_bpb F) n, off_ix n)" "clus_ix (F_bpb F) n = 0"
    using entry_pos_slot [OF bps n27] at by (auto simp: lies_at_def div_less_iff_less_mult mult.commute)
  obtain d2 R' where w: "erase_entries D (F\<lparr>F_device := d1\<rparr>) xs 0 (sec_ix (F_bpb F) n) (off_ix n) = Some (F\<lparr>F_device := d2\<rparr>)"
      "dir_ok good view (F\<lparr>F_device := d2\<rparr>) E R' g xs" "dir_slots R' (F_bpb F) xs = take n S @ map setDirEntryEmpty (ls @ [e]) @ rest"
      "only_secs (set (file_secs (F_bpb F) xs)) R R'"
    using erase_entries_ok [OF c(2) _ d l] S pos(2) by auto
  let ?F2 = "F\<lparr>F_device := d2\<rparr>" and ?E = "\<lambda>c. if c \<in> set zs then 0 else E c"
  have f2: "file_holds ?F2 E R' f zs" and fat2: "fat_holds good view ?F2 E R'"
    using file_holds_only_secs [OF f w(4)] w(2) by (simp_all add: dir_ok_def)
  have "\<exists>F'. freeClus D ?F2 (f_fst_clus f) = Some F' \<and> F_bpb F' = F_bpb F \<and> fat_holds good view F' ?E R'
    \<and> (zs = [] \<longrightarrow> (\<exists>d. F' = F\<lparr>F_device := d\<rparr>))"
  proof (cases "isValidCluster (f_fst_clus f)")
    case True
    then have "chain (fat_size ?F2) E (f_fst_clus f) zs" "zs \<noteq> []" using f2 by (simp_all add: file_holds_def)
    from freeClus_ok [OF fat2 True this(1)] this(2) show ?thesis by auto
  next
    case False
    then have "zs = []" using f2 by (simp add: file_holds_def)
    then show ?thesis using False fat2 by (auto simp: freeClus_def)
  qed
  then obtain F' where fr: "freeClus D ?F2 (f_fst_clus f) = Some F'" "F_bpb F' = F_bpb F" "fat_holds good view F' ?E R'"
      "zs = [] \<longrightarrow> (\<exists>d. F' = F\<lparr>F_device := d\<rparr>)" by blast
  have "chain (fat_size F') ?E k xs \<longleftrightarrow> chain (fat_size ?F2) E k xs" for k
    using dis by (simp add: fr(2)) (rule chain_cong, auto)
  then have "file_holds F' ?E R' g xs" using w(2) fr(2) by (simp add: dir_ok_def file_holds_def split: if_splits)
  then have "dir_ok good view F' ?E R' g xs" using w(2) fr(2,3) by (simp add: dir_ok_def)
  moreover have "selfDestruct_disk D F f = Some F'" using c(1) pos w(1) fr(1) by (simp add: selfDestruct_disk_def)
  ultimately show ?thesis using w(3,4) fr(2,4) by blast
qed

text \<open>Both operations on an item of the listing.\<close>

lemma sync_item_ok:
  assumes ok: "dir_ok good view F E R g xs" and items: "dir_items (dir_slots R (F_bpb F) xs) items"
    and i: "i < length items" "items ! i = Present ls e" and at: "lies_at f g (F_bpb F) (place items i)"
    and f: "file_holds F E R f ys" "\<not> f_is_deleted f" "ino f \<noteq> KRootDirIno"
  shows "\<exists>d R'. File_sync D F f dir True = Some (with_chain ys f, F\<lparr>F_device := d\<rparr>) \<and> dir_ok good view (F\<lparr>F_device := d\<rparr>) E R' g xs
    \<and> dir_items (dir_slots R' (F_bpb F) xs) (items[i := Present ls (synced f dir e)]) \<and> only_secs (set (file_secs (F_bpb F) xs)) R R'"
proof -
  obtain rest where r: "drop (place items i) (dir_slots R (F_bpb F) xs) = ls @ e # rest" using place_drop(1) [OF items i] by blast
  have it: "item_ok (Present ls e)" by (rule place_drop(2) [OF items i])
  obtain d R' where s: "File_sync D F f dir True = Some (with_chain ys f, F\<lparr>F_device := d\<rparr>)" "dir_ok good view (F\<lparr>F_device := d\<rparr>) E R' g xs"
      "dir_slots R' (F_bpb F) xs = (dir_slots R (F_bpb F) xs)[place items i + length ls := synced f dir e]"
      "only_secs (set (file_secs (F_bpb F) xs)) R R'"
    using File_sync_ok [OF ok refl r it at f, of dir] by blast
  note e = drop_short [OF r]
  have "dir_items (dir_slots R' (F_bpb F) xs) (items[i := Present ls (synced f dir e)])" unfolding s(3)
    by (rule item_updated [OF items i synced_item(1) [OF refl e(1), unfolded e(2), OF it]])
  then show ?thesis using s(1,2,4) by blast
qed

lemma selfDestruct_item_ok:
  assumes ok: "dir_ok good view F E R g xs" and items: "dir_items (dir_slots R (F_bpb F) xs) items"
    and i: "i < length items" "items ! i = Present ls e" and at: "lies_at f g (F_bpb F) (place items i)"
    and f: "file_holds F E R f zs" "set xs \<inter> set zs = {}"
  shows "\<exists>F' R'. selfDestruct_disk D F f = Some F' \<and> F_bpb F' = F_bpb F
    \<and> dir_ok good view F' (\<lambda>c. if c \<in> set zs then 0 else E c) R' g xs \<and> dir_items (dir_slots R' (F_bpb F) xs)
        (take i items @ map (\<lambda>l. Deleted (setDirEntryEmpty l)) (ls @ [e]) @ drop (Suc i) items)
    \<and> only_secs (set (file_secs (F_bpb F) xs)) R R' \<and> (zs = [] \<longrightarrow> (\<exists>d. F' = F\<lparr>F_device := d\<rparr>))"
proof -
  obtain rest where r: "drop (place items i) (dir_slots R (F_bpb F) xs) = ls @ e # rest" using place_drop(1) [OF items i] by blast
  have l: "\<forall>l \<in> set ls. isLongDirEntry l" "\<not> isLongDirEntry e" using place_drop(2) [OF items i] by simp_all
  obtain F' R' where s: "selfDestruct_disk D F f = Some F'" "F_bpb F' = F_bpb F"
      "dir_ok good view F' (\<lambda>c. if c \<in> set zs then 0 else E c) R' g xs" "only_secs (set (file_secs (F_bpb F) xs)) R R'"
      "dir_slots R' (F_bpb F) xs = take (place items i) (dir_slots R (F_bpb F) xs) @ map setDirEntryEmpty (ls @ [e]) @ rest"
      "zs = [] \<longrightarrow> (\<exists>d. F' = F\<lparr>F_device := d\<rparr>)"
    using selfDestruct_disk_ok [OF ok refl r l at f] by blast
  from item_erased [OF items i r] show ?thesis using s unfolding s(5) [symmetric] by blast
qed

text \<open>The metadata of \<open>old\<close> goes to \<open>new\<close>, then \<open>old\<close> goes with what \<open>new\<close> had.\<close>

lemma rename_entries_ok:
  assumes ok: "dir_ok good view F E R g xs" and items: "dir_items (dir_slots R (F_bpb F) xs) items"
    and i: "i < length items" "items ! i = Present ls e" and j: "j < length items" "items ! j = Present ls' e'" "i \<noteq> j"
    and old: "lies_at old g (F_bpb F) (place items i)" "file_holds F E R old ys" "\<not> f_is_deleted old" "ino old \<noteq> KRootDirIno"
    and new: "lies_at new g (F_bpb F) (place items j)" "file_holds F E R new zs" "\<not> f_is_deleted new" "ino new \<noteq> KRootDirIno"
    and dis: "set xs \<inter> set zs = {}"
  defines "its \<equiv> items[j := Present ls' (synced (swap_meta new old) (isDir new) e')]"
  shows "\<exists>old' F1 F' R' e2. exchangeMetaData D F new old = Some (with_chain ys (swap_meta new old), old', F1)
    \<and> selfDestruct_disk D F1 old' = Some F' \<and> F_bpb F' = F_bpb F \<and> dir_ok good view F' (\<lambda>c. if c \<in> set zs then 0 else E c) R' g xs
    \<and> dir_items (dir_slots R' (F_bpb F) xs) (take i its @ map (\<lambda>l. Deleted (setDirEntryEmpty l)) (ls @ [e2]) @ drop (Suc i) its)
    \<and> only_secs (set (file_secs (F_bpb F) xs)) R R' \<and> old' = with_chain zs (swap_meta old new)
    \<and> (zs = [] \<longrightarrow> (\<exists>d. F' = F\<lparr>F_device := d\<rparr>))"
proof -
  let ?new = "swap_meta new old" and ?old = "swap_meta old new" and ?e = "synced (swap_meta old new) (isDir old) e"
  have sw: "f_parent_clus (swap_meta f h) = f_parent_clus f" "f_fst_entry_num (swap_meta f h) = f_fst_entry_num f"
    "f_is_deleted (swap_meta f h) = f_is_deleted f" "ino (swap_meta f h) = ino f"
    "f_fst_clus (swap_meta f h) = f_fst_clus h" "f_clus_chain (swap_meta f h) = None" for f h by (simp_all add: swap_meta_def ino_def)
  have fh: "file_holds F E R ?new ys" "file_holds F E R ?old zs" using old(2) new(2) by (simp_all add: file_holds_def sw)
  have la: "lies_at ?new g (F_bpb F) (place items j)" "lies_at ?old g (F_bpb F) (place items i)" using old(1) new(1) by (simp_all add: lies_at_def sw)
  obtain d1 R1 where s1: "File_sync D F ?new (isDir new) True = Some (with_chain ys ?new, F\<lparr>F_device := d1\<rparr>)"
      "dir_ok good view (F\<lparr>F_device := d1\<rparr>) E R1 g xs" "dir_items (dir_slots R1 (F_bpb F) xs) its" "only_secs (set (file_secs (F_bpb F) xs)) R R1"
    using sync_item_ok [OF ok items j(1,2) la(1) fh(1), of "isDir new"] new(3,4) unfolding sw its_def by blast
  let ?F1 = "F\<lparr>F_device := d1\<rparr>"
  have i1: "i < length its" "its ! i = Present ls e" using i j by (simp_all add: its_def)
  have "place its i = place items i" unfolding its_def by (rule place_update) (simp add: j(2))
  then have f1: "file_holds ?F1 E R1 ?old zs" "lies_at ?old g (F_bpb ?F1) (place its i)" "dir_items (dir_slots R1 (F_bpb ?F1) xs) its"
    using file_holds_only_secs [OF fh(2) s1(4)] la(2) s1(3) by (simp_all add: file_holds_def split: if_splits)
  obtain d2 R2 where s2: "File_sync D ?F1 ?old (isDir old) True = Some (with_chain zs ?old, F\<lparr>F_device := d2\<rparr>)"
      "dir_ok good view (F\<lparr>F_device := d2\<rparr>) E R2 g xs" "dir_items (dir_slots R2 (F_bpb F) xs) (its[i := Present ls ?e])"
      "only_secs (set (file_secs (F_bpb F) xs)) R1 R2"
    using sync_item_ok [OF s1(2) f1(3) i1 f1(2,1), of "isDir old"] old(3,4) by (auto simp: sw)
  let ?F2 = "F\<lparr>F_device := d2\<rparr>"
  have i2: "i < length (its[i := Present ls ?e])" "its[i := Present ls ?e] ! i = Present ls ?e" using i1 by simp_all
  have "place (its[i := Present ls ?e]) i = place its i" by (simp add: place_def)
  then have f2: "file_holds ?F2 E R2 (with_chain zs ?old) zs" "lies_at (with_chain zs ?old) g (F_bpb ?F2) (place (its[i := Present ls ?e]) i)"
      "dir_items (dir_slots R2 (F_bpb ?F2) xs) (its[i := Present ls ?e])"
    using file_holds_only_secs [OF f1(1) s2(4)] f1(2) s2(3) by (simp_all add: file_holds_def lies_at_def with_chain_def split: if_splits)
  have dev: "F_bpb ?F2 = F_bpb F" "\<And>d. ?F2\<lparr>F_device := d\<rparr> = F\<lparr>F_device := d\<rparr>" by simp_all
  obtain F' R' where sd: "selfDestruct_disk D ?F2 (with_chain zs ?old) = Some F'" "F_bpb F' = F_bpb F"
      "dir_ok good view F' (\<lambda>c. if c \<in> set zs then 0 else E c) R' g xs" "only_secs (set (file_secs (F_bpb F) xs)) R2 R'"
      "dir_items (dir_slots R' (F_bpb F) xs) (take i its @ map (\<lambda>l. Deleted (setDirEntryEmpty l)) (ls @ [?e]) @ drop (Suc i) its)"
      "zs = [] \<longrightarrow> (\<exists>d. F' = F\<lparr>F_device := d\<rparr>)"
    using selfDestruct_item_ok [OF s2(2) f2(3) i2 f2(2,1) dis] unfolding dev
    by (simp only: take_update_cancel [OF order_refl] drop_update_cancel [OF lessI]) blast
  have "exchangeMetaData D F new old = Some (with_chain ys ?new, with_chain zs ?old, ?F2)" using s1(1) s2(1) by (simp add: exchangeMetaData_def)
  then show ?thesis using sd only_secs_trans [OF only_secs_trans [OF s1(4) s2(4)] sd(4)] by blast
qed

end

section \<open>Properties\<close>

text \<open>C23: What \<open>rename\<close> does when the entries of the new name are in place, in the same directory: exchanging
  the metadata and removing the old file leaves the new name with the first cluster, the size and
  the times of the old file, on the disk too, and with its bytes; the entries of the old name are
  deleted, those of all other files stay as they are, and so does every cluster outside the directory.
  The clusters the new name had before are free.\<close>

theorem rename_moves_the_file:
  assumes "disk_dir F E R g xs" and "dir_items (dir_slots R (F_bpb F) xs) items"
    and "i < length items" and "items ! i = Present ls e" and "j < length items" and "items ! j = Present ls' e'" and "i \<noteq> j"
    and "lies_at old g (F_bpb F) (place items i)" and "file_holds F E R old ys" and "\<not> f_is_deleted old" and "ino old \<noteq> KRootDirIno"
    and "lies_at new g (F_bpb F) (place items j)" and "file_holds F E R new zs" and "\<not> f_is_deleted new" and "ino new \<noteq> KRootDirIno"
    and "set xs \<inter> set zs = {}" and "set xs \<inter> set ys = {}" and "set ys \<inter> set zs = {}"
  shows "\<exists>new' old' F1 F' R' e2. exchangeMetaData disk_ops F new old = Some (new', old', F1) \<and> selfDestruct_disk disk_ops F1 old' = Some F'
    \<and> new' = with_chain ys (swap_meta new old) \<and> file_holds F' (\<lambda>c. if c \<in> set zs then 0 else E c) R' new' ys
    \<and> file_bytes R' (F_bpb F) new' ys = file_bytes R (F_bpb F) old ys
    \<and> disk_dir F' (\<lambda>c. if c \<in> set zs then 0 else E c) R' g xs \<and> only_secs (set (file_secs (F_bpb F) xs)) R R'
    \<and> (let its = items[j := Present ls' (synced new' (isDir new) e')] in dir_items (dir_slots R' (F_bpb F) xs)
        (take i its @ map (\<lambda>l. Deleted (setDirEntryEmpty l)) (ls @ [e2]) @ drop (Suc i) its))"
proof -
  let ?E = "\<lambda>c. if c \<in> set zs then 0 else E c" and ?new = "with_chain ys (swap_meta new old)"
  obtain old' F1 F' R' e2 where r: "exchangeMetaData disk_ops F new old = Some (?new, old', F1)" "selfDestruct_disk disk_ops F1 old' = Some F'"
      "F_bpb F' = F_bpb F" "disk_dir F' ?E R' g xs" "only_secs (set (file_secs (F_bpb F) xs)) R R'"
      "dir_items (dir_slots R' (F_bpb F) xs) (take i (items[j := Present ls' (synced (swap_meta new old) (isDir new) e')])
        @ map (\<lambda>l. Deleted (setDirEntryEmpty l)) (ls @ [e2]) @ drop (Suc i) (items[j := Present ls' (synced (swap_meta new old) (isDir new) e')]))"
    using lfd.cached.rename_entries_ok [OF assms(1-16)] by blast
  have syn: "synced ?new dir e' = synced (swap_meta new old) dir e'" for dir by (simp add: synced_def meta_into_def with_chain_def Let_def)
  have h: "disk_fat F E R" "file_holds F E R g xs" using assms(1) by (simp_all add: dir_ok_def)
  have dc: "\<forall>x \<in> set xs. data_clus (F_bpb F) x" "\<forall>y \<in> set ys. data_clus (F_bpb F) y" using h(2) assms(9) by (simp_all add: file_holds_def)
  have secs: "set (file_secs (F_bpb F) xs) \<inter> set (file_secs (F_bpb F) ys) = {}"
    by (rule secs_apart [OF file_holds_facts(1) [OF h] file_holds_facts(2) [OF h] file_holds_facts(2) [OF h(1) assms(9)] dc assms(17)])
  have "R' s = R s" if "s \<in> set (file_secs (F_bpb F) ys)" for s using that secs r(5) by (auto simp: only_secs_def)
  then have "file_content R' (F_bpb F) ys = file_content R (F_bpb F) ys" by (rule content_dom_eq)
  moreover have "f_file_sz ?new = f_file_sz old" by (simp add: with_chain_def swap_meta_def)
  ultimately have "file_bytes R' (F_bpb F) ?new ys = file_bytes R (F_bpb F) old ys" by (simp add: file_bytes_def)
  moreover have "chain (fat_size F') ?E k ys \<longleftrightarrow> chain (fat_size F) E k ys" for k
    using assms(18) by (simp add: r(3)) (rule chain_cong, auto)
  then have "file_holds F' ?E R' ?new ys"
    using assms(9) only_secs_dom [OF r(5)] r(3) by (simp add: file_holds_def with_chain_def swap_meta_def)
  ultimately show ?thesis using r
    by - (rule exI [of _ ?new], rule exI [of _ old'], rule exI [of _ F1], rule exI [of _ F'], rule exI [of _ R'], rule exI [of _ e2],
        unfold Let_def syn, simp)
qed

text \<open>The demo file gets the name of an empty one.\<close>

abbreviation demo_target :: fobj where
  "demo_target \<equiv> demo_empty\<lparr>f_fst_entry_num := 3\<rparr>"

lemma demo_holding:
  assumes its: "\<forall>e \<in> set (items_slots items). wf_long e" "length (items_slots items) \<le> 32" "\<forall>it \<in> set items. item_ok it"
  shows "\<exists>F E R g. disk_dir F E R g [2] \<and> F_bpb F = demo_BPB \<and> dir_items (dir_slots R (F_bpb F) [2]) items
    \<and> f_fst_clus g = 2 \<and> file_holds F E R demo_file [3, 4, 5] \<and> file_bytes R demo_BPB demo_file [3, 4, 5] = replicate 3000 0
    \<and> vol_ok F E R \<and> dir_slots R (F_bpb F) [2] = items_slots items @ replicate (32 - length (items_slots items)) zero_entry
    \<and> only_clus demo_BPB [2] [] demo_E E demo_R R"
proof -
  obtain F E R g where d: "dir_wrote disk_good disk_view demo_FAT demo_E demo_R (mkRootDir 2) [2] F E R g"
      "dir_slots R (F_bpb F) [2] = items_slots items @ replicate (32 - length (items_slots items)) zero_entry" using demo_dir_wrote [OF its(1,2)] by blast
  have ok: "disk_dir F E R g [2]" "F_bpb F = demo_BPB" "only_clus demo_BPB [2] [] demo_E E demo_R R"
    using dir_wrote_next [OF d(1)] by (simp_all add: dir_next_def demo_count)
  then have "f_fst_clus g = 2" by (auto simp: dir_ok_def file_holds_def split: if_splits)
  moreover have "disk_fat demo_FAT demo_E demo_R" "file_holds demo_FAT demo_E demo_R demo_file [3, 4, 5]"
    using file_okD(1,2) [OF demo_file_ok] by simp_all
  from file_apart [OF this, of F E R g "[2]" "[]"] ok
  have "file_holds F E R demo_file [3, 4, 5]" "file_content R demo_BPB [3, 4, 5] = file_content demo_R demo_BPB [3, 4, 5]"
    by (simp_all add: demo_count dir_ok_def)
  moreover from this(2) have "file_bytes R demo_BPB demo_file [3, 4, 5] = replicate 3000 0" using demo_bytes by (simp add: file_bytes_def)
  moreover have "isLstEmptyDirEntry zero_entry" by code_simp
  then have "dir_items (dir_slots R (F_bpb F) [2]) items"
    unfolding dir_items_def d(2) using its(3) end_is_empty
    by (intro conjI exI [of _ "replicate (32 - length (items_slots items)) zero_entry"]) (auto intro: hd_replicate [THEN ssubst])
  moreover have "vol_ok demo_FAT demo_E demo_R" using demo_file_ok by (auto simp: file_ok_def vol_ok_def)
  then have "vol_ok F E R" by (rule vol_ok_wrote [OF demo_root_ok(1) d(1)])
  ultimately show ?thesis using ok d(2) by blast
qed

lemma demo_free_slots: "32 - length (items_slots demo_items) = 28"
  by code_simp

lemma demo_both:
  "\<exists>F E R g. disk_dir F E R g [2] \<and> F_bpb F = demo_BPB \<and> dir_items (dir_slots R (F_bpb F) [2]) demo_items
    \<and> f_fst_clus g = 2 \<and> file_holds F E R demo_file [3, 4, 5] \<and> file_bytes R demo_BPB demo_file [3, 4, 5] = replicate 3000 0
    \<and> vol_ok F E R \<and> dir_slots R (F_bpb F) [2] = items_slots demo_items @ replicate 28 zero_entry
    \<and> only_clus demo_BPB [2] [] demo_E E demo_R R"
proof -
  have "\<forall>e \<in> set (items_slots demo_items). wf_long e" "length (items_slots demo_items) \<le> 32" by code_simp+
  from demo_holding [OF this demo_items_ok] show ?thesis by (simp only: demo_free_slots)
qed

theorem rename_moves_the_file_witness:
  "\<exists>F R new' old' F1 F' R' e2. exchangeMetaData disk_ops F demo_target demo_file = Some (new', old', F1)
    \<and> selfDestruct_disk disk_ops F1 old' = Some F' \<and> file_bytes R' demo_BPB new' [3, 4, 5] = replicate 3000 0
    \<and> dir_items (dir_slots R' demo_BPB [2]) [Deleted (setDirEntryEmpty demo_long), Deleted (setDirEntryEmpty e2),
        Deleted (setDirEntryEmpty zero_entry), Present [] (synced new' False (demo_short [0x42]))]"
proof -
  obtain F E R g where d: "disk_dir F E R g [2]" "F_bpb F = demo_BPB" "dir_items (dir_slots R (F_bpb F) [2]) demo_items"
      "f_fst_clus g = 2" "file_holds F E R demo_file [3, 4, 5]" "file_bytes R demo_BPB demo_file [3, 4, 5] = replicate 3000 0"
    using demo_both by blast
  have p: "0 < length demo_items" "demo_items ! 0 = Present [demo_long] (demo_short [0x41])" "2 < length demo_items"
    "demo_items ! 2 = Present [] (demo_short [0x42])" "(0 :: nat) \<noteq> 2" by simp_all
  have "place demo_items 0 = 0" "place demo_items 2 = 3" by (simp_all add: place_def numeral_2_eq_2)
  then have at: "lies_at demo_file g (F_bpb F) (place demo_items 0)" "lies_at demo_target g (F_bpb F) (place demo_items 2)"
    by (simp_all add: lies_at_def d(2,4) demo_empty_def demo_file_def demo_BPB_def)
  have t: "file_holds F E R demo_target []" by (simp add: file_holds_def demo_empty_def isValidCluster_def)
  have ok: "\<not> f_is_deleted demo_file" "ino demo_file \<noteq> KRootDirIno" "\<not> f_is_deleted demo_target" "ino demo_target \<noteq> KRootDirIno"
    by (simp_all add: demo_empty_def demo_file_def ino_def KRootDirIno_def)
  have dis: "set [2] \<inter> set ([] :: u32 list) = {}" "set [2] \<inter> set [3, 4, 5 :: u32] = {}" "set [3, 4, 5 :: u32] \<inter> set [] = {}" by simp_all
  have "isDir demo_target = False" by (simp add: demo_empty_def isDir_def)
  with rename_moves_the_file [OF d(1,3) p at(1) d(5) ok(1,2) at(2) t ok(3,4) dis] d(2,6)
  show ?thesis by (simp add: Let_def) blast
qed

end
