(* ===== verification/Requests.thy ===== *)
theory Requests
  imports Rename
begin

text \<open>
  What the kernel sees of the regular files it has open: histories of requests on several files at once
  refine a map from inode numbers to sequences of bytes, beside the number of free clusters.
\<close>

section \<open>The specification\<close>

text \<open>The files by inode number, and the number of free clusters.\<close>

type_synonym volume = "(u64 \<rightharpoonup> bytes) \<times> nat"

text \<open>A write changes just the file it names and the supply of clusters, as \<open>spec_step\<close> says.\<close>

inductive vol_step :: "BPB \<Rightarrow> volume \<Rightarrow> request \<Rightarrow> reply \<Rightarrow> volume \<Rightarrow> bool" for bpb where
  reads: "files (node_ino n) = Some data \<Longrightarrow> sz < 4294967295 \<Longrightarrow>
    vol_step bpb (files, free) (Read_req n sz off) (Reply_buf (take (unat sz) (drop (unat (ucast off :: u32)) data))) (files, free)"
| read_too_much: "4294967295 \<le> sz \<Longrightarrow> vol_step bpb (files, free) (Read_req n sz off) (Reply_err EINVAL) (files, free)"
| writes: "files (node_ino n) = Some data \<Longrightarrow>
    spec_step bpb (data, free) (Write_op buf (ucast off)) (Written r) (data', free') \<Longrightarrow>
    vol_step bpb (files, free) (Write_req n buf sz off) (Reply_write r) (files(node_ino n \<mapsto> data'), free')"
| fsync_data: "files (node_ino n) = Some data \<Longrightarrow>
    vol_step bpb (files, free) (Fsync_req n False) (Reply_err Success) (files, free)"
| statfs: "f_bfree s = of_nat free \<Longrightarrow> f_bavail s = of_nat free \<Longrightarrow> f_bsize s = bytesPerClus bpb \<Longrightarrow>
    vol_step bpb (files, free) Statfs_req (Reply_statfs s) (files, free)"
| opened: "vol_step bpb v Open_req Reply_open v"
| no_such: "req \<in> {Mknod_req, Symlink_req, Link_req} \<Longrightarrow> vol_step bpb v req (Reply_err EPERM) v"

inductive vol_run :: "BPB \<Rightarrow> volume \<Rightarrow> request list \<Rightarrow> reply list \<Rightarrow> volume \<Rightarrow> bool" for bpb where
  Nil: "vol_run bpb v [] [] v"
| Cons: "vol_step bpb v req r v' \<Longrightarrow> vol_run bpb v' reqs rs v'' \<Longrightarrow> vol_run bpb v (req # reqs) (r # rs) v''"

inductive_cases vol_run_ConsE: "vol_run bpb v (req # reqs) rs v''"
inductive_cases vol_run_NilE: "vol_run bpb v [] rs v''"
inductive_cases vol_readE: "vol_step bpb v (Read_req n sz off) r v'"
inductive_cases vol_writeE: "vol_step bpb v (Write_req n buf sz off) r v'"

lemma vol_step_dom: "vol_step bpb v req r v' \<Longrightarrow> dom (fst v') = dom (fst v)"
  by (induction rule: vol_step.induct) (auto split: if_splits)

text \<open>The requests treated: on the files at hand, with writes that are not empty and end within 4 GiB.\<close>

fun on_files :: "u64 set \<Rightarrow> request \<Rightarrow> bool" where
  "on_files N (Read_req n sz off) = (node_ino n \<in> N)"
| "on_files N (Write_req n buf sz off) = (node_ino n \<in> N \<and> sz = of_nat (length buf)
     \<and> op_ok (Write_op buf (ucast off)))"
| "on_files N (Fsync_req n datasync) = (node_ino n \<in> N \<and> \<not> datasync)"
| "on_files N req = (req \<in> {Statfs_req, Open_req, Mknod_req, Symlink_req, Link_req})"

section \<open>The abstraction\<close>

text \<open>\<open>ch\<close> gives the chain of each file; no two share a cluster.\<close>

definition vol_files :: "lfd cache_mgr FAT32fs \<Rightarrow> (u32 \<Rightarrow> u32) \<Rightarrow> (u32 \<Rightarrow> bytes option) \<Rightarrow> (u64 \<Rightarrow> u32 list) \<Rightarrow>
    (u64 \<rightharpoonup> bytes) \<Rightarrow> bool" where
  "vol_files st E R ch files \<longleftrightarrow>
     (\<forall>k data. files k = Some data \<longrightarrow> (\<exists>a f. finds st k = Some a \<and> fs_objs st a = Some f
        \<and> disk_file (fs_fat st) E R f (ch k) \<and> file_bytes R (F_bpb (fs_fat st)) f (ch k) = data))
     \<and> (\<forall>k \<in> dom files. \<forall>j \<in> dom files. k \<noteq> j \<longrightarrow> set (ch k) \<inter> set (ch j) = {})"

definition holds_volume :: "lfd cache_mgr FAT32fs \<Rightarrow> volume \<Rightarrow> bool" where
  "holds_volume st v \<longleftrightarrow> fs_wf st {#} \<and> (\<exists>E R ch. disk_fat (fs_fat st) E R \<and> vol_ok (fs_fat st) E R
     \<and> snd v = frees (F_bpb (fs_fat st)) E \<and> vol_files st E R ch (fst v))"

lemma holds_volumeI:
  assumes "fs_wf st {#}" and "disk_fat (fs_fat st) E R" and "vol_ok (fs_fat st) E R" and "vol_files st E R ch files"
    and "free = frees (F_bpb (fs_fat st)) E"
  shows "holds_volume st (files, free)"
  using assms unfolding holds_volume_def by auto

section \<open>One file changes\<close>

lemma file_ok_split:
  "file_ok good view F E R f xs \<longleftrightarrow> fat_holds good view F E R \<and> vol_ok F E R \<and> file_holds F E R f xs \<and> \<not> f_is_dir f
     \<and> length xs = clus_need (F_bpb F) (unat (f_file_sz f))"
  by (auto simp: file_ok_def vol_ok_def)

text \<open>One file changes, the others stay.\<close>

lemma vol_files_upd:
  assumes wf: "fs_wf st {#}" and vf: "vol_files st E R ch files" and f: "files n = Some data" "finds st n = Some a"
    and new: "disk_file F' E' R' f' (ch n @ ys)" "F_bpb F' = F_bpb (fs_fat st)" "only_clus (F_bpb (fs_fat st)) (ch n) ys E E' R R'"
    and st': "fs_fat st' = F'" "fs_objs st' = (fs_objs st)(a := Some f')" "finds st' = finds st"
  shows "vol_files st' E' R' (ch(n := ch n @ ys)) (files(n \<mapsto> file_bytes R' (F_bpb (fs_fat st)) f' (ch n @ ys)))"
proof -
  let ?F = "fs_fat st"
  have old: "\<exists>b g. finds st k = Some b \<and> fs_objs st b = Some g \<and> disk_file ?F E R g (ch k)
      \<and> file_bytes R (F_bpb ?F) g (ch k) = bs" if "files k = Some bs" for k bs
    using vf that by (simp add: vol_files_def)
  have dis: "set (ch n @ ys) \<inter> set (ch k) = {}" if k: "k \<in> dom files" "k \<noteq> n" for k
  proof -
    obtain g where "disk_file ?F E R g (ch k)" using old k(1) by blast
    from file_clus_used(1) [OF file_okD(2) [OF this]] have "\<forall>x \<in> set (ch k). E x \<noteq> 0" by blast
    moreover have "set (ch n) \<inter> set (ch k) = {}" using vf k f(1) unfolding vol_files_def by (metis domI)
    ultimately show ?thesis using new(3) by (auto simp: only_clus_def)
  qed
  have "\<exists>b g. map_of (cached st') k = Some b \<and> fs_objs st' b = Some g \<and> disk_file (fs_fat st') E' R' g (ch k)
      \<and> file_bytes R' (F_bpb ?F) g (ch k) = bs" if k: "files k = Some bs" "k \<noteq> n" for k bs
  proof -
    obtain b g where g: "finds st k = Some b" "fs_objs st b = Some g" "disk_file ?F E R g (ch k)"
        "file_bytes R (F_bpb ?F) g (ch k) = bs"
      using old [OF k(1)] by blast
    have key: "\<exists>h. fs_objs st c = Some h \<and> ino h = i" if "finds st i = Some c" for i c
      using wf map_of_SomeD [OF that] by (auto simp: fs_wf_def)
    have "b \<noteq> a" using key [OF g(1)] key [OF f(2)] k(2) by auto
    note kept = file_apart [OF file_okD(1,2) [OF g(3)] file_okD(1,2) [OF new(1)] new(2,3) dis [OF domI [of files k bs, OF k(1)] k(2)]]
    have "disk_file F' E' R' g (ch k)" using g(3) new(1,2) kept(1) by (simp add: file_ok_split)
    moreover have "file_bytes R' (F_bpb ?F) g (ch k) = bs" using g(4) kept(2) by (simp add: file_bytes_def)
    ultimately show ?thesis using g(1,2) \<open>b \<noteq> a\<close> st' by auto
  qed
  moreover have "map_of (cached st') n = Some a \<and> fs_objs st' a = Some f'" using f(2) st' by simp
  ultimately show ?thesis using new(1,2) st'(1) vf dis f(1) unfolding vol_files_def
    by (auto simp: Int_commute) 
qed

section \<open>Requests\<close>

lemma cached_file_method:
  assumes wf: "fs_wf st {#}" and vf: "vol_files st E R ch files" and n: "files (node_ino n) = Some data"
    and f: "finds st (node_ino n) = Some a" "fs_objs st a = Some f" and m: "m (fs_fat st) f = Some (r, f', F')" "ino f' = ino f"
    and new: "disk_file F' E' R' f' (ch (node_ino n) @ ys)" "F_bpb F' = F_bpb (fs_fat st)"
      "only_clus (F_bpb (fs_fat st)) (ch (node_ino n)) ys E E' R R'"
  shows "\<exists>st1 st2 st3. getExistFile D en n st = Some (a, st1) \<and> on_file a m st1 = Some (r, st2) \<and> unshare D a st2 = Some st3
    \<and> holds_volume st3 (files(node_ino n \<mapsto> file_bytes R' (F_bpb (fs_fat st)) f' (ch (node_ino n) @ ys)), frees (F_bpb (fs_fat st)) E')
    \<and> F_bpb (fs_fat st3) = F_bpb (fs_fat st)"
proof -
  obtain st1 st2 st3 where c: "getExistFile D en n st = Some (a, st1)" "on_file a m st1 = Some (r, st2)" "unshare D a st2 = Some st3"
      "fs_wf st3 {#}" "fs_fat st3 = F'" "fs_objs st3 = (fs_objs st)(a := Some f')" "finds st3 = finds st"
    using cached_method [where m = m, OF wf f(1,2) m] by blast
  have "holds_volume st3 (files(node_ino n \<mapsto> file_bytes R' (F_bpb (fs_fat st)) f' (ch (node_ino n) @ ys)), frees (F_bpb (fs_fat st)) E')"
    by (rule holds_volumeI [OF c(4) _ _ vol_files_upd [OF wf vf n f(1) new c(5-7)]])
      (use new(1,2) in \<open>simp_all add: c(5) file_ok_split\<close>)
  with c(1-3,5) new(2) show ?thesis by blast
qed

lemma only_clus_refl [simp]: "only_clus bpb xs [] E E R R"
  by (simp add: only_clus_def)

lemma fsync_step:
  assumes "disk_file F E R f xs"
  shows "\<exists>f' F'. File_sync disk_ops F f dir False = Some (f', F') \<and> disk_file F' E R f' xs \<and> F_bpb F' = F_bpb F
    \<and> f_file_sz f' = f_file_sz f"
proof (cases "f_is_deleted f")
  case True
  then show ?thesis using assms by (auto simp: File_sync_def)
next
  case False
  from lfd.cached.File_sync_data_ok [OF file_okD(1,2) [OF assms] _ this, of False dir] obtain d where
    "File_sync disk_ops F f dir False = Some (with_chain xs f, F\<lparr>F_device := d\<rparr>)" "disk_fat (F\<lparr>F_device := d\<rparr>) E R" by auto
  with file_ok_stable [OF assms this(2)] show ?thesis by (auto simp: with_chain_def)
qed

lemma statfs_step:
  assumes hv: "fs_wf st {#}" "disk_fat (fs_fat st) E R" "vol_ok (fs_fat st) E R" "vol_files st E R ch files"
  shows "\<exists>s st'. fat32_statfs disk_ops st = Some (Reply_statfs s, st') \<and> f_bfree s = of_nat (frees (F_bpb (fs_fat st)) E)
    \<and> f_bavail s = f_bfree s \<and> f_bsize s = bytesPerClus (F_bpb (fs_fat st))
    \<and> holds_volume st' (files, frees (F_bpb (fs_fat st)) E) \<and> F_bpb (fs_fat st') = F_bpb (fs_fat st)"
proof -
  let ?F = "fs_fat st" and ?n = "of_nat (frees (F_bpb (fs_fat st)) E) :: u32"
  have cnt: "unat (F_cnt_of_clus ?F) = cluster_count (F_bpb ?F)" using hv(2) by (simp add: fat_holds_def)
  obtain d1 where a1: "availClusCnt disk_ops ?F = Some (?n, ?F\<lparr>F_device := d1, F_avail_clus_cnt := Some ?n\<rparr>)"
      "disk_fat (?F\<lparr>F_device := d1\<rparr>) E R"
    using lfd.cached.availClusCnt_ok [OF hv(2)] hv(3) by (auto simp: vol_ok_def frees_def cnt)
  let ?F1 = "?F\<lparr>F_device := d1, F_avail_clus_cnt := Some ?n\<rparr>"
  have h1: "disk_fat ?F1 E R" using a1(2) by (simp add: fat_holds_def)
  moreover have v1: "vol_ok ?F1 E R" using hv(3) by (simp add: vol_ok_def avail_ok_def frees_def cnt)
  ultimately obtain d2 where a2: "availClusCnt disk_ops ?F1 = Some (?n, ?F1\<lparr>F_device := d2, F_avail_clus_cnt := Some ?n\<rparr>)"
      "disk_fat (?F1\<lparr>F_device := d2\<rparr>) E R"
    using lfd.cached.availClusCnt_ok [of ?F1 E R] by (auto simp: vol_ok_def frees_def cnt)
  let ?F2 = "?F1\<lparr>F_device := d2, F_avail_clus_cnt := Some ?n\<rparr>"
  have h2: "disk_fat ?F2 E R" "vol_ok ?F2 E R" using a2(2) v1 by (simp_all add: fat_holds_def vol_ok_def avail_ok_def)
  have "file_holds ?F2 E R f xs = file_holds ?F E R f xs" for f xs by (simp add: file_holds_def)
  then have "disk_file ?F2 E R f xs \<longleftrightarrow> disk_file ?F E R f xs" for f xs using h2 hv(2,3) by (simp add: file_ok_split)
  then have "vol_files (st\<lparr>fs_fat := ?F2\<rparr>) E R ch files" using hv(4) by (simp add: vol_files_def)
  then have "holds_volume (st\<lparr>fs_fat := ?F2\<rparr>) (files, frees (F_bpb ?F) E)"
    using hv(1) h2 by (intro holds_volumeI [of _ E R ch]) simp_all
  then show ?thesis using a1(1) a2(1) by (simp add: fat32_statfs_def getStatfs_def)
qed

text \<open>What there is to know of a file of the volume.\<close>

lemma holds_volumeE:
  assumes "holds_volume st (files, free)" and "files n = Some data"
  obtains E R ch a f where "fs_wf st {#}" and "vol_files st E R ch files" and "free = frees (F_bpb (fs_fat st)) E"
    and "finds st n = Some a" and "fs_objs st a = Some f" and "disk_file (fs_fat st) E R f (ch n)"
    and "file_bytes R (F_bpb (fs_fat st)) f (ch n) = data"
proof -
  obtain E R ch where h: "fs_wf st {#}" "vol_files st E R ch files" "free = frees (F_bpb (fs_fat st)) E"
    using assms(1) by (auto simp: holds_volume_def)
  then show thesis using assms(2) that unfolding vol_files_def by blast
qed

lemma read_request:
  assumes "holds_volume st (files, free)" and n: "files (node_ino n) = Some data" and sz: "sz < 4294967295"
  shows "\<exists>st'. fat32_read disk_ops en now n sz off st
      = Some (Reply_buf (take (unat sz) (drop (unat (ucast off :: u32)) data)), st')
    \<and> holds_volume st' (files, free) \<and> F_bpb (fs_fat st') = F_bpb (fs_fat st)"
  using assms(1) n
proof (rule holds_volumeE)
  fix E R ch a f
  let ?F = "fs_fat st" and ?out = "take (unat sz) (drop (unat (ucast off :: u32)) data)"
  assume h: "fs_wf st {#}" "vol_files st E R ch files" "free = frees (F_bpb ?F) E" and a: "finds st (node_ino n) = Some a"
    "fs_objs st a = Some f" and f: "disk_file ?F E R f (ch (node_ino n))" "file_bytes R (F_bpb ?F) f (ch (node_ino n)) = data"
  have le: "\<not> 4294967295 \<le> sz" using sz by simp
  have cut: "unat (ucast sz :: u32) = unat sz" using sz by (simp add: unsigned_ucast_eq take_bit_nat_eq_self word_less_nat_alt)
  obtain f' F' where rd: "File_read disk_ops now ?F f (ucast sz) (ucast off) = Some (?out, f', F')"
      "disk_file F' E R f' (ch (node_ino n))" "F_bpb F' = F_bpb ?F" "file_bytes R (F_bpb ?F) f' (ch (node_ino n)) = data"
    using read_step [OF f(1), of now "ucast sz" "ucast off"] unfolding cut f(2) by blast
  have i: "ino f' = ino f" using postD [OF File_read_wp rd(1), of "\<lambda>(_, f', _). ino f' = ino f"] by simp
  have "files(node_ino n \<mapsto> data) = files" using n by (simp add: map_upd_triv)
  with cached_file_method [where m = "\<lambda>F f. File_read disk_ops now F f (ucast sz) (ucast off)", OF h(1,2) n a,
      of ?out f' F' E R "[]" disk_ops en] rd i
  show ?thesis using le by (auto simp: h(3) fat32_read_def)
qed

lemma write_request:
  assumes "holds_volume st (files, free)" and n: "files (node_ino n) = Some data" and ok: "op_ok (Write_op buf (ucast off))"
  shows "\<exists>st' r data' free'. fat32_write disk_ops en now n buf (of_nat (length buf)) off st = Some (Reply_write r, st')
    \<and> spec_step (F_bpb (fs_fat st)) (data, free) (Write_op buf (ucast off)) (Written r) (data', free')
    \<and> holds_volume st' (files(node_ino n \<mapsto> data'), free') \<and> F_bpb (fs_fat st') = F_bpb (fs_fat st)"
  using assms(1) n
proof (rule holds_volumeE)
  fix E R ch a f
  let ?F = "fs_fat st" and ?c = "of_nat (length buf) :: u32"
  assume h: "fs_wf st {#}" "vol_files st E R ch files" "free = frees (F_bpb ?F) E" and a: "finds st (node_ino n) = Some a"
    "fs_objs st a = Some f" and f: "disk_file ?F E R f (ch (node_ino n))" "file_bytes R (F_bpb ?F) f (ch (node_ino n)) = data"
  have sz: "ucast (of_nat (length buf) :: u64) = ?c"
    by (simp add: word_unat_eq_iff unsigned_ucast_eq unsigned_of_nat min_def)
  have buf: "buf \<noteq> []" "unat (ucast off :: u32) + length buf < 2 ^ 32" using ok by simp_all
  obtain f' F' E' R' ys r where w: "File_write disk_ops now ?F f buf ?c (ucast off) = Some (r, f', F')"
      "disk_file F' E' R' f' (ch (node_ino n) @ ys)" "F_bpb F' = F_bpb ?F" "only_clus (F_bpb ?F) (ch (node_ino n)) ys E E' R R'"
      "spec_step (F_bpb ?F) (data, free) (Write_op buf (ucast off)) (Written r)
        (file_bytes R' (F_bpb ?F) f' (ch (node_ino n) @ ys), frees (F_bpb ?F) E')"
    using write_step [OF f(1) buf, of now] unfolding f(2) h(3) by blast
  have i: "ino f' = ino f" using postD [OF File_write_wp w(1), of "\<lambda>(_, f', _). ino f' = ino f"] by simp
  from cached_file_method [where m = "\<lambda>F f. File_write disk_ops now F f buf (ucast (of_nat (length buf) :: u64)) (ucast off)", OF h(1,2) n a,
      of r f' F' E' R' ys disk_ops en, unfolded sz] w i
  show ?thesis unfolding fat32_write_def sz by fastforce
qed

lemma fsync_request:
  assumes "holds_volume st (files, free)" and n: "files (node_ino n) = Some data"
  shows "\<exists>st'. fat32_fsync disk_ops en n False st = Some (Reply_err Success, st')
    \<and> holds_volume st' (files, free) \<and> F_bpb (fs_fat st') = F_bpb (fs_fat st)"
  using assms
proof (rule holds_volumeE)
  fix E R ch a f
  let ?F = "fs_fat st"
  assume h: "fs_wf st {#}" "vol_files st E R ch files" "free = frees (F_bpb ?F) E" and a: "finds st (node_ino n) = Some a"
    "fs_objs st a = Some f" and f: "disk_file ?F E R f (ch (node_ino n))" "file_bytes R (F_bpb ?F) f (ch (node_ino n)) = data"
  obtain f' F' where s: "File_sync disk_ops ?F f (isDir f) False = Some (f', F')" "disk_file F' E R f' (ch (node_ino n))"
      "F_bpb F' = F_bpb ?F" "f_file_sz f' = f_file_sz f"
    using fsync_step [OF f(1)] by blast
  have i: "ino f' = ino f" using postD [OF File_sync_wp s(1), of "\<lambda>(f', _). ino f' = ino f"] by simp
  have "files(node_ino n \<mapsto> data) = files" "file_bytes R (F_bpb ?F) f' (ch (node_ino n)) = data"
    using n f(2) s(4) by (simp_all add: map_upd_triv file_bytes_def)
  with cached_file_method [where m = "\<lambda>F f. do { (f', F') \<leftarrow> File_sync disk_ops F f (isDir f) False; Some ((), f', F') }",
      OF h(1,2) n a, of "()" f' F' E R "[]" disk_ops en] s i
  show ?thesis by (auto simp: h(3) fat32_fsync_def)
qed

lemma statfs_request:
  assumes "holds_volume st (files, free)"
  shows "\<exists>s st'. fat32_statfs disk_ops st = Some (Reply_statfs s, st') \<and> f_bfree s = of_nat free \<and> f_bavail s = of_nat free
    \<and> f_bsize s = bytesPerClus (F_bpb (fs_fat st)) \<and> holds_volume st' (files, free) \<and> F_bpb (fs_fat st') = F_bpb (fs_fat st)"
  using assms statfs_step by (fastforce simp: holds_volume_def [of st])

lemma serve_step:
  assumes hv: "holds_volume st v" and req: "on_files (dom (fst v)) req"
  shows "\<exists>r st' v'. serve disk_ops en now req st = Some (r, st') \<and> holds_volume st' v'
    \<and> vol_step (F_bpb (fs_fat st)) v req r v' \<and> F_bpb (fs_fat st') = F_bpb (fs_fat st)"
proof -
  obtain files free where v: "v = (files, free)" by fastforce
  note hv = hv [unfolded v]
  show ?thesis
  proof (cases req)
    case (Read_req n sz off)
    then obtain data where n: "files (node_ino n) = Some data" using req v by auto
    show ?thesis
    proof (cases "sz < 4294967295")
      case True
      from read_request [OF hv n this, of en now off] vol_step.reads [where files = files and n = n, OF n True]
      show ?thesis unfolding Read_req v serve.simps by blast
    next
      case False
      then have big: "4294967295 \<le> sz" by simp
      then have "serve disk_ops en now req st = Some (Reply_err EINVAL, st)" by (simp add: Read_req fat32_read_def)
      then show ?thesis using hv vol_step.read_too_much [OF big] unfolding Read_req v by blast
    qed
  next
    case (Write_req n buf sz off)
    then obtain data where n: "files (node_ino n) = Some data" and ok: "sz = of_nat (length buf)" "op_ok (Write_op buf (ucast off))"
      using req v by auto
    from write_request [OF hv n ok(2), of en now] vol_step.writes [where files = files and n = n, OF n]
    show ?thesis unfolding Write_req v ok(1) serve.simps by blast
  next
    case (Fsync_req n datasync)
    then obtain data where n: "files (node_ino n) = Some data" and ds: "datasync = False" using req v by auto
    from fsync_request [OF hv n, of en] vol_step.fsync_data [where files = files and n = n, OF n]
    show ?thesis unfolding Fsync_req v ds serve.simps by blast
  next
    case Statfs_req
    from statfs_request [OF hv] vol_step.statfs show ?thesis unfolding Statfs_req v serve.simps by blast
  qed (use hv req v opened [of "F_bpb (fs_fat st)" v] no_such [of req "F_bpb (fs_fat st)" v] in \<open>auto simp: fat32_open_def fat32_mknod_def fat32_symlink_def fat32_link_def\<close>)
qed

lemma serve_all_steps:
  assumes "holds_volume st v" and "\<forall>p \<in> set reqs. on_files (dom (fst v)) (snd p)"
  shows "\<exists>replies st' v'. serve_all disk_ops en reqs st = Some (replies, st') \<and> holds_volume st' v'
    \<and> vol_run (F_bpb (fs_fat st)) v (map snd reqs) replies v'"
  using assms
proof (induction reqs arbitrary: st v)
  case Nil
  then show ?case using vol_run.Nil by (metis list.simps(8) serve_all.simps(1))
next
  case (Cons p reqs)
  obtain r st1 v1 where s: "serve disk_ops en (fst p) (snd p) st = Some (r, st1)" "holds_volume st1 v1"
      "vol_step (F_bpb (fs_fat st)) v (snd p) r v1" "F_bpb (fs_fat st1) = F_bpb (fs_fat st)"
    using serve_step [OF Cons.prems(1)] Cons.prems(2) by (metis list.set_intros(1))
  obtain replies st' v' where "serve_all disk_ops en reqs st1 = Some (replies, st')" "holds_volume st' v'"
      "vol_run (F_bpb (fs_fat st)) v1 (map snd reqs) replies v'"
    using Cons.IH [OF s(2)] Cons.prems(2) vol_step_dom [OF s(3)] s(4) by auto
  moreover from this(3) have "vol_run (F_bpb (fs_fat st)) v (map snd (p # reqs)) (r # replies) v'" using vol_run.Cons [OF s(3)] by simp
  moreover have "serve_all disk_ops en (p # reqs) st = Some (r # replies, st')" using s(1) calculation(1) by (cases p) simp
  ultimately show ?case by blast
qed

section \<open>Properties\<close>

text \<open>C3: Requests on several open files at once behave as on a map from inode numbers to sequences of bytes
  with a common supply of free clusters. For every history of requests to read, write, synchronise data
  and report the state of the volume, all of them are answered as the map says: a read returns the bytes
  of its file, a write changes its file and no other, or takes too many clusters and changes nothing, and
  the volume reports the clusters that are left.\<close>

theorem requests_refine_files:
  assumes "holds_volume st v" and "\<forall>p \<in> set reqs. on_files (dom (fst v)) (snd p)"
  shows "\<exists>replies st' v'. serve_all disk_ops en reqs st = Some (replies, st') \<and> holds_volume st' v'
    \<and> vol_run (F_bpb (fs_fat st)) v (map snd reqs) replies v'"
  by (rule serve_all_steps [OF assms])

text \<open>Two files in the cache, the second one empty.\<close>

definition duo_fs :: "lfd cache_mgr FAT32fs" where
  "duo_fs = \<lparr>fs_fat = demo_FAT, fs_objs = [0 \<mapsto> demo_file, 1 \<mapsto> demo_empty], fs_refs = (\<lambda>_. 0)(0 := 1, 1 := 1), fs_next = 2,
     cached_lookup_files = fst (lru_put (fst (lru_put (lru_new 20) 0x200000000 0)) 0x200000001 1)\<rparr>"

lemma duo_cache: "lru_inv (cached_lookup_files duo_fs)" "max_size (cached_lookup_files duo_fs) = 20"
  "cached duo_fs = [(0x200000001, 1), (0x200000000, 0)]"
proof -
  note p = lru_put_correct [OF lru_new_inv [of 20], of "0x200000000 :: u64" "0 :: nat"]
  have m: "max_size (lru_new 20 :: (u64, nat) lru) = 20" by (simp add: lru_new_def)
  have v: "lru_view (fst (lru_put (lru_new 20) (0x200000000 :: u64) (0 :: nat))) = [(0x200000000, 0)]"
    using p(1) by (simp add: lru_new_view rl_put_def rl_drop_def m)
  note q = lru_put_correct [OF p(3), of "0x200000001 :: u64" "1 :: nat"]
  show "lru_inv (cached_lookup_files duo_fs)" "max_size (cached_lookup_files duo_fs) = 20"
    using q(3) m by (simp_all add: duo_fs_def lru_max_size(1))
  show "cached duo_fs = [(0x200000001, 1), (0x200000000, 0)]"
    using q(1) by (simp add: duo_fs_def v lru_max_size(1) m rl_put_def rl_drop_def)
qed

lemma duo_volume: "holds_volume duo_fs ([0x200000000 \<mapsto> replicate 3000 0, 0x200000001 \<mapsto> []], 250)"
proof (rule holds_volumeI)
  have "ino demo_file = 0x200000000" "ino demo_empty = 0x200000001" by (simp_all add: ino_def demo_file_def demo_empty_def)
  then show "fs_wf duo_fs {#}" using duo_cache by (simp add: fs_wf_def counted_def) (simp add: duo_fs_def)
  have F: "fs_fat duo_fs = demo_FAT" by (simp add: duo_fs_def)
  show "disk_fat (fs_fat duo_fs) demo_E demo_R" "vol_ok (fs_fat duo_fs) demo_E demo_R"
    using demo_file_ok by (simp_all add: F file_ok_split)
  show "250 = frees (F_bpb (fs_fat duo_fs)) demo_E" by (simp add: F demo_count demo_free_ok)
  show "vol_files duo_fs demo_E demo_R ((\<lambda>_. [])(0x200000000 := [3, 4, 5])) [0x200000000 \<mapsto> replicate 3000 0, 0x200000001 \<mapsto> []]"
    using demo_file_ok demo_empty_ok demo_bytes
    by (simp add: vol_files_def duo_cache F demo_count) (simp add: duo_fs_def file_bytes_def demo_empty_def)
qed

theorem requests_refine_files_witness:
  "\<exists>st'. serve_all disk_ops demo_env [(demo_now, Write_req 0x200000001 [7, 8, 9] 3 0), (demo_now, Read_req 0x200000000 2 2998),
      (demo_now, Read_req 0x200000001 9 1)] duo_fs = Some ([Reply_write 3, Reply_buf [0, 0], Reply_buf [8, 9]], st')"
proof -
  obtain D :: bytes where D: "D = replicate 3000 0" by simp
  then have len: "take 2 (drop 2998 D) = [0, 0]" by (simp add: numeral_2_eq_2)
  let ?v = "([0x200000000 \<mapsto> D, 0x200000001 \<mapsto> []], 250 :: nat)"
  obtain replies st' v' where r: "serve_all disk_ops demo_env [(demo_now, Write_req 0x200000001 [7, 8, 9] 3 0),
        (demo_now, Read_req 0x200000000 2 2998), (demo_now, Read_req 0x200000001 9 1)] duo_fs = Some (replies, st')"
      "vol_run demo_BPB ?v [Write_req 0x200000001 [7, 8, 9] 3 0, Read_req 0x200000000 2 2998, Read_req 0x200000001 9 1] replies v'"
    using requests_refine_files [OF duo_volume [folded D], of "[(demo_now, Write_req 0x200000001 [7, 8, 9] 3 0),
        (demo_now, Read_req 0x200000000 2 2998), (demo_now, Read_req 0x200000001 9 1)]" demo_env]
    by (auto simp: node_ino_def duo_fs_def demo_count)
  have "clusters_missing demo_BPB [] (Suc (Suc (Suc 0))) \<le> 250" by (simp add: clusters_missing_def demo_need)
  with r(2) have "replies = [Reply_write 3, Reply_buf [0, 0], Reply_buf [8, 9]]"
    by (auto elim!: vol_run_ConsE vol_run_NilE vol_readE vol_writeE spec_writeE simp: node_ino_def len overwrite_def)
  with r(1) show ?thesis by blast
qed

end
