(* ===== verification/Unlink.thy ===== *)
theory Unlink
  imports Requests
begin

text \<open>
  Removing a name: \<open>fat32_unlink\<close> and \<open>fat32_rmdir\<close> delete the entries with \<open>Directory::delFile\<close>, then
  \<open>File::selfDestruct\<close> erases them once more and frees the clusters.
\<close>

section \<open>Erasing an entry again\<close>

lemma erase_deleted:
  assumes "\<forall>it \<in> set items. item_ok it" and "n < length (items_slots items)" and "isEmptyDirEntry (items_slots items ! n)"
  shows "\<exists>items'. items_slots items' = (items_slots items)[n := setDirEntryEmpty (items_slots items ! n)]
    \<and> (\<forall>it \<in> set items'. item_ok it) \<and> (\<forall>m. list_items m items' = list_items m items)"
  using assms
proof (induction items arbitrary: n)
  case (Cons it items)
  show ?case
  proof (cases "n < length (item_slots it)")
    case True
    then have s: "items_slots (it # items) ! n = item_slots it ! n" by (simp add: nth_append)
    then have "isEmptyDirEntry (item_slots it ! n)" using Cons.prems(3) by simp
    moreover have "item_slots it ! n \<in> set (item_slots it)" using True by simp
    ultimately obtain e where it: "it = Deleted e" using Cons.prems(1) by (cases it) auto
    then show ?thesis using True Cons.prems(1)
      by (intro exI [of _ "Deleted (setDirEntryEmpty e) # items"])
        (simp add: isEmptyDirEntry_def isLstEmptyDirEntry_def setDirEntryEmpty_def)
  next
    case False
    let ?k = "length (item_slots it)"
    have nth: "items_slots (it # items) ! n = items_slots items ! (n - ?k)" using False by (simp add: nth_append)
    have "n - ?k < length (items_slots items)" using False Cons.prems(2) by (simp add: less_diff_conv2)
    then obtain items' where i: "items_slots items' = (items_slots items)[n - ?k := setDirEntryEmpty (items_slots items ! (n - ?k))]"
        "\<forall>it \<in> set items'. item_ok it" "\<forall>m. list_items m items' = list_items m items"
      using Cons.IH [of "n - ?k"] Cons.prems(1,3) nth by auto
    have "items_slots (it # items') = (items_slots (it # items))[n := setDirEntryEmpty (items_slots (it # items) ! n)]"
      unfolding nth using False by (simp add: i(1) list_update_append)
    moreover have "list_items m (it # items') = list_items m (it # items)" for m using i(3) by (cases it) simp_all
    moreover have "\<forall>i \<in> set (it # items'). item_ok i" using Cons.prems(1) i(2) by simp
    ultimately show ?thesis by blast
  qed
qed simp

lemma empty_split:
  assumes "\<forall>e \<in> set es. isEmptyDirEntry e"
  shows "\<exists>ds tail. es = items_slots (map Deleted ds) @ tail \<and> (\<forall>it \<in> set (map Deleted ds). item_ok it)
    \<and> (tail = [] \<or> isLstEmptyDirEntry (hd tail)) \<and> (\<forall>e \<in> set tail. isEmptyDirEntry e)"
proof (intro exI conjI)
  let ?P = "\<lambda>e. \<not> isLstEmptyDirEntry e"
  have "items_slots (map Deleted ds) = ds" for ds by (induction ds) simp_all
  then show "es = items_slots (map Deleted (takeWhile ?P es)) @ dropWhile ?P es" by simp
  show "\<forall>it \<in> set (map Deleted (takeWhile ?P es)). item_ok it" using assms by (auto dest: set_takeWhileD)
  show "dropWhile ?P es = [] \<or> isLstEmptyDirEntry (hd (dropWhile ?P es))" using hd_dropWhile by blast
  show "\<forall>e \<in> set (dropWhile ?P es). isEmptyDirEntry e" using assms by (auto dest: set_dropWhileD)
qed

lemma list_only_deleted: "list_items m (items @ map Deleted ds) = list_items m items"
proof -
  have "list_items k (map Deleted ds) = []" for k by (induction ds arbitrary: k) simp_all
  then show ?thesis by (simp add: list_items_append)
qed

text \<open>A slot that is empty may be marked deleted, the end mark too: what is listed stays.\<close>

lemma erase_empty_slot:
  assumes d: "dir_items S items" and n: "n < length S" "isEmptyDirEntry (S ! n)"
  shows "\<exists>items'. dir_items (S[n := setDirEntryEmpty (S ! n)]) items' \<and> list_items 0 items' = list_items 0 items"
proof -
  let ?e = "setDirEntryEmpty (S ! n)"
  have e: "isEmptyDirEntry ?e" "\<not> isLstEmptyDirEntry ?e"
    by (simp_all add: isEmptyDirEntry_def isLstEmptyDirEntry_def setDirEntryEmpty_def)
  obtain tail where t: "\<forall>it \<in> set items. item_ok it" "S = items_slots items @ tail" "tail = [] \<or> isLstEmptyDirEntry (hd tail)"
      "\<forall>e \<in> set tail. isEmptyDirEntry e"
    using d unfolding dir_items_def by blast
  show ?thesis
  proof (cases "n < length (items_slots items)")
    case True
    then have nth: "S ! n = items_slots items ! n" by (simp add: t(2) nth_append)
    obtain items' where i: "items_slots items' = (items_slots items)[n := ?e]" "\<forall>it \<in> set items'. item_ok it"
        "\<forall>m. list_items m items' = list_items m items"
      using erase_deleted [OF t(1) True n(2) [unfolded nth], folded nth] by blast
    have "(items_slots items @ tail)[n := ?e] = items_slots items' @ tail" using True unfolding i(1) by (simp add: list_update_append)
    then have "S[n := ?e] = items_slots items' @ tail" unfolding t(2) [symmetric] .
    then show ?thesis using i(2,3) t(3,4) unfolding dir_items_def by blast
  next
    case False
    let ?k = "n - length (items_slots items)"
    have S: "S[n := ?e] = items_slots items @ tail[?k := ?e]" using False by (simp add: t(2) list_update_append)
    have k: "?k < length tail" using False n(1) by (simp add: t(2) less_diff_conv2)
    show ?thesis
    proof (cases ?k)
      case 0
      then obtain z es where z: "tail = z # es" using k by (cases tail) simp_all
      obtain ds tail' where s: "es = items_slots (map Deleted ds) @ tail'" "\<forall>it \<in> set (map Deleted ds). item_ok it"
          "tail' = [] \<or> isLstEmptyDirEntry (hd tail')" "\<forall>e \<in> set tail'. isEmptyDirEntry e"
        using empty_split [of es] t(4) z by auto
      have "dir_items (S[n := ?e]) (items @ map Deleted (?e # ds))"
        unfolding dir_items_def using S 0 z s t(1) e by (intro conjI exI [of _ tail']) auto
      then show ?thesis using list_only_deleted by blast
    next
      case (Suc j)
      then have "hd (tail[?k := ?e]) = hd tail" by (cases tail) simp_all
      then have "dir_items (S[n := ?e]) items"
        unfolding dir_items_def using S t(1,3,4) e(1) Suc
        by (intro conjI exI [of _ "tail[?k := ?e]"]) (auto dest: set_update_subset_insert [THEN subsetD])
      then show ?thesis by blast
    qed
  qed
qed

section \<open>On the disk\<close>

text \<open>A change inside one chain leaves the others as they were.\<close>

lemma file_kept:
  assumes h: "fat_holds good view F E R" "file_holds F E R f zs" "file_holds F E R g xs" and bpb: "F_bpb F' = F_bpb F"
    and only: "only_clus (F_bpb F) xs [] E E' R R'" and dis: "set xs \<inter> set zs = {}"
  shows "file_holds F' E' R' f zs" and "file_content R' (F_bpb F) zs = file_content R (F_bpb F) zs"
proof -
  have dc: "\<forall>z \<in> set zs. data_clus (F_bpb F) z" "\<forall>x \<in> set xs. data_clus (F_bpb F) x"
    using h(2,3) by (simp_all add: file_holds_def)
  have secs: "set (file_secs (F_bpb F) xs) \<inter> set (file_secs (F_bpb F) zs) = {}"
    by (rule secs_apart [OF file_holds_facts(1) [OF h(1,2)] file_holds_facts(2) [OF h(1,3)] file_holds_facts(2) [OF h(1,2)] dc(2,1) dis])
  have "E' z = E z" if "z \<in> set zs" for z using that only dis by (auto simp: only_clus_def)
  then have "chain (fat_size F') E' c zs \<longleftrightarrow> chain (fat_size F) E c zs" for c
    by (simp add: bpb) (rule chain_cong, simp)
  then show "file_holds F' E' R' f zs" using h(2) only bpb by (simp add: file_holds_def only_clus_def only_secs_def)
  have "R' s = R s" if "s \<in> set (file_secs (F_bpb F) zs)" for s using that secs only by (auto simp: only_clus_def only_secs_def)
  then show "file_content R' (F_bpb F) zs = file_content R (F_bpb F) zs" by (rule content_dom_eq)
qed

lemma mark_slots: "e \<in> {erased, end_mark} \<Longrightarrow> isEmptyDirEntry e \<and> \<not> isLongDirEntry e"
  by (auto simp: isEmptyDirEntry_def isLongDirEntry_def setDirEntryEmpty_def setDirEntryLstEmpty_def attr_values
      zero_entry_def decode_long_def field_def)

context block_device
begin

lemma selfDestruct_erased_ok:
  assumes ok: "dir_ok good view F E R g xs" and items: "dir_items (dir_slots R (F_bpb F) xs) items"
    and n: "n < length (dir_slots R (F_bpb F) xs)" "dir_slots R (F_bpb F) xs ! n \<in> {erased, end_mark}"
    and at: "lies_at f g (F_bpb F) n" and f: "file_holds F E R f zs" and dis: "set xs \<inter> set zs = {}"
  shows "\<exists>F' R' items'. selfDestruct_disk D F f = Some F' \<and> F_bpb F' = F_bpb F
    \<and> dir_ok good view F' (\<lambda>c. if c \<in> set zs then 0 else E c) R' g xs
    \<and> dir_items (dir_slots R' (F_bpb F) xs) items' \<and> list_items 0 items' = list_items 0 items
    \<and> only_secs (set (file_secs (F_bpb F) xs)) R R'"
proof -
  let ?S = "dir_slots R (F_bpb F) xs"
  have e: "isEmptyDirEntry (?S ! n)" "\<not> isLongDirEntry (?S ! n)" using mark_slots [OF n(2)] by simp_all
  have l: "\<forall>l \<in> set ([] :: LongDirEntry list). isLongDirEntry l" by simp
  have d: "drop n ?S = [] @ ?S ! n # drop (Suc n) ?S" using Cons_nth_drop_Suc [OF n(1)] by simp
  obtain F' R' where s: "selfDestruct_disk D F f = Some F'" "F_bpb F' = F_bpb F"
      "dir_ok good view F' (\<lambda>c. if c \<in> set zs then 0 else E c) R' g xs" "only_secs (set (file_secs (F_bpb F) xs)) R R'"
      "dir_slots R' (F_bpb F) xs = take n ?S @ map setDirEntryEmpty ([] @ [?S ! n]) @ drop (Suc n) ?S"
    using selfDestruct_disk_ok [OF ok refl d l e(2) at f dis] by blast
  have S': "dir_slots R' (F_bpb F) xs = ?S[n := setDirEntryEmpty (?S ! n)]" unfolding s(5) upd_conv_take_nth_drop [OF n(1)] by simp
  from erase_empty_slot [OF items n(1) e(1)] show ?thesis unfolding S' [symmetric] using s(1-4) by blast
qed

text \<open>Both steps of removing a file whose entries begin in the first cluster of its directory.\<close>

lemma remove_file_ok:
  assumes ok: "dir_ok good view F E R g xs" and items: "dir_items (dir_slots R (F_bpb F) xs) items"
    and conv: "utf8ToUtf16 C nm = Some u" "utf8ToGbk C (toUpper nm) = Some b" and found: "find_item u b 0 items = Some rg"
    and at: "f_parent_clus f = f_fst_clus g" "f_fst_entry_num f = range_start rg" "unat (range_start rg) < 16 * spc (F_bpb F)"
    and f: "file_holds F E R f zs" and dis: "set xs \<inter> set zs = {}"
  shows "\<exists>F1 g' F' E' R' ys items'. delFile_disk D C now F g nm = Some (Some rg, g', F1) \<and> selfDestruct_disk D F1 f = Some F'
    \<and> f_fst_clus g' = f_fst_clus g \<and> ino g' = ino g \<and> F_bpb F' = F_bpb F \<and> dir_ok good view F' E' R' g' ys \<and> set ys \<subseteq> set xs
    \<and> dir_items (dir_slots R' (F_bpb F) ys) items' \<and> list_items 0 items' = filter (\<lambda>x. fst x \<noteq> range_start rg) (list_items 0 items)
    \<and> (\<forall>z \<in> set zs. E' z = 0) \<and> (\<forall>c. c \<notin> set xs \<union> set zs \<longrightarrow> E' c = E c) \<and> only_secs (set (file_secs (F_bpb F) xs)) R R'"
proof -
  obtain F1 g1 E1 R1 ys items1 i n where r: "delFile_disk D C now F g nm = Some (Some rg, g1, F1)"
      "dir_next good view F E R g xs F1 E1 R1 g1 ys" "dir_items (dir_slots R1 (F_bpb F1) ys) items1"
      "list_items 0 items1 = filter (\<lambda>x. fst x \<noteq> range_start rg) (list_items 0 items)" "ys = take i xs"
      "n < length (dir_slots R1 (F_bpb F1) ys)" "range_start rg = of_nat n" "dir_slots R1 (F_bpb F1) ys ! n \<in> {erased, end_mark}"
    using delFile_disk_ok [OF ok items conv found, of now] by blast
  have ok1: "dir_ok good view F1 E1 R1 g1 ys" and b1: "F_bpb F1 = F_bpb F" and i1: "ino g1 = ino g" and sub: "set ys \<subseteq> set xs"
    and oc: "only_clus (F_bpb F) xs [] E E1 R R1" using r(2) by (simp_all add: dir_next_def)
  have h: "fat_holds good view F E R" "file_holds F E R g xs" and h1: "fat_holds good view F1 E1 R1" "file_holds F1 E1 R1 g1 ys"
    using ok ok1 by (simp_all add: dir_ok_def)
  have "ys \<noteq> []" using r(6) by (auto simp: dir_slots_def file_content_def file_secs_def sec_bytes_def)
  then have "hd ys = hd xs" "xs \<noteq> []" by (auto simp: r(5) hd_take)
  with fst_clus_hd [OF h(2)] fst_clus_hd [OF h1(2) \<open>ys \<noteq> []\<close>] have fc: "f_fst_clus g1 = f_fst_clus g" by simp
  have "n < 2 ^ LENGTH(32)" using r(6) dir_slots_bound(2) [OF ok1] by simp
  then have "unat (range_start rg) = n" unfolding r(7) by (rule unat_of_nat_lt)
  then have la: "lies_at f g1 (F_bpb F1) n" using at r(7) by (simp add: lies_at_def fc b1)
  have dis1: "set xs \<inter> set zs = {}" "set ys \<inter> set zs = {}" using dis sub by auto
  have f1: "file_holds F1 E1 R1 f zs"
    by (rule file_kept(1) [OF h(1) f h(2) b1 oc]) (use dis1 in auto)
  obtain F' R' items' where s: "selfDestruct_disk D F1 f = Some F'" "F_bpb F' = F_bpb F1"
      "dir_ok good view F' (\<lambda>c. if c \<in> set zs then 0 else E1 c) R' g1 ys" "dir_items (dir_slots R' (F_bpb F1) ys) items'"
      "list_items 0 items' = list_items 0 items1" "only_secs (set (file_secs (F_bpb F1) ys)) R1 R'"
    using selfDestruct_erased_ok [OF ok1 r(3,6,8) la f1 dis1(2)] by blast
  have "only_secs (set (file_secs (F_bpb F) xs)) R1 R'" using s(6) set_file_secs_mono [OF sub] only_secs_mono unfolding b1 by blast
  then have "only_secs (set (file_secs (F_bpb F) xs)) R R'" using oc only_secs_trans by (auto simp: only_clus_def)
  moreover have "\<forall>c. c \<notin> set xs \<union> set zs \<longrightarrow> (if c \<in> set zs then 0 else E1 c) = E c" using oc by (simp add: only_clus_def)
  ultimately show ?thesis using r(1,4) s(1-5) fc i1 b1 sub
    by - (rule exI [of _ F1], rule exI [of _ g1], rule exI [of _ F'], rule exI [of _ "\<lambda>c. if c \<in> set zs then 0 else E1 c"],
        rule exI [of _ R'], rule exI [of _ ys], rule exI [of _ items'], simp)
qed

end

section \<open>Requests\<close>

text \<open>A directory with its items, on the disk and as the object at an address.\<close>

definition dir_on :: "lfd cache_mgr FAT \<Rightarrow> (u32 \<Rightarrow> u32) \<Rightarrow> (u32 \<Rightarrow> bytes option) \<Rightarrow> fobj \<Rightarrow> u32 list \<Rightarrow> dir_item list \<Rightarrow> bool" where
  "dir_on F E R g xs items \<longleftrightarrow> disk_dir F E R g xs \<and> dir_items (dir_slots R (F_bpb F) xs) items"

definition dir_at :: "lfd cache_mgr FAT32fs \<Rightarrow> nat \<Rightarrow> (u32 \<Rightarrow> u32) \<Rightarrow> (u32 \<Rightarrow> bytes option) \<Rightarrow> fobj \<Rightarrow> u32 list \<Rightarrow>
    dir_item list \<Rightarrow> bool" where
  "dir_at st a E R g xs items \<longleftrightarrow> fs_objs st a = Some g \<and> disk_dir (fs_fat st) E R g xs
     \<and> dir_items (dir_slots R (F_bpb (fs_fat st)) xs) items"

lemma dir_at_on: "dir_at st a E R g xs items \<longleftrightarrow> fs_objs st a = Some g \<and> dir_on (fs_fat st) E R g xs items"
  by (simp add: dir_at_def dir_on_def)

text \<open>Opening a directory by its node: a cached one, or the root, of which every request makes an object.\<close>

definition opens :: "lfd cache_mgr FAT32fs \<Rightarrow> u64 \<Rightarrow> fobj \<Rightarrow> bool" where
  "opens st n g \<longleftrightarrow> (\<exists>p. finds st (node_ino n) = Some p \<and> fs_objs st p = Some g)
     \<or> node_ino n = KRootDirIno \<and> finds st KRootDirIno = None \<and> g = mkRootDir (BPB_root_clus (F_bpb (fs_fat st)))"

text \<open>The address \<open>p\<close> is that of the directory \<open>g\<close>, in the cache or of a new object of the root.\<close>

definition opened_at :: "lfd cache_mgr FAT32fs \<Rightarrow> nat \<Rightarrow> fobj \<Rightarrow> bool" where
  "opened_at st p g \<longleftrightarrow> finds st (ino g) = Some p \<and> fs_objs st p = Some g
     \<or> ino g = KRootDirIno \<and> finds st (ino g) = None \<and> fs_objs st p = None"

lemma root_obj: "f_fst_clus (mkRootDir c) = c" "ino (mkRootDir c) = KRootDirIno" "f_is_dir (mkRootDir c)" "\<not> f_is_deleted (mkRootDir c)"
  by (simp_all add: mkRootDir_def File_new_def ino_def KRootDirIno_def readEntryClusNo_set)

lemma open_dir:
  assumes wf: "fs_wf st own" and o: "opens st n g" and d: "f_is_dir g"
  shows "\<exists>p st'. getExistDir disk_ops en n st = Some (p, st') \<and> fs_wf st' (add_mset p own) \<and> fs_fat st' = fs_fat st
    \<and> fs_objs st' = (fs_objs st)(p := Some g) \<and> finds st' = finds st \<and> opened_at st p g"
  using o unfolding opens_def
proof (elim disjE exE conjE)
  fix p assume p: "finds st (node_ino n) = Some p" "fs_objs st p = Some g"
  then have "opened_at st p g" "(fs_objs st)(p := Some g) = fs_objs st" using finds_object [OF wf p(1)] by (auto simp: opened_at_def)
  then show ?thesis using getExistDir_cached [OF wf p d, of disk_ops en] by metis
next
  assume r: "node_ino n = KRootDirIno" "finds st KRootDirIno = None" "g = mkRootDir (BPB_root_clus (F_bpb (fs_fat st)))"
  obtain q c where get: "lru_get (cached_lookup_files st) KRootDirIno = (q, c)" by fastforce
  have inv: "lru_inv (cached_lookup_files st)" using wf by (simp add: fs_wf_def)
  have q: "q = None" using lru.get_val [OF inv, of KRootDirIno] get r(2) by simp
  have lk: "map_of (lru_view c) = finds st" using lru.get_lookup [OF inv, of KRootDirIno] get by fastforce
  note wf1 = lru_get_wf(1) [OF wf get]
  obtain p st' where m: "make_shared g (st\<lparr>cached_lookup_files := c\<rparr>) = (p, st')" by fastforce
  have "fs_objs st p = None" using m next_is_free [OF wf] by (auto simp: make_shared_def)
  then have "opened_at st p g" using r by (simp add: opened_at_def root_obj)
  moreover have "getExistDir disk_ops en n st = Some (p, st')"
    using m d r by (auto simp: getExistDir_def getDirByIno_def getFileByIno_def get q getRootDir_def make_shared_def isDir_def)
  moreover have "fs_fat st' = fs_fat st \<and> fs_objs st' = (fs_objs st)(p := Some g) \<and> finds st' = finds st"
    using m lk by (auto simp: make_shared_def)
  ultimately show ?thesis using make_shared_wf(1) [OF wf1 m] by blast
qed

text \<open>Giving the directory back. The object of the root goes; it has no entry to write.\<close>

lemma close_dir:
  assumes wf: "fs_wf st (add_mset p own)" and p: "dir_at st p E R g xs items"
    and c: "(\<exists>k. finds st k = Some p) \<or> p \<notin># own \<and> ino g = KRootDirIno"
  shows "\<exists>st'. unshare disk_ops p st = Some st' \<and> fs_wf st' own \<and> dir_on (fs_fat st') E R g xs items
    \<and> (\<exists>d. fs_fat st' = (fs_fat st)\<lparr>F_device := d\<rparr>) \<and> finds st' = finds st \<and> (\<forall>a. a \<noteq> p \<or> (\<exists>k. finds st k = Some p) \<longrightarrow> fs_objs st' a = fs_objs st a)"
proof (cases "\<exists>k. finds st k = Some p")
  case True
  then obtain st' where "unshare disk_ops p st = Some st'" "fs_wf st' own" "fs_fat st' = fs_fat st" "fs_objs st' = fs_objs st" "finds st' = finds st"
    using unshare_kept [OF wf] by blast
  moreover have "\<exists>d. fs_fat st = (fs_fat st)\<lparr>F_device := d\<rparr>" by (rule exI [of _ "F_device (fs_fat st)"]) simp
  ultimately show ?thesis using p by (intro exI [of _ st']) (simp add: dir_at_on)
next
  case False
  have g: "fs_objs st p = Some g" "disk_dir (fs_fat st) E R g xs" "dir_items (dir_slots R (F_bpb (fs_fat st)) xs) items"
    using p by (simp_all add: dir_at_def)
  have "\<exists>d f'. File_sync disk_ops (fs_fat st) g False True = Some (f', (fs_fat st)\<lparr>F_device := d\<rparr>) \<and> disk_fat ((fs_fat st)\<lparr>F_device := d\<rparr>) E R"
  proof (cases "f_is_deleted g")
    case True
    then show ?thesis using g(2) by (intro exI [of _ "F_device (fs_fat st)"]) (simp add: File_sync_def dir_ok_def)
  next
    case del: False
    have "disk_fat (fs_fat st) E R" "file_holds (fs_fat st) E R g xs" using g(2) by (simp_all add: dir_ok_def)
    from lfd.cached.File_sync_data_ok [OF this _ del] False c show ?thesis by blast
  qed
  then obtain d f' where s: "File_sync disk_ops (fs_fat st) g False True = Some (f', (fs_fat st)\<lparr>F_device := d\<rparr>)"
      "disk_fat ((fs_fat st)\<lparr>F_device := d\<rparr>) E R" by blast
  have "disk_dir ((fs_fat st)\<lparr>F_device := d\<rparr>) E R g xs" using g(2) s(2) by (simp add: dir_ok_def)
  then have on: "dir_on ((fs_fat st)\<lparr>F_device := d\<rparr>) E R g xs items" using g(3) by (simp add: dir_on_def)
  have "File_destroy disk_ops (fs_fat st) g = Some ((fs_fat st)\<lparr>F_device := d\<rparr>)" using s(1) by (simp add: File_destroy_def)
  moreover have "p \<notin># own" using c False by blast
  ultimately obtain st' where "unshare disk_ops p st = Some st'" "fs_wf st' own"
      "fs_fat st' = (fs_fat st)\<lparr>F_device := d\<rparr>" "fs_objs st' = (fs_objs st)(p := None)" "finds st' = finds st"
    using unshare_last [OF wf _ _ g(1)] False by blast
  then show ?thesis using on False by (intro exI [of _ st']) auto
qed

lemma close_opened:
  assumes wf: "fs_wf st' {#p#}" and o: "opened_at st p g" and d: "dir_at st' p E R g' xs items" "ino g' = ino g"
    and k: "finds st (ino g) = Some p \<Longrightarrow> finds st' (ino g) = Some p"
  shows "\<exists>st2. unshare disk_ops p st' = Some st2 \<and> fs_wf st2 {#} \<and> dir_on (fs_fat st2) E R g' xs items
    \<and> (\<exists>d. fs_fat st2 = (fs_fat st')\<lparr>F_device := d\<rparr>) \<and> finds st2 = finds st'
    \<and> (\<forall>a. finds st (ino g) = Some a \<longrightarrow> fs_objs st2 a = Some g') \<and> (\<forall>a. a \<noteq> p \<longrightarrow> fs_objs st2 a = fs_objs st' a)"
proof -
  have "(\<exists>k. finds st' k = Some p) \<or> p \<notin># {#} \<and> ino g' = KRootDirIno" using o k d(2) by (auto simp: opened_at_def)
  from close_dir [OF wf d(1) this] obtain st2 where s: "unshare disk_ops p st' = Some st2" "fs_wf st2 {#}" "dir_on (fs_fat st2) E R g' xs items"
      "\<exists>d. fs_fat st2 = (fs_fat st')\<lparr>F_device := d\<rparr>" "finds st2 = finds st'"
      "\<forall>a. a \<noteq> p \<or> (\<exists>k. finds st' k = Some p) \<longrightarrow> fs_objs st2 a = fs_objs st' a" by blast
  have "fs_objs st2 a = Some g'" if "finds st (ino g) = Some a" for a
  proof -
    have "a = p" "finds st' (ino g) = Some p" using that o k by (auto simp: opened_at_def)
    moreover from this(2) have "fs_objs st2 p = fs_objs st' p" using s(6) by blast
    ultimately show ?thesis using d(1) by (simp add: dir_at_def)
  qed
  then show ?thesis using s by blast
qed

lemma opened_other: "opened_at st p g \<Longrightarrow> fs_objs st a = Some f \<Longrightarrow> ino f \<noteq> ino g \<Longrightarrow> a \<noteq> p"
  by (auto simp: opened_at_def)

lemma entry_ino_parts:
  assumes "ino f = entry_ino g n"
  shows "f_parent_clus f = f_fst_clus g" and "f_fst_entry_num f = n"
proof -
  have "ino f = ino (File_new False (f_fst_clus g) n [] (decode_short []))" using assms by (simp add: ino_File_new)
  then show "f_parent_clus f = f_fst_clus g" "f_fst_entry_num f = n"
    using ino_parts [of f] ino_parts [of "File_new False (f_fst_clus g) n [] (decode_short [])"] by (simp_all add: File_new_def)
qed

text \<open>Looking the name up takes a pointer to the cached file it leads to.\<close>

lemma lookup_at:
  assumes wf: "fs_wf st own" and p: "dir_at st p E R g xs items"
    and conv: "utf8ToUtf16 C nm = Some u" "utf8ToGbk C (toUpper nm) = Some b"
  shows "\<exists>st' g' r. on_file p (\<lambda>F f. lookupFileInner disk_ops C now F f nm) st = Some (find_item u b 0 items, st') \<and> fs_wf st' own
    \<and> dir_at st' p E R g' xs items \<and> same_obj g g' \<and> fs_objs st' = (fs_objs st)(p := Some g') \<and> finds st' = finds st
    \<and> fs_fat st' = (fs_fat st)\<lparr>F_device := r\<rparr>"
proof -
  have ok: "disk_dir (fs_fat st) E R g xs" "fs_objs st p = Some g" and its: "dir_items (dir_slots R (F_bpb (fs_fat st)) xs) items"
    using p by (simp_all add: dir_at_def)
  obtain tail where t: "dir_slots R (F_bpb (fs_fat st)) xs = items_slots items @ tail" "\<forall>it \<in> set items. item_ok it"
      "tail = [] \<or> isLstEmptyDirEntry (hd tail)"
    using its unfolding dir_items_def by blast
  obtain g' F' where l: "lookupFileInner disk_ops C now (fs_fat st) g nm = Some (find_item u b 0 items, g', F')"
      "disk_dir_kept E R xs (fs_fat st) g g' F'"
    using lfd.cached.lookup_items_ok [OF ok(1) t conv, of now] by blast
  have k: "disk_dir F' E R g' xs" "same_obj g g'" "F' = (fs_fat st)\<lparr>F_device := F_device F'\<rparr>" using l(2) by (simp_all add: dir_kept_def)
  obtain st' where "on_file p (\<lambda>F f. lookupFileInner disk_ops C now F f nm) st = Some (find_item u b 0 items, st')" "fs_wf st' own"
      "fs_fat st' = F'" "fs_objs st' = (fs_objs st)(p := Some g')" "finds st' = finds st"
    using on_file_step [where m = "\<lambda>F f. lookupFileInner disk_ops C now F f nm", OF wf ok(2) l(1) same_objD(3) [OF k(2)]] by blast
  moreover from this have "dir_at st' p E R g' xs items" using k(1) its dir_kept_bpb [OF l(2)] by (simp add: dir_at_def)
  ultimately show ?thesis using k(2,3) by metis
qed

lemma lookupFile_cached:
  assumes wf: "fs_wf st own" and p: "dir_at st p E R g xs items"
    and conv: "utf8ToUtf16 C nm = Some u" "utf8ToGbk C (toUpper nm) = Some b" and found: "find_item u b 0 items = Some rg"
    and c: "finds st (entry_ino g (range_start rg)) = Some c"
  shows "\<exists>st' g' r. lookupFile disk_ops C now p nm st = Some (Some c, st') \<and> fs_wf st' (add_mset c own)
    \<and> dir_at st' p E R g' xs items \<and> same_obj g g' \<and> fs_objs st' = (fs_objs st)(p := Some g') \<and> finds st' = finds st
    \<and> fs_fat st' = (fs_fat st)\<lparr>F_device := r\<rparr>"
proof -
  obtain st1 g' r where s1: "on_file p (\<lambda>F f. lookupFileInner disk_ops C now F f nm) st = Some (Some rg, st1)" "fs_wf st1 own"
      "dir_at st1 p E R g' xs items" "same_obj g g'" "fs_objs st1 = (fs_objs st)(p := Some g')" "finds st1 = finds st"
      "fs_fat st1 = (fs_fat st)\<lparr>F_device := r\<rparr>"
    using lookup_at [OF wf p conv, of now] found by auto
  have k: "finds st1 (entry_ino g' (range_start rg)) = Some c" using c s1(6) same_objD(1) [OF s1(4)] by (simp add: entry_ino_def)
  obtain st2 where s2: "getFileByIno disk_ops C (entry_ino g' (range_start rg)) st1 = Some (Some c, st2)" "fs_wf st2 (add_mset c own)"
      "fs_fat st2 = fs_fat st1" "fs_objs st2 = fs_objs st1" "finds st2 = finds st1"
    using getFileByIno_cached [OF s1(2) k] by blast
  have "lookupFile disk_ops C now p nm st = Some (Some c, st2)" using s1(1,3) s2(1) by (simp add: lookupFile_def dir_at_def)
  moreover have "dir_at st2 p E R g' xs items" using s1(3) s2(3,4) by (simp add: dir_at_def)
  ultimately show ?thesis using s1(4-7) s2(2-5) by metis
qed

lemma lookupFile_missing:
  assumes wf: "fs_wf st own" and p: "dir_at st p E R g xs items"
    and conv: "utf8ToUtf16 C nm = Some u" "utf8ToGbk C (toUpper nm) = Some b" and found: "find_item u b 0 items = None"
  shows "\<exists>st' g' r. lookupFile disk_ops C now p nm st = Some (None, st') \<and> fs_wf st' own
    \<and> dir_at st' p E R g' xs items \<and> same_obj g g' \<and> fs_objs st' = (fs_objs st)(p := Some g') \<and> finds st' = finds st
    \<and> fs_fat st' = (fs_fat st)\<lparr>F_device := r\<rparr>"
  using lookup_at [OF wf p conv, of now] unfolding found lookupFile_def by fastforce

lemma entry_ino_root: "entry_ino g n = KRootDirIno \<Longrightarrow> f_fst_clus g = 0"
  using entry_ino_parts(1) [of "File_new False 0 0 [] (decode_short [])" g n]
  by (simp add: ino_def File_new_def KRootDirIno_def)

lemma dir_not_root:
  assumes "file_holds F E R g xs" and "xs \<noteq> []"
  shows "entry_ino g n \<noteq> KRootDirIno"
proof -
  have "data_clus (F_bpb F) (f_fst_clus g)" unfolding fst_clus_hd [OF assms] by (rule file_clus_used(2) [OF assms(1)]) (simp add: assms(2))
  then show ?thesis using entry_ino_root by (auto simp: data_clus_def)
qed

text \<open>A file whose entries and clusters are gone leaves the cache, and its object is only kept for those who hold it.\<close>

lemma selfDestruct_at:
  assumes wf: "fs_wf st own" and f: "fs_objs st c = Some f" "\<not> f_is_deleted f" "ino f \<noteq> KRootDirIno"
    and d: "selfDestruct_disk disk_ops (fs_fat st) f = Some F'" and own: "\<And>a. finds st (ino f) = Some a \<Longrightarrow> a \<in># own"
  shows "\<exists>st'. selfDestruct disk_ops c st = Some st' \<and> fs_wf st' own \<and> fs_fat st' = F'
    \<and> fs_objs st' = (fs_objs st)(c := Some (f\<lparr>f_is_deleted := True\<rparr>)) \<and> finds st' = (finds st)(ino f := None)"
proof -
  have "fs_wf (st\<lparr>fs_fat := F'\<rparr>) own" using wf by simp
  then obtain st1 where s1: "rmFileFromCacheByIno disk_ops (ino f) (st\<lparr>fs_fat := F'\<rparr>) = Some st1" "fs_wf st1 own" "fs_fat st1 = F'"
      "fs_objs st1 = fs_objs st" "finds st1 = (finds st)(ino f := None)"
    using rm_from_cache [of "st\<lparr>fs_fat := F'\<rparr>" own "ino f" disk_ops] own by auto
  let ?st = "st1\<lparr>fs_objs := (fs_objs st1)(c := Some (f\<lparr>f_is_deleted := True\<rparr>))\<rparr>"
  have "selfDestruct disk_ops c st = Some ?st" using f d s1(1,4) by (simp add: selfDestruct_def)
  moreover have "fs_wf ?st own" using fs_wf_obj(2) [OF s1(2), of c f "f\<lparr>f_is_deleted := True\<rparr>"] f(1) s1(4) by simp
  ultimately show ?thesis using s1(3-5) by (intro exI [of _ ?st]) simp
qed

lemma delFile_at:
  assumes wf: "fs_wf st own" "{#c, p#} \<subseteq># own" and p: "dir_at st p E R g xs items" and x: "xs \<noteq> []"
    and conv: "utf8ToUtf16 C nm = Some u" "utf8ToGbk C (toUpper nm) = Some b" and found: "find_item u b 0 items = Some rg"
    and k: "finds st (entry_ino g (range_start rg)) = Some c" "c \<noteq> p" and c: "fs_objs st c = Some f" "\<not> f_is_deleted f"
    and near: "unat (range_start rg) < 16 * spc (F_bpb (fs_fat st))"
    and f: "file_holds (fs_fat st) E R f zs" and dis: "set xs \<inter> set zs = {}"
  shows "\<exists>st1 st2 g' E' R' ys items'. delFile disk_ops C now p nm st = Some (True, st1) \<and> selfDestruct disk_ops c st1 = Some st2
    \<and> fs_wf st2 own \<and> dir_at st2 p E' R' g' ys items' \<and> set ys \<subseteq> set xs \<and> ino g' = ino g \<and> f_fst_clus g' = f_fst_clus g
    \<and> list_items 0 items' = filter (\<lambda>x. fst x \<noteq> range_start rg) (list_items 0 items)
    \<and> (\<forall>z \<in> set zs. E' z = 0) \<and> (\<forall>b. b \<notin> set xs \<union> set zs \<longrightarrow> E' b = E b) \<and> only_secs (set (file_secs (F_bpb (fs_fat st)) xs)) R R'
    \<and> fs_objs st2 = (fs_objs st)(p := Some g', c := Some (f\<lparr>f_is_deleted := True\<rparr>))
    \<and> finds st2 = (finds st)(entry_ino g (range_start rg) := None)"
proof -
  let ?F = "fs_fat st" and ?k = "entry_ino g (range_start rg)"
  have ok: "disk_dir ?F E R g xs" "fs_objs st p = Some g" and its: "dir_items (dir_slots R (F_bpb ?F) xs) items"
    using p by (simp_all add: dir_at_def)
  have i: "ino f = ?k" using finds_object [OF wf(1) k(1)] c(1) by auto
  note at = entry_ino_parts [OF i]
  obtain F1 g' F' E' R' ys items' where r: "delFile_disk disk_ops C now ?F g nm = Some (Some rg, g', F1)" "selfDestruct_disk disk_ops F1 f = Some F'"
      "f_fst_clus g' = f_fst_clus g" "ino g' = ino g" "F_bpb F' = F_bpb ?F" "disk_dir F' E' R' g' ys" "set ys \<subseteq> set xs"
      "dir_items (dir_slots R' (F_bpb ?F) ys) items'" "list_items 0 items' = filter (\<lambda>x. fst x \<noteq> range_start rg) (list_items 0 items)"
      "\<forall>z \<in> set zs. E' z = 0" "\<forall>c. c \<notin> set xs \<union> set zs \<longrightarrow> E' c = E c" "only_secs (set (file_secs (F_bpb ?F) xs)) R R'"
    using lfd.cached.remove_file_ok [OF ok(1) its conv found at near f dis, of now] by blast
  obtain st1 where s1: "on_file p (\<lambda>F f. delFile_disk disk_ops C now F f nm) st = Some (Some rg, st1)" "fs_wf st1 own" "fs_fat st1 = F1"
      "fs_objs st1 = (fs_objs st)(p := Some g')" "finds st1 = finds st"
    using on_file_step [where m = "\<lambda>F f. delFile_disk disk_ops C now F f nm", OF wf(1) ok(2) r(1,4)] by blast
  have own: "c \<in># own" using wf(2) mset_subset_eqD by fastforce
  then obtain st2 where s2: "rmFileFromCacheByIno disk_ops ?k st1 = Some st2" "fs_wf st2 own" "fs_fat st2 = F1"
      "fs_objs st2 = (fs_objs st)(p := Some g')" "finds st2 = (finds st)(?k := None)"
    using rm_from_cache [OF s1(2), of ?k disk_ops] k(1) s1(3-5) by auto
  have d: "delFile disk_ops C now p nm st = Some (True, st2)" using s1(1,4) s2(1) r(3) by (simp add: delFile_def entry_ino_def)
  have g: "file_holds ?F E R g xs" using ok(1) by (simp add: dir_ok_def)
  have nr: "ino f \<noteq> KRootDirIno" using dir_not_root [OF g x] i by simp
  have "fs_objs st2 c = Some f" "selfDestruct_disk disk_ops (fs_fat st2) f = Some F'" "finds st2 (ino f) = None"
    using c(1) k(2) r(2) s2(3-5) i by simp_all
  with selfDestruct_at [OF s2(2) _ c(2) nr] obtain st3 where s3: "selfDestruct disk_ops c st2 = Some st3" "fs_wf st3 own" "fs_fat st3 = F'"
      "fs_objs st3 = (fs_objs st)(p := Some g', c := Some (f\<lparr>f_is_deleted := True\<rparr>))" "finds st3 = (finds st)(?k := None)"
    using s2(4,5) i by auto
  have "dir_at st3 p E' R' g' ys items'" using r(5,6,8) s3(3,4) k(2) by (simp add: dir_at_def)
  with d s3(1,2,4,5) r(3,4,7,9-12) show ?thesis
    by - (rule exI [of _ st2], rule exI [of _ st3], rule exI [of _ g'], rule exI [of _ E'], rule exI [of _ R'], rule exI [of _ ys],
        rule exI [of _ items'], simp)
qed

text \<open>The file with the inode number \<open>k\<close>, the chain \<open>zs\<close> and the entries from \<open>n\<close> on is gone from the directory,
  from the table and from the cache; all else is as it was.\<close>

definition child_removed :: "lfd cache_mgr FAT32fs \<Rightarrow> (u32 \<Rightarrow> u32) \<Rightarrow> (u32 \<Rightarrow> bytes option) \<Rightarrow> fobj \<Rightarrow> u32 list \<Rightarrow> dir_item list \<Rightarrow>
    u32 \<Rightarrow> u64 \<Rightarrow> u32 list \<Rightarrow> lfd cache_mgr FAT32fs \<Rightarrow> bool" where
  "child_removed st E R g xs items n k zs st' \<longleftrightarrow> fs_wf st' {#}
     \<and> (\<exists>g' E' R' ys items'. dir_on (fs_fat st') E' R' g' ys items' \<and> ino g' = ino g \<and> f_fst_clus g' = f_fst_clus g \<and> set ys \<subseteq> set xs
        \<and> (\<forall>a. finds st (ino g) = Some a \<longrightarrow> fs_objs st' a = Some g')
        \<and> list_items 0 items' = filter (\<lambda>x. fst x \<noteq> n) (list_items 0 items)
        \<and> (\<forall>z \<in> set zs. E' z = 0) \<and> (\<forall>b. b \<notin> set xs \<union> set zs \<longrightarrow> E' b = E b)
        \<and> only_secs (set (file_secs (F_bpb (fs_fat st)) xs)) R R')
     \<and> (\<forall>a f. fs_objs st a = Some f \<longrightarrow> ino f \<notin> {k, ino g} \<longrightarrow> fs_objs st' a = Some f) \<and> finds st' = (finds st)(k := None)"

text \<open>Nothing but the order in the cache, dates of access and chains read has changed.\<close>

definition all_kept :: "lfd cache_mgr FAT32fs \<Rightarrow> (u32 \<Rightarrow> u32) \<Rightarrow> (u32 \<Rightarrow> bytes option) \<Rightarrow> fobj \<Rightarrow> u32 list \<Rightarrow> dir_item list \<Rightarrow>
    lfd cache_mgr FAT32fs \<Rightarrow> bool" where
  "all_kept st E R g xs items st' \<longleftrightarrow> fs_wf st' {#} \<and> (\<exists>g'. dir_on (fs_fat st') E R g' xs items \<and> same_obj g g')
     \<and> (\<forall>a f. fs_objs st a = Some f \<longrightarrow> (\<exists>f'. fs_objs st' a = Some f' \<and> same_obj f f')) \<and> finds st' = finds st"

text \<open>How the handlers begin: the directory is opened and the file looked up. \<open>looked_up\<close> is what then holds.\<close>

definition looked_up :: "lfd cache_mgr FAT32fs \<Rightarrow> (u32 \<Rightarrow> u32) \<Rightarrow> (u32 \<Rightarrow> bytes option) \<Rightarrow> fobj \<Rightarrow> u32 list \<Rightarrow> dir_item list \<Rightarrow>
    nat \<Rightarrow> nat \<Rightarrow> fobj \<Rightarrow> lfd cache_mgr FAT32fs \<Rightarrow> bool" where
  "looked_up st E R g xs items p c f st' \<longleftrightarrow> fs_wf st' {#c, p#} \<and> opened_at st p g
     \<and> (\<exists>g'. dir_at st' p E R g' xs items \<and> same_obj g g' \<and> fs_objs st' = (fs_objs st)(p := Some g', c := Some f)) \<and> finds st' = finds st
     \<and> (\<exists>r. fs_fat st' = (fs_fat st)\<lparr>F_device := r\<rparr>)"

lemma open_and_lookup:
  assumes wf: "fs_wf st {#}" and o: "opens st parent g" and on: "dir_on (fs_fat st) E R g xs items"
    and conv: "utf8ToUtf16 (conv en) nm = Some u" "utf8ToGbk (conv en) (toUpper nm) = Some b" and found: "find_item u b 0 items = Some rg"
    and c: "finds st (entry_ino g (range_start rg)) = Some c" "fs_objs st c = Some f" "entry_ino g (range_start rg) \<noteq> ino g"
  shows "\<exists>p st1 st2. getExistDir disk_ops en parent st = Some (p, st1) \<and> lookupFile disk_ops (conv en) now p nm st1 = Some (Some c, st2)
    \<and> c \<noteq> p \<and> looked_up st E R g xs items p c f st2"
proof -
  have "f_is_dir g" using on by (simp add: dir_on_def dir_ok_def)
  from open_dir [OF wf o this, of en] obtain p st1 where s1: "getExistDir disk_ops en parent st = Some (p, st1)" "fs_wf st1 {#p#}"
      "fs_fat st1 = fs_fat st" "fs_objs st1 = (fs_objs st)(p := Some g)" "finds st1 = finds st" "opened_at st p g" by blast
  have "dir_at st1 p E R g xs items" "finds st1 (entry_ino g (range_start rg)) = Some c" using on c s1(3-5) by (simp_all add: dir_at_on)
  from lookupFile_cached [OF s1(2) this(1) conv found this(2), of now] obtain st2 g' r where
    s2: "lookupFile disk_ops (conv en) now p nm st1 = Some (Some c, st2)" "fs_wf st2 {#c, p#}" "dir_at st2 p E R g' xs items" "same_obj g g'"
      "fs_objs st2 = (fs_objs st1)(p := Some g')" "finds st2 = finds st1" "fs_fat st2 = (fs_fat st1)\<lparr>F_device := r\<rparr>" by blast
  have "c \<noteq> p" using s1(6) c finds_object [OF wf c(1)] by (auto simp: opened_at_def)
  moreover have "fs_objs st2 = (fs_objs st)(p := Some g', c := Some f)" using s2(5) s1(4) c(2) \<open>c \<noteq> p\<close> by auto
  ultimately show ?thesis using s1(1,3,5,6) s2 unfolding looked_up_def by metis
qed

lemma kept_after_lookup:
  assumes l: "looked_up st E R g xs items p c f' st2" and c: "finds st k = Some c" "fs_objs st c = Some f" "same_obj f f'" "c \<noteq> p"
  shows "\<exists>st3. unshare_all disk_ops [c, p] st2 = Some st3 \<and> all_kept st E R g xs items st3"
proof -
  obtain g' where s: "fs_wf st2 {#c, p#}" "opened_at st p g" "dir_at st2 p E R g' xs items" "same_obj g g'"
      "fs_objs st2 = (fs_objs st)(p := Some g', c := Some f')" "finds st2 = finds st" using l by (auto simp: looked_up_def)
  obtain st3 where s3: "unshare disk_ops c st2 = Some st3" "fs_wf st3 {#p#}" "fs_fat st3 = fs_fat st2" "fs_objs st3 = fs_objs st2"
      "finds st3 = finds st2" using unshare_kept [OF s(1), of disk_ops] c(1) s(6) by auto
  have p3: "dir_at st3 p E R g' xs items" using s(3) s3(3,4) by (simp add: dir_at_def)
  have "finds st3 = finds st" using s3(5) s(6) by simp
  with close_opened [OF s3(2) s(2) p3 same_objD(3) [OF s(4)]] obtain st4 where s4: "unshare disk_ops p st3 = Some st4" "fs_wf st4 {#}"
      "dir_on (fs_fat st4) E R g' xs items" "finds st4 = finds st3" "\<forall>a. finds st (ino g) = Some a \<longrightarrow> fs_objs st4 a = Some g'"
      "\<forall>a. a \<noteq> p \<longrightarrow> fs_objs st4 a = fs_objs st3 a" by auto
  have "\<exists>h'. fs_objs st4 a = Some h' \<and> same_obj h h'" if a: "fs_objs st a = Some h" for a h
  proof (cases "a = p")
    case True
    then show ?thesis using a s(2,4) s4(5) by (auto simp: opened_at_def)
  next
    case False
    then show ?thesis using a s4(6) s3(4) s(5) c(2,3) by auto
  qed
  moreover have "finds st4 = finds st" using s4(4) s3(5) s(6) by simp
  ultimately have "all_kept st E R g xs items st4" using s4(2,3) s(4) unfolding all_kept_def by blast
  then show ?thesis using s3(1) s4(1) by simp
qed

lemma remove_at:
  assumes l: "looked_up st E R g xs items p c f st0" and wf0: "fs_wf st {#}" and x: "xs \<noteq> []"
    and conv: "utf8ToUtf16 C nm = Some u" "utf8ToGbk C (toUpper nm) = Some b" and found: "find_item u b 0 items = Some rg"
    and k: "finds st (entry_ino g (range_start rg)) = Some c" "c \<noteq> p" "\<not> f_is_deleted f"
    and near: "unat (range_start rg) < 16 * spc (F_bpb (fs_fat st))"
    and f: "file_holds (fs_fat st) E R f zs" and dis: "set xs \<inter> set zs = {}"
  shows "\<exists>st1 st2 st3. delFile disk_ops C now p nm st0 = Some (True, st1) \<and> selfDestruct disk_ops c st1 = Some st2
    \<and> unshare_all disk_ops [c, p] st2 = Some st3
    \<and> child_removed st E R g xs items (range_start rg) (entry_ino g (range_start rg)) zs st3"
proof -
  let ?k = "entry_ino g (range_start rg)"
  obtain g0 d where s0: "fs_wf st0 {#c, p#}" "opened_at st p g" "dir_at st0 p E R g0 xs items" "same_obj g g0"
      "fs_objs st0 = (fs_objs st)(p := Some g0, c := Some f)" "finds st0 = finds st" "fs_fat st0 = (fs_fat st)\<lparr>F_device := d\<rparr>"
    using l by (auto simp: looked_up_def)
  have k0: "entry_ino g0 n = entry_ino g n" for n using same_objD(1) [OF s0(4)] by (simp add: entry_ino_def)
  have h: "finds st0 (entry_ino g0 (range_start rg)) = Some c" "fs_objs st0 c = Some f" "file_holds (fs_fat st0) E R f zs"
    "unat (range_start rg) < 16 * spc (F_bpb (fs_fat st0))" using k f near s0(5-7) k0 by simp_all
  have "{#c, p#} \<subseteq># {#c, p#}" by simp
  from delFile_at [OF s0(1) this s0(3) x conv found h(1) k(2) h(2) k(3) h(4,3) dis, of now, unfolded k0] obtain st1 st2 g' E' R' ys items' where
    r: "delFile disk_ops C now p nm st0 = Some (True, st1)" "selfDestruct disk_ops c st1 = Some st2" "fs_wf st2 {#c, p#}"
      "dir_at st2 p E' R' g' ys items'" "set ys \<subseteq> set xs" "ino g' = ino g0" "f_fst_clus g' = f_fst_clus g0"
      "list_items 0 items' = filter (\<lambda>x. fst x \<noteq> range_start rg) (list_items 0 items)"
      "\<forall>z \<in> set zs. E' z = 0" "\<forall>b. b \<notin> set xs \<union> set zs \<longrightarrow> E' b = E b" "only_secs (set (file_secs (F_bpb (fs_fat st0)) xs)) R R'"
      "fs_objs st2 = (fs_objs st0)(p := Some g', c := Some (f\<lparr>f_is_deleted := True\<rparr>))" "finds st2 = (finds st0)(?k := None)" by blast
  have one: "finds st k' = Some a \<Longrightarrow> finds st k'' = Some a \<Longrightarrow> k' = k''" for k' k'' a
    using finds_object [OF wf0, of k' a] finds_object [OF wf0, of k'' a] by auto
  then have gone: "finds st2 k' \<noteq> Some c" for k' using k(1) unfolding r(13) s0(6) by (metis fun_upd_apply option.distinct(1))
  have f2: "fs_objs st2 c = Some (f\<lparr>f_is_deleted := True\<rparr>)" by (simp add: r(12))
  have "File_destroy disk_ops (fs_fat st2) (f\<lparr>f_is_deleted := True\<rparr>) = Some (fs_fat st2)" by (simp add: File_destroy_def File_sync_def)
  from unshare_last [OF r(3) _ gone f2 this] k(2) obtain st3 where s3: "unshare disk_ops c st2 = Some st3" "fs_wf st3 {#p#}"
      "fs_fat st3 = fs_fat st2" "fs_objs st3 = (fs_objs st2)(c := None)" "finds st3 = finds st2" by auto
  have p3: "dir_at st3 p E' R' g' ys items'" using r(4) k(2) s3(3,4) by (simp add: dir_at_def)
  have i: "ino g' = ino g" "f_fst_clus g' = f_fst_clus g" using r(6,7) same_objD(1,3) [OF s0(4)] by simp_all
  have pk: "finds st3 (ino g) = Some p" if "finds st (ino g) = Some p"
    using that k one r(13) s3(5) s0(6) by auto
  from close_opened [OF s3(2) s0(2) p3 i(1) pk] obtain st4 where s4: "unshare disk_ops p st3 = Some st4" "fs_wf st4 {#}"
      "dir_on (fs_fat st4) E' R' g' ys items'" "finds st4 = finds st3" "\<forall>a. finds st (ino g) = Some a \<longrightarrow> fs_objs st4 a = Some g'"
      "\<forall>a. a \<noteq> p \<longrightarrow> fs_objs st4 a = fs_objs st3 a" by blast
  have "fs_objs st4 a = Some h" if a: "fs_objs st a = Some h" "ino h \<notin> {?k, ino g}" for a h
  proof -
    have "a \<noteq> p" using opened_other [OF s0(2) a(1)] a(2) by simp
    moreover have "a \<noteq> c" using finds_object [OF wf0 k(1)] a by auto
    ultimately show ?thesis using s4(6) s3(4) r(12) s0(5) a(1) by simp
  qed
  moreover have "finds st4 = (finds st)(?k := None)" "only_secs (set (file_secs (F_bpb (fs_fat st)) xs)) R R'"
    using s4(4) s3(5) r(11,13) s0(6,7) by simp_all
  ultimately have "child_removed st E R g xs items (range_start rg) ?k zs st4"
    unfolding child_removed_def using s4(2,3,5) i r(5,8-10) by blast
  then show ?thesis using r(1,2) s3(1) s4(1) by auto
qed

text \<open>A file in a directory: what both handlers need to know of it.\<close>

definition child_of :: "lfd cache_mgr FAT32fs \<Rightarrow> env \<Rightarrow> bytes \<Rightarrow> fobj \<Rightarrow> dir_item list \<Rightarrow> DirEntryRange \<Rightarrow> nat \<Rightarrow> fobj \<Rightarrow> bool" where
  "child_of st en nm g items rg c f \<longleftrightarrow>
     (\<exists>u b. utf8ToUtf16 (conv en) nm = Some u \<and> utf8ToGbk (conv en) (toUpper nm) = Some b \<and> find_item u b 0 items = Some rg)
     \<and> finds st (entry_ino g (range_start rg)) = Some c \<and> fs_objs st c = Some f \<and> \<not> f_is_deleted f
     \<and> entry_ino g (range_start rg) \<noteq> ino g \<and> unat (range_start rg) < 16 * spc (F_bpb (fs_fat st))"

lemma unlink_ok:
  assumes wf: "fs_wf st {#}" and o: "opens st parent g" and on: "dir_on (fs_fat st) E R g xs items" and x: "xs \<noteq> []"
    and c: "child_of st en nm g items rg c f" and f: "file_holds (fs_fat st) E R f zs" and dis: "set xs \<inter> set zs = {}"
  shows "\<exists>st'. fat32_unlink disk_ops en now parent nm st = Some (Reply_err (if f_is_dir f then EISDIR else Success), st')
    \<and> (if f_is_dir f then all_kept st E R g xs items st'
       else child_removed st E R g xs items (range_start rg) (entry_ino g (range_start rg)) zs st')"
proof -
  obtain u b where conv: "utf8ToUtf16 (conv en) nm = Some u" "utf8ToGbk (conv en) (toUpper nm) = Some b" "find_item u b 0 items = Some rg"
    and k: "finds st (entry_ino g (range_start rg)) = Some c" "fs_objs st c = Some f" "\<not> f_is_deleted f" "entry_ino g (range_start rg) \<noteq> ino g"
      "unat (range_start rg) < 16 * spc (F_bpb (fs_fat st))" using c unfolding child_of_def by blast
  obtain p st1 st2 where s: "getExistDir disk_ops en parent st = Some (p, st1)" "lookupFile disk_ops (conv en) now p nm st1 = Some (Some c, st2)"
      "c \<noteq> p" "looked_up st E R g xs items p c f st2"
    using open_and_lookup [OF wf o on conv k(1,2,4), of now] by blast
  have c2: "fs_objs st2 c = Some f" using s(4) by (auto simp: looked_up_def)
  show ?thesis
  proof (cases "f_is_dir f")
    case True
    from kept_after_lookup [OF s(4) k(1,2) same_obj_refl s(3)] True s(1,2) c2
    show ?thesis by (auto simp: fat32_unlink_def isDir_def simp del: unshare_all.simps)
  next
    case False
    from remove_at [OF s(4) wf x conv k(1) s(3) k(3,5) f dis, of now] False s(1,2) c2
    show ?thesis by (auto simp: fat32_unlink_def isDir_def simp del: unshare_all.simps)
  qed
qed

lemma rmdir_ok:
  assumes wf: "fs_wf st {#}" and o: "opens st parent g" and on: "dir_on (fs_fat st) E R g xs items" and x: "xs \<noteq> []"
    and c: "child_of st en nm g items rg c f" and f: "dir_on (fs_fat st) E R f zs (dots @ its)" and dis: "set xs \<inter> set zs = {}"
    and dots: "length (items_slots dots) = 2"
  shows "\<exists>st'. fat32_rmdir disk_ops en now parent nm st = Some (Reply_err (if list_items 2 its = [] then Success else ENOTEMPTY), st')
    \<and> (if list_items 2 its = [] then child_removed st E R g xs items (range_start rg) (entry_ino g (range_start rg)) zs st'
       else all_kept st E R g xs items st')"
proof -
  let ?k = "entry_ino g (range_start rg)"
  obtain u b where conv: "utf8ToUtf16 (conv en) nm = Some u" "utf8ToGbk (conv en) (toUpper nm) = Some b" "find_item u b 0 items = Some rg"
    and k: "finds st ?k = Some c" "fs_objs st c = Some f" "\<not> f_is_deleted f" "?k \<noteq> ino g" "unat (range_start rg) < 16 * spc (F_bpb (fs_fat st))"
    using c unfolding child_of_def by blast
  obtain p st1 st2 where s: "getExistDir disk_ops en parent st = Some (p, st1)" "lookupFile disk_ops (conv en) now p nm st1 = Some (Some c, st2)"
      "c \<noteq> p" "looked_up st E R g xs items p c f st2"
    using open_and_lookup [OF wf o on conv k(1,2,4), of now] by blast
  obtain g' r where l: "fs_wf st2 {#c, p#}" "opened_at st p g" "dir_at st2 p E R g' xs items" "same_obj g g'"
      "fs_objs st2 = (fs_objs st)(p := Some g', c := Some f)" "finds st2 = finds st" "fs_fat st2 = (fs_fat st)\<lparr>F_device := r\<rparr>"
    using s(4) by (auto simp: looked_up_def)
  have g: "file_holds (fs_fat st) E R g xs" using on by (simp add: dir_on_def dir_ok_def)
  have "ino f \<noteq> KRootDirIno" using dir_not_root [OF g x] finds_object [OF wf k(1)] k(2) by auto
  then have two: "length (items_slots dots) = (if ino f = KRootDirIno then 0 else 2)" using dots by simp
  have d2: "disk_dir (fs_fat st2) E R f zs" "dir_items (dir_slots R (F_bpb (fs_fat st2)) zs) (dots @ its)"
    using f l(3,7) by (simp_all add: dir_on_def dir_at_def dir_ok_def)
  obtain f' F' where e: "isEmpty disk_ops now (fs_fat st2) f = Some (list_items 2 its = [], f', F')" "disk_dir F' E R f' zs" "same_obj f f'"
      "F' = (fs_fat st2)\<lparr>F_device := F_device F'\<rparr>"
    using isEmpty_items [OF d2 two, of now] dots by (auto simp: dir_kept_def)
  have c2: "fs_objs st2 c = Some f" by (simp add: l(5))
  obtain st3 where s3: "on_file c (isEmpty disk_ops now) st2 = Some (list_items 2 its = [], st3)" "fs_wf st3 {#c, p#}" "fs_fat st3 = F'"
      "fs_objs st3 = (fs_objs st2)(c := Some f')" "finds st3 = finds st2"
    using on_file_step [where m = "isEmpty disk_ops now", OF l(1) c2 e(1) same_objD(3) [OF e(3)]] by blast
  have F: "F' = (fs_fat st)\<lparr>F_device := F_device F'\<rparr>" using e(4) l(7) by simp
  have b: "F_bpb F' = F_bpb (fs_fat st)" by (subst F) simp
  have "dir_at st3 p E R g' xs items"
    using l(3,7) s(3) e(2) s3(3,4) b by (auto simp: dir_at_def dir_ok_def file_holds_def)
  moreover have "fs_objs st3 = (fs_objs st)(p := Some g', c := Some f')" by (simp add: s3(4) l(5))
  ultimately have l3: "looked_up st E R g xs items p c f' st3" using l(2,4,6) s3(2,3,5) F unfolding looked_up_def by metis
  have d: "f_is_dir f" "file_holds (fs_fat st) E R f' zs" using f e(2) b by (auto simp: dir_on_def dir_ok_def file_holds_def)
  have del: "\<not> f_is_deleted f'" using k(3) e(3) by (cases f; cases f') (simp add: same_obj_def)
  show ?thesis
  proof (cases "list_items 2 its = []")
    case False
    from kept_after_lookup [OF l3 k(1,2) e(3) s(3)] False s(1,2) c2 d(1) s3(1)
    show ?thesis by (auto simp: fat32_rmdir_def isDir_def simp del: unshare_all.simps)
  next
    case True
    from remove_at [OF l3 wf x conv k(1) s(3) del k(5) d(2) dis, of now] True s(1,2) c2 d(1) s3(1)
    show ?thesis by (auto simp: fat32_rmdir_def isDir_def simp del: unshare_all.simps)
  qed
qed

section \<open>Properties\<close>

text \<open>C17: An \<open>unlink\<close> request for a file of a directory, the root or a cached one, is answered with success: its entries
  are gone from the listing, where every other file stays as it was, its clusters are free, its object has
  left the cache and is destroyed without writing to the disk, and no other cluster and no other object changes. For a
  directory the answer is \<open>EISDIR\<close>, and nothing changes.\<close>

theorem unlink_removes_the_file:
  assumes "fs_wf st {#}" and "opens st parent g" and "dir_on (fs_fat st) E R g xs items" and "xs \<noteq> []"
    and "child_of st en nm g items rg c f" and "file_holds (fs_fat st) E R f zs" and "set xs \<inter> set zs = {}"
  shows "\<exists>st'. serve disk_ops en now (Unlink_req parent nm) st = Some (Reply_err (if f_is_dir f then EISDIR else Success), st')
    \<and> (if f_is_dir f then all_kept st E R g xs items st'
       else child_removed st E R g xs items (range_start rg) (entry_ino g (range_start rg)) zs st')"
  unfolding serve.simps by (rule unlink_ok [OF assms])

lemma opens_root:
  assumes "node_ino n = KRootDirIno" and "finds st KRootDirIno = None" and "F_bpb (fs_fat st) = demo_BPB"
  shows "opens st n (mkRootDir 2)"
  using assms by (simp add: opens_def demo_BPB_def)

lemma demo_names: "utf8ToUtf16 (conv demo_env) [0x61, 0] = Some [0x61, 0]" "utf8ToGbk (conv demo_env) (toUpper [0x61, 0]) = Some [0x41, 0]"
  by code_simp+

lemma fresh_root:
  assumes "disk_dir F E R g [2]"
  shows "disk_dir F E R (mkRootDir 2) [2]"
proof -
  have "f_fst_clus g = 2" using assms by (auto simp: dir_ok_def file_holds_def split: if_splits)
  moreover have "f_clus_chain (mkRootDir 2) = None" by (simp add: mkRootDir_def File_new_def)
  ultimately show ?thesis using assms by (simp add: dir_ok_def file_holds_def root_obj del: chain.simps split: if_splits)
qed

theorem unlink_removes_the_file_witness:
  "\<exists>F E R st'. dir_on F E R (mkRootDir 2) [2] demo_items
    \<and> serve disk_ops demo_env demo_now (Unlink_req 1 [0x61, 0]) (demo_fs\<lparr>fs_fat := F\<rparr>) = Some (Reply_err Success, st')
    \<and> finds st' 0x200000000 = None \<and> (\<exists>g E' R' ys items'. dir_on (fs_fat st') E' R' g ys items'
      \<and> list_items 0 items' = [(3, castLongDirEntryToShort (demo_short [0x42]), [], 4)] \<and> E' 3 = 0 \<and> E' 4 = 0 \<and> E' 5 = 0)"
proof -
  obtain F E R g where d: "disk_dir F E R g [2]" "F_bpb F = demo_BPB" "dir_items (dir_slots R (F_bpb F) [2]) demo_items"
      "file_holds F E R demo_file [3, 4, 5]"
    using demo_both by blast
  let ?st = "demo_fs\<lparr>fs_fat := F\<rparr>" and ?g = "mkRootDir 2" and ?rg = "\<lparr>range_start = 0, range_count = 2\<rparr> :: DirEntryRange"
  have wf: "fs_wf ?st {#}" using demo_fs_wf by simp
  have on: "dir_on (fs_fat ?st) E R ?g [2] demo_items" using fresh_root [OF d(1)] d(3) by (simp add: dir_on_def)
  have c: "cached ?st = [(0x200000000, 0)]" by simp
  have o: "opens ?st 1 ?g" by (rule opens_root) (simp_all add: node_ino_def KRootDirIno_def c d(2))
  have k: "entry_ino ?g 0 = 0x200000000" by (simp add: entry_ino_def root_obj)
  have ch: "child_of ?st demo_env [0x61, 0] ?g demo_items ?rg 0 demo_file"
    using demo_names demo_find by (simp add: child_of_def k root_obj KRootDirIno_def d(2) c) (simp add: demo_file_def demo_BPB_def)
  have f: "file_holds (fs_fat ?st) E R demo_file [3, 4, 5]" using d(4) by simp
  obtain st' where r: "serve disk_ops demo_env demo_now (Unlink_req 1 [0x61, 0]) ?st = Some (Reply_err Success, st')"
      "child_removed ?st E R ?g [2] demo_items 0 0x200000000 [3, 4, 5] st'"
    using unlink_removes_the_file [OF wf o on _ ch f, of demo_now] by (auto simp: k)
  obtain g' E' R' ys items' where l: "dir_on (fs_fat st') E' R' g' ys items'" "\<forall>z \<in> set [3, 4, 5]. E' z = 0"
      "list_items 0 items' = filter (\<lambda>x. fst x \<noteq> 0) (list_items 0 demo_items)" "finds st' = (finds ?st)(0x200000000 := None)"
    using r(2) unfolding child_removed_def by blast
  have "list_items 0 items' = [(3, castLongDirEntryToShort (demo_short [0x42]), [], 4)]" unfolding l(3) by simp
  moreover have "finds st' 0x200000000 = None" unfolding l(4) by simp
  moreover have "E' 3 = 0" "E' 4 = 0" "E' 5 = 0" using l(2) by simp_all
  moreover have "dir_on F E R ?g [2] demo_items" using on by simp
  ultimately show ?thesis using r(1) l(1) by blast
qed

text \<open>C18: An \<open>rmdir\<close> request for a directory removes it, as \<open>unlink\<close> removes a file, when nothing but its two dot entries
  is listed in it; otherwise the answer is \<open>ENOTEMPTY\<close> and nothing changes.\<close>

theorem rmdir_removes_only_empty_directories:
  assumes "fs_wf st {#}" and "opens st parent g" and "dir_on (fs_fat st) E R g xs items" and "xs \<noteq> []"
    and "child_of st en nm g items rg c f" and "dir_on (fs_fat st) E R f zs (dots @ its)" and "set xs \<inter> set zs = {}"
    and "length (items_slots dots) = 2"
  shows "\<exists>st'. serve disk_ops en now (Rmdir_req parent nm) st = Some (Reply_err (if list_items 2 its = [] then Success else ENOTEMPTY), st')
    \<and> (if list_items 2 its = [] then child_removed st E R g xs items (range_start rg) (entry_ino g (range_start rg)) zs st'
       else all_kept st E R g xs items st')"
  unfolding serve.simps by (rule rmdir_ok [OF assms])

text \<open>A directory \<open>A\<close> in the root of the demo volume.\<close>

definition demo_sub :: LongDirEntry where
  "demo_sub = castShortDirEntryToLong (mkShortDirEntry (getCurDosTs2 demo_now)
     \<lparr>primary = 0x41 # replicate 7 0x20 @ [0], extension = [0x20, 0x20, 0x20, 0]\<rparr> True)"

lemma demo_sub_dir:
  "\<exists>F E R g y. F_bpb F = demo_BPB \<and> dir_on F E R (mkRootDir 2) [2] [Present [] demo_sub] \<and> ino g = 0x200000000 \<and> \<not> f_is_deleted g
    \<and> y \<noteq> 2 \<and> dir_on F E R g [y] (dot_items t0 t y 2)"
proof -
  let ?g = "demo_file\<lparr>f_is_dir := True, f_fst_clus := 0\<rparr>"
  have h: "disk_fat demo_FAT demo_E demo_R" "vol_ok demo_FAT demo_E demo_R" using demo_file_ok by (simp_all add: file_ok_split)
  have "0 < frees (F_bpb demo_FAT) demo_E" by (simp add: demo_count demo_free_ok)
  moreover have "f_is_dir ?g" "f_fst_clus ?g = 0" "f_clus_chain ?g = None" by simp_all
  ultimately obtain F1 g E1 R1 y where
    d: "dir_more disk_good disk_view demo_FAT demo_E demo_R ?g [] [y] F1 E1 R1 g" "dir_items (dir_slots R1 (F_bpb demo_FAT) [y]) (dot_items t0 t y 2)"
    using lfd.cached.dot_writes_ok [OF h] by blast
  have ok: "disk_dir F1 E1 R1 g ([] @ [y])" "F_bpb F1 = F_bpb demo_FAT" "only_clus (F_bpb demo_FAT) [] [y] demo_E E1 demo_R R1" "ino g = ino ?g"
    using d(1) by (simp_all add: dir_more_def)
  have dis: "set ([] @ [y]) \<inter> set [2] = {}"
    using only_clus_free [OF _ ok(3)] demo_root_ok(1) by (fastforce simp: dir_ok_def)
  note root = dir_apart [OF demo_root_ok(1) ok(1-3) dis]
  have S: "dir_slots R1 (F_bpb F1) [2] = replicate 32 zero_entry" using root(2) ok(2) by (simp add: demo_count demo_root_slots)
  have "wf_long demo_sub" by code_simp
  from lfd.cached.writeDirEntry_ok [OF root(1) S _ this, of 0 demo_now] obtain F E R g0 where
    w: "dir_next disk_good disk_view F1 E1 R1 (mkRootDir 2) [2] F E R g0 [2]" "dir_slots R (F_bpb F) [2] = (replicate 32 zero_entry)[0 := demo_sub]"
    by auto
  have w2: "disk_dir F E R g0 [2]" "F_bpb F = F_bpb F1" "only_clus (F_bpb F1) [2] [] E1 E R1 R" using w(1) by (simp_all add: dir_next_def)
  have z: "isLstEmptyDirEntry zero_entry" "item_ok (Present [] demo_sub)" by code_simp+
  have "(replicate 32 zero_entry)[0 := demo_sub] = demo_sub # replicate 31 zero_entry" by (simp add: numeral_eq_Suc)
  then have "dir_items (dir_slots R (F_bpb F) [2]) [Present [] demo_sub]"
    unfolding w(2) dir_items_def using z end_is_empty [OF z(1)] by (intro conjI exI [of _ "replicate 31 zero_entry"]) simp_all
  then have on: "dir_on F E R (mkRootDir 2) [2] [Present [] demo_sub]" using fresh_root [OF w2(1)] by (simp add: dir_on_def)
  have h1: "disk_fat F1 E1 R1" "file_holds F1 E1 R1 g [y]" "file_holds F1 E1 R1 (mkRootDir 2) [2]" using ok(1) root(1) by (simp_all add: dir_ok_def)
  have y: "set [2] \<inter> set [y] = {}" using dis by auto
  note sub = file_kept [OF h1 w2(2,3) y]
  let ?h = "demo_file\<lparr>f_is_dir := True, f_fst_clus := y\<rparr>"
  have "f_fst_clus g = y" using fst_clus_hd [OF h1(2)] by simp
  then have "disk_dir F E R ?h [y]" using ok(1) sub(1) w2(1,2) by (simp add: dir_ok_def file_holds_def del: chain.simps split: if_splits)
  moreover have "dir_slots R (F_bpb F) [y] = dir_slots R1 (F_bpb demo_FAT) [y]" using sub(2) w2(2) ok(2) by (simp add: dir_slots_def)
  ultimately have "dir_on F E R ?h [y] (dot_items t0 t y 2)" using d(2) by (simp add: dir_on_def)
  moreover have "ino ?h = 0x200000000" "\<not> f_is_deleted ?h" by (simp_all add: ino_def demo_file_def)
  moreover have "F_bpb F = demo_BPB" "y \<noteq> 2" using ok(2) w2(2) y by (simp_all add: demo_count)
  ultimately show ?thesis using on by blast
qed

theorem rmdir_removes_only_empty_directories_witness:
  "\<exists>st st'. serve disk_ops demo_env demo_now (Rmdir_req 1 [0x41]) st = Some (Reply_err Success, st')
    \<and> finds st 0x200000000 \<noteq> None \<and> finds st' 0x200000000 = None
    \<and> (\<exists>g E' R' ys items'. dir_on (fs_fat st') E' R' g ys items' \<and> list_items 0 items' = [])"
proof -
  obtain F E R g y where d: "F_bpb F = demo_BPB" "dir_on F E R (mkRootDir 2) [2] [Present [] demo_sub]" "ino g = 0x200000000" "\<not> f_is_deleted g"
      "y \<noteq> 2" "dir_on F E R g [y] (dot_items (getCurDosTs2 demo_now) (getCurDosTs2 demo_now) y 2 @ [])"
    using demo_sub_dir by fastforce
  let ?st = "demo_fs\<lparr>fs_fat := F, fs_objs := (fs_objs demo_fs)(0 := Some g)\<rparr>" and ?g = "mkRootDir 2"
    and ?rg = "\<lparr>range_start = 0, range_count = 1\<rparr> :: DirEntryRange"
  have "ino demo_file = 0x200000000" by (simp add: ino_def demo_file_def)
  with d(3) have "ino g = ino demo_file" by simp
  then have wf: "fs_wf ?st {#}" by (intro fs_wf_obj(1) [OF demo_fs_wf, of 0 demo_file]) simp_all
  have c: "cached ?st = [(0x200000000, 0)]" by simp
  have on: "dir_on (fs_fat ?st) E R ?g [2] [Present [] demo_sub]" "dir_on (fs_fat ?st) E R g [y]
      (dot_items (getCurDosTs2 demo_now) (getCurDosTs2 demo_now) y 2 @ [])" using d(2,6) by simp_all
  have o: "opens ?st 1 ?g" by (rule opens_root) (simp_all add: node_ino_def KRootDirIno_def c d(1))
  have k: "entry_ino ?g 0 = 0x200000000" by (simp add: entry_ino_def root_obj)
  have "utf8ToUtf16 (conv demo_env) [0x41] = Some [0x41]" "utf8ToGbk (conv demo_env) (toUpper [0x41]) = Some [0x41]"
    "find_item [0x41] [0x41] 0 [Present [] demo_sub] = Some ?rg" by code_simp+
  then have ch: "child_of ?st demo_env [0x41] ?g [Present [] demo_sub] ?rg 0 g"
    using d(4) by (simp add: child_of_def k root_obj KRootDirIno_def d(1) c) (simp add: demo_BPB_def)
  have two: "length (items_slots (dot_items t0 t y 2)) = 2" for t0 t by (simp add: dot_items_def)
  obtain st' where r: "serve disk_ops demo_env demo_now (Rmdir_req 1 [0x41]) ?st = Some (Reply_err Success, st')"
      "child_removed ?st E R ?g [2] [Present [] demo_sub] 0 0x200000000 [y] st'"
    using rmdir_removes_only_empty_directories [OF wf o on(1) _ ch on(2) _ two, of demo_now] d(5) by (auto simp: k)
  obtain g' E' R' ys items' where l: "dir_on (fs_fat st') E' R' g' ys items'"
      "list_items 0 items' = filter (\<lambda>x. fst x \<noteq> 0) (list_items 0 [Present [] demo_sub])" "finds st' = (finds ?st)(0x200000000 := None)"
    using r(2) unfolding child_removed_def by blast
  have "list_items 0 items' = []" unfolding l(2) by simp
  moreover have "finds st' 0x200000000 = None" "finds ?st 0x200000000 \<noteq> None" unfolding l(3) c by simp_all
  ultimately show ?thesis using r(1) l(1) by blast
qed

end
