(* ===== verification/Create.thy ===== *)
theory Create
  imports Unlink
begin

text \<open>
  \<open>fat32_create\<close>: a new file through all the layers, from the entries in the directory to the object in the
  cache and the reply, beside the files that are open already.
\<close>

section \<open>The files of a volume while a directory changes\<close>

lemma vol_files_kept:
  assumes vf: "vol_files st E R ch files" and fat: "disk_fat (fs_fat st') E' R'" "vol_ok (fs_fat st') E' R'"
    and bpb: "F_bpb (fs_fat st') = F_bpb (fs_fat st)" and h: "file_holds (fs_fat st') E' R' g (xs @ cs)"
    and only: "only_clus (F_bpb (fs_fat st)) xs cs E E' R R'" and dis: "\<forall>k \<in> dom files. set xs \<inter> set (ch k) = {}"
    and objs: "\<forall>k \<in> dom files. finds st' k = finds st k \<and> (\<forall>a. finds st k = Some a \<longrightarrow> fs_objs st' a = fs_objs st a)"
  shows "vol_files st' E' R' ch files"
proof -
  let ?F = "fs_fat st"
  have "\<exists>a f. finds st' k = Some a \<and> fs_objs st' a = Some f \<and> disk_file (fs_fat st') E' R' f (ch k) \<and> file_bytes R' (F_bpb (fs_fat st')) f (ch k) = data"
    if k: "files k = Some data" for k data
  proof -
    obtain a f where f: "finds st k = Some a" "fs_objs st a = Some f" "disk_file ?F E R f (ch k)" "file_bytes R (F_bpb ?F) f (ch k) = data"
      using vf k unfolding vol_files_def by blast
    have "\<forall>x \<in> set (ch k). E x \<noteq> 0" using file_clus_used(1) [OF file_okD(2) [OF f(3)]] by blast
    then have "set (xs @ cs) \<inter> set (ch k) = {}" using dis k only by (auto simp: only_clus_def)
    note kept = file_apart [OF file_okD(1,2) [OF f(3)] fat(1) h bpb only this]
    have "disk_file (fs_fat st') E' R' f (ch k)" using f(3) fat kept(1) bpb by (simp add: file_ok_split)
    moreover have "file_bytes R' (F_bpb (fs_fat st')) f (ch k) = data" using f(4) kept(2) bpb by (simp add: file_bytes_def)
    ultimately show ?thesis using f(1,2) objs k by (metis domI)
  qed
  then show ?thesis using vf unfolding vol_files_def by blast
qed

lemma vol_files_add:
  assumes vf: "vol_files st E R ch files" and a: "finds st k = Some a" "fs_objs st a = Some f"
    and f: "disk_file (fs_fat st) E R f cs" "file_bytes R (F_bpb (fs_fat st)) f cs = data"
    and k: "files k = None" "\<forall>j \<in> dom files. set (ch j) \<inter> set cs = {}"
  shows "vol_files st E R (ch(k := cs)) (files(k \<mapsto> data))"
proof -
  have old: "\<exists>a f. finds st j = Some a \<and> fs_objs st a = Some f \<and> disk_file (fs_fat st) E R f (ch j) \<and> file_bytes R (F_bpb (fs_fat st)) f (ch j) = bs"
    if "files j = Some bs" for j bs using vf that by (simp add: vol_files_def)
  have apart: "set (ch j) \<inter> set (ch l) = {}" if "files j \<noteq> None" "files l \<noteq> None" "j \<noteq> l" for j l
    using vf that unfolding vol_files_def by blast
  show ?thesis unfolding vol_files_def
  proof (intro conjI allI ballI impI)
    fix j bs assume "(files(k \<mapsto> data)) j = Some bs"
    then show "\<exists>a f. finds st j = Some a \<and> fs_objs st a = Some f \<and> disk_file (fs_fat st) E R f ((ch(k := cs)) j)
        \<and> file_bytes R (F_bpb (fs_fat st)) f ((ch(k := cs)) j) = bs" using a f old by (auto split: if_splits)
  next
    fix j l assume "j \<in> dom (files(k \<mapsto> data))" "l \<in> dom (files(k \<mapsto> data))" "j \<noteq> l"
    then show "set ((ch(k := cs)) j) \<inter> set ((ch(k := cs)) l) = {}" using k(2) apart [of j l] by (cases "j = k"; cases "l = k") (auto simp: Int_commute)
  qed
qed

lemma vol_files_new:
  assumes vf: "vol_files st E R ch files" and fat: "disk_fat (fs_fat st) E R" "vol_ok (fs_fat st) E R"
    and a: "finds st k = Some a" "fs_objs st a = Some f" and f: "\<not> f_is_dir f" "f_fst_clus f = 0" "f_file_sz f = 0" "f_clus_chain f = None"
    and k: "files k = None"
  shows "vol_files st E R (ch(k := [])) (files(k \<mapsto> []))"
proof -
  have "file_holds (fs_fat st) E R f []" using f by (simp add: file_holds_def isValidCluster_def)
  then have "disk_file (fs_fat st) E R f []" "file_bytes R (F_bpb (fs_fat st)) f [] = []"
    using fat f by (simp_all add: file_ok_split clus_need_def file_bytes_def)
  with vol_files_add [OF vf a _ _ k] show ?thesis by simp
qed

section \<open>The request\<close>

text \<open>The clock and \<open>mktime\<close> give times that can be reported.\<close>

definition clock_ok :: "env \<Rightarrow> timespec \<Rightarrow> bool" where
  "clock_ok en now \<longleftrightarrow> (\<forall>t. mktime en t \<noteq> -1) \<and> 0 \<le> tv_nsec now \<and> tv_nsec now < 10 ^ 9"

lemma dos_times_read:
  assumes "clock_ok en now"
  shows "\<exists>t. dos2UnixTs (mktime en) ts = Some t" and "ts2_tt t2 \<le> 199 \<Longrightarrow> \<exists>t. dos2UnixTs_2 (mktime en) t2 = Some t"
    and "ts2_tt (getCurDosTs2 now) \<le> 199"
proof -
  show t: "\<exists>t. dos2UnixTs (mktime en) ts = Some t" for ts using assms by (simp add: dos2UnixTs_def clock_ok_def ensure_def Let_def)
  show "\<exists>t. dos2UnixTs_2 (mktime en) t2 = Some t" if "ts2_tt t2 \<le> 199"
    using that t [of "ts2_ts t2"] by (auto simp: dos2UnixTs_2_def ensure_def Let_def)
  have c: "0 \<le> tv_nsec now div 10000000" "tv_nsec now div 10000000 < 100"
    using assms zdiv_mono1 [of "tv_nsec now" 999999999 10000000] by (simp_all add: clock_ok_def pos_imp_zdiv_nonneg_iff)
  then have "uint (word_of_int (tv_nsec now div 10000000) :: u8) = tv_nsec now div 10000000"
    "uint (word_of_int (tv_nsec now div 10000000) + 100 :: u8) = tv_nsec now div 10000000 + 100"
    by (simp_all add: uint_word_of_int uint_plus_if' take_bit_int_eq_self)
  then show "ts2_tt (getCurDosTs2 now) \<le> 199" using c by (simp add: getCurDosTs2_def unix2DosTs_2_def Let_def word_le_def)
qed

lemma new_object: "f_is_dir (File_new d p n nm (new_short now w i)) = d" "f_fst_clus (File_new d p n nm (new_short now w i)) = 0"
  "f_file_sz (File_new d p n nm (new_short now w i)) = 0" "f_clus_chain (File_new d p n nm (new_short now w i)) = None"
  "f_crt_time (File_new d p n nm (new_short now w i)) = getCurDosTs2 now"
  by (simp_all add: File_new_def new_short_def mkShortDirEntry_def setFstClusNo_def readEntryClusNo_def)

lemma stat_file:
  assumes wf: "fs_wf st own" and f: "fs_objs st a = Some f" "\<not> f_is_dir f" and t: "clock_ok en now" "ts2_tt (f_crt_time f) \<le> 199"
  shows "\<exists>attr st'. readFileStat disk_ops en a st = Some (attr, st') \<and> st_ino attr = ino f
    \<and> st_size attr = f_file_sz f \<and> fs_wf st' own \<and> fs_fat st' = fs_fat st \<and> fs_objs st' = fs_objs st \<and> finds st' = finds st"
proof -
  have "file_sz disk_ops (fs_fat st) f = Some (f_file_sz f, f, fs_fat st)" by (simp add: file_sz_def f(2))
  from on_file_step [where m = "file_sz disk_ops", OF wf f(1) this refl] obtain st' where
    s: "on_file a (file_sz disk_ops) st = Some (f_file_sz f, st')" "fs_wf st' own" "fs_fat st' = fs_fat st" "fs_objs st' = (fs_objs st)(a := Some f)"
      "finds st' = finds st" by blast
  have o: "fs_objs st' = fs_objs st" using s(4) f by (simp add: map_upd_triv)
  obtain t1 t2 t3 where "dos2UnixTs (mktime en) (accTime f) = Some t1" "dos2UnixTs (mktime en) (wrtTime f) = Some t2"
      "dos2UnixTs_2 (mktime en) (crtTime f) = Some t3"
    using dos_times_read(1,2) [OF t(1)] t(2) by (metis crtTime_def)
  then show ?thesis using s(1,2,3,5) o f by (simp add: readFileStat_def)
qed

text \<open>What a directory, the volume and the cache need for a new name.\<close>

definition can_create :: "lfd cache_mgr FAT32fs \<Rightarrow> (u32 \<Rightarrow> u32) \<Rightarrow> (u32 \<Rightarrow> bytes option) \<Rightarrow> conversions \<Rightarrow> bytes \<Rightarrow> bytes \<Rightarrow> bytes \<Rightarrow>
    fobj \<Rightarrow> u32 list \<Rightarrow> dir_item list \<Rightarrow> bool" where
  "can_create st E R C nm u w g xs items \<longleftrightarrow> new_name C nm u w \<and> plain_name w \<and> xs \<noteq> []
     \<and> (\<exists>b. utf8ToGbk C (toUpper nm) = Some b \<and> find_item u b 0 items = None)
     \<and> dir_room (fs_fat st) E R xs u \<and> cache_room st g (dir_slots R (F_bpb (fs_fat st)) xs)
     \<and> Suc (name_slots u) \<le> 16 * (frees (F_bpb (fs_fat st)) E * spc (F_bpb (fs_fat st)))"

text \<open>A file with the inode number \<open>k\<close>, listed as \<open>x\<close>, is new in the directory and empty; the directory may have grown, by
  free clusters and no more of them than \<open>n\<close> entries can need, and the other files are as they were.\<close>

definition child_added :: "lfd cache_mgr FAT32fs \<Rightarrow> (u32 \<Rightarrow> u32) \<Rightarrow> (u32 \<Rightarrow> bytes option) \<Rightarrow> fobj \<Rightarrow> u32 list \<Rightarrow> dir_item list \<Rightarrow>
    (u64 \<rightharpoonup> bytes) \<Rightarrow> u64 \<Rightarrow> nat \<Rightarrow> u32 \<times> ShortDirEntry \<times> LongDirEntry list \<times> u64 \<Rightarrow> lfd cache_mgr FAT32fs \<Rightarrow> bool" where
  "child_added st E R g xs items files k n x st' \<longleftrightarrow> finds st k = None \<and> (\<exists>c. finds st' = (finds st)(k \<mapsto> c)) \<and> F_bpb (fs_fat st') = F_bpb (fs_fat st)
     \<and> (\<exists>g' E' R' cs items'. dir_on (fs_fat st') E' R' g' (xs @ cs) items' \<and> ino g' = ino g \<and> f_fst_clus g' = f_fst_clus g
        \<and> (\<forall>a. finds st (ino g) = Some a \<longrightarrow> fs_objs st' a = Some g')
        \<and> file_added items items' x \<and> only_clus (F_bpb (fs_fat st)) xs cs E E' R R'
        \<and> 16 * (length cs * spc (F_bpb (fs_fat st))) < n + 16 * spc (F_bpb (fs_fat st))
        \<and> holds_volume st' (files(k \<mapsto> []), frees (F_bpb (fs_fat st)) E'))"

lemma finds_dom: "fst ` set (cached st) = dom (finds st)"
  by (force simp: dom_map_of_conv_image_fst)

lemma finds_card: "fs_wf st own \<Longrightarrow> length (cached st) = card (dom (finds st))"
  unfolding finds_dom [symmetric] using lru.view_distinct [of "cached_lookup_files st"] distinct_card [of "map fst (cached st)"]
  by (simp add: fs_wf_def)

lemma can_create_cong:
  assumes c: "can_create st E R C nm u w g xs items" and wf: "fs_wf st own" "fs_wf st' own'" and f: "finds st' = finds st"
    and d: "fs_fat st' = (fs_fat st)\<lparr>F_device := r\<rparr>" and g: "f_fst_clus g' = f_fst_clus g"
  shows "can_create st' E R C nm u w g' xs items"
proof -
  have "cache_room st g (dir_slots R (F_bpb (fs_fat st)) xs)" using c by (simp add: can_create_def)
  then have "cache_room st' g' (dir_slots R (F_bpb (fs_fat st)) xs)"
    using finds_card [OF wf(1)] finds_card [OF wf(2)] f g unfolding cache_room_def finds_dom by (simp add: entry_ino_def)
  then show ?thesis using c d by (simp add: can_create_def dir_room_def)
qed

text \<open>The directory is opened and the name is not there.\<close>

definition looked_for :: "lfd cache_mgr FAT32fs \<Rightarrow> (u32 \<Rightarrow> u32) \<Rightarrow> (u32 \<Rightarrow> bytes option) \<Rightarrow> fobj \<Rightarrow> u32 list \<Rightarrow> dir_item list \<Rightarrow>
    nat \<Rightarrow> fobj \<Rightarrow> lfd cache_mgr FAT32fs \<Rightarrow> bool" where
  "looked_for st E R g xs items p g' st' \<longleftrightarrow> fs_wf st' {#p#} \<and> opened_at st p g \<and> dir_at st' p E R g' xs items \<and> same_obj g g'
     \<and> fs_objs st' = (fs_objs st)(p := Some g') \<and> finds st' = finds st \<and> (\<exists>r. fs_fat st' = (fs_fat st)\<lparr>F_device := r\<rparr>)"

lemma open_and_miss:
  assumes wf: "fs_wf st {#}" and o: "opens st parent g" and on: "dir_on (fs_fat st) E R g xs items"
    and c: "can_create st E R (conv en) nm u w g xs items"
  shows "\<exists>p st1 st2 g'. getExistDir disk_ops en parent st = Some (p, st1) \<and> lookupFile disk_ops (conv en) now p nm st1 = Some (None, st2)
    \<and> looked_for st E R g xs items p g' st2"
proof -
  obtain b where conv: "utf8ToUtf16 (conv en) nm = Some u" "utf8ToGbk (conv en) (toUpper nm) = Some b" "find_item u b 0 items = None"
    using c by (auto simp: can_create_def new_name_def)
  have "f_is_dir g" using on by (simp add: dir_on_def dir_ok_def)
  from open_dir [OF wf o this, of en] obtain p st1 where s1: "getExistDir disk_ops en parent st = Some (p, st1)" "fs_wf st1 {#p#}"
      "fs_fat st1 = fs_fat st" "fs_objs st1 = (fs_objs st)(p := Some g)" "finds st1 = finds st" "opened_at st p g" by blast
  have "dir_at st1 p E R g xs items" using on s1(3,4) by (simp add: dir_at_on)
  from lookupFile_missing [OF s1(2) this conv, of now] obtain st2 g' r where
    s2: "lookupFile disk_ops (conv en) now p nm st1 = Some (None, st2)" "fs_wf st2 {#p#}" "dir_at st2 p E R g' xs items" "same_obj g g'"
      "fs_objs st2 = (fs_objs st1)(p := Some g')" "finds st2 = finds st1" "fs_fat st2 = (fs_fat st1)\<lparr>F_device := r\<rparr>" by blast
  have "fs_objs st2 = (fs_objs st)(p := Some g')" using s2(5) s1(4) by simp
  then show ?thesis using s1(1,3,5,6) s2 unfolding looked_for_def by metis
qed

text \<open>The entries and the object.\<close>

lemma crt_at:
  assumes wf: "fs_wf st own" and p: "dir_at st p E R g xs items" and c: "can_create st E R C nm u w g xs items"
  shows "\<exists>a c st1 g1 E1 R1 cs items1. let k = entry_ino g (of_nat a) in crtFileInner disk_ops C now p nm is_dir st = Some (Some c, st1)
    \<and> fs_wf st1 (add_mset c own) \<and> dir_at st1 p E1 R1 g1 (xs @ cs) items1 \<and> ino g1 = ino g \<and> f_fst_clus g1 = f_fst_clus g
    \<and> fs_objs st1 = (fs_objs st)(p := Some g1, c := Some (File_new is_dir (f_fst_clus g) (of_nat a) nm (new_short now w is_dir)))
    \<and> fs_objs st c = None \<and> finds st k = None \<and> finds st1 = (finds st)(k \<mapsto> c)
    \<and> only_clus (F_bpb (fs_fat st)) xs cs E E1 R R1 \<and> file_added items items1 (new_file now u w is_dir a)
    \<and> vol_ok (fs_fat st1) E1 R1 \<and> F_bpb (fs_fat st1) = F_bpb (fs_fat st)
    \<and> 16 * (length cs * spc (F_bpb (fs_fat st))) < Suc (name_slots u) + 16 * spc (F_bpb (fs_fat st))
    \<and> (free_tail (dir_slots R (F_bpb (fs_fat st)) xs) (Suc (name_slots u)) \<longrightarrow> cs = [])"
proof -
  have h: "new_name C nm u w" "plain_name w" "xs \<noteq> []" "dir_room (fs_fat st) E R xs u" "cache_room st g (dir_slots R (F_bpb (fs_fat st)) xs)"
    "Suc (name_slots u) \<le> 16 * (frees (F_bpb (fs_fat st)) E * spc (F_bpb (fs_fat st)))" using c by (auto simp: can_create_def)
  have d: "fs_objs st p = Some g" "disk_dir (fs_fat st) E R g xs" "dir_items (dir_slots R (F_bpb (fs_fat st)) xs) items"
    using p by (simp_all add: dir_at_def)
  let ?c = "fs_next st"
  obtain a st1 g1 E1 R1 cs items1 where
    s1: "crtFileInner disk_ops C now p nm is_dir st = Some (Some ?c, st1)" "fs_objs st1 p = Some g1"
      "fs_objs st1 ?c = Some (File_new is_dir (f_fst_clus g1) (of_nat a) nm (new_short now w is_dir))"
      "fs_wf st1 (add_mset ?c own)" "finds st1 = (finds st)(entry_ino g (of_nat a) \<mapsto> ?c)"
      "\<forall>b. b \<notin> {p, ?c} \<longrightarrow> fs_objs st1 b = fs_objs st b" "finds st (entry_ino g (of_nat a)) = None"
      "disk_dir_more (fs_fat st) E R g xs cs (fs_fat st1) E1 R1 g1" "dir_items (dir_slots R1 (F_bpb (fs_fat st)) (xs @ cs)) items1"
      "file_added items items1 (new_file now u w is_dir a)" "vol_ok (fs_fat st1) E1 R1"
      "16 * (length cs * spc (F_bpb (fs_fat st))) < Suc (name_slots u) + 16 * spc (F_bpb (fs_fat st))"
      "free_tail (dir_slots R (F_bpb (fs_fat st)) xs) (Suc (name_slots u)) \<longrightarrow> cs = []"
    using crtFileInner_ok [OF wf d(1,2) h(3) d(3) h(1,2,4-6), of now is_dir] by blast
  have m: "disk_dir (fs_fat st1) E1 R1 g1 (xs @ cs)" "F_bpb (fs_fat st1) = F_bpb (fs_fat st)" "ino g1 = ino g" "only_clus (F_bpb (fs_fat st)) xs cs E E1 R R1"
    using s1(8) by (simp_all add: dir_more_def)
  have "f_fst_clus g1 = hd (xs @ cs)" "f_fst_clus g = hd xs"
    using fst_clus_hd [of _ _ _ g1 "xs @ cs"] fst_clus_hd [of _ _ _ g xs] m(1) d(2) h(3) by (auto simp: dir_ok_def)
  then have c1: "f_fst_clus g1 = f_fst_clus g" using h(3) by simp
  have "fs_objs st1 = (fs_objs st)(p := Some g1, ?c := Some (File_new is_dir (f_fst_clus g) (of_nat a) nm (new_short now w is_dir)))"
    using s1(2,3,6) c1 by (auto simp: fun_eq_iff)
  moreover have "dir_at st1 p E1 R1 g1 (xs @ cs) items1" using s1(2,9) m(1,2) by (simp add: dir_at_def)
  ultimately show ?thesis using s1(1,4,5,7,10-13) m(2-4) c1 next_is_free [OF wf] unfolding Let_def
    by - (rule exI [of _ a], rule exI [of _ ?c], rule exI [of _ st1], rule exI [of _ g1], rule exI [of _ E1], rule exI [of _ R1],
        rule exI [of _ cs], rule exI [of _ items1], simp)
qed

text \<open>Then the attributes, and the pointers given back.\<close>

lemma create_at:
  assumes wf0: "fs_wf st {#}" and l: "looked_for st E R g xs items p g0 st0" and c: "can_create st E R C nm u w g xs items"
    and t: "clock_ok en now"
  shows "\<exists>a c attr st1 st2 st3. let k = entry_ino g (of_nat a); f = File_new False (f_fst_clus g) (of_nat a) nm (new_short now w False) in
    crtFile disk_ops C now p nm st0 = Some (Some c, st1) \<and> readFileStat disk_ops en c st1 = Some (attr, st2)
    \<and> fs_objs st2 c = Some f \<and> unshare_all disk_ops [c, p] st2 = Some st3 \<and> st_size attr = 0 \<and> st_ino attr = k
    \<and> fs_wf st3 {#} \<and> finds st k = None \<and> finds st3 = (finds st)(k \<mapsto> c) \<and> fs_objs st3 c = Some f
    \<and> (\<forall>b f. fs_objs st b = Some f \<longrightarrow> ino f \<noteq> ino g \<longrightarrow> fs_objs st3 b = Some f)
    \<and> (\<exists>g' E' R' cs items'. dir_on (fs_fat st3) E' R' g' (xs @ cs) items' \<and> ino g' = ino g \<and> f_fst_clus g' = f_fst_clus g
        \<and> (\<forall>b. finds st (ino g) = Some b \<longrightarrow> fs_objs st3 b = Some g') \<and> file_added items items' (new_file now u w False a)
        \<and> only_clus (F_bpb (fs_fat st)) xs cs E E' R R' \<and> vol_ok (fs_fat st3) E' R' \<and> F_bpb (fs_fat st3) = F_bpb (fs_fat st)
        \<and> 16 * (length cs * spc (F_bpb (fs_fat st))) < Suc (name_slots u) + 16 * spc (F_bpb (fs_fat st)))"
proof -
  obtain r where s0: "fs_wf st0 {#p#}" "opened_at st p g" "dir_at st0 p E R g0 xs items" "same_obj g g0"
      "fs_objs st0 = (fs_objs st)(p := Some g0)" "finds st0 = finds st" "fs_fat st0 = (fs_fat st)\<lparr>F_device := r\<rparr>"
    using l by (auto simp: looked_for_def)
  note o = s0(2) and g0 = same_objD(1,3) [OF s0(4)]
  have i0: "entry_ino g0 n = entry_ino g n" for n using g0(1) by (simp add: entry_ino_def)
  have b0: "F_bpb (fs_fat st0) = F_bpb (fs_fat st)" by (simp add: s0(7))
  obtain a c st1 g1 E1 R1 cs items1 where
    s1: "crtFileInner disk_ops C now p nm False st0 = Some (Some c, st1)" "fs_wf st1 {#c, p#}" "dir_at st1 p E1 R1 g1 (xs @ cs) items1"
      "ino g1 = ino g" "f_fst_clus g1 = f_fst_clus g" "finds st (entry_ino g (of_nat a)) = None" "finds st1 = (finds st)(entry_ino g (of_nat a) \<mapsto> c)"
      "fs_objs st1 = (fs_objs st0)(p := Some g1, c := Some (File_new False (f_fst_clus g) (of_nat a) nm (new_short now w False)))" "fs_objs st0 c = None"
    and d1: "only_clus (F_bpb (fs_fat st)) xs cs E E1 R R1" "file_added items items1 (new_file now u w False a)" "vol_ok (fs_fat st1) E1 R1"
      "F_bpb (fs_fat st1) = F_bpb (fs_fat st)" "16 * (length cs * spc (F_bpb (fs_fat st))) < Suc (name_slots u) + 16 * spc (F_bpb (fs_fat st))"
    using crt_at [OF s0(1,3) can_create_cong [OF c wf0 s0(1,6,7) g0(1)], of now False] unfolding Let_def i0 g0 s0(6) b0 by blast
  have cp: "c \<noteq> p" using s1(9) s0(5) by auto
  have f1: "fs_objs st1 c = Some (File_new False (f_fst_clus g) (of_nat a) nm (new_short now w False))" by (simp add: s1(8))
  have others: "fs_objs st1 b = Some f" if "fs_objs st b = Some f" "ino f \<noteq> ino g" for b f
    using opened_other [OF o that] that(1) s1(8,9) s0(5) by auto
  let ?k = "entry_ino g (of_nat a)"
  have "\<not> f_is_dir (File_new False (f_fst_clus g) (of_nat a) nm (new_short now w False))"
    "ts2_tt (f_crt_time (File_new False (f_fst_clus g) (of_nat a) nm (new_short now w False))) \<le> 199"
    using dos_times_read(3) [OF t] by (simp_all add: new_object)
  from stat_file [OF s1(2) f1 this(1) t this(2)] obtain attr st2 where s2: "readFileStat disk_ops en c st1 = Some (attr, st2)" "st_ino attr = ?k" "st_size attr = 0"
      "fs_wf st2 {#c, p#}" "fs_fat st2 = fs_fat st1" "fs_objs st2 = fs_objs st1" "finds st2 = finds st1"
    unfolding ino_File_new new_object by blast
  have f2: "finds st2 = (finds st)(?k \<mapsto> c)" using s2(7) s1(7) by simp
  then have "c \<in># {#p#} \<or> (\<exists>k. finds st2 k = Some c)" by (intro disjI2 exI [of _ ?k]) simp
  from unshare_kept [OF s2(4) this, of disk_ops] obtain st3 where s3: "unshare disk_ops c st2 = Some st3" "fs_wf st3 {#p#}"
      "fs_fat st3 = fs_fat st1" "fs_objs st3 = fs_objs st1" "finds st3 = (finds st)(?k \<mapsto> c)"
    unfolding f2 s2(5,6) by blast
  have "dir_at st3 p E1 R1 g1 (xs @ cs) items1" using s1(3) s3(3,4) by (simp add: dir_at_def)
  moreover have "finds st3 (ino g) = Some p" if "finds st (ino g) = Some p" using that s1(6) s3(5) by auto
  ultimately obtain st4 d where s4: "unshare disk_ops p st3 = Some st4" "fs_wf st4 {#}" "dir_on (fs_fat st4) E1 R1 g1 (xs @ cs) items1"
      "fs_fat st4 = (fs_fat st3)\<lparr>F_device := d\<rparr>" "finds st4 = finds st3" "\<forall>a. finds st (ino g) = Some a \<longrightarrow> fs_objs st4 a = Some g1"
      "\<forall>a. a \<noteq> p \<longrightarrow> fs_objs st4 a = fs_objs st3 a"
    using close_opened [OF s3(2) o _ s1(4)] by blast
  have "\<forall>b f. fs_objs st b = Some f \<longrightarrow> ino f \<noteq> ino g \<longrightarrow> fs_objs st4 b = Some f" using others s4(7) s3(4) opened_other [OF o] by simp
  moreover have "F_bpb (fs_fat st4) = F_bpb (fs_fat st)" "vol_ok (fs_fat st4) E1 R1" using s4(4) s3(3) d1(3,4) by simp_all
  moreover have "fs_objs st4 c = fs_objs st1 c" using s4(7) cp s3(4) by simp
  moreover have "crtFile disk_ops C now p nm st0 = Some (Some c, st1)" "unshare_all disk_ops [c, p] st2 = Some st4"
    using s1(1) s3(1) s4(1) by (simp_all add: crtFile_def)
  ultimately show ?thesis using s2(1-3,6) s1(4-6) f1 s4(2,3,5,6) s3(5) d1(1,2,5) unfolding Let_def
    by (intro exI conjI; (assumption | blast | simp))
qed

text \<open>An open directory is none of the files.\<close>

lemma opens_no_file:
  assumes wf: "fs_wf st own" and o: "opens st n g" "f_is_dir g" and vf: "vol_files st E R ch files"
  shows "ino g \<notin> dom files"
proof
  assume "ino g \<in> dom files"
  then obtain a f where f: "finds st (ino g) = Some a" "fs_objs st a = Some f" "\<not> f_is_dir f"
    using vf unfolding vol_files_def by (metis domD file_okD(8))
  from open_dir [OF wf o] obtain p where "opened_at st p g" by blast
  then show False using f o(2) by (auto simp: opened_at_def)
qed

lemma create_ok:
  assumes wf: "fs_wf st {#}" and o: "opens st parent g" and on: "dir_on (fs_fat st) E R g xs items"
    and c: "can_create st E R (conv en) nm u w g xs items" and ok: "isValidName nm" "\<not> isIllegalFat32FileType mode" "clock_ok en now"
    and vf: "vol_files st E R ch files" and dis: "\<forall>k \<in> dom files. set xs \<inter> set (ch k) = {}"
  shows "\<exists>a attr st'. fat32_create disk_ops en now parent nm mode st = Some (Reply_create attr (entry_ino g (of_nat a)), st')
    \<and> st_size attr = 0 \<and> st_ino attr = entry_ino g (of_nat a)
    \<and> child_added st E R g xs items files (entry_ino g (of_nat a)) (Suc (name_slots u)) (new_file now u w False a) st'"
proof -
  obtain p st1 st2 g0 where s: "getExistDir disk_ops en parent st = Some (p, st1)" "lookupFile disk_ops (conv en) now p nm st1 = Some (None, st2)"
      "looked_for st E R g xs items p g0 st2"
    using open_and_miss [OF wf o on c, of now] by blast
  obtain a b attr st3 st4 st5 g' E' R' cs items' where
    r: "crtFile disk_ops (conv en) now p nm st2 = Some (Some b, st3)" "readFileStat disk_ops en b st3 = Some (attr, st4)"
      "fs_objs st4 b = Some (File_new False (f_fst_clus g) (of_nat a) nm (new_short now w False))" "unshare_all disk_ops [b, p] st4 = Some st5"
      "st_size attr = 0" "st_ino attr = entry_ino g (of_nat a)" "fs_wf st5 {#}" "finds st (entry_ino g (of_nat a)) = None"
      "finds st5 = (finds st)(entry_ino g (of_nat a) \<mapsto> b)" "fs_objs st5 b = Some (File_new False (f_fst_clus g) (of_nat a) nm (new_short now w False))"
      "\<forall>b f. fs_objs st b = Some f \<longrightarrow> ino f \<noteq> ino g \<longrightarrow> fs_objs st5 b = Some f"
    and d: "dir_on (fs_fat st5) E' R' g' (xs @ cs) items'" "ino g' = ino g" "f_fst_clus g' = f_fst_clus g"
      "\<forall>b. finds st (ino g) = Some b \<longrightarrow> fs_objs st5 b = Some g'" "file_added items items' (new_file now u w False a)"
      "only_clus (F_bpb (fs_fat st)) xs cs E E' R R'" "vol_ok (fs_fat st5) E' R'" "F_bpb (fs_fat st5) = F_bpb (fs_fat st)"
      "16 * (length cs * spc (F_bpb (fs_fat st))) < Suc (name_slots u) + 16 * spc (F_bpb (fs_fat st))"
    using create_at [OF wf s(3) c ok(3)] unfolding Let_def by blast
  let ?k = "entry_ino g (of_nat a)"
  have h: "disk_fat (fs_fat st5) E' R'" "file_holds (fs_fat st5) E' R' g' (xs @ cs)" using d(1) by (simp_all add: dir_on_def dir_ok_def)
  have objs: "\<forall>k \<in> dom files. finds st5 k = finds st k \<and> (\<forall>a. finds st k = Some a \<longrightarrow> fs_objs st5 a = fs_objs st a)"
  proof
    fix k assume k: "k \<in> dom files"
    then obtain a f where f: "finds st k = Some a" "fs_objs st a = Some f" using vf unfolding vol_files_def by (metis domD)
    have "ino f = k" using finds_object [OF wf f(1)] f(2) by auto
    moreover have "f_is_dir g" using on by (simp add: dir_on_def dir_ok_def)
    ultimately have "ino f \<noteq> ino g" using opens_no_file [OF wf o _ vf] k by auto
    then show "finds st5 k = finds st k \<and> (\<forall>a. finds st k = Some a \<longrightarrow> fs_objs st5 a = fs_objs st a)" using r(8,9,11) f(1,2) by auto
  qed
  have vf5: "vol_files st5 E' R' ch files" by (rule vol_files_kept [OF vf h(1) d(7,8) h(2) d(6) dis objs])
  have "files ?k = None" using vf r(8) unfolding vol_files_def by (metis not_None_eq option.distinct(1))
  with vol_files_new [OF vf5 h(1) d(7) _ r(10)] r(9) have "vol_files st5 E' R' (ch(?k := [])) (files(?k \<mapsto> []))" by (simp add: new_object)
  then have "holds_volume st5 (files(?k \<mapsto> []), frees (F_bpb (fs_fat st)) E')" by (rule holds_volumeI [OF r(7) h(1) d(7)]) (simp add: d(8))
  then have "child_added st E R g xs items files ?k (Suc (name_slots u)) (new_file now u w False a) st5" unfolding child_added_def using r(8,9) d(1-6,8,9) by blast
  moreover have "fat32_create disk_ops en now parent nm mode st = Some (Reply_create attr ?k, st5)"
    using ok(1,2) s(1,2) r(1-4) by (simp add: fat32_create_def ino_File_new del: unshare_all.simps)
  ultimately show ?thesis using r(5,6) by blast
qed

section \<open>Property\<close>

text \<open>C15: A \<open>create\<close> request with a valid new name and a mode that FAT32 has is answered with the attributes of an empty file
  and its inode number, under which the file is from now on in the cache and in the listing of the directory, the root or a
  cached one, where every other file stays; the directory takes free clusters for its entries only as they are needed.
  The other files keep their contents, and the volume holds the new file as an empty one, ready for the requests
  that follow: reads and writes of all of them are answered as by the abstract volume.\<close>

theorem create_request_adds_an_empty_file:
  assumes "fs_wf st {#}" and "opens st parent g" and "dir_on (fs_fat st) E R g xs items"
    and "can_create st E R (conv en) nm u w g xs items" and "isValidName nm" and "\<not> isIllegalFat32FileType mode" and "clock_ok en now"
    and "vol_files st E R ch files" and "\<forall>k \<in> dom files. set xs \<inter> set (ch k) = {}"
  shows "\<exists>a attr st'. serve disk_ops en now (Create_req parent nm mode) st = Some (Reply_create attr (entry_ino g (of_nat a)), st')
    \<and> st_size attr = 0 \<and> st_ino attr = entry_ino g (of_nat a)
    \<and> child_added st E R g xs items files (entry_ino g (of_nat a)) (Suc (name_slots u)) (new_file now u w False a) st'"
  unfolding serve.simps by (rule create_ok [OF assms])

theorem create_request_adds_an_empty_file_witness:
  "\<exists>attr k st'. serve_all disk_ops demo_env [(demo_now, Create_req 1 [0x61, 0] 0x81A4), (demo_now, Write_req k [7, 8, 9] 3 0),
      (demo_now, Read_req k 9 1)] (FAT32fs_new demo_FAT) = Some ([Reply_create attr k, Reply_write 3, Reply_buf [8, 9]], st')"
proof -
  let ?st = "FAT32fs_new demo_FAT" and ?g = "mkRootDir 2"
  have c: "cached ?st = []" "fs_fat ?st = demo_FAT" by (simp_all add: FAT32fs_new_def lru_new_view)
  have o: "opens ?st 1 ?g" by (rule opens_root) (simp_all add: node_ino_def KRootDirIno_def c demo_count)
  have on: "dir_on (fs_fat ?st) demo_E demo_R ?g [2] []" using demo_root_ok(1) demo_root_empty by (simp add: dir_on_def c)
  have n: "new_name (conv demo_env) [0x61, 0] [0x61, 0] [0x41, 0]" "plain_name [0x41, 0]" "name_slots [0x61, 0] = 1" by code_simp+
  have "length [0x61, 0 :: u8] \<le> 510" by simp
  note room = demo_root_room [OF this]
  have "16 * (frees (F_bpb demo_FAT) demo_E * spc (F_bpb demo_FAT)) = 8000"
    by (simp only: demo_count demo_free_ok) (simp add: demo_BPB_def)
  then have cc: "can_create ?st demo_E demo_R (conv demo_env) [0x61, 0] [0x61, 0] [0x41, 0] ?g [2] []"
    using n room demo_names by (simp add: can_create_def cache_room_def c)
  have ok: "isValidName [0x61, 0]" "\<not> isIllegalFat32FileType 0x81A4" by code_simp+
  have clk: "clock_ok demo_env demo_now" by (simp add: clock_ok_def demo_env_def demo_now_def)
  have vf: "vol_files ?st demo_E demo_R (\<lambda>_. []) Map.empty" by (simp add: vol_files_def)
  obtain a attr st1 where r: "serve disk_ops demo_env demo_now (Create_req 1 [0x61, 0] 0x81A4) ?st = Some (Reply_create attr (entry_ino ?g (of_nat a)), st1)"
      "child_added ?st demo_E demo_R ?g [2] [] Map.empty (entry_ino ?g (of_nat a)) (Suc (name_slots [0x61, 0])) (new_file demo_now [0x61, 0] [0x41, 0] False a) st1"
    using create_request_adds_an_empty_file [OF new_wf o on cc ok clk vf] by auto
  let ?k = "entry_ino ?g (of_nat a)"
  obtain E' R' cs where d: "only_clus (F_bpb demo_FAT) [2] cs demo_E E' demo_R R'" "16 * (length cs * spc (F_bpb demo_FAT)) < 2 + 16 * spc (F_bpb demo_FAT)"
      "holds_volume st1 ([?k \<mapsto> []], frees (F_bpb demo_FAT) E')" "F_bpb (fs_fat st1) = demo_BPB"
    using r(2) unfolding child_added_def by (auto simp: n(3) c(2) demo_count(2))
  have h: "disk_fat demo_FAT demo_E demo_R" "file_holds demo_FAT demo_E demo_R ?g [2]" using demo_root_ok(1) by (simp_all add: dir_ok_def)
  have "length cs < 2" using d(2) by (simp add: demo_count(2) demo_BPB_def)
  with frees_left [OF h d(1)] have free: "249 \<le> frees (F_bpb demo_FAT) E'" by (simp add: demo_count demo_free_ok)
  have "?k \<noteq> 1" using entry_ino_parts(1) [of "File_new False 0 1 [] (decode_short [])" ?g "of_nat a"]
    by (auto simp: ino_def File_new_def root_obj)
  then have k: "node_ino ?k = ?k" by (simp add: node_ino_def)
  let ?reqs = "[(demo_now, Write_req ?k [7, 8, 9] 3 0), (demo_now, Read_req ?k 9 1)]"
  have "\<forall>q \<in> set ?reqs. on_files (dom (fst ([?k \<mapsto> []], frees (F_bpb demo_FAT) E'))) (snd q)" by (simp add: k)
  from serve_all_steps [OF d(3) this, of demo_env] obtain replies st' v' where
    s: "serve_all disk_ops demo_env ?reqs st1 = Some (replies, st')"
      "vol_run demo_BPB ([?k \<mapsto> []], frees (F_bpb demo_FAT) E') [Write_req ?k [7, 8, 9] 3 0, Read_req ?k 9 1] replies v'"
    by (auto simp: d(4))
  have "clusters_missing demo_BPB [] (Suc (Suc (Suc 0))) \<le> 249" by (simp add: clusters_missing_def demo_need)
  then have "replies = [Reply_write 3, Reply_buf [8, 9]]" using s(2) free
    by (auto elim!: vol_run_ConsE vol_run_NilE vol_readE vol_writeE spec_writeE simp: k overwrite_def)
  with s(1) have "serve_all disk_ops demo_env ((demo_now, Create_req 1 [0x61, 0] 0x81A4) # ?reqs) ?st
      = Some ([Reply_create attr ?k, Reply_write 3, Reply_buf [8, 9]], st')"
    by (subst serve_all.simps(2)) (simp add: r(1) del: serve.simps serve_all.simps)
  then show ?thesis by blast
qed

end
