(* ===== verification/Move.thy ===== *)
theory Move
  imports Create
begin

text \<open>
  \<open>fat32_rename\<close> to a new name in the same directory, through all the layers: the entries of the new name are made,
  the metadata of the file goes there, the old entries and the old object go, and the file has a new inode number.
\<close>

section \<open>Files of a listing by their first slots\<close>







section \<open>Two pointers to one directory\<close>







section \<open>The names\<close>



section \<open>On the disk\<close>





section \<open>The objects\<close>








section \<open>The request\<close>






section \<open>Property\<close>




end
