(* ===== verification/Lookup.thy ===== *)
theory Lookup
  imports Create
begin

text \<open>
  \<open>fat32_lookup\<close> of a file that is on the disk only: its object is made from its entries, goes into the cache and is from
  then on one of the files that requests work on.
\<close>

section \<open>An object made from the disk\<close>



section \<open>The request\<close>




section \<open>Property\<close>




end
