(* ===== verification/Unmount.thy ===== *)
theory Unmount
  imports Unlink
begin

text \<open>
  The end of a session: \<open>FAT32fs::flush\<close> destroys the objects in the cache, whose destructors store their metadata in the
  directories they lie in, and has the sectors that are cached written to the image file.
\<close>

section \<open>Where the objects lie\<close>

text \<open>The entries of an object: a directory with its chain, and the slots of the first and of the short entry.\<close>

record home =
  in_dir :: fobj
  in_chain :: "u32 list"
  fst_slot :: nat
  short_slot :: nat

definition at_home :: "lfd cache_mgr FAT \<Rightarrow> (u32 \<Rightarrow> u32) \<Rightarrow> (u32 \<Rightarrow> bytes option) \<Rightarrow> fobj \<Rightarrow> home \<Rightarrow> bool" where
  "at_home F E R f h \<longleftrightarrow> \<not> f_is_deleted f \<and> ino f \<noteq> KRootDirIno \<and> (\<exists>ys. file_holds F E R f ys)
     \<and> disk_dir F E R (in_dir h) (in_chain h) \<and> lies_at f (in_dir h) (F_bpb F) (fst_slot h)
     \<and> (let S = dir_slots R (F_bpb F) (in_chain h) in fst_slot h \<le> short_slot h \<and> short_slot h < length S
         \<and> item_ok (Present (take (short_slot h - fst_slot h) (drop (fst_slot h) S)) (S ! short_slot h)))"

text \<open>Directories that share no cluster.\<close>

definition apart :: "u32 list set \<Rightarrow> bool" where
  "apart dirs \<longleftrightarrow> (\<forall>xs \<in> dirs. \<forall>ys \<in> dirs. xs \<noteq> ys \<longrightarrow> set xs \<inter> set ys = {})"

lemma update_elsewhere:
  assumes "\<forall>l \<in> set (take (m - n) (drop n S)). P l" and "n \<le> m" and "m < length S" and "\<not> P (S ! i)" and "i \<noteq> m"
  shows "take (m - n) (drop n (S[i := x])) = take (m - n) (drop n S)" and "S[i := x] ! m = S ! m"
proof -
  have "i < n \<or> m \<le> i"
  proof (rule ccontr)
    assume "\<not> (i < n \<or> m \<le> i)"
    then have "n \<le> i" "i < m" by simp_all
    then have "i - n < m - n" "n + (i - n) = i" by (simp_all add: diff_less_mono)
    then have "S ! i \<in> set (take (m - n) (drop n S))" using assms(3) by (intro in_set_conv_nth [THEN iffD2] exI [of _ "i - n"]) simp
    then show False using assms(1,4) by blast
  qed
  then show "take (m - n) (drop n (S[i := x])) = take (m - n) (drop n S)"
    using assms(2) by (auto simp: drop_update_swap)
  show "S[i := x] ! m = S ! m" using assms(5) by simp
qed

lemma slots_apart:
  assumes "disk_fat F E R" and "disk_dir F E R g xs" and "disk_dir F E R g' ys" and "set xs \<inter> set ys = {}"
    and "only_secs (set (file_secs (F_bpb F) xs)) R R'"
  shows "dir_slots R' (F_bpb F) ys = dir_slots R (F_bpb F) ys"
proof -
  have "only_clus (F_bpb F) xs [] E E R R'" using assms(5) by (simp add: only_clus_def)
  then have "file_content R' (F_bpb F) ys = file_content R (F_bpb F) ys"
    using assms(1-4) by (intro file_kept(2) [where E' = E and F' = F]) (auto simp: dir_ok_def)
  then show ?thesis by (simp add: dir_slots_def)
qed

section \<open>One object\<close>

lemma destroy_at_home:
  assumes "at_home F E R f h"
    and S: "dir_slots R (F_bpb F) (in_chain h) = S"
  shows "\<exists>d R'. File_destroy disk_ops F f = Some (F\<lparr>F_device := d\<rparr>) \<and> disk_fat (F\<lparr>F_device := d\<rparr>) E R'
    \<and> only_secs (set (file_secs (F_bpb F) (in_chain h))) R R'
    \<and> dir_slots R' (F_bpb F) (in_chain h) = S[short_slot h := synced f False (S ! short_slot h)]"
proof -
  let ?n = "fst_slot h" and ?m = "short_slot h"
  obtain ys where f: "file_holds F E R f ys" "\<not> f_is_deleted f" "ino f \<noteq> KRootDirIno" using assms(1) by (auto simp: at_home_def)
  have h: "disk_dir F E R (in_dir h) (in_chain h)" "lies_at f (in_dir h) (F_bpb F) ?n" "?n \<le> ?m" "?m < length S"
      "item_ok (Present (take (?m - ?n) (drop ?n S)) (S ! ?m))"
    using assms(1) by (auto simp: at_home_def Let_def S)
  have "drop ?n S = take (?m - ?n) (drop ?n S) @ drop ?m S" using h(3) by (metis append_take_drop_id drop_drop le_add_diff_inverse2)
  also have "drop ?m S = S ! ?m # drop (Suc ?m) S" using h(4) by (simp add: Cons_nth_drop_Suc)
  finally have d: "drop ?n S = take (?m - ?n) (drop ?n S) @ S ! ?m # drop (Suc ?m) S" .
  have l: "?n + length (take (?m - ?n) (drop ?n S)) = ?m" using h(3,4) by simp
  from lfd.cached.File_sync_ok [OF h(1) S d h(5,2) f, of False, unfolded l] show ?thesis
    by (auto simp: File_destroy_def dir_ok_def)
qed

lemma home_kept:
  assumes a: "at_home F E R f h" and b: "at_home F E R f' h'" and ne: "(in_chain h', short_slot h') \<noteq> (in_chain h, short_slot h)"
    and ap: "in_chain h = in_chain h' \<or> set (in_chain h) \<inter> set (in_chain h') = {}"
    and fat: "disk_fat (F\<lparr>F_device := d\<rparr>) E R'" and only: "only_secs (set (file_secs (F_bpb F) (in_chain h))) R R'"
    and S: "dir_slots R' (F_bpb F) (in_chain h) = (dir_slots R (F_bpb F) (in_chain h))[short_slot h := e]"
  shows "at_home (F\<lparr>F_device := d\<rparr>) E R' f' h'"
proof -
  let ?S = "dir_slots R (F_bpb F) (in_chain h')" and ?n = "fst_slot h'" and ?m = "short_slot h'"
  have da: "disk_fat F E R" "disk_dir F E R (in_dir h) (in_chain h)" "disk_dir F E R (in_dir h') (in_chain h')" using a b by (auto simp: at_home_def dir_ok_def)
  have i: "item_ok (Present (take (?m - ?n) (drop ?n ?S)) (?S ! ?m))" "?n \<le> ?m" "?m < length ?S" using b by (simp_all add: at_home_def Let_def)
  have long: "\<forall>l \<in> set (take (?m - ?n) (drop ?n ?S)). isLongDirEntry l" using i(1) by auto
  have short: "\<not> isLongDirEntry (dir_slots R (F_bpb F) (in_chain h) ! short_slot h)" using a by (auto simp: at_home_def Let_def)
  have "length (dir_slots R' (F_bpb F) (in_chain h')) = length ?S
      \<and> take (?m - ?n) (drop ?n (dir_slots R' (F_bpb F) (in_chain h'))) = take (?m - ?n) (drop ?n ?S)
      \<and> dir_slots R' (F_bpb F) (in_chain h') ! ?m = ?S ! ?m"
  proof (cases "in_chain h' = in_chain h")
    case True
    then have "short_slot h \<noteq> ?m" using ne by auto
    from update_elsewhere [OF long i(2,3) _ this, of e] short S True show ?thesis by simp
  next
    case False
    then have "set (in_chain h) \<inter> set (in_chain h') = {}" using ap by auto
    from slots_apart [OF da this only] show ?thesis by simp
  qed
  moreover obtain ys where "file_holds F E R f' ys" using b by (auto simp: at_home_def)
  then have "file_holds (F\<lparr>F_device := d\<rparr>) E R' f' ys" using file_holds_only_secs [OF _ only] by simp
  moreover have "disk_dir (F\<lparr>F_device := d\<rparr>) E R' (in_dir h') (in_chain h')"
    using da(3) fat file_holds_only_secs [OF _ only, of F E "in_dir h'"] by (simp add: dir_ok_def)
  ultimately show ?thesis using b by (auto simp: at_home_def Let_def)
qed

section \<open>All of them\<close>

text \<open>The short entries of the objects \<open>A\<close> hold their metadata, and nothing else has changed in the directories or outside them.
  (In a destructor the size is stored for directories too.)\<close>

definition stored :: "BPB \<Rightarrow> (nat \<Rightarrow> fobj option) \<Rightarrow> (nat \<Rightarrow> home) \<Rightarrow> nat set \<Rightarrow> u32 list set \<Rightarrow> (u32 \<Rightarrow> bytes option) \<Rightarrow>
    (u32 \<Rightarrow> bytes option) \<Rightarrow> bool" where
  "stored bpb objs home A dirs R R' \<longleftrightarrow> only_secs (\<Union>xs \<in> dirs. set (file_secs bpb xs)) R R'
     \<and> (\<forall>a \<in> A. \<forall>f. objs a = Some f \<longrightarrow> dir_slots R' bpb (in_chain (home a)) ! short_slot (home a)
         = synced f False (dir_slots R bpb (in_chain (home a)) ! short_slot (home a)))
     \<and> (\<forall>xs \<in> dirs. length (dir_slots R' bpb xs) = length (dir_slots R bpb xs)
         \<and> (\<forall>i. (\<forall>a \<in> A. (in_chain (home a), short_slot (home a)) \<noteq> (xs, i)) \<longrightarrow> dir_slots R' bpb xs ! i = dir_slots R bpb xs ! i))"

lemma stored_empty: "stored bpb objs home {} dirs R R"
  by (simp add: stored_def)

lemma stored_insert:
  assumes "stored bpb objs' home A dirs R1 R'" and "\<forall>b \<in> A. objs' b = objs b" and "objs a = Some f" and "in_chain (home a) \<in> dirs"
    and only: "only_secs (set (file_secs bpb (in_chain (home a)))) R R1"
    and S: "\<forall>xs \<in> dirs. dir_slots R1 bpb xs = (if xs = in_chain (home a)
        then (dir_slots R bpb xs)[short_slot (home a) := synced f False (dir_slots R bpb xs ! short_slot (home a))] else dir_slots R bpb xs)"
    and m: "short_slot (home a) < length (dir_slots R bpb (in_chain (home a)))"
    and new: "\<forall>b \<in> A. (in_chain (home b), short_slot (home b)) \<noteq> (in_chain (home a), short_slot (home a))" and A: "\<forall>b \<in> A. in_chain (home b) \<in> dirs"
  shows "stored bpb objs home (insert a A) dirs R R'"
proof -
  have "only_secs (\<Union>xs \<in> dirs. set (file_secs bpb xs)) R R1" using only by (rule only_secs_mono) (use assms(4) in auto)
  then have 1: "only_secs (\<Union>xs \<in> dirs. set (file_secs bpb xs)) R R'" using assms(1) only_secs_trans unfolding stored_def by blast
  have "dir_slots R' bpb (in_chain (home a)) ! short_slot (home a) = dir_slots R1 bpb (in_chain (home a)) ! short_slot (home a)"
    using assms(1,4) new unfolding stored_def by blast
  also have "\<dots> = synced f False (dir_slots R bpb (in_chain (home a)) ! short_slot (home a))" using S m assms(4) by simp
  finally have 2: "dir_slots R' bpb (in_chain (home a)) ! short_slot (home a)
      = synced f False (dir_slots R bpb (in_chain (home a)) ! short_slot (home a))" .
  have other: "dir_slots R1 bpb xs ! i = dir_slots R bpb xs ! i" if "xs \<in> dirs" "(in_chain (home a), short_slot (home a)) \<noteq> (xs, i)" for xs i
    using S that by (auto simp: nth_list_update)
  have 3: "dir_slots R' bpb (in_chain (home b)) ! short_slot (home b) = synced h False (dir_slots R bpb (in_chain (home b)) ! short_slot (home b))"
    if "b \<in> A" "objs b = Some h" for b h
    using assms(1,2) that other [of "in_chain (home b)" "short_slot (home b)"] new A unfolding stored_def by metis
  have 4: "length (dir_slots R' bpb xs) = length (dir_slots R bpb xs)" if "xs \<in> dirs" for xs
    using assms(1) S that unfolding stored_def by simp
  have 5: "dir_slots R' bpb xs ! i = dir_slots R bpb xs ! i"
    if "xs \<in> dirs" "\<forall>b \<in> insert a A. (in_chain (home b), short_slot (home b)) \<noteq> (xs, i)" for xs i
    using assms(1) that other [of xs i] unfolding stored_def by auto
  show ?thesis using 1 2 3 4 5 assms(3) unfolding stored_def by auto
qed

definition homes :: "lfd cache_mgr FAT32fs \<Rightarrow> (u32 \<Rightarrow> u32) \<Rightarrow> (u32 \<Rightarrow> bytes option) \<Rightarrow> (nat \<Rightarrow> home) \<Rightarrow> nat set \<Rightarrow> u32 list set \<Rightarrow> bool" where
  "homes st E R home A dirs \<longleftrightarrow> apart dirs \<and> (\<forall>xs \<in> dirs. \<exists>g. disk_dir (fs_fat st) E R g xs)
     \<and> (\<forall>a \<in> A. in_chain (home a) \<in> dirs \<and> (\<exists>f. fs_objs st a = Some f \<and> at_home (fs_fat st) E R f (home a)))
     \<and> (\<forall>a \<in> A. \<forall>b \<in> A. a \<noteq> b \<longrightarrow> (in_chain (home a), short_slot (home a)) \<noteq> (in_chain (home b), short_slot (home b)))"

lemma homes_dir: "homes st E R home A dirs \<Longrightarrow> xs \<in> dirs \<Longrightarrow> \<exists>g. disk_dir (fs_fat st) E R g xs"
  by (simp add: homes_def)

lemma destroy_all:
  assumes "fs_wf st (mset as)" and "cached st = []" and "distinct as" and "homes st E R home (set as) dirs" and "disk_fat (fs_fat st) E R"
  shows "\<exists>st' d R'. unshare_all disk_ops as st = Some st' \<and> fs_fat st' = (fs_fat st)\<lparr>F_device := d\<rparr> \<and> disk_fat (fs_fat st') E R'
    \<and> stored (F_bpb (fs_fat st)) (fs_objs st) home (set as) dirs R R'"
  using assms
proof (induction as arbitrary: st R)
  case (Cons a as)
  let ?F = "fs_fat st" and ?xs = "in_chain (home a)" and ?m = "short_slot (home a)"
  let ?S = "dir_slots R (F_bpb ?F) ?xs"
  obtain f where f: "fs_objs st a = Some f" "at_home ?F E R f (home a)" using Cons.prems(4) by (auto simp: homes_def)
  from destroy_at_home [OF f(2) refl] obtain d1 R1 where d1: "File_destroy disk_ops ?F f = Some (?F\<lparr>F_device := d1\<rparr>)"
      "disk_fat (?F\<lparr>F_device := d1\<rparr>) E R1" "only_secs (set (file_secs (F_bpb ?F) ?xs)) R R1"
      "dir_slots R1 (F_bpb ?F) ?xs = ?S[?m := synced f False (?S ! ?m)]" by blast
  obtain st1 where s1: "unshare disk_ops a st = Some st1" "fs_wf st1 (mset as)" "fs_fat st1 = ?F\<lparr>F_device := d1\<rparr>"
      "fs_objs st1 = (fs_objs st)(a := None)" "finds st1 = finds st"
    using unshare_last [OF _ _ _ f(1) d1(1), of "mset as"] Cons.prems(1-3) by auto
  have c: "cached st1 = []" using unshare_cache(1) [OF s1(1)] Cons.prems(2) by simp
  have xs: "?xs \<in> dirs" using Cons.prems(4) by (simp add: homes_def)
  have ap: "?xs = ys \<or> set ?xs \<inter> set ys = {}" if y: "ys \<in> dirs" for ys
    using Cons.prems(4) that by (auto simp: homes_def apart_def)
  have dirs: "disk_dir (fs_fat st1) E R1 g ys" if "disk_dir ?F E R g ys" for g ys
    using that d1(2,3) file_holds_only_secs [of ?F E R g ys] by (simp add: dir_ok_def s1(3))
  have slots: "\<forall>ys \<in> dirs. dir_slots R1 (F_bpb ?F) ys = (if ys = ?xs then (dir_slots R (F_bpb ?F) ys)[?m := synced f False (dir_slots R (F_bpb ?F) ys ! ?m)]
      else dir_slots R (F_bpb ?F) ys)"
  proof
    fix ys assume y: "ys \<in> dirs"
    obtain g' where g': "disk_dir ?F E R g' ys" using y Cons.prems(4) by (auto simp: homes_def)
    have g: "disk_dir ?F E R (in_dir (home a)) ?xs" using f(2) by (simp add: at_home_def)
    show "dir_slots R1 (F_bpb ?F) ys = (if ys = ?xs then (dir_slots R (F_bpb ?F) ys)[?m := synced f False (dir_slots R (F_bpb ?F) ys ! ?m)]
      else dir_slots R (F_bpb ?F) ys)"
      using d1(4) ap [OF y] slots_apart [OF Cons.prems(5) g g' _ d1(3)] by auto
  qed
  have ne: "(in_chain (home b), short_slot (home b)) \<noteq> (?xs, ?m)" if "b \<in> set as" for b
    using Cons.prems(3,4) that unfolding homes_def by (metis distinct.simps(2) list.set_intros)
  have "\<exists>f'. fs_objs st1 b = Some f' \<and> at_home (fs_fat st1) E R1 f' (home b)" if b: "b \<in> set as" for b
  proof -
    obtain f' where f': "fs_objs st b = Some f'" "at_home ?F E R f' (home b)" "in_chain (home b) \<in> dirs"
      using Cons.prems(4) b by (auto simp: homes_def)
    from home_kept [OF f(2) f'(2) ne [OF b] ap [OF f'(3)] d1(2,3,4)] f'(1) b Cons.prems(3) show ?thesis by (auto simp: s1(3,4))
  qed
  then have "homes st1 E R1 home (set as) dirs" using Cons.prems(4) dirs unfolding homes_def by (meson list.set_intros(2))
  from Cons.IH [OF s1(2) c _ this] Cons.prems(3) d1(2) s1(3) obtain st' d R' where s': "unshare_all disk_ops as st1 = Some st'"
      "fs_fat st' = ?F\<lparr>F_device := d\<rparr>" "disk_fat (fs_fat st') E R'" "stored (F_bpb ?F) (fs_objs st1) home (set as) dirs R1 R'" by auto
  have "stored (F_bpb ?F) (fs_objs st) home (insert a (set as)) dirs R R'"
    using stored_insert [where objs = "fs_objs st" and home = home and a = a, OF s'(4) _ f(1) xs d1(3) slots] ne Cons.prems(3,4) f(2) by (auto simp: s1(4) homes_def at_home_def Let_def)
  then show ?case using s1(1) s'(1-3) by auto
next
  case Nil
  then show ?case by (intro exI [of _ st] exI [of _ "F_device (fs_fat st)"] exI [of _ R]) (simp add: stored_empty)
qed

lemma flush_stores:
  assumes wf: "fs_wf st {#}" and homes: "homes st E R home {a. fs_objs st a \<noteq> None} dirs" and fat: "disk_fat (fs_fat st) E R"
  shows "\<exists>st' R'. flush disk_ops st = Some st' \<and> disk_fat (fs_fat st') E R'
    \<and> stored (F_bpb (fs_fat st)) (fs_objs st) home {a. fs_objs st a \<noteq> None} dirs R R'
    \<and> lfd_view (inner_device (F_device (fs_fat st'))) = disk_view (F_device (fs_fat st'))
    \<and> (\<exists>d. fs_fat st' = (fs_fat st)\<lparr>F_device := d\<rparr>)"
proof -
  obtain c dead where cl: "lru_clear (cached_lookup_files st) = (c, dead)" by fastforce
  have c: "lru_view c = []" "dead = map snd (cached st)" "lru_inv c" "max_size c = 20"
    using lru.clear_view lru.clear_dead lru.inv_kept(4) lru_max_size(4) cl wf
    by (metis fst_conv, metis snd_conv, metis fst_conv, metis fst_conv fs_wf_def)
  let ?st = "st\<lparr>cached_lookup_files := c\<rparr>"
  have w: "fs_wf ?st (mset dead)" using wf c by (simp add: fs_wf_def)
  have A: "{a. fs_objs st a \<noteq> None} = set dead" using fs_wf_idle(1) [OF wf] c(2) by auto
  have dis: "distinct dead" using fs_wf_idle(4) [OF wf] c(2) by simp
  obtain st1 d1 R1 where s1: "unshare_all disk_ops dead ?st = Some st1" "fs_fat st1 = (fs_fat st)\<lparr>F_device := d1\<rparr>" "disk_fat (fs_fat st1) E R1"
      "stored (F_bpb (fs_fat st)) (fs_objs st) home (set dead) dirs R R1"
    using destroy_all [of ?st dead E R home dirs] w c(1) dis homes fat unfolding A by (auto simp: homes_def)
  have g: "disk_good (F_device (fs_fat st1))" using s1(3) by (simp add: fat_holds_def)
  obtain d2 where d2: "cm_clear lfd_ops (F_device (fs_fat st1)) = Some d2" "disk_good d2"
      "lfd_view (inner_device d2) = disk_view (F_device (fs_fat st1))" "disk_view d2 = disk_view (F_device (fs_fat st1))"
    using lfd.cm_clear_flushes [OF g] by blast
  have "disk_fat ((fs_fat st1)\<lparr>F_device := d2\<rparr>) E R1" using s1(3) d2(2,4) by (simp add: fat_holds_def)
  moreover have "flush disk_ops st = Some (st1\<lparr>fs_fat := (fs_fat st1)\<lparr>F_device := d2\<rparr>\<rparr>)"
    using s1(1) d2(1) by (simp add: flush_def cl) (simp add: cm_ops_def)
  ultimately show ?thesis using s1(2,4) d2(3,4) unfolding A by (intro exI [of _ "st1\<lparr>fs_fat := (fs_fat st1)\<lparr>F_device := d2\<rparr>\<rparr>"] exI [of _ R1]) auto
qed

section \<open>Property\<close>

text \<open>C28: Flushing the file system succeeds and leaves no object, and then everything is in the image file: every copy of the
  FAT, the metadata of every object that was cached, in its own short entry and with no other entry of the
  directories changed, and what was in the clusters of every file, read from the image alone. (The entries
  of the objects begin in the first clusters of their directories.)\<close>

theorem flush_saves_the_files:
  assumes "fs_wf st {#}" and "homes st E R home {a. fs_objs st a \<noteq> None} dirs" and "disk_fat (fs_fat st) E R"
  shows "\<exists>st' V. flush disk_ops st = Some st' \<and> fs_objs st' = (\<lambda>_. None) \<and> V = lfd_view (inner_device (F_device (fs_fat st')))
    \<and> (\<forall>k < unat (BPB_num_fats (F_bpb (fs_fat st))). fat_tab V (F_bpb (fs_fat st)) k = E)
    \<and> stored (F_bpb (fs_fat st)) (fs_objs st) home {a. fs_objs st a \<noteq> None} dirs R (V |` (- fat_secs (F_bpb (fs_fat st))))
    \<and> (\<forall>f xs. file_holds (fs_fat st) E R f xs \<longrightarrow> (\<forall>ys \<in> dirs. set ys \<inter> set xs = {}) \<longrightarrow>
        file_content V (F_bpb (fs_fat st)) xs = file_content R (F_bpb (fs_fat st)) xs)"
proof -
  let ?bpb = "F_bpb (fs_fat st)"
  obtain st' R' d where s: "flush disk_ops st = Some st'" "disk_fat (fs_fat st') E R'" "fs_fat st' = (fs_fat st)\<lparr>F_device := d\<rparr>"
      "stored ?bpb (fs_objs st) home {a. fs_objs st a \<noteq> None} dirs R R'" "lfd_view (inner_device d) = disk_view d"
    using flush_stores [OF assms] by auto
  let ?V = "lfd_view (inner_device d)"
  have V: "\<forall>k < unat (BPB_num_fats ?bpb). fat_tab ?V ?bpb k = E" "?V |` (- fat_secs ?bpb) = R'"
    using s(2,3,5) by (simp_all add: fat_holds_def)
  have "file_content ?V ?bpb xs = file_content R ?bpb xs"
    if f: "file_holds (fs_fat st) E R f xs" and dis: "\<forall>ys \<in> dirs. set ys \<inter> set xs = {}" for f xs
  proof (rule content_dom_eq)
    fix n assume n: "n \<in> set (file_secs ?bpb xs)"
    have "n \<notin> set (file_secs ?bpb ys)" if y: "ys \<in> dirs" for ys
    proof -
      obtain g where g: "file_holds (fs_fat st) E R g ys" using homes_dir [OF assms(2) y] by (auto simp: dir_ok_def)
      have "set (file_secs ?bpb ys) \<inter> set (file_secs ?bpb xs) = {}"
        using f g dis y by (intro secs_apart [OF file_holds_facts(1) [OF assms(3) f] file_holds_facts(2) [OF assms(3) g] file_holds_facts(2) [OF assms(3) f]])
          (auto simp: file_holds_def)
      then show ?thesis using n by auto
    qed
    then have "R' n = R n" using s(4) by (auto simp: stored_def only_secs_def)
    moreover obtain b where "R n = Some b" using file_holds_facts(6) [OF assms(3) f n] by auto
    moreover have "?V n = Some b" if "R' n = Some b" for b using that unfolding V(2) [symmetric] by (simp add: restrict_map_def split: if_splits)
    ultimately show "?V n = R n" by simp
  qed
  then show ?thesis using s(1,3,4) V flush_empties(1) [OF assms(1) s(1)] by (intro exI [of _ st'] exI [of _ ?V]) simp
qed

text \<open>The demo file is cached and its entry on the disk is out of date.\<close>

theorem flush_saves_the_files_witness:
  "\<exists>st st' V. fs_objs st 0 = Some demo_entry \<and> flush disk_ops st = Some st' \<and> fs_objs st' = (\<lambda>_. None)
    \<and> V = lfd_view (inner_device (F_device (fs_fat st')))
    \<and> dir_slots (V |` (- fat_secs (F_bpb (fs_fat st)))) (F_bpb (fs_fat st)) [2] ! 1 = synced demo_entry False (demo_short [0x41])"
proof -
  obtain F E R g rest where d: "disk_dir F E R g [2]" "drop 0 (dir_slots R (F_bpb F) [2]) = [demo_long] @ demo_short [0x41] # rest"
      "lies_at demo_entry g (F_bpb F) 0" "file_holds F E R demo_entry []"
    using demo_entry_at by blast
  let ?st = "demo_fs\<lparr>fs_fat := F, fs_objs := [0 \<mapsto> demo_entry]\<rparr>" and ?home = "\<lambda>_ :: nat. \<lparr>in_dir = g, in_chain = [2], fst_slot = 0, short_slot = 1\<rparr>"
  have A: "{a. fs_objs ?st a \<noteq> None} = {0}" by auto
  have S: "dir_slots R (F_bpb F) [2] = demo_long # demo_short [0x41] # rest" using d(2) by simp
  have "at_home F E R demo_entry (?home 0)"
    using d(1,3,4) demo_entry_facts by (auto simp: at_home_def S Let_def)
  then have "homes ?st E R ?home {a. fs_objs ?st a \<noteq> None} {[2]}" using d(1) unfolding A by (auto simp: homes_def apart_def)
  moreover have "disk_fat (fs_fat ?st) E R" using d(1) by (simp add: dir_ok_def)
  ultimately obtain st' V where "flush disk_ops ?st = Some st'" "fs_objs st' = (\<lambda>_. None)" "V = lfd_view (inner_device (F_device (fs_fat st')))"
      "stored (F_bpb (fs_fat ?st)) (fs_objs ?st) ?home {a. fs_objs ?st a \<noteq> None} {[2]} R (V |` (- fat_secs (F_bpb (fs_fat ?st))))"
    using flush_saves_the_files [OF demo_entry_wf] by blast
  then show ?thesis by (intro exI [of _ ?st] exI [of _ st'] exI [of _ V]) (simp add: stored_def S)
qed

end
