(* ===== verification/UtilFuns.thy ===== *)
theory UtilFuns
  imports EntryReload NewFile
begin

text \<open>
  The rest of \<^verbatim>\<open>library/util.cpp\<close>: the conversions between character sets, which call \<open>iconv\<close> with a
  buffer of a fixed multiple of the source, the full path of a file, and the dump of an object.
  \<open>iconv\<close> is a parameter: the target and the source encoding, the source and the room in bytes; \<open>None\<close>
  is the result \<open>-1\<close>, for a source that cannot be converted, an encoding that is not known or a result
  that does not fit.
\<close>

section \<open>Character sets\<close>

datatype charset = GBK | UTF8 | UTF16LE

type_synonym iconv_fun = "charset \<Rightarrow> charset \<Rightarrow> bytes \<Rightarrow> nat \<Rightarrow> bytes option"

definition iconv_utf8ToGbk :: "iconv_fun \<Rightarrow> bytes \<Rightarrow> bytes option" where
  "iconv_utf8ToGbk iconv utf8_str =
     (let src_len = length utf8_str; dst_len = src_len * 2 in iconv GBK UTF8 utf8_str dst_len)"

definition iconv_gbkToUtf8 :: "iconv_fun \<Rightarrow> bytes \<Rightarrow> bytes option" where
  "iconv_gbkToUtf8 iconv gbk_str =
     (let src_len = length gbk_str; dst_len = src_len * 4 in iconv UTF8 GBK gbk_str dst_len)"

definition iconv_utf8ToUtf16 :: "iconv_fun \<Rightarrow> bytes \<Rightarrow> bytes option" where
  "iconv_utf8ToUtf16 iconv utf8_str =
     (let src_len = length utf8_str; dst_len = src_len * 2 in iconv UTF16LE UTF8 utf8_str dst_len)"

definition iconv_utf16ToUtf8 :: "iconv_fun \<Rightarrow> bytes \<Rightarrow> bytes option" where
  "iconv_utf16ToUtf8 iconv utf16_str =
     (let src_len = length utf16_str; dst_len = src_len * 2 in iconv UTF8 UTF16LE utf16_str dst_len)"

text \<open>The conversions the file system works with.\<close>

definition lib_conversions :: "iconv_fun \<Rightarrow> conversions" where
  "lib_conversions iconv = \<lparr>utf8ToGbk = iconv_utf8ToGbk iconv, gbkToUtf8 = iconv_gbkToUtf8 iconv,
     utf8ToUtf16 = iconv_utf8ToUtf16 iconv, utf16ToUtf8 = iconv_utf16ToUtf8 iconv\<rparr>"

section \<open>Paths\<close>

text \<open>\<open>get_current_dir_name\<close> is a parameter; its null pointer is an abort, and the first character of an
  empty path is undefined: both are \<open>None\<close>.\<close>

definition getFullPath :: "bytes option \<Rightarrow> bytes \<Rightarrow> bytes option" where
  "getFullPath cwd file_path =
     (case file_path of
        [] \<Rightarrow> None
      | c # _ \<Rightarrow>
          if c = 0x2F then Some file_path
          else do { cur_dir_name \<leftarrow> cwd; Some (takeWhile (\<lambda>ch. ch \<noteq> 0) cur_dir_name @ [0x2F] @ file_path) })"

section \<open>Dumping an object\<close>

text \<open>The characters printed, as bytes.\<close>

definition hex_digit :: "u8 \<Rightarrow> u8" where
  "hex_digit d = (if d < 10 then 0x30 + d else 0x57 + d)"

definition printf_02x :: "u8 \<Rightarrow> bytes" where
  "printf_02x b = [hex_digit (drop_bit 4 b), hex_digit (b AND 15)]"

fun dump_loop :: "bytes \<Rightarrow> nat \<Rightarrow> bool \<Rightarrow> bytes" where
  "dump_loop [] i last_change_line = (if last_change_line then [] else [0x0A])"
| "dump_loop (b # bs) i last_change_line =
     printf_02x b @ (if i mod 16 = 0 \<and> i \<noteq> 0 then 0x0A # dump_loop bs (i + 1) True
                     else 0x20 # dump_loop bs (i + 1) False)"

definition dumpObj :: "bytes \<Rightarrow> bytes" where
  "dumpObj stuff = dump_loop stuff 0 False"

text \<open>The first line has 17 bytes, as the line ends behind a number that is a multiple of 16.\<close>

lemma dumpObj_first_line: "dumpObj (replicate 18 0) = concat (replicate 16 [0x30, 0x30, 0x20]) @ [0x30, 0x30, 0x0A, 0x30, 0x30, 0x20, 0x0A]"
  by code_simp

section \<open>Unicode text\<close>

text \<open>A text is a list of Unicode scalar values; its two encodings as the standard has them.\<close>

definition scalar :: "nat \<Rightarrow> bool" where
  "scalar c \<longleftrightarrow> c < 0xD800 \<or> 0xE000 \<le> c \<and> c < 0x110000"

definition utf8_chr :: "nat \<Rightarrow> bytes" where
  "utf8_chr c = map of_nat
     (if c < 0x80 then [c]
      else if c < 0x800 then [0xC0 + c div 64, 0x80 + c mod 64]
      else if c < 0x10000 then [0xE0 + c div 4096, 0x80 + c div 64 mod 64, 0x80 + c mod 64]
      else [0xF0 + c div 262144, 0x80 + c div 4096 mod 64, 0x80 + c div 64 mod 64, 0x80 + c mod 64])"

definition utf16_unit :: "nat \<Rightarrow> bytes" where
  "utf16_unit u = [of_nat (u mod 256), of_nat (u div 256)]"

definition utf16_chr :: "nat \<Rightarrow> bytes" where
  "utf16_chr c =
     (if c < 0x10000 then utf16_unit c
      else utf16_unit (0xD800 + (c - 0x10000) div 1024) @ utf16_unit (0xDC00 + (c - 0x10000) mod 1024))"

definition utf8_text :: "nat list \<Rightarrow> bytes" where
  "utf8_text cs = concat (map utf8_chr cs)"

definition utf16_text :: "nat list \<Rightarrow> bytes" where
  "utf16_text cs = concat (map utf16_chr cs)"

text \<open>The buffers are large enough for every text.\<close>

lemma text_lengths:
  "length (utf16_text cs) \<le> length (utf8_text cs) * 2" "length (utf8_text cs) \<le> length (utf16_text cs) * 2"
  by (induction cs) (auto simp: utf16_text_def utf8_text_def utf8_chr_def utf16_chr_def utf16_unit_def)

text \<open>No code unit ends a long name early, but for the two characters that are such units.\<close>

lemma unit_ok:
  assumes "0 < u" and "u < 0xFFFF"
  shows "units_ok (utf16_unit u)"
proof -
  have n: "unat (of_nat (u mod 256) :: u8) = u mod 256" "unat (of_nat (u div 256) :: u8) = u div 256"
    using assms(2) by (intro unat_of_nat_lt, simp add: div_less_iff_less_mult)+
  have "u mod 256 = 0 \<and> u div 256 = 0 \<Longrightarrow> False" using assms(1) by (metis div_mult_mod_eq mult_0 add_0 less_irrefl)
  moreover have "u mod 256 = 255 \<and> u div 256 = 255 \<Longrightarrow> False" using assms(2) div_mult_mod_eq [of u 256] by simp
  ultimately show ?thesis by (simp only: utf16_unit_def units_ok.simps word_unat_eq_iff n) (use assms(1) in auto)
qed

lemma units_ok_append: "units_ok xs \<Longrightarrow> units_ok ys \<Longrightarrow> units_ok (xs @ ys)"
  by (induction xs rule: units_ok.induct) auto

lemma utf16_chr_ok:
  assumes "scalar c" and "c \<noteq> 0" and "c \<noteq> 0xFFFF"
  shows "units_ok (utf16_chr c)"
proof -
  show ?thesis
  proof (cases "c < 0x10000")
    case False
    then have "(c - 0x10000) div 1024 < 1024" using assms(1) by (simp add: scalar_def div_less_iff_less_mult)
    moreover have "(c - 0x10000) mod 1024 < 1024" by simp
    ultimately show ?thesis using False by (simp add: utf16_chr_def units_ok_append unit_ok)
  qed (use assms(2,3) in \<open>simp add: utf16_chr_def unit_ok\<close>)
qed

lemma utf16_text_ok: "\<forall>c \<in> set cs. scalar c \<and> c \<noteq> 0 \<and> c \<noteq> 0xFFFF \<Longrightarrow> units_ok (utf16_text cs)"
  by (induction cs) (simp_all add: utf16_text_def units_ok_append utf16_chr_ok)

text \<open>What \<open>iconv\<close> promises for a text: its encoding, if there is room for it.\<close>

definition converts :: "iconv_fun \<Rightarrow> nat list \<Rightarrow> bool" where
  "converts iconv cs \<longleftrightarrow>
     (\<forall>n \<ge> length (utf16_text cs). iconv UTF16LE UTF8 (utf8_text cs) n = Some (utf16_text cs))
     \<and> (\<forall>n \<ge> length (utf8_text cs). iconv UTF8 UTF16LE (utf16_text cs) n = Some (utf8_text cs))"

lemma lib_conversions_text:
  assumes "converts iconv cs"
  shows "utf8ToUtf16 (lib_conversions iconv) (utf8_text cs) = Some (utf16_text cs)"
    and "utf16ToUtf8 (lib_conversions iconv) (utf16_text cs) = Some (utf8_text cs)"
  using assms text_lengths [of cs] by (simp_all add: lib_conversions_def iconv_utf8ToUtf16_def iconv_utf16ToUtf8_def converts_def Let_def)

section \<open>Properties\<close>

text \<open>C32: A name in any script survives being stored. The buffers the conversions give \<open>iconv\<close> are large
  enough for every text; the name becomes the units the long entries are made from, and the long
  entries of a file give back the name in UTF-8. Only the characters 0 and 0xFFFF, whose units end a
  long name, are excluded.\<close>

theorem unicode_name_round_trip:
  assumes "converts iconv cs" and "cs \<noteq> []" and "\<forall>c \<in> set cs. scalar c \<and> c \<noteq> 0 \<and> c \<noteq> 0xFFFF"
    and "length (utf16_text cs) \<le> 510" and "n = (length (utf16_text cs) - 1) div 26 + 1"
  shows "\<exists>u. utf8ToUtf16 (lib_conversions iconv) (utf8_text cs) = Some u \<and> units_ok u \<and> u \<noteq> []
    \<and> required_entries u = of_nat (Suc n) \<and> stored_name (lib_conversions iconv) (new_long n crc u) e = Some (utf8_text cs)"
proof -
  let ?u = "utf16_text cs"
  have u: "?u \<noteq> []" using assms(2) by (cases cs) (simp_all add: utf16_text_def utf16_chr_def utf16_unit_def)
  have ok: "units_ok ?u" by (rule utf16_text_ok [OF assms(3)])
  have "required_entries ?u = of_nat (Suc n)" unfolding assms(5) by (rule required_entries_nat [OF u]) (use assms(4) in simp)
  moreover have "long_name (new_long n crc ?u) = ?u" using assms(4) by (intro long_name_new [OF ok u _ assms(5)]) simp
  moreover have "new_long n crc ?u \<noteq> []" using assms(5) by (metis Suc_eq_plus1 length_0_conv length_new_long nat.distinct(1))
  ultimately show ?thesis using u ok lib_conversions_text [OF assms(1)] by (intro exI [of _ ?u]) (simp add: stored_name_def)
qed

text \<open>A name of the two characters U+9F8D and U+1F409, with an \<open>iconv\<close> that knows it.\<close>

definition demo_text :: "nat list" where
  "demo_text = [0x9F8D, 0x1F409]"

definition demo_iconv :: iconv_fun where
  "demo_iconv to from src n =
     (if to = UTF16LE \<and> from = UTF8 \<and> src = utf8_text demo_text \<and> length (utf16_text demo_text) \<le> n
      then Some (utf16_text demo_text)
      else if to = UTF8 \<and> from = UTF16LE \<and> src = utf16_text demo_text \<and> length (utf8_text demo_text) \<le> n
      then Some (utf8_text demo_text) else None)"

theorem unicode_name_round_trip_witness:
  "\<exists>u. utf8ToUtf16 (lib_conversions demo_iconv) (utf8_text demo_text) = Some u
    \<and> stored_name (lib_conversions demo_iconv) (new_long 1 0 u) zero_entry = Some (utf8_text demo_text)"
proof -
  have "converts demo_iconv demo_text" unfolding converts_def demo_iconv_def by (intro conjI allI impI) simp_all
  moreover have "\<forall>c \<in> set demo_text. scalar c \<and> c \<noteq> 0 \<and> c \<noteq> 0xFFFF" by (simp add: scalar_def demo_text_def)
  moreover have len: "length (utf16_text demo_text) = 6" by (simp add: utf16_text_def utf16_chr_def utf16_unit_def demo_text_def)
  then have "length (utf16_text demo_text) \<le> 510" "1 = (length (utf16_text demo_text) - 1) div 26 + 1" by simp_all
  moreover have "demo_text \<noteq> []" by (simp add: demo_text_def)
  ultimately obtain u where "utf8ToUtf16 (lib_conversions demo_iconv) (utf8_text demo_text) = Some u"
      "stored_name (lib_conversions demo_iconv) (new_long 1 0 u) zero_entry = Some (utf8_text demo_text)"
    using unicode_name_round_trip [of demo_iconv demo_text 1 0 zero_entry] by blast
  then show ?thesis by blast
qed

end
