(* ===== verification/Program.thy ===== *)
theory Program
  imports FsProps UtilFuns
begin

text \<open>
  The function \<open>main\<close> of \<^verbatim>\<open>programs/fat32_fuse.cpp\<close>, and the handlers and methods no request reaches.
  The parser of the command line and libfuse are not part of the repository: the options are an argument,
  and so is what every call into libfuse returns. The calls made are recorded in their order.
\<close>

section \<open>Handlers and methods that are not used\<close>

definition fat32_release :: "u64 \<Rightarrow> 'd FAT32fs \<Rightarrow> (reply \<times> 'd FAT32fs) option" where
  "fat32_release n st = Some (Reply_err Success, closeFile n st)"

definition fat32_releasedir :: "'d device_ops \<Rightarrow> env \<Rightarrow> u64 \<Rightarrow> 'd FAT32fs \<Rightarrow> (reply \<times> 'd FAT32fs) option" where
  "fat32_releasedir D en n st =
     do { (a, st1) \<leftarrow> getExistFile D en n st;
          target \<leftarrow> fs_objs st1 a;
          if \<not> isDir target then do { st2 \<leftarrow> unshare D a st1; Some (Reply_err ENOTDIR, st2) }
          else do { st2 \<leftarrow> unshare D a (closeFile n st1); Some (Reply_err Success, st2) } }"

text \<open>\<open>mkfs\<close> makes nothing; \<open>openFile\<close> and \<open>getDirByName\<close> fail on \<open>assert(false)\<close>.\<close>

definition mkfs :: "'d \<Rightarrow> 'd FAT32fs option" where
  "mkfs device = None"

definition openFile :: "u64 \<Rightarrow> 'd FAT32fs \<Rightarrow> (nat option \<times> 'd FAT32fs) option" where
  "openFile n st = None"

definition getDirByName :: "bytes \<Rightarrow> 'd FAT32fs \<Rightarrow> (nat option \<times> 'd FAT32fs) option" where
  "getDirByName nm st = None"

section \<open>The program\<close>

record options =
  opt_debug :: bool
  opt_foreground :: bool
  opt_device_path :: bytes
  opt_mountpoint :: bytes

datatype libcall =
    Session_new "bytes list"
  | Set_signal_handlers
  | Session_mount bytes
  | Daemonize bool
  | Session_loop
  | Session_unmount
  | Remove_signal_handlers
  | Session_destroy

text \<open>What libfuse returns; \<open>session_new_ok\<close> is whether \<open>fuse_session_new\<close> gives a session.\<close>

record libfuse =
  session_new_ok :: bool
  set_signal_handlers :: int
  session_mount :: int
  session_loop :: int

text \<open>The regular files there are, with their length and bytes.\<close>

type_synonym files = "bytes \<Rightarrow> (nat \<times> (nat \<Rightarrow> u8)) option"

record run =
  exit_code :: int
  fuse_calls :: "libcall list"
  served :: "(reply list \<times> lfd cache_mgr FAT32fs) option"

definition main_arguments :: "bytes \<Rightarrow> options \<Rightarrow> bytes list" where
  "main_arguments argv0 opts = argv0 # (if opt_debug opts then [[0x2D, 0x64]] else [])"

text \<open>\<open>ret\<close> is \<open>-1\<close> until the loop has set it. An invalid boot sector is \<open>exit(1)\<close> inside \<open>FAT32fs::from\<close>.\<close>

definition main :: "libfuse \<Rightarrow> env \<Rightarrow> bytes option \<Rightarrow> files \<Rightarrow> bytes \<Rightarrow> options \<Rightarrow> (timespec \<times> request) list \<Rightarrow> run option" where
  "main lf en cwd files argv0 opts reqs =
     do { mountpoint \<leftarrow> getFullPath cwd (opt_mountpoint opts);
          device_path \<leftarrow> getFullPath cwd (opt_device_path opts);
          let exit = (\<lambda>ret calls r. Some \<lparr>exit_code = if ret \<noteq> 0 then 1 else 0, fuse_calls = calls, served = r\<rparr>);
          let c1 = [Session_new (main_arguments argv0 opts)];
          if \<not> session_new_ok lf then exit (-1) c1 None
          else if set_signal_handlers lf \<noteq> 0 then exit (-1) (c1 @ [Set_signal_handlers, Session_destroy]) None
          else if session_mount lf \<noteq> 0
          then exit (-1) (c1 @ [Set_signal_handlers, Session_mount mountpoint, Remove_signal_handlers, Session_destroy]) None
          else do { (len, bs) \<leftarrow> files device_path;
                    let real_device = LinuxFileDriver_new len bs (of_nat SECTOR_SIZE);
                    let cache_mgr = CacheManager_new real_device CACHED_SECTOR_NUM;
                    r \<leftarrow> session (cm_ops lfd_ops) en cache_mgr reqs;
                    (case r of
                       Inl _ \<Rightarrow> exit 1 (c1 @ [Set_signal_handlers, Session_mount mountpoint]) None
                     | Inr s \<Rightarrow> exit (session_loop lf) (c1 @ [Set_signal_handlers, Session_mount mountpoint,
                         Daemonize (opt_foreground opts), Session_loop, Session_unmount, Remove_signal_handlers, Session_destroy])
                         (Some s)) } }"

section \<open>What is set up and torn down\<close>

text \<open>The stack of what is set up: a teardown must be that of the last set-up, else the result is \<open>None\<close>.\<close>

fun outstanding :: "libfuse \<Rightarrow> libcall list \<Rightarrow> libcall list \<Rightarrow> libcall list option" where
  "outstanding lf up [] = Some up"
| "outstanding lf up (Session_new args # cs) = outstanding lf (if session_new_ok lf then Session_destroy # up else up) cs"
| "outstanding lf up (Set_signal_handlers # cs) =
     outstanding lf (if set_signal_handlers lf = 0 then Remove_signal_handlers # up else up) cs"
| "outstanding lf up (Session_mount p # cs) = outstanding lf (if session_mount lf = 0 then Session_unmount # up else up) cs"
| "outstanding lf up (Daemonize b # cs) = outstanding lf up cs"
| "outstanding lf up (Session_loop # cs) = outstanding lf up cs"
| "outstanding lf up (c # cs) = (case up of [] \<Rightarrow> None | u # us \<Rightarrow> if c = u then outstanding lf us cs else None)"

text \<open>The paths are absolute, so they still hold when \<open>fuse_daemonize\<close> has changed the directory.\<close>

lemma getFullPath_absolute: "getFullPath cwd p = Some q \<Longrightarrow> \<forall>d. cwd = Some d \<longrightarrow> d \<noteq> [] \<and> hd d = 0x2F \<Longrightarrow> q \<noteq> [] \<and> hd q = 0x2F"
  by (cases p; cases cwd) (auto simp: getFullPath_def neq_Nil_conv split: if_splits)

section \<open>Properties\<close>

text \<open>C10: However the program ends, unless it is aborted, it exits with 0 exactly when it has served the requests and the
  loop of libfuse ended without an error, and what it has set up it has torn down, last first, whichever step of the
  set-up failed. The one exception is a volume with an invalid boot sector, which is found out only when the
  file system is mounted: the program then exits and leaves the mount point, the signal handlers and the session
  behind. When it has served the requests, no file object is left.\<close>

theorem program_ends_in_order:
  assumes "main lf en cwd files argv0 opts reqs = Some r"
  shows "outstanding lf [] (fuse_calls r) = Some (if served r = None \<and> session_new_ok lf \<and> set_signal_handlers lf = 0 \<and> session_mount lf = 0
      then [Session_unmount, Remove_signal_handlers, Session_destroy] else [])
    \<and> (exit_code r = 0 \<longleftrightarrow> served r \<noteq> None \<and> session_loop lf = 0)
    \<and> (\<forall>replies st. served r = Some (replies, st) \<longrightarrow> fs_objs st = (\<lambda>_. None))"
proof -
  have s: "fs_objs st = (\<lambda>_. None)" if "session disk_ops en d reqs = Some (Inr (replies, st))" for d replies st
    using session_destroys_every_object [OF that] by simp
  obtain mp dp where p: "getFullPath cwd (opt_mountpoint opts) = Some mp" "getFullPath cwd (opt_device_path opts) = Some dp"
    using assms by (auto simp: main_def bind_eq_Some_conv)
  show ?thesis
  proof (cases "session_new_ok lf \<and> set_signal_handlers lf = 0 \<and> session_mount lf = 0")
    case False
    with assms p show ?thesis by (auto simp: main_def Let_def split: if_splits)
  next
    case True
    with assms p obtain len bs x where x: "session disk_ops en (mount_disk len bs) reqs = Some x"
      and r: "(case x of
          Inl _ \<Rightarrow> Some \<lparr>exit_code = 1, fuse_calls = [Session_new (main_arguments argv0 opts), Set_signal_handlers, Session_mount mp], served = None\<rparr>
        | Inr s \<Rightarrow> Some \<lparr>exit_code = if session_loop lf \<noteq> 0 then 1 else 0,
            fuse_calls = [Session_new (main_arguments argv0 opts), Set_signal_handlers, Session_mount mp,
              Daemonize (opt_foreground opts), Session_loop, Session_unmount, Remove_signal_handlers, Session_destroy], served = Some s\<rparr>) = Some r"
      by (auto simp: main_def Let_def bind_eq_Some_conv mount_disk_def)
    show ?thesis
    proof (cases x)
      case (Inl u)
      with r True show ?thesis by (auto split: if_splits)
    next
      case (Inr p)
      then obtain replies st where "x = Inr (replies, st)" by (cases p) auto
      with r True s [of _ replies st] x show ?thesis by (auto split: if_splits)
    qed
  qed
qed

text \<open>The big volume, with its path given relative to the current directory.\<close>

definition demo_options :: options where
  "demo_options = \<lparr>opt_debug = True, opt_foreground = True, opt_device_path = [0x64], opt_mountpoint = [0x2F, 0x6D]\<rparr>"

definition demo_libfuse :: libfuse where
  "demo_libfuse = \<lparr>session_new_ok = True, set_signal_handlers = 0, session_mount = 0, session_loop = 0\<rparr>"

theorem program_ends_in_order_witness:
  "\<exists>r st. main demo_libfuse demo_env (Some [0x2F]) [[0x2F, 0x2F, 0x64] \<mapsto> (big_len, big_byte)] [0x66] demo_options
      [(demo_now, Opendir_req 1), (demo_now, Mknod_req)] = Some r
    \<and> exit_code r = 0 \<and> served r = Some ([Reply_open, Reply_err EPERM], st) \<and> outstanding demo_libfuse [] (fuse_calls r) = Some []
    \<and> fs_objs st = (\<lambda>_. None)"
proof -
  obtain st where s: "session disk_ops demo_env (mount_disk big_len big_byte) [(demo_now, Opendir_req 1), (demo_now, Mknod_req)]
      = Some (Inr ([Reply_open, Reply_err EPERM], st))"
    using big_session by blast
  obtain r where r: "main demo_libfuse demo_env (Some [0x2F]) [[0x2F, 0x2F, 0x64] \<mapsto> (big_len, big_byte)] [0x66] demo_options
      [(demo_now, Opendir_req 1), (demo_now, Mknod_req)] = Some r" "served r = Some ([Reply_open, Reply_err EPERM], st)"
    using s by (simp add: main_def Let_def getFullPath_def demo_libfuse_def demo_options_def mount_disk_def)
  from program_ends_in_order [OF r(1)] r show ?thesis by (auto simp: demo_libfuse_def)
qed

end
