(* ===== verification/Spec2Isabelle.thy ===== *)
theory Spec2Isabelle
  imports Move Lookup Unmount Program
begin

text \<open>
  A FUSE driver for FAT32 volumes, and what makes it correct.

  The program serves a FAT32 image to the kernel. Below is its structure from the bottom up, with the
  theories that model each part (\<^verbatim>\<open>library/\<close> and \<^verbatim>\<open>programs/\<close> are directories of \<^verbatim>\<open>src/\<close>; a definition
  has the name of the C++ function or type, made unique where HOL or another class has it too).

  \<^item> \<open>Prelude\<close>: bytes, little-endian fields of byte lists, \<open>ensure\<close> for an assertion, lemmas on
    machine words.
  \<^item> \<open>LruCache\<close>: \<open>LRUCacheMap\<close> of \<^verbatim>\<open>library/util.h\<close>, a list of pairs and a map from keys to list nodes.
    Operations also return the values they drop, as dropping one runs a destructor.
  \<^item> \<open>Device\<close>: \<^verbatim>\<open>library/device.h\<close> and \<^verbatim>\<open>device.cpp\<close>. A sector is a buffer with a dirty flag, \<open>lfd\<close> the
    file driver over the bytes of an image file, \<open>cache_mgr\<close> the cache of sectors over any device.
    \<open>device_ops\<close> is the abstract class \<open>Device\<close>; the locale \<open>block_device\<close> is its contract (an array of
    sectors), \<open>raw_device\<close> that of a driver without cache, which the cache turns into \<open>block_device\<close>
    (a sublocale); the interpretation \<open>lfd\<close> is the file driver.
  \<^item> \<open>Fat32Layout\<close>, \<open>Fat32Names\<close>, \<open>Fat32Time\<close>: the free functions of \<^verbatim>\<open>library/fat32.h\<close> and
    \<^verbatim>\<open>fat32.cpp\<close> on the boot sector, \<open>FSInfo\<close>, FAT and directory entries, names, time stamps.
  \<^item> \<open>FatTable\<close>, \<open>FatCorrect\<close>: the class \<open>FAT\<close>: chains of clusters, allocation, release, resizing.
  \<^item> \<open>FsFile\<close>, \<open>FsDirectory\<close>: the classes \<open>File\<close> and \<open>Directory\<close> of \<^verbatim>\<open>library/fs.h\<close> and \<^verbatim>\<open>fs.cpp\<close>, as
    far as they work on one object and the disk. \<open>fobj\<close> is the record of their data members.
  \<^item> \<open>FileSystem\<close>: the class \<open>FAT32fs\<close> and the methods that use the cache of file objects.
    Shared pointers are addresses: \<open>fs_objs\<close> holds the live objects, \<open>fs_refs\<close> counts the pointers, and
    an object whose count reaches zero runs its destructor, which writes to the disk.
  \<^item> \<open>UtilFuns\<close>: the conversions between character sets, paths and the dump of \<^verbatim>\<open>library/util.cpp\<close>. The
    models of names and directories take conversions as an argument; \<open>lib_conversions\<close> are those of the code.
  \<^item> \<open>Fuse\<close>, \<open>Session\<close>: the request handlers of \<^verbatim>\<open>programs/fat32_fuse.cpp\<close>, the table that dispatches
    to them, and a session: mount, serve, flush. \<open>Program\<close>: \<open>main\<close>, which puts a session between what it
    sets up and tears down in libfuse, and the handlers and methods that nothing calls.

  State is passed explicitly. \<open>None\<close> is an abort: a failed assertion, an access outside a buffer, the
  value of an empty optional, an exception out of a \<open>noexcept\<close> function, or a loop that does not end.
  Results the code itself reports as failures are values. Integers are words of their width and wrap as
  in the code. Loops that may not end are \<open>partial_function (option)\<close>; that they do end is part of the
  lemmas about them, so no fuel is needed. Every other loop is a function with a measure.

  What the theorems show, with the theories that hold them:

  \<^item> \<open>Device\<close>: any history of sector reads, writes, syncs and flushes through the cache is that of an
    array of sectors, and a flush leaves it in the image. \<open>LruCache\<close>: the container refines a list in
    order of recency and stays bounded and linked.
  \<^item> \<open>Fat32Layout\<close>, \<open>Fat32Names\<close>, \<open>Fat32Time\<close>: entries round-trip, clusters and FAT entries do not
    overlap, long and short names and time stamps survive being stored.
  \<^item> \<open>FatCorrect\<close>: the state of a FAT object is a table from clusters to entries, the same in every
    copy on the disk; reading, allocating, freeing and resizing chains are stated on the table.
  \<^item> \<open>FileLayout\<close>, \<open>FileCorrect\<close>, \<open>FileResize\<close>, \<open>FileData\<close>, \<open>FileSync\<close>: a file is the bytes of the sectors
    of its chain. \<open>FileProps\<close>: histories of reads and writes refine a sequence of bytes beside the number of
    free clusters, other files keep their bytes, truncating keeps what both sizes share.
  \<^item> \<open>DirListing\<close>, \<open>DirItems\<close>, \<open>DirWrite\<close>, \<open>DirDelete\<close>: a directory is the list of its 32-byte slots, and
    that is a list of files and deleted entries. \<open>DirProps\<close>: searching, listing, testing for emptiness and
    deleting do what they should on that list.
  \<^item> \<open>DirCreate\<close>, \<open>DirMake\<close>: finding free slots, growing a directory and writing the entries of a new file.
    \<open>NewFile\<close>: these entries read back as a file with the name. \<open>BadName\<close>: they do not when a blank inside the
    8.3 name changes the check sum of what is read. \<open>CreateProps\<close>: creating adds just the file to the list, which is then found. \<open>MkDir\<close>: making a
    directory does that for its name and gives it a cluster with the two dot entries.
  \<^item> \<open>EntrySync\<close>, \<open>EntryReload\<close>: finding the short entry of an open file, storing its metadata there, and
    making the object from its inode number. \<open>EntryProps\<close>: storing and then reloading gives the object back;
    where the metadata goes for entries far from the start of a directory, and what \<open>fsync\<close> does.
  \<^item> \<open>Rename\<close>: removing the entries and the clusters of a file, and what exchanging metadata and removing the
    old file make of a directory when a file is renamed in it.
  \<^item> \<open>FsRefs\<close>: every operation and handler, whatever it returns, keeps the objects, their counts and the
    cache in agreement (\<open>fs_wf\<close>); by weakest preconditions, \<open>post\<close>. \<open>FsProps\<close>: mounting, sound objects after
    any requests and none left after the end. \<open>CacheSteps\<close>: the steps of a handler on cached objects, run
    forward. \<open>Requests\<close>: histories of requests on several files refine a map from inode numbers to sequences of
    bytes with a common supply of clusters. \<open>Unlink\<close>: removing a file or an empty directory by a request, from the
    listing to the cache, and the requests that are refused. \<open>Create\<close>: a new file by a request, which is then one of
    the files of the volume. \<open>Move\<close>: a file gets a new name in its directory by a request. \<open>Lookup\<close>: a file on
    the disk is opened by a request and is then one of the files of the volume. \<open>Unmount\<close>: a flush brings the metadata
    of all open files, the FATs and the clusters of every file into the image. \<open>Program\<close>: whichever way \<open>main\<close> ends,
    what was set up is torn down, but on an invalid volume, and no object is left after serving.
  \<^item> \<open>UtilFuns\<close>: the buffers of the conversions suffice, so a name in any script survives being stored.

  Bounds in the theorems: a boot sector with the geometry \<open>geometry_ok\<close> (512-byte sectors, the volume as
  large as it says, FATs that cover the clusters), a directory below 4 GiB, writes that end below 4 GiB, and for
  allocation that \<open>FSInfo\<close> does not name a free count, as the code takes that count for a cluster number.
  The witnesses use a small volume of 256 clusters and, to be mounted, one of 65532.

  Several theorems state what the code does where it does not do what it should: stale data behind a
  shortened file, an abort on an empty write, entries listed from behind the end of a directory, the count
  in \<open>FSInfo\<close> handed out as a cluster, aliased sectors above 4 GiB, names with lead byte 0xE5 or with blanks,
  metadata stored outside the directory, the inverted flag of \<open>fsync\<close>, a mount point left behind.

  Parameters: iconv, \<open>mktime\<close>, the layout of a directory record and the results of the calls into libfuse, the
  options read from the command line, the current directory, the image files there are, and the clock, which
  an operation reads once. What a property needs of them is a hypothesis by name (\<open>converts\<close> for iconv: a text
  is given its standard encoding when there is room), and its witness has an instance.

  Not modelled: ioctl on block devices and failing system calls; the parsers of the command line and of the
  options of libfuse; \<open>format_string\<close>, which nothing calls; empty handlers; functions without a body
  (\<open>makeFat32BPB\<close> and others). Of the use of iterators after their element is erased in \<open>LRUCacheMap\<close> the model
  takes the outcome the compiled code has. Renaming across directories, and of a directory, is modelled, but of
  what it leaves on the disk only the soundness of the objects is proved; making a directory is treated when
  there is room.
\<close>

end
